(* ===== verification/Flax_Prelude.thy ===== *)
theory Flax_Prelude
  imports Main "HOL-Library.Word" "HOL-Library.Monad_Syntax"
begin

text \<open>
  Shared vocabulary of the development: the fixed-width integer types of the C sources,
  the reading of a kernel assertion as a partial computation, the unit macros of
  \<open>nvmev.h\<close>, \<open>csd_slm.h\<close> and \<open>csd_dispatcher.h\<close>, and the generic facts
  on options, arrays and words that the component theories use.

  A computation of type \<open>'a option\<close> is one that may hit a \<open>BUG_ON\<close> or an
  access outside the object it indexes: both stop the C program at that point, and both are
  \<open>None\<close> here. An error that the code reports to its caller is never \<open>None\<close>
  but a value.
\<close>

section \<open>Machine integers\<close>

type_synonym u8 = "8 word"
type_synonym u16 = "16 word"
type_synonym u32 = "32 word"
type_synonym u64 = "64 word"

named_theorems flax_defs \<open>definitions of one-line accessors and macros\<close>
named_theorems frame \<open>fields an operation leaves alone\<close>

section \<open>Assertions\<close>

definition NVMEV_ASSERT :: "bool \<Rightarrow> unit option" where
  "NVMEV_ASSERT x = (if x then Some () else None)"

lemma NVMEV_ASSERT_bind [simp]:
  "Option.bind (NVMEV_ASSERT b) f = (if b then f () else None)"
  by (simp add: NVMEV_ASSERT_def)

lemma NVMEV_ASSERT_Some [simp]: "NVMEV_ASSERT b = Some u \<longleftrightarrow> b"
  by (simp add: NVMEV_ASSERT_def)

section \<open>Unit macros\<close>

definition KB :: "u64 \<Rightarrow> u64" where
  "KB k = k * 1024"

definition MB :: "u64 \<Rightarrow> u64" where
  "MB m = KB (m * 1024)"

definition LBA_TO_BYTE :: "u64 \<Rightarrow> u64" where
  "LBA_TO_BYTE lba = push_bit 9 lba"

definition BYTE_TO_LBA :: "u64 \<Rightarrow> u64" where
  "BYTE_TO_LBA byte = drop_bit 9 byte"

definition DIV_ROUND_UP :: "u64 \<Rightarrow> u64 \<Rightarrow> u64" where
  "DIV_ROUND_UP n d = (n + d - 1) div d"

lemmas unit_macros [flax_defs] = KB_def MB_def LBA_TO_BYTE_def BYTE_TO_LBA_def DIV_ROUND_UP_def

section \<open>Loops that may stop\<close>

text \<open>A loop over a list of indices whose body may fault.\<close>

fun foldM :: "('a \<Rightarrow> 's \<Rightarrow> 's option) \<Rightarrow> 'a list \<Rightarrow> 's \<Rightarrow> 's option" where
  "foldM f [] s = Some s"
| "foldM f (x # xs) s = Option.bind (f x s) (foldM f xs)"

lemma foldM_append: "foldM f (xs @ ys) s = Option.bind (foldM f xs s) (foldM f ys)"
  by (induction xs arbitrary: s) (auto split: Option.bind_splits)

text \<open>The loop rule: an invariant that also counts the elements done.\<close>

lemma foldM_invariant:
  assumes "foldM f xs s = Some t" and "I [] s"
    and "\<And>done x rest s s'. xs = done @ x # rest \<Longrightarrow> I done s \<Longrightarrow> f x s = Some s' \<Longrightarrow> I (done @ [x]) s'"
  shows "I xs t"
proof -
  have "I (done @ ys) t" if "xs = done @ ys" "foldM f ys s = Some t" "I done s" for "done" ys s
    using that
  proof (induction ys arbitrary: "done" s)
    case (Cons y ys)
    then obtain s' where s': "f y s = Some s'" "foldM f ys s' = Some t" by (auto split: Option.bind_splits)
    have "I (done @ [y]) s'" using assms(3) Cons.prems s' by blast
    then show ?case using Cons.IH [of "done @ [y]" s'] Cons.prems(1) s'(2) by simp
  qed simp
  then show ?thesis using assms(1,2) by (metis append_Nil)
qed

lemma foldM_total:
  assumes "I [] s"
    and "\<And>done x rest s. xs = done @ x # rest \<Longrightarrow> I done s \<Longrightarrow> \<exists>s'. f x s = Some s' \<and> I (done @ [x]) s'"
  shows "\<exists>t. foldM f xs s = Some t \<and> I xs t"
proof -
  have "\<exists>t. foldM f ys s = Some t \<and> I (done @ ys) t" if "xs = done @ ys" "I done s" for "done" ys s
    using that
  proof (induction ys arbitrary: "done" s)
    case (Cons y ys)
    then obtain s' where s': "f y s = Some s'" "I (done @ [y]) s'" using assms(2) by blast
    then show ?case using Cons.IH [of "done @ [y]" s'] Cons.prems(1) by simp
  qed simp
  then show ?thesis using assms(1) by (metis append_Nil)
qed

section \<open>Arrays as functions\<close>

lemma inj_on_fun_upd_swap:
  assumes "inj_on f A" and "i \<in> A" and "j \<in> A"
  shows "inj_on (f(i := f j, j := f i)) A"
  using assms unfolding inj_on_def by (metis fun_upd_apply)

lemma image_fun_upd_swap:
  assumes "i \<in> A" and "j \<in> A"
  shows "(f(i := f j, j := f i)) ` A = f ` A"
  using assms by (auto simp: image_iff split: if_splits)

section \<open>Words read as naturals\<close>

lemma unat_sub_le [simp]:
  fixes a b :: "'a::len word"
  assumes "b \<le> a"
  shows "unat (a - b) = unat a - unat b"
  using assms by (rule unat_sub)

lemma unat_add_no_wrap:
  fixes a b :: "'a::len word"
  assumes "unat a + unat b < 2 ^ LENGTH('a)"
  shows "unat (a + b) = unat a + unat b"
  using assms by (simp add: unat_word_ariths)

end
