(* ===== verification/Pqueue.thy ===== *)
theory Pqueue
  imports Flax_Prelude
begin

text \<open>
  The array-based priority queue of \<open>pqueue.c\<close>. The queue stores pointers; the priority
  and the position of an element live in the element itself and are reached through the
  callbacks the queue was initialised with. The element store is explicit here: a callback
  takes the store, and a setter returns the updated one.

  The array \<open>d\<close> is a function of the index, slot 0 being unused as in the C code;
  \<open>avail\<close> is the number of slots that were allocated, and storing at or beyond it
  is a fault.
\<close>

section \<open>The queue\<close>

type_synonym pqueue_pri = u64

record ('s, 'e) pqueue_t =
  psize :: nat
  avail :: nat
  step :: nat
  cmppri :: "pqueue_pri \<Rightarrow> pqueue_pri \<Rightarrow> bool"
  getpri :: "'s \<Rightarrow> 'e \<Rightarrow> pqueue_pri"
  setpri :: "'s \<Rightarrow> 'e \<Rightarrow> pqueue_pri \<Rightarrow> 's"
  getpos :: "'s \<Rightarrow> 'e \<Rightarrow> nat"
  setpos :: "'s \<Rightarrow> 'e \<Rightarrow> nat \<Rightarrow> 's"
  d :: "nat \<Rightarrow> 'e"

definition left :: "nat \<Rightarrow> nat" where
  "left i = 2 * i"

definition right :: "nat \<Rightarrow> nat" where
  "right i = 2 * i + 1"

definition parent :: "nat \<Rightarrow> nat" where
  "parent i = i div 2"

lemmas heap_index [flax_defs] = left_def right_def parent_def

text \<open>
  The two allocations of \<open>pqueue_init\<close> may fail; their outcome is a parameter:
  \<open>q_ok\<close> for the handle, and for the array either \<open>None\<close> or the indeterminate
  contents the allocator hands out.
\<close>

definition pqueue_init ::
  "bool \<Rightarrow> (nat \<Rightarrow> 'e) option \<Rightarrow> nat
   \<Rightarrow> (pqueue_pri \<Rightarrow> pqueue_pri \<Rightarrow> bool) \<Rightarrow> ('s \<Rightarrow> 'e \<Rightarrow> pqueue_pri)
   \<Rightarrow> ('s \<Rightarrow> 'e \<Rightarrow> pqueue_pri \<Rightarrow> 's) \<Rightarrow> ('s \<Rightarrow> 'e \<Rightarrow> nat)
   \<Rightarrow> ('s \<Rightarrow> 'e \<Rightarrow> nat \<Rightarrow> 's) \<Rightarrow> ('s, 'e) pqueue_t option" where
  "pqueue_init q_ok mem n cmp gpri spri gpos spos =
     (if \<not> q_ok then None
      else case mem of
        None \<Rightarrow> None
      | Some d0 \<Rightarrow> Some \<lparr>psize = 1, avail = n + 1, step = n + 1, cmppri = cmp,
          getpri = gpri, setpri = spri, getpos = gpos, setpos = spos, d = d0\<rparr>)"

definition pqueue_size :: "('s, 'e) pqueue_t \<Rightarrow> nat" where
  "pqueue_size q = psize q - 1"

section \<open>Sifting\<close>

text \<open>The loop of \<open>bubble_up\<close>: it returns the state and the index where it stops.\<close>

function bubble_up_loop ::
  "('s, 'e) pqueue_t \<Rightarrow> 's \<Rightarrow> nat \<Rightarrow> pqueue_pri \<Rightarrow> ('s, 'e) pqueue_t \<times> 's \<times> nat" where
  "bubble_up_loop q s i moving_pri =
     (if i > 1 \<and> cmppri q (getpri q s (d q (parent i))) moving_pri
      then let e = d q (parent i);
               q' = q\<lparr>d := (d q)(i := e)\<rparr>;
               s' = setpos q s e i
           in bubble_up_loop q' s' (parent i) moving_pri
      else (q, s, i))"
  by pat_completeness auto
termination
  by (relation "measure (\<lambda>(q, s, i, p). i)") (auto simp: parent_def)

declare bubble_up_loop.simps [simp del]

definition bubble_up :: "('s, 'e) pqueue_t \<Rightarrow> 's \<Rightarrow> nat \<Rightarrow> ('s, 'e) pqueue_t \<times> 's" where
  "bubble_up q s i =
     (let moving_node = d q i;
          moving_pri = getpri q s moving_node;
          (q', s', j) = bubble_up_loop q s i moving_pri
      in (q'\<lparr>d := (d q')(j := moving_node)\<rparr>, setpos q s' moving_node j))"

definition maxchild :: "('s, 'e) pqueue_t \<Rightarrow> 's \<Rightarrow> nat \<Rightarrow> nat" where
  "maxchild q s i =
     (let child_node = left i
      in if child_node \<ge> psize q then 0
         else if child_node + 1 < psize q
                 \<and> cmppri q (getpri q s (d q child_node)) (getpri q s (d q (child_node + 1)))
              then child_node + 1
         else child_node)"

lemma maxchild_range: "0 < maxchild q s i \<Longrightarrow> i < maxchild q s i \<and> maxchild q s i < psize q"
  by (auto simp: maxchild_def left_def Let_def split: if_splits)

function percolate_down_loop ::
  "('s, 'e) pqueue_t \<Rightarrow> 's \<Rightarrow> nat \<Rightarrow> pqueue_pri \<Rightarrow> ('s, 'e) pqueue_t \<times> 's \<times> nat" where
  "percolate_down_loop q s i moving_pri =
     (let child_node = maxchild q s i
      in if child_node \<noteq> 0 \<and> cmppri q moving_pri (getpri q s (d q child_node))
         then let e = d q child_node;
                  q' = q\<lparr>d := (d q)(i := e)\<rparr>;
                  s' = setpos q s e i
              in percolate_down_loop q' s' child_node moving_pri
         else (q, s, i))"
  by pat_completeness auto
termination
proof (relation "measure (\<lambda>(q, s, i, p). psize q - i)", goal_cases)
  case 1
  show ?case by simp
next
  case (2 q s i p c e q' s')
  then have "0 < maxchild q s i" by simp
  from maxchild_range [OF this] 2 show ?case by auto
qed

declare percolate_down_loop.simps [simp del]

definition percolate_down :: "('s, 'e) pqueue_t \<Rightarrow> 's \<Rightarrow> nat \<Rightarrow> ('s, 'e) pqueue_t \<times> 's" where
  "percolate_down q s i =
     (let moving_node = d q i;
          moving_pri = getpri q s moving_node;
          (q', s', j) = percolate_down_loop q s i moving_pri
      in (q'\<lparr>d := (d q')(j := moving_node)\<rparr>, setpos q s' moving_node j))"

section \<open>Operations\<close>

text \<open>
  A handle is an option, \<open>None\<close> being the NULL pointer. \<open>pqueue_insert\<close> tests it
  and returns 1; a full queue is only reported to the log, and the store that follows is
  outside the array.
\<close>

definition pqueue_insert ::
  "('s, 'e) pqueue_t option \<Rightarrow> 's \<Rightarrow> 'e
   \<Rightarrow> (('s, 'e) pqueue_t option \<times> 's \<times> int) option" where
  "pqueue_insert qp s e =
     (case qp of
        None \<Rightarrow> Some (None, s, 1)
      | Some q \<Rightarrow>
          let i = psize q
          in if i < avail q
             then let (q', s') = bubble_up (q\<lparr>psize := i + 1, d := (d q)(i := e)\<rparr>) s i
                  in Some (Some q', s', 0)
             else None)"

definition pqueue_change_priority ::
  "('s, 'e) pqueue_t \<Rightarrow> 's \<Rightarrow> pqueue_pri \<Rightarrow> 'e \<Rightarrow> ('s, 'e) pqueue_t \<times> 's" where
  "pqueue_change_priority q s new_pri e =
     (let old_pri = getpri q s e;
          s1 = setpri q s e new_pri;
          posn = getpos q s1 e
      in if cmppri q old_pri new_pri then bubble_up q s1 posn else percolate_down q s1 posn)"

definition pqueue_remove ::
  "('s, 'e) pqueue_t \<Rightarrow> 's \<Rightarrow> 'e \<Rightarrow> ('s, 'e) pqueue_t \<times> 's \<times> int" where
  "pqueue_remove q s e =
     (let posn = getpos q s e;
          n = psize q - 1;
          q1 = q\<lparr>psize := n, d := (d q)(posn := d q n)\<rparr>;
          (q2, s2) = (if cmppri q (getpri q s e) (getpri q s (d q1 posn))
                      then bubble_up q1 s posn else percolate_down q1 s posn)
      in (q2, s2, 0))"

definition pqueue_pop ::
  "('s, 'e) pqueue_t option \<Rightarrow> 's \<Rightarrow> ('s, 'e) pqueue_t option \<times> 's \<times> 'e option" where
  "pqueue_pop qp s =
     (case qp of
        None \<Rightarrow> (None, s, None)
      | Some q \<Rightarrow>
          if psize q = 1 then (Some q, s, None)
          else let head = d q 1;
                   n = psize q - 1;
                   (q', s') = percolate_down (q\<lparr>psize := n, d := (d q)(1 := d q n)\<rparr>) s 1
               in (Some q', s', Some head))"

definition pqueue_peek :: "('s, 'e) pqueue_t option \<Rightarrow> 'e option" where
  "pqueue_peek qp =
     (case qp of None \<Rightarrow> None | Some q \<Rightarrow> if psize q = 1 then None else Some (d q 1))"

text \<open>
  The recursive checker. For \<open>pos = 0\<close> the C recursion would not end (node 0 is its own
  left child); it is only ever started at 1, and 0 is answered with failure here.
\<close>

function subtree_is_valid :: "('s, 'e) pqueue_t \<Rightarrow> 's \<Rightarrow> nat \<Rightarrow> bool" where
  "subtree_is_valid q s pos =
     (if pos = 0 then False
      else (left pos < psize q \<longrightarrow>
              \<not> cmppri q (getpri q s (d q pos)) (getpri q s (d q (left pos)))
              \<and> subtree_is_valid q s (left pos))
         \<and> (right pos < psize q \<longrightarrow>
              \<not> cmppri q (getpri q s (d q pos)) (getpri q s (d q (right pos)))
              \<and> subtree_is_valid q s (right pos)))"
  by pat_completeness auto
termination
  by (relation "measure (\<lambda>(q, s, pos). psize q - pos)") (auto simp: left_def right_def)

declare subtree_is_valid.simps [simp del]

definition pqueue_is_valid :: "('s, 'e) pqueue_t \<Rightarrow> 's \<Rightarrow> bool" where
  "pqueue_is_valid q s = subtree_is_valid q s 1"

section \<open>Well-formed queues\<close>

text \<open>
  The slots in use are \<open>1 ..< psize q\<close>. They hold distinct elements, each element knows
  its slot, and no element outranks its parent.
\<close>

definition pq_slots :: "('s, 'e) pqueue_t \<Rightarrow> nat set" where
  "pq_slots q = {1..<psize q}"

definition pq_elems :: "('s, 'e) pqueue_t \<Rightarrow> 'e set" where
  "pq_elems q = d q ` pq_slots q"

definition pq_placed :: "('s \<Rightarrow> 'e \<Rightarrow> bool) \<Rightarrow> ('s, 'e) pqueue_t \<Rightarrow> 's \<Rightarrow> bool" where
  "pq_placed okelem q s \<longleftrightarrow> 1 \<le> psize q \<and> psize q \<le> avail q \<and> inj_on (d q) (pq_slots q)
     \<and> (\<forall>i\<in>pq_slots q. okelem s (d q i) \<and> getpos q s (d q i) = i)"

definition pq_heap :: "('s, 'e) pqueue_t \<Rightarrow> 's \<Rightarrow> bool" where
  "pq_heap q s \<longleftrightarrow> (\<forall>i\<in>{2..<psize q}.
     \<not> cmppri q (getpri q s (d q (parent i))) (getpri q s (d q i)))"

definition pq_inv :: "('s \<Rightarrow> 'e \<Rightarrow> bool) \<Rightarrow> ('s, 'e) pqueue_t \<Rightarrow> 's \<Rightarrow> bool" where
  "pq_inv okelem q s \<longleftrightarrow> pq_placed okelem q s \<and> pq_heap q s"

text \<open>
  While an element moves, its slot \<open>i\<close> is a hole: the array is as if \<open>mv\<close> were
  there, except that \<open>mv\<close> has not been told its position.
\<close>

definition pq_hole ::
  "('s \<Rightarrow> 'e \<Rightarrow> bool) \<Rightarrow> ('s, 'e) pqueue_t \<Rightarrow> 's \<Rightarrow> nat \<Rightarrow> 'e \<Rightarrow> bool" where
  "pq_hole okelem q s i mv \<longleftrightarrow> (let f = (d q)(i := mv) in
     1 \<le> psize q \<and> psize q \<le> avail q \<and> i \<in> pq_slots q \<and> inj_on f (pq_slots q)
     \<and> (\<forall>j\<in>pq_slots q. okelem s (f j) \<and> (j \<noteq> i \<longrightarrow> getpos q s (f j) = j)))"

definition hole_pri :: "('s, 'e) pqueue_t \<Rightarrow> 's \<Rightarrow> nat \<Rightarrow> 'e \<Rightarrow> nat \<Rightarrow> pqueue_pri" where
  "hole_pri q s i mv = getpri q s \<circ> (d q)(i := mv)"

text \<open>Two queues over the same slots, callbacks and elements.\<close>

definition pq_same :: "('s, 'e) pqueue_t \<Rightarrow> ('s, 'e) pqueue_t \<Rightarrow> bool" where
  "pq_same q q' \<longleftrightarrow> psize q' = psize q \<and> avail q' = avail q \<and> cmppri q' = cmppri q
     \<and> getpri q' = getpri q \<and> setpri q' = setpri q \<and> getpos q' = getpos q \<and> setpos q' = setpos q"

text \<open>
  The two loops carry a hole. \<open>hole_up\<close>: only the link from the hole to its parent may
  be out of order; \<open>hole_down\<close>: only the links from the hole to its children. In both,
  the children of the hole are in order with the parent of the hole. They speak of an array
  \<open>a\<close> of priorities of length \<open>n\<close>.
\<close>

definition hole_up :: "('p \<Rightarrow> 'p \<Rightarrow> bool) \<Rightarrow> (nat \<Rightarrow> 'p) \<Rightarrow> nat \<Rightarrow> nat \<Rightarrow> bool" where
  "hole_up cmp a n i \<longleftrightarrow>
     (\<forall>j\<in>{2..<n}. j \<noteq> i \<longrightarrow> \<not> cmp (a (j div 2)) (a j))
     \<and> (\<forall>j\<in>{2..<n}. j div 2 = i \<and> 1 < i \<longrightarrow> \<not> cmp (a (i div 2)) (a j))"

definition hole_down :: "('p \<Rightarrow> 'p \<Rightarrow> bool) \<Rightarrow> (nat \<Rightarrow> 'p) \<Rightarrow> nat \<Rightarrow> nat \<Rightarrow> bool" where
  "hole_down cmp a n i \<longleftrightarrow>
     (\<forall>j\<in>{2..<n}. j div 2 \<noteq> i \<longrightarrow> \<not> cmp (a (j div 2)) (a j))
     \<and> (\<forall>j\<in>{2..<n}. j div 2 = i \<and> 1 < i \<longrightarrow> \<not> cmp (a (i div 2)) (a j))"

definition pq_uses :: "(pqueue_pri \<Rightarrow> pqueue_pri \<Rightarrow> bool) \<Rightarrow> ('s \<Rightarrow> 'e \<Rightarrow> pqueue_pri)
   \<Rightarrow> ('s \<Rightarrow> 'e \<Rightarrow> pqueue_pri \<Rightarrow> 's) \<Rightarrow> ('s \<Rightarrow> 'e \<Rightarrow> nat)
   \<Rightarrow> ('s \<Rightarrow> 'e \<Rightarrow> nat \<Rightarrow> 's) \<Rightarrow> ('s, 'e) pqueue_t \<Rightarrow> bool" where
  "pq_uses cmp gpri spri gpos spos q \<longleftrightarrow> cmppri q = cmp \<and> getpri q = gpri \<and> setpri q = spri
     \<and> getpos q = gpos \<and> setpos q = spos"

lemma pq_same_refl [simp]: "pq_same q q" "pq_same q (q\<lparr>d := f\<rparr>)"
  by (simp_all add: pq_same_def)

lemma pq_same_trans: "pq_same q q' \<Longrightarrow> pq_same q' q'' \<Longrightarrow> pq_same q q''"
  by (simp add: pq_same_def)

lemma pq_slots_simps [simp]: "pq_slots (q\<lparr>d := f\<rparr>) = pq_slots q"
  by (simp add: pq_slots_def)

lemma pq_same_slots: "pq_same q q' \<Longrightarrow> pq_slots q' = pq_slots q"
  by (simp add: pq_same_def pq_slots_def)

lemma pq_uses_same: "pq_same q q' \<Longrightarrow> pq_uses c g sp gp sq q' = pq_uses c g sp gp sq q"
  by (simp add: pq_same_def pq_uses_def)

lemma pq_holeI:
  assumes "1 \<le> psize q" "psize q \<le> avail q" "i \<in> pq_slots q"
    and "inj_on ((d q)(i := mv)) (pq_slots q)"
    and "\<And>j. j \<in> pq_slots q \<Longrightarrow> okelem s (((d q)(i := mv)) j)"
    and "\<And>j. j \<in> pq_slots q \<Longrightarrow> j \<noteq> i \<Longrightarrow> getpos q s (((d q)(i := mv)) j) = j"
  shows "pq_hole okelem q s i mv"
  using assms unfolding pq_hole_def Let_def by blast

lemma pq_holeD:
  assumes "pq_hole okelem q s i mv"
  shows "1 \<le> psize q" "psize q \<le> avail q" "i \<in> pq_slots q"
    and "inj_on ((d q)(i := mv)) (pq_slots q)"
    and "j \<in> pq_slots q \<Longrightarrow> okelem s (((d q)(i := mv)) j)"
    and "j \<in> pq_slots q \<Longrightarrow> j \<noteq> i \<Longrightarrow> getpos q s (((d q)(i := mv)) j) = j"
  using assms unfolding pq_hole_def Let_def by blast+

lemma pq_invD:
  assumes "pq_inv okelem q s"
  shows "1 \<le> psize q" "psize q \<le> avail q" "inj_on (d q) (pq_slots q)"
    and "j \<in> pq_slots q \<Longrightarrow> okelem s (d q j)"
    and "j \<in> pq_slots q \<Longrightarrow> getpos q s (d q j) = j"
    and "j \<in> {2..<psize q} \<Longrightarrow> \<not> cmppri q (getpri q s (d q (j div 2))) (getpri q s (d q j))"
  using assms by (simp_all add: pq_inv_def pq_placed_def pq_heap_def parent_def)

lemma pq_elems_iff: "x \<in> pq_elems q \<longleftrightarrow> (\<exists>j. 1 \<le> j \<and> j < psize q \<and> x = d q j)"
  by (auto simp: pq_elems_def pq_slots_def)

lemma percolate_stop: "maxchild q s i = 0 \<Longrightarrow> percolate_down_loop q s i p = (q, s, i)"
  by (subst percolate_down_loop.simps) simp

section \<open>The contract of the element callbacks\<close>

text \<open>
  What the queue relies on: the comparison is a strict weak order, a setter changes its own
  field of its own element and nothing else. \<open>okelem\<close> delimits the elements the store
  really holds and \<open>okpri\<close> the priorities its field can represent; \<open>rest\<close> is
  the part of the store the queue has no business with.
\<close>

locale pq_element =
  fixes cmp :: "pqueue_pri \<Rightarrow> pqueue_pri \<Rightarrow> bool"
    and gpri :: "'s \<Rightarrow> 'e \<Rightarrow> pqueue_pri"
    and spri :: "'s \<Rightarrow> 'e \<Rightarrow> pqueue_pri \<Rightarrow> 's"
    and gpos :: "'s \<Rightarrow> 'e \<Rightarrow> nat"
    and spos :: "'s \<Rightarrow> 'e \<Rightarrow> nat \<Rightarrow> 's"
    and okelem :: "'s \<Rightarrow> 'e \<Rightarrow> bool"
    and okpri :: "pqueue_pri \<Rightarrow> bool"
    and rest :: "'s \<Rightarrow> 'r"
  assumes cmp_asym: "cmp a b \<Longrightarrow> \<not> cmp b a"
    and cmp_negtrans: "\<not> cmp a b \<Longrightarrow> \<not> cmp b c \<Longrightarrow> \<not> cmp a c"
    and gpri_spos [simp]: "gpri (spos s e p) x = gpri s x"
    and gpos_spos: "okelem s e \<Longrightarrow> gpos (spos s e p) x = (if x = e then p else gpos s x)"
    and gpri_spri:
      "okelem s e \<Longrightarrow> okpri v \<Longrightarrow> gpri (spri s e v) x = (if x = e then v else gpri s x)"
    and gpos_spri [simp]: "gpos (spri s e v) x = gpos s x"
    and okelem_spos [simp]: "okelem (spos s e p) x = okelem s x"
    and okelem_spri [simp]: "okelem (spri s e v) x = okelem s x"
    and rest_spos [simp]: "rest (spos s e p) = rest s"
begin

lemma cmp_irrefl [simp]: "\<not> cmp a a"
  using cmp_asym by blast

lemma hole_up_step:
  assumes "hole_up cmp a n i" and "1 < i" and "i < n" and "cmp (a (i div 2)) (a i)"
  shows "hole_up cmp (a(i := a (i div 2), i div 2 := a i)) n (i div 2)"
proof -
  let ?p = "i div 2"
  have p: "?p < i" "0 < ?p" using assms(2) by auto
  have up: "\<not> cmp (a (j div 2)) (a j)" if "j \<in> {2..<n}" "j \<noteq> i" for j
    using assms(1) that by (auto simp: hole_up_def)
  have ch: "\<not> cmp (a ?p) (a j)" if "j \<in> {2..<n}" "j div 2 = i" for j
    using assms(1,2) that by (auto simp: hole_up_def)
  have sib: "\<not> cmp (a i) (a j)" if "j \<in> {2..<n}" "j div 2 = ?p" "j \<noteq> i" for j
    using up [OF that(1,3)] that(2) cmp_negtrans [OF cmp_asym [OF assms(4)]] by auto
  show ?thesis
    unfolding hole_up_def
  proof (intro conjI ballI impI)
    fix j assume j: "j \<in> {2..<n}" "j \<noteq> ?p"
    show "\<not> cmp ((a(i := a ?p, ?p := a i)) (j div 2)) ((a(i := a ?p, ?p := a i)) j)"
    proof (cases "j = i")
      case True
      then show ?thesis using p cmp_asym [OF assms(4)] by simp
    next
      case False
      then show ?thesis using j p up [OF j(1) False] ch [OF j(1)] sib [OF j(1)] by auto
    qed
  next
    fix j assume j: "j \<in> {2..<n}" "j div 2 = ?p \<and> 1 < ?p"
    have pp: "?p div 2 < ?p" using j by auto
    have 1: "\<not> cmp (a (?p div 2)) (a ?p)" using up [of ?p] j assms(3) p by auto
    show "\<not> cmp ((a(i := a ?p, ?p := a i)) (?p div 2)) ((a(i := a ?p, ?p := a i)) j)"
    proof (cases "j = i")
      case True
      then show ?thesis using 1 p pp by simp
    next
      case False
      have "\<not> cmp (a ?p) (a j)" using up [OF j(1) False] j(2) by simp
      then have "\<not> cmp (a (?p div 2)) (a j)" by (rule cmp_negtrans [OF 1])
      moreover have "j \<noteq> ?p" using j(2) p by auto
      ultimately show ?thesis using False p pp by auto
    qed
  qed
qed

lemma hole_up_done:
  assumes "hole_up cmp a n i" and "\<not> (1 < i \<and> cmp (a (i div 2)) (a i))" and "j \<in> {2..<n}"
  shows "\<not> cmp (a (j div 2)) (a j)"
  using assms by (cases "j = i") (auto simp: hole_up_def)

lemma hole_down_step:
  assumes "hole_down cmp a n i" and "c div 2 = i" and "0 < i" and "c < n" and "cmp (a i) (a c)"
    and best: "\<And>j. j \<in> {2..<n} \<Longrightarrow> j div 2 = i \<Longrightarrow> \<not> cmp (a c) (a j)"
  shows "hole_down cmp (a(i := a c, c := a i)) n c"
proof -
  have c: "i < c" "2 \<le> c" using assms(2,3) by auto
  have dn: "\<not> cmp (a (j div 2)) (a j)" if "j \<in> {2..<n}" "j div 2 \<noteq> i" for j
    using assms(1) that by (auto simp: hole_down_def)
  have pi: "\<not> cmp (a (i div 2)) (a c)" if "1 < i"
    using assms(1,2,4) c that by (auto simp: hole_down_def)
  show ?thesis
    unfolding hole_down_def
  proof (intro conjI ballI impI)
    fix j assume j: "j \<in> {2..<n}" "j div 2 \<noteq> c"
    show "\<not> cmp ((a(i := a c, c := a i)) (j div 2)) ((a(i := a c, c := a i)) j)"
    proof (cases "j div 2 = i")
      case True
      then show ?thesis using c best [OF j(1) True] cmp_asym [OF assms(5)] by auto
    next
      case False
      have "j \<noteq> c" using False assms(2) by auto
      moreover have "j = i \<Longrightarrow> 1 < i" using j by auto
      ultimately show ?thesis using False j dn [OF j(1) False] pi c assms(3) by auto
    qed
  next
    fix j assume j: "j \<in> {2..<n}" "j div 2 = c \<and> 1 < c"
    then have "\<not> cmp (a c) (a j)" using dn [OF j(1)] c by auto
    moreover have "j \<noteq> i" "j \<noteq> c" using j c by auto
    ultimately show "\<not> cmp ((a(i := a c, c := a i)) (c div 2)) ((a(i := a c, c := a i)) j)"
      using assms(2) c by simp
  qed
qed

lemma hole_down_done:
  assumes "hole_down cmp a n i" and "\<And>j. j \<in> {2..<n} \<Longrightarrow> j div 2 = i \<Longrightarrow> \<not> cmp (a i) (a j)"
    and "j \<in> {2..<n}"
  shows "\<not> cmp (a (j div 2)) (a j)"
  using assms by (cases "j div 2 = i") (auto simp: hole_down_def)

text \<open>What sifting leaves alone, in the store.\<close>

definition kept :: "'e set \<Rightarrow> 's \<Rightarrow> 's \<Rightarrow> bool" where
  "kept X s s' \<longleftrightarrow> gpri s' = gpri s \<and> okelem s' = okelem s \<and> rest s' = rest s
     \<and> (\<forall>x. x \<notin> X \<longrightarrow> gpos s' x = gpos s x)"

lemma kept_refl [simp]: "kept X s s"
  by (simp add: kept_def)

lemma kept_trans: "kept X s s' \<Longrightarrow> kept X s' s'' \<Longrightarrow> kept X s s''"
  by (simp add: kept_def)

lemma kept_spos: "okelem s e \<Longrightarrow> e \<in> X \<Longrightarrow> kept X s (spos s e p)"
  by (auto simp: kept_def gpos_spos fun_eq_iff)

lemma pq_hole_move:
  assumes u: "pq_uses cmp gpri spri gpos spos q" and h: "pq_hole okelem q s i mv"
    and p: "p \<in> pq_slots q" "p \<noteq> i"
  defines "q' \<equiv> q\<lparr>d := (d q)(i := d q p)\<rparr>" and "s' \<equiv> spos s (d q p) i"
  shows "pq_hole okelem q' s' p mv"
    and "hole_pri q' s' p mv = (hole_pri q s i mv)(i := hole_pri q s i mv p, p := hole_pri q s i mv i)"
    and "((d q')(p := mv)) ` pq_slots q = ((d q)(i := mv)) ` pq_slots q"
    and "kept (((d q)(i := mv)) ` pq_slots q) s s'"
proof -
  let ?f = "(d q)(i := mv)"
  have f': "(d q')(p := mv) = ?f(i := ?f p, p := ?f i)"
    using p by (auto simp: q'_def)
  note i = pq_holeD(3) [OF h] and inj = pq_holeD(4) [OF h] and ok = pq_holeD(5) [OF h]
  have gp: "getpos q = gpos" "getpri q = gpri" using u by (simp_all add: pq_uses_def)
  note pos = pq_holeD(6) [OF h, unfolded gp]
  have okp: "okelem s (d q p)" using ok [OF p(1)] p(2) by simp
  have inj': "inj_on (?f(i := ?f p, p := ?f i)) (pq_slots q)"
    by (rule inj_on_fun_upd_swap [OF inj i p(1)])
  have pos': "gpos s' ((?f(i := ?f p, p := ?f i)) j) = j" if j: "j \<in> pq_slots q" "j \<noteq> p" for j
  proof (cases "j = i")
    case True
    then show ?thesis using p okp by (simp add: s'_def gpos_spos)
  next
    case False
    then have "?f j \<noteq> ?f p" using inj_on_contraD [OF inj j(2) j(1) p(1)] by simp
    then have "d q j \<noteq> d q p" using False p by simp
    then show ?thesis using False j pos [OF j(1) False] okp by (simp add: s'_def gpos_spos)
  qed
  show "pq_hole okelem q' s' p mv"
  proof (rule pq_holeI)
    show "okelem s' (((d q')(p := mv)) j)" if "j \<in> pq_slots q'" for j
      using that ok [of j] ok [of p] ok [of i] p i unfolding f' by (auto simp: q'_def s'_def)
    show "getpos q' s' (((d q')(p := mv)) j) = j" if "j \<in> pq_slots q'" "j \<noteq> p" for j
      using that pos' gp unfolding f' by (simp add: q'_def)
  qed (use pq_holeD(1,2) [OF h] p inj' in \<open>simp_all add: f', simp_all add: q'_def\<close>)
  show "hole_pri q' s' p mv = (hole_pri q s i mv)(i := hole_pri q s i mv p, p := hole_pri q s i mv i)"
    unfolding hole_pri_def f' by (simp add: q'_def s'_def gp fun_eq_iff)
  show "((d q')(p := mv)) ` pq_slots q = ?f ` pq_slots q"
    unfolding f' by (rule image_fun_upd_swap [OF i p(1)])
  have "d q p \<in> ?f ` pq_slots q" using p by (auto simp: image_iff)
  then show "kept (?f ` pq_slots q) s s'" unfolding s'_def by (rule kept_spos [OF okp])
qed

text \<open>Filling the hole.\<close>

lemma pq_hole_fill:
  assumes u: "pq_uses cmp gpri spri gpos spos q" and h: "pq_hole okelem q s i mv"
  shows "pq_placed okelem (q\<lparr>d := (d q)(i := mv)\<rparr>) (spos s mv i)"
    and "kept (((d q)(i := mv)) ` pq_slots q) s (spos s mv i)"
proof -
  let ?f = "(d q)(i := mv)"
  note i = pq_holeD(3) [OF h] and inj = pq_holeD(4) [OF h] and ok = pq_holeD(5) [OF h]
  have gp: "getpos q = gpos" "getpri q = gpri" using u by (simp_all add: pq_uses_def)
  note pos = pq_holeD(6) [OF h, unfolded gp]
  have okm: "okelem s mv" using ok [OF i] by simp
  have "gpos (spos s mv i) (?f j) = j" if j: "j \<in> pq_slots q" for j
  proof (cases "j = i")
    case False
    then have "?f j \<noteq> ?f i" using inj_on_contraD [OF inj _ j i] by blast
    then have "?f j \<noteq> mv" by simp
    then show ?thesis using pos [OF j False] okm by (simp add: gpos_spos)
  qed (use okm in \<open>simp add: gpos_spos\<close>)
  then show "pq_placed okelem (q\<lparr>d := ?f\<rparr>) (spos s mv i)"
    using pq_holeD(1,2) [OF h] inj ok by (simp add: pq_placed_def gp)
  have "mv \<in> ?f ` pq_slots q" using i by (auto simp: image_iff)
  then show "kept (?f ` pq_slots q) s (spos s mv i)" by (rule kept_spos [OF okm])
qed


text \<open>The two loops keep the hole, permute the elements and touch only positions.\<close>

lemma bubble_up_loop_correct:
  assumes "pq_uses cmp gpri spri gpos spos q" and "pq_hole okelem q s i mv"
    and "hole_up cmp (hole_pri q s i mv) (psize q) i" and "mp = gpri s mv"
    and "bubble_up_loop q s i mp = (q', s', j)"
  shows "pq_same q q' \<and> pq_hole okelem q' s' j mv
     \<and> ((d q')(j := mv)) ` pq_slots q = ((d q)(i := mv)) ` pq_slots q
     \<and> kept (((d q)(i := mv)) ` pq_slots q) s s'
     \<and> (\<forall>k\<in>{2..<psize q}. \<not> cmp (hole_pri q' s' j mv (k div 2)) (hole_pri q' s' j mv k))"
  using assms
proof (induction q s i mp rule: bubble_up_loop.induct)
  case (1 q s i mp)
  note u = "1.prems"(1) and h = "1.prems"(2) and up = "1.prems"(3) and mp = "1.prems"(4)
  have cb: "cmppri q = cmp" "getpri q = gpri" "setpos q = spos"
    using u by (simp_all add: pq_uses_def)
  have at: "hole_pri q s i mv i = mp" using mp by (simp add: hole_pri_def cb)
  show ?case
  proof (cases "1 < i \<and> cmp (gpri s (d q (i div 2))) mp")
    case True
    let ?p = "i div 2" and ?q = "q\<lparr>d := (d q)(i := d q (i div 2))\<rparr>" and ?s = "spos s (d q (i div 2)) i"
    have p: "?p \<in> pq_slots q" "?p \<noteq> i"
      using pq_holeD(3) [OF h] True by (auto simp: pq_slots_def)
    have lt: "hole_pri q s i mv ?p = gpri s (d q ?p)" using p by (simp add: hole_pri_def cb)
    note mv = pq_hole_move [OF u h p]
    have "hole_up cmp (hole_pri ?q ?s ?p mv) (psize ?q) ?p"
      using hole_up_step [OF up] True pq_holeD(3) [OF h] at lt
      by (simp add: mv(2) pq_slots_def)
    moreover have "mp = gpri ?s mv" using mp by simp
    moreover have "bubble_up_loop ?q ?s ?p mp = (q', s', j)"
      using "1.prems"(5) True cb by (simp add: bubble_up_loop.simps [of q] parent_def Let_def)
    ultimately have "pq_same ?q q' \<and> pq_hole okelem q' s' j mv
       \<and> ((d q')(j := mv)) ` pq_slots ?q = ((d ?q)(?p := mv)) ` pq_slots ?q
       \<and> kept (((d ?q)(?p := mv)) ` pq_slots ?q) ?s s'
       \<and> (\<forall>k\<in>{2..<psize ?q}. \<not> cmp (hole_pri q' s' j mv (k div 2)) (hole_pri q' s' j mv k))"
      using True cb u mv(1)
      by (intro "1.IH" [unfolded parent_def]) (simp_all add: pq_uses_def)
    then show ?thesis
      unfolding mv(3) pq_slots_simps
      using kept_trans [OF mv(4)] by (auto simp: pq_same_def)
  next
    case False
    then have "bubble_up_loop q s i mp = (q, s, i)"
      by (auto simp: bubble_up_loop.simps [of q] parent_def cb)
    then have eq: "q' = q" "s' = s" "j = i" using "1.prems"(5) by simp_all
    have "\<not> (1 < i \<and> cmp (hole_pri q s i mv (i div 2)) (hole_pri q s i mv i))"
      using False at by (auto simp: hole_pri_def cb)
    from hole_up_done [OF up this] show ?thesis
      using h unfolding eq by simp
  qed
qed


lemma maxchild_best:
  assumes "pq_uses cmp gpri spri gpos spos q" and "0 < i" and "0 < maxchild q s i"
  shows "maxchild q s i div 2 = i" and "maxchild q s i < psize q"
    and "j < psize q \<Longrightarrow> j div 2 = i
         \<Longrightarrow> \<not> cmp (gpri s (d q (maxchild q s i))) (gpri s (d q j))"
proof -
  show "maxchild q s i div 2 = i" "maxchild q s i < psize q"
    using assms by (auto simp: maxchild_def left_def Let_def split: if_splits)
  assume j: "j < psize q" "j div 2 = i"
  then consider "j = 2 * i" | "j = 2 * i + 1" by linarith
  moreover have "cmppri q = cmp" "getpri q = gpri" using assms(1) by (simp_all add: pq_uses_def)
  ultimately show "\<not> cmp (gpri s (d q (maxchild q s i))) (gpri s (d q j))"
    using j(1) by cases (simp_all add: maxchild_def left_def Let_def cmp_asym)
qed

lemma maxchild_none: "maxchild q s i = 0 \<Longrightarrow> 0 < i \<Longrightarrow> j div 2 = i \<Longrightarrow> psize q \<le> j"
  by (auto simp: maxchild_def left_def Let_def split: if_splits)

lemma percolate_down_loop_correct:
  assumes "pq_uses cmp gpri spri gpos spos q" and "pq_hole okelem q s i mv"
    and "hole_down cmp (hole_pri q s i mv) (psize q) i" and "mp = gpri s mv"
    and "percolate_down_loop q s i mp = (q', s', j)"
  shows "pq_same q q' \<and> pq_hole okelem q' s' j mv
     \<and> ((d q')(j := mv)) ` pq_slots q = ((d q)(i := mv)) ` pq_slots q
     \<and> kept (((d q)(i := mv)) ` pq_slots q) s s'
     \<and> (\<forall>k\<in>{2..<psize q}. \<not> cmp (hole_pri q' s' j mv (k div 2)) (hole_pri q' s' j mv k))"
  using assms
proof (induction q s i mp rule: percolate_down_loop.induct)
  case (1 q s i mp)
  note u = "1.prems"(1) and h = "1.prems"(2) and dn = "1.prems"(3) and mp = "1.prems"(4)
  let ?c = "maxchild q s i"
  have cb: "cmppri q = cmp" "getpri q = gpri" "setpos q = spos"
    using u by (simp_all add: pq_uses_def)
  have i: "0 < i" using pq_holeD(3) [OF h] by (simp add: pq_slots_def)
  have at: "hole_pri q s i mv i = mp" using mp by (simp add: hole_pri_def cb)
  have off: "k \<noteq> i \<Longrightarrow> hole_pri q s i mv k = gpri s (d q k)" for k
    by (simp add: hole_pri_def cb)
  have kid: "k \<noteq> i" if "k div 2 = i" for k using that i by auto
  show ?case
  proof (cases "?c \<noteq> 0 \<and> cmp mp (gpri s (d q ?c))")
    case True
    let ?q = "q\<lparr>d := (d q)(i := d q ?c)\<rparr>" and ?s = "spos s (d q ?c) i"
    note best = maxchild_best [OF u i, of s]
    have p: "?c \<in> pq_slots q" "?c \<noteq> i"
      using True best(1,2) i by (auto simp: pq_slots_def)
    note mv = pq_hole_move [OF u h p]
    have "hole_down cmp (hole_pri ?q ?s ?c mv) (psize ?q) ?c"
    proof -
      have "\<not> cmp (hole_pri q s i mv ?c) (hole_pri q s i mv k)"
        if "k \<in> {2..<psize q}" "k div 2 = i" for k
        using best(3) [of k] that True off [OF p(2)] off [OF kid [OF that(2)]] by simp
      moreover have "cmp (hole_pri q s i mv i) (hole_pri q s i mv ?c)"
        using True at off [OF p(2)] by simp
      moreover have "0 < ?c" using True by blast
      ultimately show ?thesis
        using hole_down_step [OF dn best(1) i best(2)] unfolding mv(2) by simp
    qed
    moreover have "mp = gpri ?s mv" using mp by simp
    moreover have "percolate_down_loop ?q ?s ?c mp = (q', s', j)"
      using "1.prems"(5) True cb by (simp add: percolate_down_loop.simps [of q] Let_def)
    ultimately have "pq_same ?q q' \<and> pq_hole okelem q' s' j mv
       \<and> ((d q')(j := mv)) ` pq_slots ?q = ((d ?q)(?c := mv)) ` pq_slots ?q
       \<and> kept (((d ?q)(?c := mv)) ` pq_slots ?q) ?s s'
       \<and> (\<forall>k\<in>{2..<psize ?q}. \<not> cmp (hole_pri q' s' j mv (k div 2)) (hole_pri q' s' j mv k))"
      using True cb u mv(1) by (intro "1.IH") (simp_all add: pq_uses_def)
    then show ?thesis
      unfolding mv(3) pq_slots_simps
      using kept_trans [OF mv(4)] by (auto simp: pq_same_def)
  next
    case False
    then have "percolate_down_loop q s i mp = (q, s, i)"
      by (auto simp: percolate_down_loop.simps [of q] cb Let_def)
    then have eq: "q' = q" "s' = s" "j = i" using "1.prems"(5) by simp_all
    have "\<not> cmp (hole_pri q s i mv i) (hole_pri q s i mv k)"
      if k: "k \<in> {2..<psize q}" "k div 2 = i" for k
    proof (cases "?c = 0")
      case True
      then show ?thesis using maxchild_none [OF True i k(2)] k(1) by simp
    next
      case c: False
      then have "\<not> cmp mp (gpri s (d q ?c))" using False by simp
      moreover have "\<not> cmp (gpri s (d q ?c)) (gpri s (d q k))"
        using maxchild_best(3) [OF u i _ _ k(2)] c k(1) by simp
      ultimately show ?thesis using cmp_negtrans at off [OF kid [OF k(2)]] by auto
    qed
    from hole_down_done [OF dn this] show ?thesis
      using h unfolding eq by simp
  qed
qed

text \<open>Both sifting procedures, given the state of their loop.\<close>

lemma sift_fill:
  assumes u: "pq_uses cmp gpri spri gpos spos q" and mp: "mv = d q i"
    and L: "pq_same q q1 \<and> pq_hole okelem q1 s1 j mv
     \<and> ((d q1)(j := mv)) ` pq_slots q = ((d q)(i := mv)) ` pq_slots q
     \<and> kept (((d q)(i := mv)) ` pq_slots q) s s1
     \<and> (\<forall>k\<in>{2..<psize q}. \<not> cmp (hole_pri q1 s1 j mv (k div 2)) (hole_pri q1 s1 j mv k))"
  defines "q' \<equiv> q1\<lparr>d := (d q1)(j := mv)\<rparr>" and "s' \<equiv> spos s1 mv j"
  shows "pq_same q q' \<and> pq_inv okelem q' s' \<and> pq_elems q' = pq_elems q \<and> kept (pq_elems q) s s'"
proof -
  have sm: "pq_same q q1" and h: "pq_hole okelem q1 s1 j mv" using L by simp_all
  have u1: "pq_uses cmp gpri spri gpos spos q1" using u by (simp add: pq_uses_same [OF sm])
  have sl: "pq_slots q1 = pq_slots q" by (rule pq_same_slots [OF sm])
  have tr: "(d q)(i := mv) = d q" using mp by simp
  note f = pq_hole_fill [OF u1 h]
  have el: "((d q1)(j := mv)) ` pq_slots q = pq_elems q" using L tr by (simp add: pq_elems_def)
  have cb: "cmppri q' = cmp" "getpri q' = gpri" "psize q' = psize q" "getpri q1 = gpri"
    using u1 sm by (simp_all add: q'_def pq_uses_def pq_same_def)
  have "getpri q' s' \<circ> d q' = hole_pri q1 s1 j mv"
    by (simp add: cb s'_def hole_pri_def q'_def fun_eq_iff)
  then have "getpri q' s' (d q' k) = hole_pri q1 s1 j mv k" for k by (metis comp_apply)
  then have "pq_heap q' s'" using L by (simp add: pq_heap_def cb(1,3) parent_def)
  moreover have "pq_placed okelem q' s'" using f(1) by (simp add: q'_def s'_def)
  moreover have "pq_elems q' = pq_elems q" using el sl by (simp add: pq_elems_def q'_def)
  moreover have "kept (pq_elems q) s s'"
  proof (rule kept_trans)
    show "kept (pq_elems q) s s1" using L tr by (simp add: pq_elems_def)
    show "kept (pq_elems q) s1 s'" using f(2) el by (simp add: s'_def sl)
  qed
  moreover have "pq_same q q'" using sm by (simp add: q'_def pq_same_def)
  ultimately show ?thesis by (simp add: pq_inv_def)
qed

lemma bubble_up_correct:
  assumes "pq_uses cmp gpri spri gpos spos q" and "pq_hole okelem q s i (d q i)"
    and "hole_up cmp (\<lambda>k. gpri s (d q k)) (psize q) i" and "bubble_up q s i = (q', s')"
  shows "pq_same q q' \<and> pq_inv okelem q' s' \<and> pq_elems q' = pq_elems q \<and> kept (pq_elems q) s s'"
proof -
  have cb: "getpri q = gpri" "setpos q = spos" using assms(1) by (simp_all add: pq_uses_def)
  obtain q1 s1 j where L: "bubble_up_loop q s i (gpri s (d q i)) = (q1, s1, j)"
    by (metis prod_cases3)
  have "hole_up cmp (hole_pri q s i (d q i)) (psize q) i"
    using assms(3) by (simp add: hole_pri_def cb comp_def)
  from sift_fill [OF assms(1) refl bubble_up_loop_correct [OF assms(1,2) this refl L]] assms(4)
  show ?thesis by (auto simp: bubble_up_def cb L Let_def)
qed

lemma percolate_down_correct:
  assumes "pq_uses cmp gpri spri gpos spos q" and "pq_hole okelem q s i (d q i)"
    and "hole_down cmp (\<lambda>k. gpri s (d q k)) (psize q) i" and "percolate_down q s i = (q', s')"
  shows "pq_same q q' \<and> pq_inv okelem q' s' \<and> pq_elems q' = pq_elems q \<and> kept (pq_elems q) s s'"
proof -
  have cb: "getpri q = gpri" "setpos q = spos" using assms(1) by (simp_all add: pq_uses_def)
  obtain q1 s1 j where L: "percolate_down_loop q s i (gpri s (d q i)) = (q1, s1, j)"
    by (metis prod_cases3)
  have "hole_down cmp (hole_pri q s i (d q i)) (psize q) i"
    using assms(3) by (simp add: hole_pri_def cb comp_def)
  from sift_fill [OF assms(1) refl percolate_down_loop_correct [OF assms(1,2) this refl L]] assms(4)
  show ?thesis by (auto simp: percolate_down_def cb L Let_def)
qed

text \<open>The root outranks every element.\<close>

lemma root_best:
  assumes u: "pq_uses cmp gpri spri gpos spos q" and inv: "pq_inv okelem q s"
  shows "1 \<le> j \<Longrightarrow> j < psize q \<Longrightarrow> \<not> cmp (gpri s (d q 1)) (gpri s (d q j))"
proof (induction j rule: less_induct)
  case (less j)
  show ?case
  proof (cases "j = 1")
    case False
    then have "\<not> cmp (gpri s (d q 1)) (gpri s (d q (j div 2)))"
      using less by (intro less.IH) auto
    moreover have "\<not> cmp (gpri s (d q (j div 2))) (gpri s (d q j))"
      using pq_invD(6) [OF inv, of j] u less.prems False by (simp add: pq_uses_def)
    ultimately show ?thesis by (rule cmp_negtrans)
  qed simp
qed

lemma heap_link:
  assumes "pq_uses cmp gpri spri gpos spos q" and "pq_inv okelem q s" and "k \<in> {2..<psize q}"
  shows "\<not> cmp (gpri s (d q (k div 2))) (gpri s (d q k))"
  using pq_invD(6) [OF assms(2,3)] assms(1) by (simp add: pq_uses_def)

lemma heap_link2:
  assumes "pq_uses cmp gpri spri gpos spos q" and "pq_inv okelem q s"
    and "k \<in> {2..<psize q}" and "k div 2 = i" and "1 < i"
  shows "\<not> cmp (gpri s (d q (i div 2))) (gpri s (d q k))"
proof (rule cmp_negtrans)
  show "\<not> cmp (gpri s (d q (i div 2))) (gpri s (d q i))"
    using assms(3-5) by (intro heap_link [OF assms(1,2)]) auto
  show "\<not> cmp (gpri s (d q i)) (gpri s (d q k))"
    using heap_link [OF assms(1-3)] assms(4) by simp
qed

theorem insert_correct:
  assumes u: "pq_uses cmp gpri spri gpos spos q" and inv: "pq_inv okelem q s"
    and e: "okelem s e" "e \<notin> pq_elems q" and room: "psize q < avail q"
  shows "\<exists>q' s'. pqueue_insert (Some q) s e = Some (Some q', s', 0)
    \<and> pq_uses cmp gpri spri gpos spos q' \<and> pq_inv okelem q' s'
    \<and> psize q' = psize q + 1 \<and> avail q' = avail q
    \<and> pq_elems q' = insert e (pq_elems q) \<and> kept (insert e (pq_elems q)) s s'"
proof -
  let ?n = "psize q" and ?q = "q\<lparr>psize := psize q + 1, d := (d q)(psize q := e)\<rparr>"
  obtain q' s' where b: "bubble_up ?q s ?n = (q', s')" by (metis surj_pair)
  have n: "1 \<le> ?n" by (rule pq_invD(1) [OF inv])
  have u': "pq_uses cmp gpri spri gpos spos ?q" using u by (simp add: pq_uses_def)
  have sl: "pq_slots (q\<lparr>psize := Suc ?n\<rparr>) = insert ?n (pq_slots q)"
    using n by (auto simp: pq_slots_def)
  have nn: "?n \<notin> pq_slots q" by (simp add: pq_slots_def)
  have el: "pq_elems ?q = insert e (pq_elems q)"
    using nn by (auto simp: pq_elems_def sl image_iff)
  have "pq_hole okelem ?q s ?n (d ?q ?n)"
  proof (rule pq_holeI)
    have "inj_on ((d q)(?n := e)) (pq_slots q)"
      using pq_invD(3) [OF inv] nn by (simp add: inj_on_fun_updI e(2)[unfolded pq_elems_def])
    then show "inj_on ((d ?q)(?n := d ?q ?n)) (pq_slots ?q)"
      using nn e(2) by (auto simp: sl pq_elems_def)
  qed (use n room e pq_invD(4,5) [OF inv] in \<open>auto simp: sl\<close>)
  moreover have "hole_up cmp (\<lambda>k. gpri s (d ?q k)) (psize ?q) ?n"
    unfolding hole_up_def
    using pq_invD(6) [OF inv] u by (auto simp: pq_uses_def)
  ultimately have "pq_same ?q q' \<and> pq_inv okelem q' s' \<and> pq_elems q' = pq_elems ?q
      \<and> kept (pq_elems ?q) s s'"
    using bubble_up_correct [OF u'] b by blast
  then show ?thesis
    using room b el u by (auto simp: pqueue_insert_def Let_def pq_same_def pq_uses_def)
qed


theorem change_priority_correct:
  assumes u: "pq_uses cmp gpri spri gpos spos q" and inv: "pq_inv okelem q s"
    and e: "e \<in> pq_elems q" and v: "okpri v"
    and run: "pqueue_change_priority q s v e = (q', s')"
  shows "pq_same q q' \<and> pq_inv okelem q' s' \<and> pq_elems q' = pq_elems q
    \<and> kept (pq_elems q) (spri s e v) s'"
proof -
  let ?s = "spri s e v" and ?a = "\<lambda>k. gpri s (d q k)" and ?b = "\<lambda>k. gpri (spri s e v) (d q k)"
  have cb: "cmppri q = cmp" "getpri q = gpri" "setpri q = spri" "getpos q = gpos"
    using u by (simp_all add: pq_uses_def)
  obtain i where i: "i \<in> pq_slots q" "e = d q i" using e by (auto simp: pq_elems_def)
  have pos: "gpos s e = i" using pq_invD(5) [OF inv i(1)] i(2) cb by simp
  have ok: "okelem s e" using pq_invD(4) [OF inv i(1)] i(2) by simp
  have b: "?b k = (if k = i then v else ?a k)" if "k \<in> pq_slots q" for k
    using gpri_spri [OF ok v, of "d q k"] inj_on_eq_iff [OF pq_invD(3) [OF inv] that i(1)] i(2)
    by simp
  note hp = heap_link [OF u inv] and up2 = heap_link2 [OF u inv]
  have hole: "pq_hole okelem q ?s i (d q i)"
    by (rule pq_holeI) (use pq_invD(1-5) [OF inv] i in \<open>simp_all add: cb\<close>)
  have in_slots: "k \<in> pq_slots q" "k div 2 \<in> pq_slots q" if "k \<in> {2..<psize q}" for k
    using that by (auto simp: pq_slots_def)
  show ?thesis
  proof (cases "cmp (gpri s e) v")
    case True
    have new: "\<not> cmp v (?a k)" if "k \<in> {2..<psize q}" "k div 2 = i" for k
      using cmp_negtrans [OF cmp_asym [OF True]] hp [OF that(1)] that(2) i(2) by simp
    have "hole_up cmp ?b (psize q) i"
      unfolding hole_up_def using hp new up2 in_slots i(1) by (auto simp: b pq_slots_def)
    from bubble_up_correct [OF u hole this] show ?thesis
      using run True by (simp add: pqueue_change_priority_def Let_def cb pos)
  next
    case False
    have new: "\<not> cmp (?a (i div 2)) v" if "1 < i"
      using cmp_negtrans [OF hp [of i]] False that i by (simp add: pq_slots_def)
    have "hole_down cmp ?b (psize q) i"
      unfolding hole_down_def using hp new up2 in_slots i(1) by (auto simp: b pq_slots_def)
    from percolate_down_correct [OF u hole this] show ?thesis
      using run False by (simp add: pqueue_change_priority_def Let_def cb pos)
  qed
qed

text \<open>Taking the last element for the root keeps everything but the links of the root.\<close>

lemma move_last_to:
  assumes u: "pq_uses cmp gpri spri gpos spos q" and inv: "pq_inv okelem q s"
    and i: "i \<in> pq_slots q" "i \<noteq> psize q - 1"
  defines "q1 \<equiv> q\<lparr>psize := psize q - 1, d := (d q)(i := d q (psize q - 1))\<rparr>"
  shows "pq_hole okelem q1 s i (d q1 i)" and "pq_elems q1 = pq_elems q - {d q i}"
proof -
  let ?n = "psize q - 1"
  have n: "?n \<in> pq_slots q" using i by (auto simp: pq_slots_def)
  have sl: "pq_slots q = insert ?n (pq_slots q1)" "?n \<notin> pq_slots q1" "i \<in> pq_slots q1"
    using i n by (auto simp: pq_slots_def q1_def)
  have inj: "inj_on (d q) (insert ?n (pq_slots q1))" using pq_invD(3) [OF inv] sl by simp
  have inj1: "inj_on (d q1) (pq_slots q1)"
    using inj sl(2) unfolding inj_on_def q1_def by (auto split: if_splits)
  show "pq_hole okelem q1 s i (d q1 i)"
  proof (rule pq_holeI)
    show "okelem s (((d q1)(i := d q1 i)) j)" if "j \<in> pq_slots q1" for j
      using that pq_invD(4) [OF inv] n sl(1) by (auto simp: q1_def)
    show "getpos q1 s (((d q1)(i := d q1 i)) j) = j" if "j \<in> pq_slots q1" "j \<noteq> i" for j
      using that pq_invD(5) [OF inv, of j] sl(1) by (simp add: q1_def)
  qed (use inj1 pq_invD(1,2) [OF inv] sl(3) in \<open>auto simp: q1_def pq_slots_def\<close>)
  have "d q ` insert ?n (pq_slots q1) - {d q i} = d q ` (insert ?n (pq_slots q1) - {i})"
    using inj sl by (auto simp: inj_on_def)
  moreover have "d q1 ` pq_slots q1 = d q ` (insert ?n (pq_slots q1) - {i})"
    using sl i by (auto simp: q1_def image_iff)
  ultimately show "pq_elems q1 = pq_elems q - {d q i}"
    by (simp add: pq_elems_def sl(1))
qed

text \<open>Dropping the last slot: the sift that follows has nothing to do.\<close>

lemma drop_last:
  assumes u: "pq_uses cmp gpri spri gpos spos q" and inv: "pq_inv okelem q s"
    and i: "i \<in> pq_slots q" "i = psize q - 1"
    and p: "percolate_down (q\<lparr>psize := psize q - 1, d := (d q)(i := d q (psize q - 1))\<rparr>) s i = (q', s')"
  shows "pq_same (q\<lparr>psize := psize q - 1, d := (d q)(i := d q (psize q - 1))\<rparr>) q'
    \<and> pq_inv okelem q' s' \<and> pq_elems q' = pq_elems q - {d q i} \<and> kept (pq_elems q) s s'"
proof -
  let ?q = "q\<lparr>psize := psize q - 1\<rparr>" and ?e = "d q i"
  have cb: "getpri q = gpri" "getpos q = gpos" "setpos q = spos" "cmppri q = cmp"
    using u by (simp_all add: pq_uses_def)
  have "maxchild ?q s i = 0" using i by (simp add: maxchild_def left_def pq_slots_def)
  from percolate_stop [OF this] p have eq: "q' = ?q" "s' = spos s ?e i"
    using i(2) by (auto simp: percolate_down_def cb)
  have ok: "okelem s ?e" by (rule pq_invD(4) [OF inv i(1)])
  have sub: "pq_slots q = insert i (pq_slots q')" "i \<notin> pq_slots q'"
    using i by (auto simp: eq pq_slots_def)
  have inj: "inj_on (d q) (insert i (pq_slots q'))" using pq_invD(3) [OF inv] sub by simp
  have far: "d q j \<noteq> ?e" if "j \<in> pq_slots q'" for j
    using inj that sub(2) by (auto simp: inj_on_def)
  have "gpos s' (d q j) = j" if "j \<in> pq_slots q'" for j
    using pq_invD(5) [OF inv, of j] far [OF that] that sub(1) ok by (simp add: eq(2) gpos_spos cb)
  then have "pq_inv okelem q' s'"
    unfolding pq_inv_def pq_placed_def pq_heap_def
    using i inj pq_invD(2,4,6) [OF inv] sub(1)
    by (auto simp: eq cb pq_slots_def parent_def)
  moreover have "pq_elems q' = pq_elems q - {?e}"
    using far unfolding pq_elems_def sub(1) by (auto simp: eq(1))
  moreover have "kept (pq_elems q) s s'"
    unfolding eq using i(1) by (intro kept_spos [OF ok]) (simp add: pq_elems_def)
  ultimately show ?thesis by (simp add: eq pq_same_def)
qed

theorem pop_correct:
  assumes u: "pq_uses cmp gpri spri gpos spos q" and inv: "pq_inv okelem q s"
    and ne: "pq_elems q \<noteq> {}"
  shows "\<exists>q' s' e. pqueue_pop (Some q) s = (Some q', s', Some e) \<and> e \<in> pq_elems q
    \<and> (\<forall>x\<in>pq_elems q. \<not> cmp (gpri s e) (gpri s x))
    \<and> pq_uses cmp gpri spri gpos spos q' \<and> pq_inv okelem q' s'
    \<and> psize q' = psize q - 1 \<and> avail q' = avail q
    \<and> pq_elems q' = pq_elems q - {e} \<and> kept (pq_elems q) s s'"
proof -
  let ?n = "psize q - 1" and ?q = "q\<lparr>psize := psize q - 1, d := (d q)(1 := d q (psize q - 1))\<rparr>"
  have sz: "1 < psize q" using ne by (auto simp: pq_elems_def pq_slots_def)
  have one: "1 \<in> pq_slots q" using sz by (simp add: pq_slots_def)
  have best: "\<forall>x\<in>pq_elems q. \<not> cmp (gpri s (d q 1)) (gpri s x)"
    using root_best [OF u inv] by (auto simp: pq_elems_iff)
  obtain q' s' where p: "percolate_down ?q s 1 = (q', s')" by (metis surj_pair)
  have run: "pqueue_pop (Some q) s = (Some q', s', Some (d q 1))"
    using sz p by (simp add: pqueue_pop_def Let_def)
  have u': "pq_uses cmp gpri spri gpos spos ?q" using u by (simp add: pq_uses_def)
  have "pq_same ?q q' \<and> pq_inv okelem q' s' \<and> pq_elems q' = pq_elems q - {d q 1}
     \<and> kept (pq_elems q) s s'"
  proof (cases "?n = 1")
    case True
    show ?thesis by (rule drop_last [OF u inv one True [symmetric] p])
  next
    case False
    note m = move_last_to [OF u inv one False [symmetric]]
    have "hole_down cmp (\<lambda>k. gpri s (d ?q k)) (psize ?q) 1"
      unfolding hole_down_def using heap_link [OF u inv] by auto
    from percolate_down_correct [OF u' m(1) this p] show ?thesis
      unfolding m(2) by (auto simp: kept_def)
  qed
  then show ?thesis
    using run best u pq_elems_iff [of "d q 1" q] sz by (auto simp: pq_same_def pq_uses_def)
qed


theorem remove_correct:
  assumes u: "pq_uses cmp gpri spri gpos spos q" and inv: "pq_inv okelem q s"
    and e: "e \<in> pq_elems q"
  shows "\<exists>q' s'. pqueue_remove q s e = (q', s', 0)
    \<and> pq_uses cmp gpri spri gpos spos q' \<and> pq_inv okelem q' s'
    \<and> psize q' = psize q - 1 \<and> avail q' = avail q
    \<and> pq_elems q' = pq_elems q - {e} \<and> kept (pq_elems q) s s'"
proof -
  let ?n = "psize q - 1"
  have cb: "cmppri q = cmp" "getpri q = gpri" "getpos q = gpos" "setpos q = spos"
    using u by (simp_all add: pq_uses_def)
  obtain i where i: "i \<in> pq_slots q" "e = d q i" using e by (auto simp: pq_elems_def)
  have pos: "gpos s e = i" using pq_invD(5) [OF inv i(1)] i(2) cb by simp
  let ?q = "q\<lparr>psize := ?n, d := (d q)(i := d q ?n)\<rparr>"
  have u': "pq_uses cmp gpri spri gpos spos ?q" using u by (simp add: pq_uses_def)
  obtain q' s' where
    p: "(if cmp (gpri s e) (gpri s (d q ?n)) then bubble_up ?q s i else percolate_down ?q s i) = (q', s')"
    by (metis surj_pair)
  have run: "pqueue_remove q s e = (q', s', 0)"
    using p by (auto simp: pqueue_remove_def Let_def cb pos split: if_splits)
  have "pq_same ?q q' \<and> pq_inv okelem q' s' \<and> pq_elems q' = pq_elems q - {e} \<and> kept (pq_elems q) s s'"
  proof (cases "i = ?n")
    case True
    have "d q ?n = e" using True i(2) by simp
    then have "percolate_down ?q s i = (q', s')" using p by simp
    from drop_last [OF u inv i(1) True this] show ?thesis unfolding i(2) .
  next
    case False
    note m = move_last_to [OF u inv i(1) False]
    note hp = heap_link [OF u inv] and up2 = heap_link2 [OF u inv]
    have el: "kept (pq_elems q - {e}) s s' \<Longrightarrow> kept (pq_elems q) s s'"
      by (simp add: kept_def)
    show ?thesis
    proof (cases "cmp (gpri s e) (gpri s (d q ?n))")
      case True
      have "\<not> cmp (gpri s (d q ?n)) (gpri s (d q k))" if "k \<in> {2..<psize q}" "k div 2 = i" for k
        using cmp_negtrans [OF cmp_asym [OF True]] hp [OF that(1)] that(2) i(2) by simp
      then have "hole_up cmp (\<lambda>k. gpri s (d ?q k)) (psize ?q) i"
        unfolding hole_up_def using hp up2 by auto
      from bubble_up_correct [OF u' m(1) this] p True show ?thesis
        unfolding m(2) i(2) [symmetric] using el by auto
    next
      case no: False
      have "\<not> cmp (gpri s (d q (i div 2))) (gpri s (d q ?n))" if "1 < i"
        using cmp_negtrans [OF hp [of i]] no that i by (simp add: pq_slots_def)
      then have "hole_down cmp (\<lambda>k. gpri s (d ?q k)) (psize ?q) i"
        unfolding hole_down_def using hp up2 i(1) by (auto simp: pq_slots_def)
      from percolate_down_correct [OF u' m(1) this] p no show ?thesis
        unfolding m(2) i(2) [symmetric] using el by auto
    qed
  qed
  then show ?thesis using run u by (auto simp: pq_same_def pq_uses_def)
qed

end

section \<open>The checker\<close>

text \<open>The run-time checker decides exactly the heap order.\<close>

lemma subtree_is_valid_if_heap: "pq_heap q s \<Longrightarrow> 0 < pos \<Longrightarrow> subtree_is_valid q s pos"
proof (induction q s pos rule: subtree_is_valid.induct)
  case (1 q s pos)
  have "\<not> cmppri q (getpri q s (d q pos)) (getpri q s (d q j))"
    if "j = left pos \<or> j = right pos" "j < psize q" for j
    using that "1.prems" unfolding pq_heap_def by (auto simp: left_def right_def parent_def dest!: bspec [of _ _ j])
  then show ?case
    using "1.IH" "1.prems" by (subst subtree_is_valid.simps) (auto simp: left_def right_def)
qed

lemma pqueue_is_valid_iff: "pqueue_is_valid q s \<longleftrightarrow> pq_heap q s"
proof
  assume valid: "pqueue_is_valid q s"
  have sub: "1 \<le> j \<Longrightarrow> j < psize q \<or> j = 1 \<Longrightarrow> subtree_is_valid q s j" for j
  proof (induction j rule: less_induct)
    case (less j)
    show ?case
    proof (cases "j = 1")
      case True
      then show ?thesis using valid by (simp add: pqueue_is_valid_def)
    next
      case False
      then have v: "subtree_is_valid q s (j div 2)" using less by (intro less.IH) auto
      have "j = left (j div 2) \<or> j = right (j div 2)" by (auto simp: left_def right_def)
      then show ?thesis
        using v less.prems False by (subst (asm) subtree_is_valid.simps) (auto split: if_splits)
    qed
  qed
  show "pq_heap q s"
    unfolding pq_heap_def
  proof
    fix j assume j: "j \<in> {2..<psize q}"
    then have v: "subtree_is_valid q s (j div 2)" by (intro sub) auto
    have "j = left (j div 2) \<or> j = right (j div 2)" by (auto simp: left_def right_def)
    then show "\<not> cmppri q (getpri q s (d q (parent j))) (getpri q s (d q j))"
      using v j by (subst (asm) subtree_is_valid.simps) (auto simp: parent_def split: if_splits)
  qed
next
  assume "pq_heap q s"
  then show "pqueue_is_valid q s"
    unfolding pqueue_is_valid_def by (rule subtree_is_valid_if_heap) simp
qed

end
