(* ===== verification/Conv_Line.thy ===== *)
theory Conv_Line
  imports Pqueue
begin

text \<open>
  The lines (superblocks) of the conventional FTL and the callbacks through which the victim
  queue reads and writes them (\<open>conv_ftl.h\<close>, \<open>conv_ftl.c\<close>). The array
  \<open>lm->lines\<close> is a function of the line number; a pointer to a line is its number. The
  list links of a line are kept in the lists of the line manager, not here.

  The interpretation at the end discharges the contract of the priority queue for these
  callbacks; the properties of the victim queue are its consequences.
\<close>

record line =
  lid :: int
  ipc :: int
  vpc :: int
  pos :: nat

type_synonym lines = "nat \<Rightarrow> line"

definition victim_line_cmp_pri :: "pqueue_pri \<Rightarrow> pqueue_pri \<Rightarrow> bool" where
  "victim_line_cmp_pri next_pri curr_pri = (next_pri > curr_pri)"

text \<open>\<open>vpc\<close> is a C int: it is converted to the unsigned 64-bit priority and back.\<close>

definition victim_line_get_pri :: "lines \<Rightarrow> nat \<Rightarrow> pqueue_pri" where
  "victim_line_get_pri lines a = word_of_int (vpc (lines a))"

definition victim_line_set_pri :: "lines \<Rightarrow> nat \<Rightarrow> pqueue_pri \<Rightarrow> lines" where
  "victim_line_set_pri lines a pri =
     lines(a := (lines a)\<lparr>vpc := sint (ucast pri :: 32 word)\<rparr>)"

definition victim_line_get_pos :: "lines \<Rightarrow> nat \<Rightarrow> nat" where
  "victim_line_get_pos lines a = pos (lines a)"

definition victim_line_set_pos :: "lines \<Rightarrow> nat \<Rightarrow> nat \<Rightarrow> lines" where
  "victim_line_set_pos lines a p = lines(a := (lines a)\<lparr>pos := p\<rparr>)"

lemmas victim_line_defs [flax_defs] =
  victim_line_get_pri_def victim_line_set_pri_def victim_line_get_pos_def victim_line_set_pos_def

text \<open>A priority that fits the int field survives the round trip.\<close>

definition vpc_range :: "pqueue_pri \<Rightarrow> bool" where
  "vpc_range v \<longleftrightarrow> unat v < 2 ^ 31"

text \<open>The element predicate: a line carries its own number.\<close>

definition line_numbered :: "lines \<Rightarrow> nat \<Rightarrow> bool" where
  "line_numbered lines a \<longleftrightarrow> lid (lines a) = int a"

definition but_pos :: "lines \<Rightarrow> nat \<Rightarrow> int \<times> int \<times> int" where
  "but_pos lines a = (lid (lines a), ipc (lines a), vpc (lines a))"

lemma sint_ucast_small:
  assumes "vpc_range v"
  shows "sint (ucast v :: 32 word) = uint v"
proof -
  have "int (unat v) < int (2 ^ 31)" using assms unfolding vpc_range_def by (simp only: of_nat_less_iff)
  then have lt: "uint v < 2 ^ 31" by simp
  then have "take_bit 32 (uint v) = uint v" by (intro take_bit_int_eq_self) simp_all
  moreover have "signed_take_bit 31 (uint v) = uint v"
    using lt by (intro signed_take_bit_int_eq_self) (auto intro: order_trans [OF _ uint_ge_0])
  ultimately show ?thesis by (simp add: sint_uint unsigned_ucast_eq)
qed

lemma victim_line_pri_roundtrip:
  "vpc_range v \<Longrightarrow> victim_line_get_pri (victim_line_set_pri lines a v) x
     = (if x = a then v else victim_line_get_pri lines x)"
  by (simp add: flax_defs sint_ucast_small)

interpretation vl: pq_element victim_line_cmp_pri victim_line_get_pri victim_line_set_pri
    victim_line_get_pos victim_line_set_pos line_numbered vpc_range but_pos
proof
  show "\<lbrakk>line_numbered s e; vpc_range v\<rbrakk> \<Longrightarrow> victim_line_get_pri (victim_line_set_pri s e v) x
      = (if x = e then v else victim_line_get_pri s x)" for s e v x
    by (rule victim_line_pri_roundtrip)
qed (auto simp: flax_defs victim_line_cmp_pri_def but_pos_def line_numbered_def fun_eq_iff)

section \<open>The victim queue\<close>

definition victim_pq :: "(lines, nat) pqueue_t \<Rightarrow> lines \<Rightarrow> bool" where
  "victim_pq q lines \<longleftrightarrow>
     pq_uses victim_line_cmp_pri victim_line_get_pri victim_line_set_pri
       victim_line_get_pos victim_line_set_pos q
     \<and> pq_inv line_numbered q lines"

text \<open>Only positions change, and only those of the lines in \<open>X\<close>.\<close>

definition repositioned :: "nat set \<Rightarrow> lines \<Rightarrow> lines \<Rightarrow> bool" where
  "repositioned X lines lines' \<longleftrightarrow>
     (\<forall>a. lines' a = (lines a)\<lparr>pos := pos (lines' a)\<rparr>) \<and> (\<forall>a. a \<notin> X \<longrightarrow> lines' a = lines a)"

lemma repositioned_kept:
  "vl.kept X lines lines' \<Longrightarrow> repositioned X lines lines'"
proof -
  assume k: "vl.kept X lines lines'"
  have eq: "lines' a = (lines a)\<lparr>pos := pos (lines' a)\<rparr>" for a
  proof -
    have "but_pos lines' a = but_pos lines a" using k by (simp add: vl.kept_def)
    then show ?thesis by (cases "lines a"; cases "lines' a") (simp add: but_pos_def)
  qed
  moreover have "lines' a = lines a" if "a \<notin> X" for a
  proof -
    have "pos (lines' a) = pos (lines a)"
      using k that by (simp add: vl.kept_def victim_line_get_pos_def)
    then show ?thesis using eq [of a] by simp
  qed
  ultimately show ?thesis by (simp add: repositioned_def)
qed

text \<open>A small queue of two lines, used to instantiate the properties.\<close>

definition sample_lines :: lines where
  "sample_lines a = \<lparr>lid = int a, ipc = 1, vpc = int a, pos = (if a = 1 \<or> a = 2 then a else 0)\<rparr>"

definition sample_pq :: "(lines, nat) pqueue_t" where
  "sample_pq = \<lparr>psize = 3, avail = 5, step = 5, cmppri = victim_line_cmp_pri,
     getpri = victim_line_get_pri, setpri = victim_line_set_pri,
     getpos = victim_line_get_pos, setpos = victim_line_set_pos, d = (\<lambda>i. i)\<rparr>"

lemma atLeastLessThan_sample: "{Suc 0..<3} = {1, 2}" "{2..<3} = {2::nat}"
  by auto

lemma sample_pq_ok: "victim_pq sample_pq sample_lines" "pq_elems sample_pq = {1, 2}"
  by (simp_all add: victim_pq_def pq_uses_def pq_inv_def pq_placed_def pq_heap_def pq_slots_def
      pq_elems_def sample_pq_def sample_lines_def atLeastLessThan_sample flax_defs
      victim_line_cmp_pri_def line_numbered_def)

text \<open>
  C9. Popping a well-formed, non-empty victim queue returns a member whose valid-page count is
  least among all members; what is left is a well-formed queue of exactly the other lines, and
  the line records change in their position field only.
\<close>

theorem victim_pop_least:
  assumes "victim_pq q lines" and "pq_elems q \<noteq> {}"
  shows "\<exists>q' lines' e. pqueue_pop (Some q) lines = (Some q', lines', Some e)
    \<and> e \<in> pq_elems q
    \<and> (\<forall>x\<in>pq_elems q. victim_line_get_pri lines e \<le> victim_line_get_pri lines x)
    \<and> victim_pq q' lines' \<and> psize q' = psize q - 1 \<and> avail q' = avail q
    \<and> pq_elems q' = pq_elems q - {e} \<and> repositioned (pq_elems q) lines lines'"
  using vl.pop_correct [of q lines] assms repositioned_kept
  unfolding victim_pq_def victim_line_cmp_pri_def not_less by metis

theorem victim_pop_least_witness:
  "victim_pq sample_pq sample_lines \<and> pq_elems sample_pq \<noteq> {}
   \<and> (\<exists>q' lines' e. pqueue_pop (Some sample_pq) sample_lines = (Some q', lines', Some e)
        \<and> victim_pq q' lines' \<and> pq_elems q' = {1, 2} - {e})"
  using victim_pop_least [OF sample_pq_ok(1)] sample_pq_ok by auto

text \<open>
  Inserting a line that is not queued, while a slot is free, succeeds: the result is a well-
  formed queue of the old lines and the new one, and the line records change in their position
  field only.
\<close>

theorem victim_insert:
  assumes "victim_pq q lines" and "line_numbered lines e" and "e \<notin> pq_elems q" and "psize q < avail q"
  shows "\<exists>q' lines'. pqueue_insert (Some q) lines e = Some (Some q', lines', 0)
    \<and> victim_pq q' lines' \<and> psize q' = psize q + 1 \<and> avail q' = avail q
    \<and> pq_elems q' = insert e (pq_elems q) \<and> repositioned (insert e (pq_elems q)) lines lines'"
  using vl.insert_correct [of q lines e] assms repositioned_kept
  unfolding victim_pq_def by metis

theorem victim_insert_witness:
  "victim_pq sample_pq sample_lines \<and> line_numbered sample_lines 3 \<and> 3 \<notin> pq_elems sample_pq \<and> psize sample_pq < avail sample_pq
   \<and> (\<exists>q' lines'. pqueue_insert (Some sample_pq) sample_lines 3 = Some (Some q', lines', 0)
        \<and> victim_pq q' lines' \<and> pq_elems q' = {1, 2, 3})"
  using victim_insert [OF sample_pq_ok(1), of 3] sample_pq_ok
  by (auto simp: sample_pq_def sample_lines_def line_numbered_def)

text \<open>
  Changing the priority of a queued line keeps the queue well formed with the same members,
  whichever way the line moves; the line has the new valid-page count and no other field of any
  line but positions is touched.
\<close>

theorem victim_change_priority:
  assumes "victim_pq q lines" and "e \<in> pq_elems q" and "vpc_range v"
    and "pqueue_change_priority q lines v e = (q', lines')"
  shows "victim_pq q' lines' \<and> psize q' = psize q \<and> pq_elems q' = pq_elems q
    \<and> victim_line_get_pri lines' e = v
    \<and> repositioned (pq_elems q) (victim_line_set_pri lines e v) lines'"
proof -
  let ?l = "victim_line_set_pri lines e v"
  have r: "pq_same q q' \<and> pq_inv line_numbered q' lines' \<and> pq_elems q' = pq_elems q
      \<and> vl.kept (pq_elems q) ?l lines'"
    using assms by (intro vl.change_priority_correct) (simp_all add: victim_pq_def)
  then have sm: "pq_same q q'" and k: "vl.kept (pq_elems q) ?l lines'" by simp_all
  have "victim_line_get_pri lines' = victim_line_get_pri ?l" using k unfolding vl.kept_def by (rule conjunct1)
  then have "victim_line_get_pri lines' e = v" using victim_line_pri_roundtrip [OF assms(3)] by simp
  moreover have "psize q' = psize q" using sm by (simp add: pq_same_def)
  ultimately show ?thesis
    using assms(1) r repositioned_kept [OF k] unfolding victim_pq_def pq_uses_same [OF sm] by simp
qed

theorem victim_change_priority_witness:
  "\<exists>q' lines'. pqueue_change_priority sample_pq sample_lines 0 2 = (q', lines')
     \<and> victim_pq q' lines' \<and> victim_line_get_pri lines' 2 = 0 \<and> pq_elems q' = {1, 2}"
proof -
  obtain q' lines' where r: "pqueue_change_priority sample_pq sample_lines 0 2 = (q', lines')"
    by (metis surj_pair)
  from victim_change_priority [OF sample_pq_ok(1) _ _ r] r show ?thesis
    using sample_pq_ok by (simp add: vpc_range_def)
qed

text \<open>
  Removing a queued line from any slot leaves a well-formed queue of exactly the other
  lines.
\<close>

theorem victim_remove:
  assumes "victim_pq q lines" and "e \<in> pq_elems q"
  shows "\<exists>q' lines'. pqueue_remove q lines e = (q', lines', 0)
    \<and> victim_pq q' lines' \<and> psize q' = psize q - 1
    \<and> pq_elems q' = pq_elems q - {e} \<and> repositioned (pq_elems q) lines lines'"
  using vl.remove_correct [of q lines e] assms repositioned_kept
  unfolding victim_pq_def by metis

theorem victim_remove_witness:
  "2 \<in> pq_elems sample_pq \<and> (\<exists>q' lines'. pqueue_remove sample_pq sample_lines 2 = (q', lines', 0)
     \<and> victim_pq q' lines' \<and> pq_elems q' = {1})"
  using victim_remove [OF sample_pq_ok(1), of 2] sample_pq_ok by auto


end
