(* ===== verification/Channel.thy ===== *)
theory Channel
  imports Flax_Prelude
begin

text \<open>
  The bandwidth model of a NAND channel or of the PCIe link, \<open>channel_model.c\<close>: a ring of
  time slots, each with the transfer credits that are left in it. A request takes its credits from
  the slot of its start time on. Indices into the ring are natural numbers below
  \<open>NR_CREDIT_ENTRIES\<close>; times, credits and latencies are machine words. The clock is an
  argument.
\<close>

section \<open>Data\<close>

definition NR_CREDIT_ENTRIES :: nat where
  "NR_CREDIT_ENTRIES = 1024 * 1024"

definition UNIT_TIME_INTERVAL :: u64 where
  "UNIT_TIME_INTERVAL = 4000"

definition UNIT_XFER_SIZE :: u64 where
  "UNIT_XFER_SIZE = 128"

definition UNIT_XFER_CREDITS :: u32 where
  "UNIT_XFER_CREDITS = 1"

definition NS_PER_SEC :: "u64 \<Rightarrow> u64" where
  "NS_PER_SEC s = s * 1000 * 1000 * 1000"

definition BANDWIDTH_TO_TX_TIME :: "u64 \<Rightarrow> u64" where
  "BANDWIDTH_TO_TX_TIME mb_s = (UNIT_XFER_SIZE * NS_PER_SEC 1) div MB mb_s"

definition BANDWIDTH_TO_MAX_CREDITS :: "u64 \<Rightarrow> u64" where
  "BANDWIDTH_TO_MAX_CREDITS mb_s =
     MB mb_s * UNIT_TIME_INTERVAL div NS_PER_SEC 1 div UNIT_XFER_SIZE * ucast UNIT_XFER_CREDITS"

record channel_model =
  cur_time :: u64
  head :: nat
  valid_len :: nat
  max_credits :: u32
  command_credits :: u32
  xfer_lat :: u32
  avail_credits :: "nat \<Rightarrow> u8"

section \<open>Operations\<close>

text \<open>\<open>memset\<close> of a part of the credit array; the value is cut to a byte.\<close>

definition memset_credits :: "(nat \<Rightarrow> u8) \<Rightarrow> nat \<Rightarrow> u32 \<Rightarrow> nat \<Rightarrow> nat \<Rightarrow> u8" where
  "memset_credits cr start v n = (\<lambda>i. if start \<le> i \<and> i < start + n then ucast v else cr i)"

definition chmodel_init :: "(nat \<Rightarrow> u8) \<Rightarrow> u64 \<Rightarrow> channel_model" where
  "chmodel_init junk bandwidth =
     (let mc = ucast (BANDWIDTH_TO_MAX_CREDITS bandwidth)
      in \<lparr>cur_time = 0, head = 0, valid_len = 0, max_credits = mc, command_credits = 0,
          xfer_lat = ucast (BANDWIDTH_TO_TX_TIME bandwidth),
          avail_credits = memset_credits junk 0 mc NR_CREDIT_ENTRIES\<rparr>)"

text \<open>Moving the head of the ring to the current time and refilling the slots it passes.\<close>

definition chmodel_advance :: "channel_model \<Rightarrow> u64 \<Rightarrow> channel_model" where
  "chmodel_advance ch now =
     (let offs0 = unat (ucast (now div UNIT_TIME_INTERVAL - cur_time ch div UNIT_TIME_INTERVAL) :: u32);
          offs = (if offs0 < valid_len ch then offs0 else valid_len ch);
          cr = (if head ch + offs \<ge> NR_CREDIT_ENTRIES
                then memset_credits (memset_credits (avail_credits ch) (head ch) (max_credits ch) (NR_CREDIT_ENTRIES - head ch))
                       0 (max_credits ch) (offs - (NR_CREDIT_ENTRIES - head ch))
                else memset_credits (avail_credits ch) (head ch) (max_credits ch) offs)
      in ch\<lparr>avail_credits := cr, head := (head ch + offs) mod NR_CREDIT_ENTRIES, cur_time := now,
            valid_len := valid_len ch - offs\<rparr>)"

text \<open>Slots from \<open>pos\<close> to the last one before the head.\<close>

definition slots_left :: "nat \<Rightarrow> nat \<Rightarrow> nat" where
  "slots_left hd0 pos = (hd0 + NR_CREDIT_ENTRIES - pos - 1) mod NR_CREDIT_ENTRIES"

lemma nr_pos [simp]: "0 < NR_CREDIT_ENTRIES"
  by (simp add: NR_CREDIT_ENTRIES_def)

lemma slots_left_next:
  assumes "(pos + 1) mod NR_CREDIT_ENTRIES \<noteq> hd0" and "hd0 < NR_CREDIT_ENTRIES" and "pos < NR_CREDIT_ENTRIES"
  shows "slots_left hd0 ((pos + 1) mod NR_CREDIT_ENTRIES) < slots_left hd0 pos"
proof -
  define N where "N = NR_CREDIT_ENTRIES"
  have N: "hd0 < N" "pos < N" "(pos + 1) mod N \<noteq> hd0" using assms by (simp_all add: N_def)
  have l: "slots_left hd0 p = (if p < hd0 then hd0 - p - 1 else hd0 + N - p - 1)" if "p < N" for p
    using that N(1) by (auto simp: slots_left_def mod_if simp flip: N_def)
  show ?thesis
  proof (cases "pos + 1 < N")
    case True
    then show ?thesis using N l [of pos] l [of "pos + 1"] by (auto simp flip: N_def)
  next
    case False
    then have "pos + 1 = N" using N by simp
    then show ?thesis using N l [of pos] l [of 0] by (auto simp flip: N_def)
  qed
qed

text \<open>
  The loop that takes credits: the credits and position afterwards and the number of slots it moved on;
  \<open>None\<close> when the ring is full.
\<close>

function consume_credits :: "(nat \<Rightarrow> u8) \<Rightarrow> nat \<Rightarrow> nat \<Rightarrow> u32 \<Rightarrow> u32 \<Rightarrow> ((nat \<Rightarrow> u8) \<times> nat \<times> u32) option" where
  "consume_credits cr hd0 pos remaining delay =
     (if \<not> (hd0 < NR_CREDIT_ENTRIES \<and> pos < NR_CREDIT_ENTRIES) then None
      else
        (let consumed = (if remaining \<le> ucast (cr pos) then remaining else ucast (cr pos));
             cr' = cr(pos := cr pos - ucast consumed);
             remaining' = remaining - consumed;
             next_pos = (pos + 1) mod NR_CREDIT_ENTRIES
         in if remaining' \<noteq> 0
            then if next_pos \<noteq> hd0 then consume_credits cr' hd0 next_pos remaining' (delay + 1) else None
            else Some (cr', pos, delay)))"
  by pat_completeness auto
termination
  by (relation "measure (\<lambda>(cr, h, pos, r, d). slots_left h pos)") (auto intro: slots_left_next [simplified])

declare consume_credits.simps [simp del]

definition chmodel_request :: "channel_model \<Rightarrow> u64 \<Rightarrow> u64 \<Rightarrow> u64 \<Rightarrow> (channel_model \<times> u64) option" where
  "chmodel_request ch wallclock request_time len =
     (let units_to_xfer = ucast (DIV_ROUND_UP len UNIT_XFER_SIZE) :: u32;
          now = (if request_time < wallclock then request_time else wallclock);
          ch1 = chmodel_advance ch now;
          request_time_offs = unat (ucast (request_time div UNIT_TIME_INTERVAL - now div UNIT_TIME_INTERVAL) :: u32);
          pos = (head ch1 + request_time_offs) mod NR_CREDIT_ENTRIES;
          remaining = units_to_xfer * UNIT_XFER_CREDITS + command_credits ch1;
          default_delay = remaining div max_credits ch1
      in if valid_len ch1 > NR_CREDIT_ENTRIES \<or> request_time_offs \<ge> NR_CREDIT_ENTRIES \<or> max_credits ch1 = 0 then None
         else
           do {
             (cr, pos', delay0) \<leftarrow> consume_credits (avail_credits ch1) (head ch1) pos remaining 0;
             let valid_length = (if pos' \<ge> head ch1 then pos' - head ch1 + 1 else NR_CREDIT_ENTRIES - (head ch1 - pos' - 1));
             let delay = (if delay0 > default_delay then delay0 - default_delay else 0);
             let total_latency = ucast (xfer_lat ch1 * units_to_xfer) + ucast delay * UNIT_TIME_INTERVAL;
             Some (ch1\<lparr>avail_credits := cr, valid_len := max (valid_len ch1) valid_length\<rparr>, request_time + total_latency)
           })"

section \<open>Credits\<close>

lemma mod_zero_once:
  assumes "(a + k) mod N = 0" and "a < N" and "0 < k" and "k \<le> N"
  shows "a = N - (k :: nat)"
proof -
  have "a + k = N" using assms by (cases "a + k < N") (auto simp: le_mod_geq)
  then show ?thesis by simp
qed

lemma mod_just_below:
  assumes "0 < k" and "k \<le> N" and "0 < M"
  shows "(M * N - k) mod N = N - (k :: nat)"
proof -
  obtain m where "M = Suc m" using assms(3) by (cases M) auto
  then have "M * N - k = m * N + (N - k)" using assms(2) by simp
  moreover have "(m * N + (N - k)) mod N = N - k" using assms by (simp only: mod_mult_self3) simp
  ultimately show ?thesis by simp
qed

definition total_credits :: "(nat \<Rightarrow> u8) \<Rightarrow> nat" where
  "total_credits cr = (\<Sum>i<NR_CREDIT_ENTRIES. unat (cr i))"

lemma total_credits_upd:
  assumes "pos < NR_CREDIT_ENTRIES"
  shows "total_credits (cr(pos := v)) + unat (cr pos) = total_credits cr + unat v"
proof -
  have "total_credits (cr(pos := v)) = unat v + (\<Sum>i\<in>{..<NR_CREDIT_ENTRIES} - {pos}. unat (cr i))"
    unfolding total_credits_def using assms by (subst sum.remove [of _ pos]) auto
  moreover have "total_credits cr = unat (cr pos) + (\<Sum>i\<in>{..<NR_CREDIT_ENTRIES} - {pos}. unat (cr i))"
    unfolding total_credits_def using assms by (subst sum.remove [of _ pos]) auto
  ultimately show ?thesis by simp
qed

lemma consume_step:
  fixes c :: u8 and r :: u32
  defines "k \<equiv> (if r \<le> ucast c then r else ucast c)"
  shows "unat (c - ucast k) + unat k = unat c" and "unat (r - k) + unat k = unat r"
proof -
  have uc: "unat (ucast c :: u32) = unat c"
    using unsigned_less [of c, where 'a = nat] by (simp add: unsigned_ucast_eq take_bit_nat_eq_self_iff)
  then have kc: "unat k \<le> unat c" by (simp add: k_def word_le_nat_alt)
  then have "unat (ucast k :: u8) = unat k"
    using unsigned_less [of c, where 'a = nat] by (simp add: unsigned_ucast_eq take_bit_nat_eq_self_iff)
  then show "unat (c - ucast k) + unat k = unat c" using kc by (simp add: word_le_nat_alt)
  have "k \<le> r" by (simp add: k_def) (metis linear)
  then show "unat (r - k) + unat k = unat r" by (simp add: word_le_nat_alt)
qed

lemma consume_credits_exact:
  "consume_credits cr h pos r d = Some (cr', pos', d') \<Longrightarrow>
     (\<forall>i. cr' i \<le> cr i) \<and> total_credits cr = total_credits cr' + unat r \<and> pos' < NR_CREDIT_ENTRIES"
proof (induction cr h pos r d arbitrary: cr' pos' d' rule: consume_credits.induct)
  case (1 cr h pos r d)
  let ?k = "if r \<le> ucast (cr pos) then r else ucast (cr pos)"
  let ?cr = "cr(pos := cr pos - ucast ?k)"
  have ok: "h < NR_CREDIT_ENTRIES" "pos < NR_CREDIT_ENTRIES" using "1.prems" by (auto simp: consume_credits.simps [of cr] split: if_splits)
  note st = consume_step [where c = "cr pos" and r = r]
  have tot: "total_credits cr = total_credits ?cr + unat ?k"
    using total_credits_upd [OF ok(2), of cr "cr pos - ucast ?k"] st(1) by linarith
  have "unat (cr pos - ucast ?k) \<le> unat (cr pos)" using st(1) by linarith
  then have le: "?cr i \<le> cr i" for i by (simp add: word_le_nat_alt)
  show ?case
  proof (cases "r - ?k = 0")
    case True
    then have "cr' = ?cr" "pos' = pos" using "1.prems" ok by (auto simp: consume_credits.simps [of cr] Let_def)
    moreover have "unat ?k = unat r" using st(2) True by simp
    ultimately show ?thesis using tot le ok by metis
  next
    case False
    then have n: "(pos + 1) mod NR_CREDIT_ENTRIES \<noteq> h"
      and e: "consume_credits ?cr h ((pos + 1) mod NR_CREDIT_ENTRIES) (r - ?k) (d + 1) = Some (cr', pos', d')"
      using "1.prems" ok by (auto simp: consume_credits.simps [of cr] Let_def split: if_splits)
    have IH: "(\<forall>i. cr' i \<le> ?cr i) \<and> total_credits ?cr = total_credits cr' + unat (r - ?k) \<and> pos' < NR_CREDIT_ENTRIES"
      by (rule "1.IH" [OF _ refl refl refl refl _ n e]) (use ok False in auto)
    have "total_credits cr = total_credits cr' + unat r" using IH tot st(2) by linarith
    moreover have "\<forall>i. cr' i \<le> cr i" using IH le order_trans by blast
    ultimately show ?thesis using IH by blast
  qed
qed

section \<open>Properties\<close>

definition credits_ok :: "channel_model \<Rightarrow> bool" where
  "credits_ok ch \<longleftrightarrow> head ch < NR_CREDIT_ENTRIES \<and> valid_len ch \<le> NR_CREDIT_ENTRIES
     \<and> (\<forall>i<NR_CREDIT_ENTRIES. avail_credits ch i \<le> ucast (max_credits ch))"

lemma advance_credits:
  "avail_credits (chmodel_advance ch now) i = avail_credits ch i \<or> avail_credits (chmodel_advance ch now) i = ucast (max_credits ch)"
  by (auto simp: chmodel_advance_def Let_def memset_credits_def)

lemma credits_advance_ok:
  assumes "credits_ok ch"
  shows "credits_ok (chmodel_advance ch now)"
proof -
  have "head (chmodel_advance ch now) < NR_CREDIT_ENTRIES" "max_credits (chmodel_advance ch now) = max_credits ch"
    "valid_len (chmodel_advance ch now) \<le> valid_len ch" by (simp_all add: chmodel_advance_def Let_def)
  then show ?thesis using assms advance_credits [of ch now] unfolding credits_ok_def by (metis order_refl order_trans)
qed

text \<open>
  C32. In a channel as it is initialised, no slot carries more than the refill level \<open>max_credits\<close>. A request
  that is served keeps it so, with the same level: after the clock has moved on it takes exactly its credits, one per
  128 bytes plus the command credits, never more from a slot than is left there, and the ring indices stay in range.
\<close>

theorem chmodel_request_credits:
  assumes ok: "credits_ok ch" and r: "chmodel_request ch wallclock request_time len = Some (ch', t)"
  shows "credits_ok ch' \<and> credits_ok (chmodel_init junk bandwidth) \<and> max_credits ch' = max_credits ch
     \<and> (\<forall>i. avail_credits ch' i \<le> avail_credits (chmodel_advance ch (min request_time wallclock)) i)
     \<and> total_credits (avail_credits (chmodel_advance ch (min request_time wallclock))) = total_credits (avail_credits ch')
         + unat ((ucast (DIV_ROUND_UP len UNIT_XFER_SIZE) :: u32) + command_credits ch)"
proof -
  define now where "now = min request_time wallclock"
  have now: "(if request_time < wallclock then request_time else wallclock) = now" by (auto simp: now_def min_def)
  let ?c = "chmodel_advance ch now"
  have f: "command_credits ?c = command_credits ch" "max_credits ?c = max_credits ch" "head ?c < NR_CREDIT_ENTRIES"
    by (simp_all add: chmodel_advance_def Let_def)
  obtain cr pos' d where c: "consume_credits (avail_credits ?c) (head ?c)
      ((head ?c + unat (ucast (request_time div UNIT_TIME_INTERVAL - now div UNIT_TIME_INTERVAL) :: u32)) mod NR_CREDIT_ENTRIES)
      ((ucast (DIV_ROUND_UP len UNIT_XFER_SIZE) :: u32) + command_credits ch) 0 = Some (cr, pos', d)"
    and ch': "avail_credits ch' = cr" "head ch' = head ?c" "max_credits ch' = max_credits ch"
      "valid_len ch' = max (valid_len ?c) (if pos' \<ge> head ?c then pos' - head ?c + 1 else NR_CREDIT_ENTRIES - (head ?c - pos' - 1))"
    using r f by (auto simp: chmodel_request_def Let_def UNIT_XFER_CREDITS_def now split: if_splits Option.bind_splits)
  note x = consume_credits_exact [OF c]
  have a: "credits_ok ?c" by (rule credits_advance_ok [OF ok])
  have "pos' < NR_CREDIT_ENTRIES" using x by blast
  then have "pos' - head ?c + 1 \<le> NR_CREDIT_ENTRIES" by linarith
  then have "valid_len ch' \<le> NR_CREDIT_ENTRIES" using a unfolding ch'(4) credits_ok_def by (auto simp: max_def)
  moreover have "\<forall>i<NR_CREDIT_ENTRIES. cr i \<le> ucast (max_credits ch)" using a x f(2) order_trans unfolding credits_ok_def by metis
  ultimately have "credits_ok ch'" using f(3) by (simp add: credits_ok_def ch'(1-3))
  moreover have "credits_ok (chmodel_init junk bandwidth)" by (simp add: credits_ok_def chmodel_init_def Let_def memset_credits_def)
  ultimately show ?thesis using x ch' f unfolding now_def [symmetric] by auto
qed

definition sample_channel :: channel_model where
  "sample_channel = chmodel_init (\<lambda>_. 0) 800"

lemma sample_channel_eq:
  "sample_channel = \<lparr>cur_time = 0, head = 0, valid_len = 0, max_credits = 26, command_credits = 0, xfer_lat = 152,
     avail_credits = (\<lambda>i. if i < NR_CREDIT_ENTRIES then 26 else 0)\<rparr>"
  by (simp add: sample_channel_def chmodel_init_def Let_def BANDWIDTH_TO_MAX_CREDITS_def BANDWIDTH_TO_TX_TIME_def
    NS_PER_SEC_def unit_macros UNIT_TIME_INTERVAL_def UNIT_XFER_SIZE_def UNIT_XFER_CREDITS_def memset_credits_def fun_eq_iff)

lemma sample_request:
  "chmodel_request sample_channel 0 0 256 =
     Some (sample_channel\<lparr>avail_credits := (avail_credits sample_channel)(0 := 24), valid_len := 1\<rparr>, 304)"
  by (simp add: chmodel_request_def chmodel_advance_def sample_channel_eq Let_def memset_credits_def consume_credits.simps
    unit_macros UNIT_TIME_INTERVAL_def UNIT_XFER_SIZE_def UNIT_XFER_CREDITS_def NR_CREDIT_ENTRIES_def)

theorem chmodel_request_credits_witness:
  "credits_ok (sample_channel\<lparr>avail_credits := (avail_credits sample_channel)(0 := 24), valid_len := 1\<rparr>)
   \<and> total_credits (avail_credits (chmodel_advance sample_channel (min 0 0))) = total_credits ((avail_credits sample_channel)(0 := 24)) + 2"
proof -
  have ok: "credits_ok sample_channel" by (simp add: sample_channel_eq credits_ok_def)
  have "unat ((ucast (DIV_ROUND_UP 256 UNIT_XFER_SIZE) :: u32) + command_credits sample_channel) = 2"
    by (simp add: unit_macros UNIT_XFER_SIZE_def sample_channel_eq)
  then show ?thesis using chmodel_request_credits [OF ok sample_request] by (simp del: fun_upd_apply min.idem)
qed

text \<open>
  C33. When the channel is asked for a time before its last recorded time, the slot offset wraps around and
  the head jumps to the end of the booked part: every booking still ahead is dropped and its slots are
  refilled.
\<close>

theorem chmodel_backwards_forgets:
  assumes ring: "head ch < NR_CREDIT_ENTRIES" "valid_len ch \<le> NR_CREDIT_ENTRIES"
    and past: "unat (now div UNIT_TIME_INTERVAL) < unat (cur_time ch div UNIT_TIME_INTERVAL)"
      "unat (cur_time ch div UNIT_TIME_INTERVAL) - unat (now div UNIT_TIME_INTERVAL) < 2 ^ 31"
  shows "valid_len (chmodel_advance ch now) = 0
     \<and> (\<forall>j. j < valid_len ch \<longrightarrow> avail_credits (chmodel_advance ch now) ((head ch + j) mod NR_CREDIT_ENTRIES) = ucast (max_credits ch))"
proof -
  let ?d = "now div UNIT_TIME_INTERVAL - cur_time ch div UNIT_TIME_INTERVAL"
  define k where "k = unat (cur_time ch div UNIT_TIME_INTERVAL) - unat (now div UNIT_TIME_INTERVAL)"
  have k: "0 < k" "k < 2 ^ 31" using past by (auto simp: k_def)
  have "unat ?d = 2 ^ 64 - k"
  proof -
    have x: "unat (cur_time ch div UNIT_TIME_INTERVAL - now div UNIT_TIME_INTERVAL) = k"
      using past(1) by (simp add: k_def word_le_nat_alt)
    have "(unat ?d + unat (cur_time ch div UNIT_TIME_INTERVAL - now div UNIT_TIME_INTERVAL)) mod 2 ^ 64
        = unat (?d + (cur_time ch div UNIT_TIME_INTERVAL - now div UNIT_TIME_INTERVAL))"
      by (simp only: unat_word_ariths) simp
    also have "\<dots> = 0" by simp
    finally have "(unat ?d + k) mod 2 ^ 64 = 0" unfolding x .
    moreover have "unat ?d < 2 ^ 64" using unsigned_less [of ?d, where 'a = nat] by simp
    moreover have "k \<le> 2 ^ 64" using k(2) by simp
    ultimately show ?thesis by (intro mod_zero_once k(1))
  qed
  then have "unat (ucast ?d :: u32) = (2 ^ 32 * 2 ^ 32 - k) mod 2 ^ 32"
    by (simp add: unsigned_ucast_eq take_bit_eq_mod)
  also have "\<dots> = 2 ^ 32 - k"
    using k by (intro mod_just_below) simp_all
  finally have "\<not> unat (ucast ?d :: u32) < valid_len ch" using k ring(2) by (simp add: NR_CREDIT_ENTRIES_def)
  then have a: "chmodel_advance ch now = (let offs = valid_len ch;
          cr = (if head ch + offs \<ge> NR_CREDIT_ENTRIES
                then memset_credits (memset_credits (avail_credits ch) (head ch) (max_credits ch) (NR_CREDIT_ENTRIES - head ch))
                       0 (max_credits ch) (offs - (NR_CREDIT_ENTRIES - head ch))
                else memset_credits (avail_credits ch) (head ch) (max_credits ch) offs)
      in ch\<lparr>avail_credits := cr, head := (head ch + offs) mod NR_CREDIT_ENTRIES, cur_time := now, valid_len := valid_len ch - offs\<rparr>)"
    by (simp add: chmodel_advance_def)
  have "(head ch + j) mod NR_CREDIT_ENTRIES = (if head ch + j < NR_CREDIT_ENTRIES then head ch + j else head ch + j - NR_CREDIT_ENTRIES)"
    if "j < valid_len ch" for j using that ring by (simp add: mod_if)
  then show ?thesis unfolding a using ring by (auto simp: Let_def memset_credits_def)
qed

theorem chmodel_backwards_forgets_witness:
  "valid_len (chmodel_advance (sample_channel\<lparr>cur_time := 8000, valid_len := 5\<rparr>) 4000) = 0"
  using chmodel_backwards_forgets [of "sample_channel\<lparr>cur_time := 8000, valid_len := 5\<rparr>" 4000]
  by (simp add: sample_channel_eq NR_CREDIT_ENTRIES_def UNIT_TIME_INTERVAL_def)

section \<open>Served requests\<close>

text \<open>The loop ends with the request served when enough of the slots ahead have credits.\<close>

lemma slots_left_pos:
  assumes "0 < slots_left hd0 pos" and "hd0 < NR_CREDIT_ENTRIES" and "pos < NR_CREDIT_ENTRIES"
  shows "(pos + 1) mod NR_CREDIT_ENTRIES \<noteq> hd0" "slots_left hd0 ((pos + 1) mod NR_CREDIT_ENTRIES) = slots_left hd0 pos - 1"
proof -
  define N where "N = NR_CREDIT_ENTRIES"
  have N: "hd0 < N" "pos < N" using assms by (simp_all add: N_def)
  have l: "slots_left hd0 p = (if p < hd0 then hd0 - p - 1 else hd0 + N - p - 1)" if "p < N" for p
    using that N(1) by (auto simp: slots_left_def mod_if simp flip: N_def)
  have "(pos + 1) mod N \<noteq> hd0 \<and> slots_left hd0 ((pos + 1) mod N) = slots_left hd0 pos - 1"
  proof (cases "pos + 1 < N")
    case True
    then show ?thesis using N l [of pos] l [of "pos + 1"] assms(1) by (auto split: if_splits)
  next
    case False
    then have "pos + 1 = N" using N by simp
    then show ?thesis using N l [of pos] l [of 0] assms(1) by (auto split: if_splits)
  qed
  then show "(pos + 1) mod NR_CREDIT_ENTRIES \<noteq> hd0" "slots_left hd0 ((pos + 1) mod NR_CREDIT_ENTRIES) = slots_left hd0 pos - 1"
    by (simp_all add: N_def)
qed

lemma consume_served:
  assumes "hd0 < NR_CREDIT_ENTRIES" and "pos < NR_CREDIT_ENTRIES" and "k \<le> slots_left hd0 pos"
    and "\<forall>j\<le>k. c \<le> unat (cr ((pos + j) mod NR_CREDIT_ENTRIES))" and "unat r \<le> (k + 1) * c"
  shows "\<exists>cr' p j. consume_credits cr hd0 pos r d = Some (cr', p, d + of_nat j) \<and> j * c \<le> unat r \<and> j \<le> k"
  using assms
proof (induction k arbitrary: cr pos r d)
  case 0
  then have "unat r \<le> unat (cr pos)" by simp
  then have "r \<le> ucast (cr pos)" by (simp add: word_le_nat_alt unsigned_ucast_eq take_bit_nat_eq_self order_less_le_trans [OF unsigned_less])
  then show ?case using 0 by (subst consume_credits.simps) (auto intro: exI [of _ 0])
next
  case (Suc k)
  define N where "N = NR_CREDIT_ENTRIES"
  define q where "q = (pos + 1) mod N"
  have u: "unat (ucast (cr pos) :: u32) = unat (cr pos)" by (simp add: unsigned_ucast_eq take_bit_nat_eq_self order_less_le_trans [OF unsigned_less])
  have sl: "q \<noteq> hd0" "k \<le> slots_left hd0 q" "slots_left hd0 pos < N" using slots_left_pos [of hd0 pos] Suc.prems by (auto simp: q_def N_def slots_left_def)
  show ?case
  proof (cases "r \<le> ucast (cr pos)")
    case True
    then show ?thesis using Suc.prems by (subst consume_credits.simps) (auto intro: exI [of _ 0])
  next
    case False
    then have lt: "unat (cr pos) < unat r" using u by (simp add: word_le_nat_alt)
    define r' cr' where "r' = r - ucast (cr pos)" and "cr' = cr(pos := cr pos - ucast (ucast (cr pos) :: u32))"
    have "(pos + 0) mod N = pos" using Suc.prems(2) by (simp add: N_def)
    then have c: "c \<le> unat (cr pos)" using Suc.prems(4) by (metis N_def le0)
    have ur: "unat r' = unat r - unat (cr pos)" using lt u unfolding r'_def by (subst unat_sub) (simp_all add: word_le_nat_alt)
    have r': "unat r' \<le> (k + 1) * c" "r' \<noteq> 0" using Suc.prems(5) lt c ur by auto
    have "c \<le> unat (cr' ((q + j) mod N))" if "j \<le> k" for j
    proof -
      have "(q + j) mod N = (pos + Suc j) mod N" by (simp add: q_def mod_simps)
      moreover have "(pos + Suc j) mod N \<noteq> pos" using that Suc.prems(2,3) sl(3) by (auto simp: N_def mod_if)
      ultimately show ?thesis using Suc.prems(4) [rule_format, of "Suc j"] that by (simp add: cr'_def N_def)
    qed
    then obtain cr2 p j where n: "consume_credits cr' hd0 q r' (d + 1) = Some (cr2, p, d + 1 + of_nat j)" "j * c \<le> unat r'" "j \<le> k"
      using Suc.IH [of q cr' r' "d + 1"] Suc.prems(1) sl r' by (auto simp: q_def N_def)
    have "consume_credits cr hd0 pos r d = consume_credits cr' hd0 q r' (d + 1)"
      using False Suc.prems sl r' by (subst consume_credits.simps) (simp add: Let_def r'_def cr'_def q_def N_def)
    moreover have "Suc j * c \<le> unat r" using n(2) c ur lt by simp
    ultimately show ?thesis using n by (intro exI [of _ cr2] exI [of _ p] exI [of _ "Suc j"]) simp
  qed
qed

definition idle_channel :: "channel_model \<Rightarrow> bool" where
  "idle_channel cm \<longleftrightarrow> valid_len cm = 0 \<and> head cm < NR_CREDIT_ENTRIES \<and> command_credits cm = 0 \<and> 0 < max_credits cm \<and> max_credits cm < 256
     \<and> (\<forall>i<NR_CREDIT_ENTRIES. avail_credits cm i = ucast (max_credits cm))"

definition slot_offset :: "u64 \<Rightarrow> u64 \<Rightarrow> nat" where
  "slot_offset wallclock request_time = unat (ucast (request_time div UNIT_TIME_INTERVAL - min request_time wallclock div UNIT_TIME_INTERVAL) :: u32)"

lemma idle_advance: "idle_channel cm \<Longrightarrow> chmodel_advance cm now = cm\<lparr>cur_time := now\<rparr>"
  by (auto simp: idle_channel_def chmodel_advance_def Let_def memset_credits_def fun_eq_iff)

lemma slots_left_offset: "h < NR_CREDIT_ENTRIES \<Longrightarrow> k < NR_CREDIT_ENTRIES \<Longrightarrow> slots_left h ((h + k) mod NR_CREDIT_ENTRIES) = NR_CREDIT_ENTRIES - k - 1"
  by (auto simp: slots_left_def mod_if)

lemma chmodel_init_idle:
  assumes "0 < (ucast (BANDWIDTH_TO_MAX_CREDITS bw) :: u32)" and "(ucast (BANDWIDTH_TO_MAX_CREDITS bw) :: u32) < 256"
  shows "idle_channel (chmodel_init junk bw)"
  using assms by (simp add: idle_channel_def chmodel_init_def Let_def memset_credits_def)

lemma idle_request:
  assumes idle: "idle_channel cm" and offs: "slot_offset wallclock request_time < NR_CREDIT_ENTRIES"
    and fits: "unat (ucast (DIV_ROUND_UP len UNIT_XFER_SIZE) :: u32) \<le> (NR_CREDIT_ENTRIES - slot_offset wallclock request_time) * unat (max_credits cm)"
  shows "\<exists>cm'. chmodel_request cm wallclock request_time len = Some (cm', request_time + ucast (xfer_lat cm * ucast (DIV_ROUND_UP len UNIT_XFER_SIZE)))"
proof -
  define now where "now = min request_time wallclock"
  have now: "(if request_time < wallclock then request_time else wallclock) = now" by (auto simp: now_def min_def)
  define k r where "k = slot_offset wallclock request_time" and "r = (ucast (DIV_ROUND_UP len UNIT_XFER_SIZE) :: u32)"
  have k: "unat (ucast (request_time div UNIT_TIME_INTERVAL - now div UNIT_TIME_INTERVAL) :: u32) = k" by (simp add: k_def slot_offset_def now_def)
  have i: "valid_len cm = 0" "head cm < NR_CREDIT_ENTRIES" "command_credits cm = 0" "max_credits cm \<noteq> 0" using idle by (auto simp: idle_channel_def)
  have mc: "unat (ucast (max_credits cm) :: u8) = unat (max_credits cm)"
  proof -
    have "unat (max_credits cm) < 2 ^ 8" using idle by (simp add: idle_channel_def word_less_nat_alt)
    then show ?thesis by (simp add: unsigned_ucast_eq take_bit_nat_eq_self)
  qed
  have f: "unat r \<le> (NR_CREDIT_ENTRIES - k - 1 + 1) * unat (max_credits cm)"
    using fits offs by (simp only: k_def r_def Suc_diff_1 zero_less_diff flip: Suc_eq_plus1)
  obtain cr p j where c: "consume_credits (avail_credits cm) (head cm) ((head cm + k) mod NR_CREDIT_ENTRIES) r 0 = Some (cr, p, 0 + of_nat j)"
      "j * unat (max_credits cm) \<le> unat r"
    using consume_served [of "head cm" "(head cm + k) mod NR_CREDIT_ENTRIES" "NR_CREDIT_ENTRIES - k - 1" "unat (max_credits cm)" "avail_credits cm" r 0, OF _ _ _ _ f]
      slots_left_offset [of "head cm" k] i offs idle mc by (auto simp: k_def idle_channel_def)
  have "0 < unat (max_credits cm)" using i(4) by (simp add: unat_gt_0)
  then have "j \<le> unat r div unat (max_credits cm)" using c(2) by (simp add: less_eq_div_iff_mult_less_eq)
  then have "j \<le> unat (r div max_credits cm)" by (simp add: unat_div)
  moreover from this have "unat (of_nat j :: u32) = j" using unsigned_less [of "r div max_credits cm", where ?'a = nat] by (simp add: unsigned_of_nat take_bit_nat_eq_self)
  ultimately have "\<not> of_nat j > r div max_credits cm" by (simp add: word_less_nat_alt)
  then show ?thesis using i offs c(1) by (simp add: chmodel_request_def Let_def now k idle_advance [OF idle] UNIT_XFER_CREDITS_def k_def flip: r_def)
qed

text \<open>
  C37. A channel with nothing booked never refuses a request that fits and never delays it: when the slot of the
  request lies within the ring and the slots from there to the end of the ring have enough credits, the request
  completes exactly its transfer latency after its start. In particular a fresh channel does.
\<close>

theorem idle_channel_serves:
  assumes "idle_channel cm" and "slot_offset wallclock request_time < NR_CREDIT_ENTRIES"
    and "unat (ucast (DIV_ROUND_UP len UNIT_XFER_SIZE) :: u32) \<le> (NR_CREDIT_ENTRIES - slot_offset wallclock request_time) * unat (max_credits cm)"
  shows "map_option snd (chmodel_request cm wallclock request_time len) = Some (request_time + ucast (xfer_lat cm * ucast (DIV_ROUND_UP len UNIT_XFER_SIZE)))"
  using idle_request [OF assms] by auto

theorem idle_channel_serves_witness:
  "idle_channel sample_channel \<and> map_option snd (chmodel_request sample_channel 8000 8000 131072) = Some (8000 + 152 * 1024)"
proof -
  have i: "idle_channel sample_channel" unfolding sample_channel_def
    by (rule chmodel_init_idle) (simp_all add: BANDWIDTH_TO_MAX_CREDITS_def NS_PER_SEC_def unit_macros UNIT_TIME_INTERVAL_def UNIT_XFER_SIZE_def UNIT_XFER_CREDITS_def)
  have o: "slot_offset 8000 8000 = 0" by (simp add: slot_offset_def)
  have u: "DIV_ROUND_UP 131072 UNIT_XFER_SIZE = 1024" by (simp add: unit_macros UNIT_XFER_SIZE_def)
  show ?thesis using i idle_channel_serves [OF i, of 8000 8000 131072] by (simp add: o u sample_channel_eq NR_CREDIT_ENTRIES_def)
qed

end
