(* ===== verification/Ssd.thy ===== *)
theory Ssd
  imports Channel
begin

text \<open>
  The NAND back end: \<open>ssd.c\<close>, \<open>ssd.h\<close> and the device profiles of \<open>ssd_config.h\<close>.

  Sizes and counts (C \<open>int\<close> and \<open>unsigned long\<close>) are natural numbers, and that they fit their types is
  checked where they are computed (\<open>params_fit\<close>); latencies and times are 64-bit words. An array is a function of the index; that every index used is in range is proved
  where the addresses are produced. The PCIe link and the write buffer are shared by all
  partitions of a namespace, so they are not part of the \<open>ssd\<close> record but of the environment
  \<open>ssd_env\<close> that the operations thread, together with the clock readings still to come.
\<close>

section \<open>Device profiles\<close>

datatype cell_modes = CELL_MODE_SLC | CELL_MODE_MLC | CELL_MODE_TLC

primrec cell_mode_value :: "cell_modes \<Rightarrow> nat" where
  "cell_mode_value CELL_MODE_SLC = 0"
| "cell_mode_value CELL_MODE_MLC = 1"
| "cell_mode_value CELL_MODE_TLC = 2"

record ssd_config =
  CELL_MODE :: cell_modes
  SSD_PARTITIONS :: nat
  NAND_CHANNELS :: nat
  LUNS_PER_NAND_CH :: nat
  PLNS_PER_LUN :: nat
  FLASH_PAGE_SIZE :: nat
  ONESHOT_PAGE_SIZE :: nat
  BLKS_PER_PLN :: nat
  BLK_SIZE :: nat
  MAX_CH_XFER_SIZE :: u64
  WRITE_UNIT_SIZE :: nat
  NAND_CHANNEL_BANDWIDTH :: u64
  PCIE_BANDWIDTH :: u64
  NAND_4KB_READ_LATENCY :: "nat \<Rightarrow> u64"
  NAND_READ_LATENCY :: "nat \<Rightarrow> u64"
  NAND_PROG_LATENCY :: u64
  NAND_ERASE_LATENCY :: u64
  FW_4KB_READ_LATENCY :: u64
  FW_READ_LATENCY :: u64
  FW_WBUF_LATENCY0 :: u64
  FW_WBUF_LATENCY1 :: u64
  FW_CH_XFER_LATENCY :: u64
  WRITE_BUFFER_SIZE :: nat
  WRITE_EARLY_COMPLETION :: bool

definition CELL_TYPE_LSB :: nat where "CELL_TYPE_LSB = 0"
definition CELL_TYPE_MSB :: nat where "CELL_TYPE_MSB = 1"
definition CELL_TYPE_CSB :: nat where "CELL_TYPE_CSB = 2"

lemmas cell_type_defs = CELL_TYPE_LSB_def CELL_TYPE_MSB_def CELL_TYPE_CSB_def

definition samsung_970pro :: ssd_config where
  "samsung_970pro = \<lparr>CELL_MODE = CELL_MODE_MLC, SSD_PARTITIONS = 4, NAND_CHANNELS = 8, LUNS_PER_NAND_CH = 2,
     PLNS_PER_LUN = 1, FLASH_PAGE_SIZE = 32 * 1024, ONESHOT_PAGE_SIZE = 32 * 1024 * 1, BLKS_PER_PLN = 8192, BLK_SIZE = 0,
     MAX_CH_XFER_SIZE = 16 * 1024, WRITE_UNIT_SIZE = 512, NAND_CHANNEL_BANDWIDTH = 800, PCIE_BANDWIDTH = 3360,
     NAND_4KB_READ_LATENCY = (\<lambda>_. 0)(CELL_TYPE_LSB := 35760 - 6000, CELL_TYPE_MSB := 35760 + 6000, CELL_TYPE_CSB := 0),
     NAND_READ_LATENCY = (\<lambda>_. 0)(CELL_TYPE_LSB := 36013 - 6000, CELL_TYPE_MSB := 36013 + 6000, CELL_TYPE_CSB := 0),
     NAND_PROG_LATENCY = 185000, NAND_ERASE_LATENCY = 0, FW_4KB_READ_LATENCY = 21500, FW_READ_LATENCY = 30490,
     FW_WBUF_LATENCY0 = 4000, FW_WBUF_LATENCY1 = 460, FW_CH_XFER_LATENCY = 0,
     WRITE_BUFFER_SIZE = 8 * 2 * (32 * 1024) * 2, WRITE_EARLY_COMPLETION = True\<rparr>"

definition zns_prototype :: ssd_config where
  "zns_prototype = \<lparr>CELL_MODE = CELL_MODE_TLC, SSD_PARTITIONS = 1, NAND_CHANNELS = 8, LUNS_PER_NAND_CH = 16,
     PLNS_PER_LUN = 1, FLASH_PAGE_SIZE = 64 * 1024, ONESHOT_PAGE_SIZE = 64 * 1024 * 2, BLKS_PER_PLN = 0, BLK_SIZE = 32 * 1024 * 1024,
     MAX_CH_XFER_SIZE = 64 * 1024, WRITE_UNIT_SIZE = 64 * 1024 * 2, NAND_CHANNEL_BANDWIDTH = 800, PCIE_BANDWIDTH = 3200,
     NAND_4KB_READ_LATENCY = (\<lambda>_. 0)(CELL_TYPE_LSB := 25485, CELL_TYPE_MSB := 25485, CELL_TYPE_CSB := 25485),
     NAND_READ_LATENCY = (\<lambda>_. 0)(CELL_TYPE_LSB := 40950, CELL_TYPE_MSB := 40950, CELL_TYPE_CSB := 40950),
     NAND_PROG_LATENCY = 1913640, NAND_ERASE_LATENCY = 0, FW_4KB_READ_LATENCY = 37540 - 7390 + 2000,
     FW_READ_LATENCY = 37540 - 7390 + 2000, FW_WBUF_LATENCY0 = 0, FW_WBUF_LATENCY1 = 0, FW_CH_XFER_LATENCY = 413,
     WRITE_BUFFER_SIZE = 8 * 16 * (64 * 1024 * 2) * 2, WRITE_EARLY_COMPLETION = False\<rparr>"

section \<open>Parameters\<close>

record ssdparams =
  secsz :: nat
  secs_per_pg :: nat
  pgsz :: nat
  pgs_per_flashpg :: nat
  flashpgs_per_blk :: nat
  pgs_per_oneshotpg :: nat
  oneshotpgs_per_blk :: nat
  pgs_per_blk :: nat
  blks_per_pl :: nat
  pls_per_lun :: nat
  luns_per_ch :: nat
  nchs :: nat
  cell_mode :: nat
  write_unit_size :: nat
  write_early_completion :: bool
  pg_4kb_rd_lat :: "nat \<Rightarrow> u64"
  pg_rd_lat :: "nat \<Rightarrow> u64"
  pg_wr_lat :: u64
  blk_er_lat :: u64
  max_ch_xfer_size :: u64
  fw_4kb_rd_lat :: u64
  fw_rd_lat :: u64
  fw_wbuf_lat0 :: u64
  fw_wbuf_lat1 :: u64
  fw_ch_xfer_lat :: u64
  ch_bandwidth :: u64
  pcie_bandwidth :: u64
  secs_per_blk :: nat
  secs_per_pl :: nat
  secs_per_lun :: nat
  secs_per_ch :: nat
  tt_secs :: nat
  pgs_per_pl :: nat
  pgs_per_lun :: nat
  pgs_per_ch :: nat
  tt_pgs :: nat
  blks_per_lun :: nat
  blks_per_ch :: nat
  tt_blks :: nat
  secs_per_line :: nat
  pgs_per_line :: nat
  blks_per_line :: nat
  tt_lines :: nat
  pls_per_ch :: nat
  tt_pls :: nat
  tt_luns :: nat
  write_buffer_size :: nat

definition div_round_up :: "nat \<Rightarrow> nat \<Rightarrow> nat" where
  "div_round_up n d = (n + d - 1) div d"

text \<open>The fields, once the number of blocks per plane and the block size are known.\<close>

definition set_params :: "ssd_config \<Rightarrow> nat \<Rightarrow> nat \<Rightarrow> nat \<Rightarrow> ssdparams" where
  "set_params c chs blks blk_size =
     (let secsz0 = 512; secs_per_pg0 = 8; pgsz0 = secsz0 * secs_per_pg0;
          pls = PLNS_PER_LUN c; luns = LUNS_PER_NAND_CH c;
          osp = ONESHOT_PAGE_SIZE c div pgsz0;
          nosp = div_round_up blk_size (ONESHOT_PAGE_SIZE c);
          ppb = osp * nosp;
          spb = secs_per_pg0 * ppb;
          lunpl = blks * pls;
          ttl = luns * chs
      in \<lparr>secsz = secsz0, secs_per_pg = secs_per_pg0, pgsz = pgsz0,
         pgs_per_flashpg = FLASH_PAGE_SIZE c div pgsz0,
         flashpgs_per_blk = (ONESHOT_PAGE_SIZE c div FLASH_PAGE_SIZE c) * nosp,
         pgs_per_oneshotpg = osp, oneshotpgs_per_blk = nosp, pgs_per_blk = ppb, blks_per_pl = blks,
         pls_per_lun = pls, luns_per_ch = luns, nchs = chs, cell_mode = cell_mode_value (CELL_MODE c),
         write_unit_size = WRITE_UNIT_SIZE c, write_early_completion = WRITE_EARLY_COMPLETION c,
         pg_4kb_rd_lat = NAND_4KB_READ_LATENCY c, pg_rd_lat = NAND_READ_LATENCY c,
         pg_wr_lat = NAND_PROG_LATENCY c, blk_er_lat = NAND_ERASE_LATENCY c, max_ch_xfer_size = MAX_CH_XFER_SIZE c,
         fw_4kb_rd_lat = FW_4KB_READ_LATENCY c, fw_rd_lat = FW_READ_LATENCY c, fw_wbuf_lat0 = FW_WBUF_LATENCY0 c,
         fw_wbuf_lat1 = FW_WBUF_LATENCY1 c, fw_ch_xfer_lat = FW_CH_XFER_LATENCY c,
         ch_bandwidth = NAND_CHANNEL_BANDWIDTH c, pcie_bandwidth = PCIE_BANDWIDTH c,
         secs_per_blk = spb, secs_per_pl = spb * blks, secs_per_lun = spb * blks * pls,
         secs_per_ch = spb * blks * pls * luns, tt_secs = spb * blks * pls * luns * chs,
         pgs_per_pl = ppb * blks, pgs_per_lun = ppb * blks * pls, pgs_per_ch = ppb * blks * pls * luns,
         tt_pgs = ppb * blks * pls * luns * chs,
         blks_per_lun = lunpl, blks_per_ch = lunpl * luns, tt_blks = lunpl * luns * chs,
         secs_per_line = ttl * ppb * secs_per_pg0, pgs_per_line = ttl * ppb, blks_per_line = ttl, tt_lines = lunpl,
         pls_per_ch = pls * luns, tt_pls = pls * luns * chs, tt_luns = ttl,
         write_buffer_size = WRITE_BUFFER_SIZE c\<rparr>)"

text \<open>
  The widths of the source. The basic sizes are \<open>int\<close>, and so are the products of two of them, also where the
  result is stored in an \<open>unsigned long\<close>; the others are computed in 64 bits. The last product is the block size in
  bytes that the function computes for its log message.
\<close>

definition params_fit :: "ssdparams \<Rightarrow> bool" where
  "params_fit spp \<longleftrightarrow>
     list_all (\<lambda>x. x < 2 ^ 31) [pgsz spp, nchs spp, pls_per_lun spp, luns_per_ch spp, blks_per_pl spp, pgs_per_oneshotpg spp, oneshotpgs_per_blk spp,
       pgs_per_flashpg spp, flashpgs_per_blk spp, pgs_per_blk spp, write_unit_size spp, secs_per_blk spp, pgs_per_pl spp, blks_per_lun spp,
       pls_per_ch spp, tt_luns spp, pgs_per_blk spp * secsz spp * secs_per_pg spp]
   \<and> list_all (\<lambda>x. x < 2 ^ 64) [secs_per_pl spp, secs_per_lun spp, secs_per_ch spp, tt_secs spp, pgs_per_lun spp, pgs_per_ch spp, tt_pgs spp,
       blks_per_ch spp, tt_blks spp, tt_pls spp, pgs_per_line spp, secs_per_line spp, write_buffer_size spp]"

text \<open>
  \<open>None\<close> for a failed assertion, a division by zero, or a value that does not fit the type in which the source
  computes or stores it (\<open>params_fit\<close> and the sums and products inside the two uses of \<open>DIV_ROUND_UP\<close>).
\<close>

definition ssd_init_params :: "ssd_config \<Rightarrow> nat \<Rightarrow> nat \<Rightarrow> ssdparams option" where
  "ssd_init_params c capacity0 nparts =
     do {
       let pgsz0 = 512 * 8; let pls = PLNS_PER_LUN c; let luns = LUNS_PER_NAND_CH c;
       NVMEV_ASSERT (nparts \<noteq> 0 \<and> NAND_CHANNELS c mod nparts = 0);
       let chs = NAND_CHANNELS c div nparts;
       let capacity = capacity0 div nparts;
       (blks, blk_size) \<leftarrow>
         (if BLKS_PER_PLN c > 0
          then do { let n = BLKS_PER_PLN c * pls * luns * chs;
                    NVMEV_ASSERT (n \<noteq> 0 \<and> n < 2 ^ 31 \<and> capacity + n \<le> 2 ^ 64);
                    Some (BLKS_PER_PLN c, div_round_up capacity n) }
          else do { NVMEV_ASSERT (BLK_SIZE c > 0);
                    let n = BLK_SIZE c * pls * luns * chs;
                    NVMEV_ASSERT (n \<noteq> 0 \<and> capacity + n \<le> 2 ^ 64);
                    Some (div_round_up capacity n, BLK_SIZE c) });
       NVMEV_ASSERT (ONESHOT_PAGE_SIZE c mod pgsz0 = 0 \<and> FLASH_PAGE_SIZE c mod pgsz0 = 0);
       NVMEV_ASSERT (FLASH_PAGE_SIZE c \<noteq> 0 \<and> ONESHOT_PAGE_SIZE c mod FLASH_PAGE_SIZE c = 0);
       NVMEV_ASSERT (ONESHOT_PAGE_SIZE c \<noteq> 0 \<and> blk_size + ONESHOT_PAGE_SIZE c \<le> 2 ^ 64);
       let spp = set_params c chs blks blk_size;
       NVMEV_ASSERT (params_fit spp);
       Some spp
     }"

section \<open>Physical page addresses\<close>

definition PAGE_BITS :: nat where "PAGE_BITS = 16"
definition BLK_BITS :: nat where "BLK_BITS = 16"
definition PL_BITS :: nat where "PL_BITS = 8"
definition LUN_BITS :: nat where "LUN_BITS = 8"
definition CH_BITS :: nat where "CH_BITS = 8"

lemmas ppa_bits = PAGE_BITS_def BLK_BITS_def PL_BITS_def LUN_BITS_def CH_BITS_def

text \<open>
  The bit fields of \<open>struct ppa\<close>. A stored address has the reserved bits 0, so it differs from
  \<open>UNMAPPED_PPA\<close>; the latter is \<open>None\<close> in a table of type \<open>ppa option\<close>.
\<close>

record ppa =
  g_pg :: nat
  g_blk :: nat
  g_pl :: nat
  g_lun :: nat
  g_ch :: nat

text \<open>Assignment to the fields keeps the low bits.\<close>

definition set_ppa :: "nat \<Rightarrow> nat \<Rightarrow> nat \<Rightarrow> nat \<Rightarrow> nat \<Rightarrow> ppa" where
  "set_ppa ch lun pl blk pg = \<lparr>g_pg = pg mod 2 ^ PAGE_BITS, g_blk = blk mod 2 ^ BLK_BITS, g_pl = pl mod 2 ^ PL_BITS,
     g_lun = lun mod 2 ^ LUN_BITS, g_ch = ch mod 2 ^ CH_BITS\<rparr>"

text \<open>The 64-bit value of the union and the view \<open>h.blk_in_ssd\<close>.\<close>

definition ppa_value :: "ppa \<Rightarrow> nat" where
  "ppa_value p = g_pg p + 2 ^ PAGE_BITS * (g_blk p + 2 ^ BLK_BITS * (g_pl p + 2 ^ PL_BITS * (g_lun p + 2 ^ LUN_BITS * g_ch p)))"

definition blk_in_ssd :: "ppa \<Rightarrow> nat" where
  "blk_in_ssd p = ppa_value p div 2 ^ PAGE_BITS mod 2 ^ (BLK_BITS + PL_BITS + LUN_BITS + CH_BITS)"

section \<open>NAND state\<close>

datatype sec_status = SEC_FREE | SEC_INVALID | SEC_VALID
datatype page_status = PG_FREE | PG_INVALID | PG_VALID

record nand_page =
  sec :: "nat \<Rightarrow> sec_status"
  nsecs :: nat
  status :: page_status

record nand_block =
  pg :: "nat \<Rightarrow> nand_page"
  npgs :: nat
  blk_ipc :: int
  blk_vpc :: int
  erase_cnt :: int
  blk_wp :: int

record nand_plane =
  blk :: "nat \<Rightarrow> nand_block"
  next_pln_avail_time :: u64
  nblks :: nat

record nand_lun =
  pl :: "nat \<Rightarrow> nand_plane"
  npls :: nat
  next_lun_avail_read_time :: u64
  next_lun_avail_write_time :: u64
  busy :: bool
  lun_gc_endtime :: u64

record ssd_channel =
  lun :: "nat \<Rightarrow> nand_lun"
  nluns :: nat
  ch_gc_endtime :: u64
  perf_model :: channel_model

record buffer =
  initial :: u32
  remaining :: u32

record ssd =
  sp :: ssdparams
  ch :: "nat \<Rightarrow> ssd_channel"

record ssd_env =
  pcie :: channel_model
  write_buffer :: buffer
  clock_readings :: "nat \<Rightarrow> u64"

definition get_clock :: "ssd_env \<Rightarrow> u64 \<times> ssd_env" where
  "get_clock env = (clock_readings env 0, env\<lparr>clock_readings := (\<lambda>n. clock_readings env (Suc n))\<rparr>)"

section \<open>Write buffer\<close>

definition buffer_init :: "u32 \<Rightarrow> buffer" where
  "buffer_init n = \<lparr>initial = n, remaining = n\<rparr>"

definition buffer_allocate :: "buffer \<Rightarrow> u32 \<Rightarrow> buffer \<times> u32" where
  "buffer_allocate buf n = (if remaining buf < n then (buf, 0) else (buf\<lparr>remaining := remaining buf - n\<rparr>, n))"

definition buffer_release :: "buffer \<Rightarrow> u32 \<Rightarrow> buffer \<times> bool" where
  "buffer_release buf n = (buf\<lparr>remaining := remaining buf + n\<rparr>, True)"

definition buffer_refill :: "buffer \<Rightarrow> buffer" where
  "buffer_refill buf = buf\<lparr>remaining := initial buf\<rparr>"

section \<open>Initialisation\<close>

text \<open>What the allocator hands out is a parameter: cells outside the arrays keep it.\<close>

definition ssd_init_nand_page :: "nand_page \<Rightarrow> ssdparams \<Rightarrow> nand_page" where
  "ssd_init_nand_page junk spp =
     \<lparr>sec = (\<lambda>i. if i < secs_per_pg spp then SEC_FREE else sec junk i), nsecs = secs_per_pg spp, status = PG_FREE\<rparr>"

definition ssd_init_nand_blk :: "nand_block \<Rightarrow> ssdparams \<Rightarrow> nand_block" where
  "ssd_init_nand_blk junk spp =
     \<lparr>pg = (\<lambda>i. if i < pgs_per_blk spp then ssd_init_nand_page (pg junk i) spp else pg junk i),
      npgs = pgs_per_blk spp, blk_ipc = 0, blk_vpc = 0, erase_cnt = 0, blk_wp = 0\<rparr>"

definition ssd_init_nand_plane :: "nand_plane \<Rightarrow> ssdparams \<Rightarrow> nand_plane" where
  "ssd_init_nand_plane junk spp =
     \<lparr>blk = (\<lambda>i. if i < blks_per_pl spp then ssd_init_nand_blk (blk junk i) spp else blk junk i),
      next_pln_avail_time = next_pln_avail_time junk, nblks = blks_per_pl spp\<rparr>"

definition ssd_init_nand_lun :: "nand_lun \<Rightarrow> ssdparams \<Rightarrow> nand_lun" where
  "ssd_init_nand_lun junk spp =
     \<lparr>pl = (\<lambda>i. if i < pls_per_lun spp then ssd_init_nand_plane (pl junk i) spp else pl junk i),
      npls = pls_per_lun spp, next_lun_avail_read_time = 0, next_lun_avail_write_time = 0, busy = False,
      lun_gc_endtime = lun_gc_endtime junk\<rparr>"

definition ssd_init_ch :: "ssd_channel \<Rightarrow> ssdparams \<Rightarrow> ssd_channel" where
  "ssd_init_ch junk spp =
     (let cm = chmodel_init (avail_credits (perf_model junk)) (ch_bandwidth spp)
      in \<lparr>lun = (\<lambda>i. if i < luns_per_ch spp then ssd_init_nand_lun (lun junk i) spp else lun junk i),
          nluns = luns_per_ch spp, ch_gc_endtime = ch_gc_endtime junk,
          perf_model = cm\<lparr>xfer_lat := ucast (ucast (xfer_lat cm) + fw_ch_xfer_lat spp * UNIT_XFER_SIZE div KB 4)\<rparr>\<rparr>)"

definition ssd_init_pcie :: "(nat \<Rightarrow> u8) \<Rightarrow> ssdparams \<Rightarrow> channel_model" where
  "ssd_init_pcie junk spp = chmodel_init junk (pcie_bandwidth spp)"

definition ssd_init :: "(nat \<Rightarrow> ssd_channel) \<Rightarrow> ssdparams \<Rightarrow> ssd" where
  "ssd_init junk spp = \<lparr>sp = spp, ch = (\<lambda>i. if i < nchs spp then ssd_init_ch (junk i) spp else junk i)\<rparr>"

definition ssd_init_env :: "(nat \<Rightarrow> u8) \<Rightarrow> (nat \<Rightarrow> u64) \<Rightarrow> ssdparams \<Rightarrow> ssd_env" where
  "ssd_init_env junk clk spp = \<lparr>pcie = ssd_init_pcie junk spp,
     write_buffer = buffer_init (of_nat (write_buffer_size spp)), clock_readings = clk\<rparr>"

section \<open>Access\<close>

definition get_ch :: "ssd \<Rightarrow> ppa \<Rightarrow> ssd_channel" where
  "get_ch s p = ch s (g_ch p)"

definition get_lun :: "ssd \<Rightarrow> ppa \<Rightarrow> nand_lun" where
  "get_lun s p = lun (get_ch s p) (g_lun p)"

definition get_pl :: "ssd \<Rightarrow> ppa \<Rightarrow> nand_plane" where
  "get_pl s p = pl (get_lun s p) (g_pl p)"

definition get_blk :: "ssd \<Rightarrow> ppa \<Rightarrow> nand_block" where
  "get_blk s p = blk (get_pl s p) (g_blk p)"

definition get_pg :: "ssd \<Rightarrow> ppa \<Rightarrow> nand_page" where
  "get_pg s p = pg (get_blk s p) (g_pg p)"

text \<open>\<open>None\<close> is the division by zero of a single-level cell profile (mode 0).\<close>

definition get_cell :: "ssd \<Rightarrow> ppa \<Rightarrow> nat option" where
  "get_cell s p =
     (if pgs_per_flashpg (sp s) = 0 \<or> cell_mode (sp s) = 0 then None
      else Some ((g_pg p div pgs_per_flashpg (sp s)) mod cell_mode (sp s)))"

text \<open>Stores through the pointers that the accessors return.\<close>

definition put_lun :: "ssd \<Rightarrow> ppa \<Rightarrow> nand_lun \<Rightarrow> ssd" where
  "put_lun s p x = s\<lparr>ch := (ch s)(g_ch p := (get_ch s p)\<lparr>lun := (lun (get_ch s p))(g_lun p := x)\<rparr>)\<rparr>"

definition put_perf_model :: "ssd \<Rightarrow> ppa \<Rightarrow> channel_model \<Rightarrow> ssd" where
  "put_perf_model s p cm = s\<lparr>ch := (ch s)(g_ch p := (get_ch s p)\<lparr>perf_model := cm\<rparr>)\<rparr>"

definition put_blk :: "ssd \<Rightarrow> ppa \<Rightarrow> nand_block \<Rightarrow> ssd" where
  "put_blk s p x = put_lun s p ((get_lun s p)\<lparr>pl := (pl (get_lun s p))(g_pl p :=
     (get_pl s p)\<lparr>blk := (blk (get_pl s p))(g_blk p := x)\<rparr>)\<rparr>)"

definition put_pg :: "ssd \<Rightarrow> ppa \<Rightarrow> nand_page \<Rightarrow> ssd" where
  "put_pg s p x = put_blk s p ((get_blk s p)\<lparr>pg := (pg (get_blk s p))(g_pg p := x)\<rparr>)"

section \<open>Timing\<close>

definition ssd_advance_pcie :: "ssd_env \<Rightarrow> u64 \<Rightarrow> u64 \<Rightarrow> (ssd_env \<times> u64) option" where
  "ssd_advance_pcie env request_time len =
     (let (wallclock, env1) = get_clock env
      in do { (cm, t) \<leftarrow> chmodel_request (pcie env1) wallclock request_time len; Some (env1\<lparr>pcie := cm\<rparr>, t) })"

definition ssd_advance_write_buffer :: "ssdparams \<Rightarrow> ssd_env \<Rightarrow> u64 \<Rightarrow> u64 \<Rightarrow> bool \<Rightarrow> (ssd_env \<times> u64) option" where
  "ssd_advance_write_buffer spp env request_time len interleave_pci_dma =
     (let nsecs_latest = request_time + fw_wbuf_lat0 spp + fw_wbuf_lat1 spp * DIV_ROUND_UP len (KB 4)
      in if interleave_pci_dma then ssd_advance_pcie env nsecs_latest len else Some (env, nsecs_latest))"

datatype nand_op = NAND_READ | NAND_WRITE | NAND_ERASE | NAND_NOP

record nand_cmd =
  nand_op :: nand_op
  xfer_size :: u64
  stime :: u64
  nand_stime :: u64
  interleave_pci_dma :: bool
  cmd_ppa :: "ppa option"

text \<open>
  The transfer loop of a read. It is entered with something to transfer; a maximal transfer size of 0 would
  make it spin for ever.
\<close>

function read_transfer :: "u64 \<Rightarrow> bool \<Rightarrow> channel_model \<Rightarrow> ssd_env \<Rightarrow> u64 \<Rightarrow> u64 \<Rightarrow> (channel_model \<times> ssd_env \<times> u64 \<times> u64) option" where
  "read_transfer max_xfer interleave cm env rest chnl_stime =
     (let xfer = min rest max_xfer; (wallclock, env1) = get_clock env
      in if xfer = 0 then None
         else do {
           (cm', chnl_etime) \<leftarrow> chmodel_request cm wallclock chnl_stime xfer;
           (env2, completed) \<leftarrow> (if interleave then ssd_advance_pcie env1 chnl_etime xfer else Some (env1, chnl_etime));
           if rest - xfer = 0 then Some (cm', env2, chnl_etime, completed)
           else read_transfer max_xfer interleave cm' env2 (rest - xfer) chnl_etime
         })"
  by pat_completeness auto
termination
proof (relation "measure (\<lambda>(m, i, cm, env, rest, t). unat rest)", goal_cases)
  case (2 m i cm env rest t xfer y wallclock env1)
  have "xfer \<le> rest" "xfer \<noteq> 0" using 2 by simp_all
  then have "unat (rest - xfer) < unat rest" by (simp add: word_le_nat_alt unat_eq_zero [symmetric] del: unat_eq_zero) 
  then show ?case by simp
qed simp

declare read_transfer.simps [simp del]

definition later :: "u64 \<Rightarrow> u64 \<Rightarrow> u64" where
  "later avail_time cmd_stime = (if avail_time < cmd_stime then cmd_stime else avail_time)"

definition ssd_advance_nand :: "ssd \<Rightarrow> ssd_env \<Rightarrow> nand_cmd \<Rightarrow> (ssd \<times> ssd_env \<times> nand_cmd \<times> u64) option" where
  "ssd_advance_nand s env0 ncmd =
     (let (cmd_stime, env) = (if stime ncmd = 0 then get_clock env0 else (stime ncmd, env0))
      in case cmd_ppa ncmd of
           None \<Rightarrow> Some (s, env, ncmd, cmd_stime)
         | Some p \<Rightarrow>
             do {
               cell \<leftarrow> get_cell s p;
               let l = get_lun s p;
               case nand_op ncmd of
                 NAND_READ \<Rightarrow>
                   (let start = later (next_lun_avail_read_time l) cmd_stime;
                        ncmd' = (if nand_stime ncmd < start then ncmd\<lparr>nand_stime := start\<rparr> else ncmd);
                        nand_etime = start + (if xfer_size ncmd = 4096 then pg_4kb_rd_lat (sp s) cell else pg_rd_lat (sp s) cell)
                    in do {
                         (cm, env', chnl_etime, completed) \<leftarrow> read_transfer (max_ch_xfer_size (sp s)) (interleave_pci_dma ncmd)
                           (perf_model (get_ch s p)) env (xfer_size ncmd) nand_etime;
                         Some (put_lun (put_perf_model s p cm) p (l\<lparr>next_lun_avail_read_time := chnl_etime\<rparr>), env', ncmd', completed)
                       })
               | NAND_WRITE \<Rightarrow>
                   (let chnl_stime = later (next_lun_avail_write_time l) cmd_stime; (wallclock, env1) = get_clock env
                    in do {
                         (cm, chnl_etime) \<leftarrow> chmodel_request (perf_model (get_ch s p)) wallclock chnl_stime (xfer_size ncmd);
                         let nand_etime = chnl_etime + pg_wr_lat (sp s);
                         Some (put_lun (put_perf_model s p cm) p (l\<lparr>next_lun_avail_write_time := nand_etime\<rparr>), env1, ncmd, nand_etime)
                       })
               | NAND_ERASE \<Rightarrow>
                   (let nand_etime = later (next_lun_avail_write_time l) cmd_stime + blk_er_lat (sp s)
                    in Some (put_lun s p (l\<lparr>next_lun_avail_write_time := nand_etime\<rparr>), env, ncmd, nand_etime))
               | NAND_NOP \<Rightarrow>
                   (let start = later (next_lun_avail_write_time l) cmd_stime
                    in Some (put_lun s p (l\<lparr>next_lun_avail_write_time := start\<rparr>), env, ncmd, start))
             })"

definition ssd_next_idle_time :: "ssd \<Rightarrow> ssd_env \<Rightarrow> ssd_env \<times> u64" where
  "ssd_next_idle_time s env =
     (let (now, env1) = get_clock env
      in (env1, foldl (\<lambda>latest i. foldl (\<lambda>latest j. max latest (next_lun_avail_write_time (lun (ch s i) j))) latest [0..<luns_per_ch (sp s)])
                 now [0..<nchs (sp s)]))"

section \<open>Loads and stores\<close>

definition same_blk :: "ppa \<Rightarrow> ppa \<Rightarrow> bool" where
  "same_blk p q \<longleftrightarrow> g_ch p = g_ch q \<and> g_lun p = g_lun q \<and> g_pl p = g_pl q \<and> g_blk p = g_blk q"

lemma same_blk_pg: "same_blk p q \<and> g_pg p = g_pg q \<longleftrightarrow> p = q"
  by (cases p; cases q) (auto simp: same_blk_def)

lemma put_sp [simp]: "sp (put_lun s p x) = sp s" "sp (put_perf_model s p cm) = sp s" "sp (put_blk s p b) = sp s" "sp (put_pg s p g) = sp s"
  by (simp_all add: put_lun_def put_perf_model_def put_blk_def put_pg_def)

lemma get_put_lun: "get_lun (put_lun s p x) q = (if g_ch p = g_ch q \<and> g_lun p = g_lun q then x else get_lun s q)"
  by (auto simp: put_lun_def get_lun_def get_ch_def)

lemma get_put_perf_model [simp]: "get_lun (put_perf_model s p cm) q = get_lun s q"
  by (auto simp: put_perf_model_def get_lun_def get_ch_def)

lemma get_same:
  "g_ch p = g_ch q \<Longrightarrow> get_ch s p = get_ch s q"
  "g_ch p = g_ch q \<Longrightarrow> g_lun p = g_lun q \<Longrightarrow> get_lun s p = get_lun s q"
  "g_ch p = g_ch q \<Longrightarrow> g_lun p = g_lun q \<Longrightarrow> g_pl p = g_pl q \<Longrightarrow> get_pl s p = get_pl s q"
  "same_blk p q \<Longrightarrow> get_blk s p = get_blk s q"
  by (simp_all add: get_ch_def get_lun_def get_pl_def get_blk_def same_blk_def)

lemma get_put_blk: "get_blk (put_blk s p b) q = (if same_blk p q then b else get_blk s q)"
  unfolding get_blk_def get_pl_def put_blk_def get_put_lun
  by (auto simp: same_blk_def get_lun_def get_ch_def)

lemma get_put_pg: "get_pg (put_pg s p g) q = (if p = q then g else get_pg s q)"
  unfolding get_pg_def put_pg_def get_put_blk same_blk_pg [symmetric]
  by (auto dest: get_same(4) [of p q s])

lemma get_blk_put_pg: "get_blk (put_pg s p g) q = (if same_blk p q then (get_blk s q)\<lparr>pg := (pg (get_blk s q))(g_pg p := g)\<rparr> else get_blk s q)"
  unfolding put_pg_def get_put_blk by (auto dest: get_same(4) [of p q s])

lemma get_pg_put_blk: "get_pg (put_blk s p b) q = (if same_blk p q then pg b (g_pg q) else get_pg s q)"
  by (simp add: get_pg_def get_put_blk)

text \<open>A store that keeps the planes of a die keeps every block and page.\<close>

lemma get_blk_put_lun [simp]:
  "pl x = pl (get_lun s p) \<Longrightarrow> get_blk (put_lun s p x) q = get_blk s q"
  unfolding get_blk_def get_pl_def get_put_lun by (auto simp: get_lun_def get_ch_def)

lemma get_blk_put_perf_model [simp]: "get_blk (put_perf_model s p cm) q = get_blk s q"
  by (simp add: get_blk_def get_pl_def)

definition nand_same :: "ssd \<Rightarrow> ssd \<Rightarrow> bool" where
  "nand_same s s' \<longleftrightarrow> sp s' = sp s \<and> (\<forall>q. get_blk s' q = get_blk s q)"

lemma ssd_advance_nand_frame:
  assumes "ssd_advance_nand s env ncmd = Some (s', env', ncmd', t)"
  shows "nand_same s s'"
  using assms
  by (auto simp: ssd_advance_nand_def nand_same_def Let_def split: prod.splits option.splits nand_op.splits Option.bind_splits if_splits)

lemma nand_same_pg: "nand_same s s' \<Longrightarrow> get_pg s' q = get_pg s q"
  by (simp add: nand_same_def get_pg_def)

section \<open>Geometry\<close>

text \<open>
  What the translation layers rely on: the derived sizes are the products of the basic ones, nothing is
  empty, there is one plane per die, and every coordinate fits its bit field.
\<close>

definition geometry :: "ssdparams \<Rightarrow> bool" where
  "geometry spp \<longleftrightarrow> pls_per_lun spp = 1 \<and> 0 < nchs spp \<and> 0 < luns_per_ch spp \<and> 0 < blks_per_pl spp
     \<and> 0 < pgs_per_oneshotpg spp \<and> 0 < oneshotpgs_per_blk spp \<and> 0 < pgs_per_flashpg spp
     \<and> pgs_per_blk spp = pgs_per_oneshotpg spp * oneshotpgs_per_blk spp
     \<and> pgs_per_blk spp = pgs_per_flashpg spp * flashpgs_per_blk spp
     \<and> pgs_per_pl spp = pgs_per_blk spp * blks_per_pl spp \<and> pgs_per_lun spp = pgs_per_pl spp * pls_per_lun spp
     \<and> pgs_per_ch spp = pgs_per_lun spp * luns_per_ch spp \<and> tt_pgs spp = pgs_per_ch spp * nchs spp
     \<and> tt_luns spp = luns_per_ch spp * nchs spp \<and> pgs_per_line spp = tt_luns spp * pgs_per_blk spp
     \<and> tt_lines spp = blks_per_pl spp"

definition fits_ppa :: "ssdparams \<Rightarrow> bool" where
  "fits_ppa spp \<longleftrightarrow> nchs spp \<le> 2 ^ CH_BITS \<and> luns_per_ch spp \<le> 2 ^ LUN_BITS \<and> blks_per_pl spp \<le> 2 ^ BLK_BITS
     \<and> pgs_per_blk spp \<le> 2 ^ PAGE_BITS"

lemma div_round_up_pos: "0 < d \<Longrightarrow> 0 < n \<Longrightarrow> 0 < div_round_up n d"
  by (simp add: div_round_up_def div_greater_zero_iff)

lemma div_round_up_covers: "0 < d \<Longrightarrow> n \<le> div_round_up n d * d"
proof -
  assume d: "0 < d"
  have "n + d - 1 = (n + d - 1) div d * d + (n + d - 1) mod d" by simp
  moreover have "(n + d - 1) mod d < d" using d by simp
  ultimately show ?thesis unfolding div_round_up_def using d by linarith
qed

lemma init_params_cases:
  assumes "ssd_init_params c capacity nparts = Some spp"
  obtains blks bsz where "spp = set_params c (NAND_CHANNELS c div nparts) blks bsz" "nparts \<noteq> 0"
    "ONESHOT_PAGE_SIZE c mod 4096 = 0" "FLASH_PAGE_SIZE c mod 4096 = 0" "FLASH_PAGE_SIZE c \<noteq> 0"
    "ONESHOT_PAGE_SIZE c mod FLASH_PAGE_SIZE c = 0" "ONESHOT_PAGE_SIZE c \<noteq> 0"
    "BLKS_PER_PLN c > 0 \<Longrightarrow> blks = BLKS_PER_PLN c
       \<and> bsz = div_round_up (capacity div nparts) (BLKS_PER_PLN c * PLNS_PER_LUN c * LUNS_PER_NAND_CH c * (NAND_CHANNELS c div nparts))
       \<and> 0 < BLKS_PER_PLN c * PLNS_PER_LUN c * LUNS_PER_NAND_CH c * (NAND_CHANNELS c div nparts)"
    "BLKS_PER_PLN c = 0 \<Longrightarrow> bsz = BLK_SIZE c \<and> 0 < BLK_SIZE c
       \<and> blks = div_round_up (capacity div nparts) (BLK_SIZE c * PLNS_PER_LUN c * LUNS_PER_NAND_CH c * (NAND_CHANNELS c div nparts))
       \<and> 0 < PLNS_PER_LUN c * LUNS_PER_NAND_CH c * (NAND_CHANNELS c div nparts)"
  using assms unfolding ssd_init_params_def Let_def
  by (cases "BLKS_PER_PLN c > 0") (auto split: if_splits Option.bind_splits)

lemma set_params_sizes:
  "nchs (set_params c chs blks bsz) = chs" "luns_per_ch (set_params c chs blks bsz) = LUNS_PER_NAND_CH c"
  "pls_per_lun (set_params c chs blks bsz) = PLNS_PER_LUN c" "blks_per_pl (set_params c chs blks bsz) = blks"
  "oneshotpgs_per_blk (set_params c chs blks bsz) = div_round_up bsz (ONESHOT_PAGE_SIZE c)"
  by (simp_all add: set_params_def Let_def)

lemma init_params_shape:
  assumes "ssd_init_params c capacity nparts = Some spp"
  defines "chs \<equiv> NAND_CHANNELS c div nparts" and "osz \<equiv> ONESHOT_PAGE_SIZE c" and "fsz \<equiv> FLASH_PAGE_SIZE c"
  shows "nparts \<noteq> 0" "nchs spp = chs" "luns_per_ch spp = LUNS_PER_NAND_CH c" "pls_per_lun spp = PLNS_PER_LUN c"
    "pgsz spp = 4096" "secs_per_pg spp = 8" "pgs_per_oneshotpg spp = osz div 4096" "pgs_per_flashpg spp = fsz div 4096"
    "pgs_per_blk spp = pgs_per_oneshotpg spp * oneshotpgs_per_blk spp"
    "flashpgs_per_blk spp = osz div fsz * oneshotpgs_per_blk spp"
    "osz mod 4096 = 0" "fsz mod 4096 = 0" "fsz \<noteq> 0" "osz mod fsz = 0" "osz \<noteq> 0"
    "pgs_per_pl spp = pgs_per_blk spp * blks_per_pl spp" "pgs_per_lun spp = pgs_per_pl spp * pls_per_lun spp"
    "pgs_per_ch spp = pgs_per_lun spp * luns_per_ch spp" "tt_pgs spp = pgs_per_ch spp * nchs spp"
    "tt_luns spp = luns_per_ch spp * nchs spp" "pgs_per_line spp = tt_luns spp * pgs_per_blk spp"
    "tt_lines spp = blks_per_pl spp * pls_per_lun spp" "cell_mode spp = cell_mode_value (CELL_MODE c)"
    "pg_4kb_rd_lat spp = NAND_4KB_READ_LATENCY c" "pg_rd_lat spp = NAND_READ_LATENCY c"
proof -
  obtain blks bsz where spp: "spp = set_params c chs blks bsz" "nparts \<noteq> 0" "osz mod 4096 = 0" "fsz mod 4096 = 0" "fsz \<noteq> 0"
    "osz mod fsz = 0" "osz \<noteq> 0"
    using init_params_cases [OF assms(1)] unfolding chs_def osz_def fsz_def by metis
  show "nparts \<noteq> 0" "osz mod 4096 = 0" "fsz mod 4096 = 0" "fsz \<noteq> 0" "osz mod fsz = 0" "osz \<noteq> 0" by (fact spp)+
  show "nchs spp = chs" "luns_per_ch spp = LUNS_PER_NAND_CH c" "pls_per_lun spp = PLNS_PER_LUN c"
    "pgsz spp = 4096" "secs_per_pg spp = 8" "pgs_per_oneshotpg spp = osz div 4096" "pgs_per_flashpg spp = fsz div 4096"
    "pgs_per_blk spp = pgs_per_oneshotpg spp * oneshotpgs_per_blk spp"
    "flashpgs_per_blk spp = osz div fsz * oneshotpgs_per_blk spp"
    "pgs_per_pl spp = pgs_per_blk spp * blks_per_pl spp" "pgs_per_lun spp = pgs_per_pl spp * pls_per_lun spp"
    "pgs_per_ch spp = pgs_per_lun spp * luns_per_ch spp" "tt_pgs spp = pgs_per_ch spp * nchs spp"
    "tt_luns spp = luns_per_ch spp * nchs spp" "pgs_per_line spp = tt_luns spp * pgs_per_blk spp"
    "tt_lines spp = blks_per_pl spp * pls_per_lun spp" "cell_mode spp = cell_mode_value (CELL_MODE c)"
    "pg_4kb_rd_lat spp = NAND_4KB_READ_LATENCY c" "pg_rd_lat spp = NAND_READ_LATENCY c"
    unfolding spp(1) by (simp_all add: set_params_def Let_def osz_def fsz_def)
qed

text \<open>The block size chosen and the capacity it gives.\<close>

lemma init_params_blocks:
  assumes "ssd_init_params c capacity nparts = Some spp"
  obtains bsz where "oneshotpgs_per_blk spp = div_round_up bsz (ONESHOT_PAGE_SIZE c)"
    "capacity div nparts \<le> bsz * (blks_per_pl spp * pls_per_lun spp * luns_per_ch spp * nchs spp)"
    "0 < capacity div nparts \<longrightarrow> 0 < bsz \<and> 0 < blks_per_pl spp"
    "0 < pls_per_lun spp * luns_per_ch spp * nchs spp"
proof (rule init_params_cases [OF assms], goal_cases)
  case (1 blks bsz)
  let ?n = "blks * PLNS_PER_LUN c * LUNS_PER_NAND_CH c * (NAND_CHANNELS c div nparts)"
  note sz = set_params_sizes [of c "NAND_CHANNELS c div nparts" blks bsz, folded 1(2)]
  have "capacity div nparts \<le> bsz * ?n \<and> (0 < capacity div nparts \<longrightarrow> 0 < bsz \<and> 0 < blks)
      \<and> 0 < PLNS_PER_LUN c * LUNS_PER_NAND_CH c * (NAND_CHANNELS c div nparts)"
  proof (cases "BLKS_PER_PLN c > 0")
    case True
    then show ?thesis using 1(9) div_round_up_covers [of ?n "capacity div nparts"] div_round_up_pos [of ?n] by simp
  next
    case False
    let ?m = "BLK_SIZE c * PLNS_PER_LUN c * LUNS_PER_NAND_CH c * (NAND_CHANNELS c div nparts)"
    have "blks * ?m = bsz * ?n" using False 1(10) by simp
    moreover have "capacity div nparts \<le> blks * ?m" using False 1(10) div_round_up_covers [of ?m "capacity div nparts"] by simp
    ultimately have "capacity div nparts \<le> bsz * ?n" by (simp only:)
    moreover have "0 < capacity div nparts \<longrightarrow> 0 < bsz \<and> 0 < blks" using False 1(10) div_round_up_pos [of ?m] by simp
    ultimately show ?thesis using False 1(10) by blast
  qed
  then show ?thesis using that [of bsz] sz by simp
qed

section \<open>Properties\<close>

text \<open>
  For a profile with one plane per die and a positive capacity per partition, the parameters are consistent: one-shot
  pages and flash pages divide a block evenly, nothing is empty, and the pages of a partition hold its capacity.
\<close>

lemma init_params_geometry:
  assumes init: "ssd_init_params c capacity nparts = Some spp"
    and cap: "0 < capacity div nparts" and pls: "PLNS_PER_LUN c = 1"
  shows "geometry spp \<and> capacity div nparts \<le> tt_pgs spp * pgsz spp"
proof -
  note f = init_params_shape [OF init]
  obtain bsz where bsz: "oneshotpgs_per_blk spp = div_round_up bsz (ONESHOT_PAGE_SIZE c)"
    "capacity div nparts \<le> bsz * (blks_per_pl spp * pls_per_lun spp * luns_per_ch spp * nchs spp)"
    "0 < bsz" "0 < blks_per_pl spp" "0 < pls_per_lun spp * luns_per_ch spp * nchs spp"
    using init_params_blocks [OF init] cap by metis
  obtain o' where osz: "ONESHOT_PAGE_SIZE c = 4096 * o'" "0 < o'" using f(11,15) by (auto simp: mod_eq_0_iff_dvd elim!: dvdE)
  obtain f' where fsz: "FLASH_PAGE_SIZE c = 4096 * f'" "0 < f'" using f(12,13) by (auto simp: mod_eq_0_iff_dvd elim!: dvdE)
  obtain r where r: "o' = f' * r" using f(14) osz fsz by (auto simp: mod_eq_0_iff_dvd elim!: dvdE)
  have nosp: "0 < oneshotpgs_per_blk spp" unfolding bsz(1) using bsz(3) osz by (intro div_round_up_pos) simp_all
  have flash: "pgs_per_blk spp = pgs_per_flashpg spp * flashpgs_per_blk spp"
    using f(7-10) osz fsz r by simp
  have "bsz \<le> oneshotpgs_per_blk spp * ONESHOT_PAGE_SIZE c" unfolding bsz(1) using osz by (intro div_round_up_covers) simp
  also have "\<dots> = pgs_per_blk spp * pgsz spp" using f(5,7,9) osz by simp
  finally have "capacity div nparts \<le> pgs_per_blk spp * pgsz spp * (blks_per_pl spp * pls_per_lun spp * luns_per_ch spp * nchs spp)"
    using bsz(2) order_trans mult_le_mono1 by blast
  also have "\<dots> = tt_pgs spp * pgsz spp" by (simp add: f(16-19))
  finally have "capacity div nparts \<le> tt_pgs spp * pgsz spp" .
  moreover have "geometry spp" using flash nosp bsz(4,5) osz(1,2) fsz pls f by (simp add: geometry_def)
  ultimately show ?thesis by blast
qed

lemma div_round_up_tight: "0 < d \<Longrightarrow> div_round_up n d * d < n + d"
  unfolding div_round_up_def by (metis add_gr_0 diff_less div_times_less_eq_dividend le_less_trans zero_less_one)

lemma div_round_up_le: "n \<le> k * d \<Longrightarrow> 0 < d \<Longrightarrow> div_round_up n d \<le> k"
  unfolding div_round_up_def using div_less_iff_less_mult [of d "n + d - 1" "Suc k"] by (simp add: less_Suc_eq_le)

text \<open>The parameters of the 970 PRO profile with \<open>k\<close> channels per partition: nothing overflows up to 64 TiB.\<close>

definition params_970 :: "nat \<Rightarrow> nat \<Rightarrow> ssdparams" where
  "params_970 k n = set_params samsung_970pro k 8192 (div_round_up n (16384 * k))"

lemma params_970_fit:
  assumes "k \<in> {1, 2, 4, 8}" and "n \<le> 2 ^ 43 * k"
  shows "params_fit (params_970 k n)"
proof -
  define b where "b = div_round_up n (16384 * k)"
  have "b \<le> 2 ^ 29" unfolding b_def using assms by (intro div_round_up_le) auto
  then have "div_round_up b 32768 \<le> 2 ^ 14" by (intro div_round_up_le) simp_all
  then show ?thesis using assms(1) unfolding params_970_def b_def [symmetric] params_fit_def
    by (auto simp: set_params_def samsung_970pro_def Let_def)
qed

lemma init_params_970:
  assumes "nparts \<in> {1, 2, 4, 8}" and "capacity \<le> 2 ^ 46"
  shows "ssd_init_params samsung_970pro capacity nparts = Some (params_970 (8 div nparts) (capacity div nparts))"
proof -
  define k n where "k = 8 div nparts" and "n = capacity div nparts"
  have k: "k \<in> {1, 2, 4, 8}" "n \<le> 2 ^ 43 * k" "n \<le> 2 ^ 46" using assms by (auto simp: k_def n_def)
  have "div_round_up n (16384 * k) \<le> 2 ^ 29" using k by (intro div_round_up_le) auto
  moreover have "8 mod nparts = 0" "nparts \<noteq> 0" using assms(1) by auto
  ultimately show ?thesis using k params_970_fit [OF k(1,2)] unfolding params_970_def
    by (auto simp: ssd_init_params_def samsung_970pro_def Let_def simp flip: k_def n_def)
qed

text \<open>
  C34. On the 970 PRO profile, for 1, 2, 4 or 8 partitions and any capacity up to 64 TiB of at least a byte per
  partition, the parameters are computed without a failed assertion or an overflow of the widths of the source; they
  are consistent (one-shot pages and flash pages divide a block evenly, nothing is empty); and the pages of a
  partition hold its share of the capacity with less than one one-shot page and a byte to spare in each block.
\<close>

theorem ssd_init_params_geometry:
  assumes parts: "nparts \<in> {1, 2, 4, 8}" and cap: "nparts \<le> capacity" "capacity \<le> 2 ^ 46"
  shows "\<exists>spp. ssd_init_params samsung_970pro capacity nparts = Some spp \<and> params_fit spp \<and> geometry spp
     \<and> capacity div nparts \<le> tt_pgs spp * pgsz spp
     \<and> tt_pgs spp * pgsz spp < capacity div nparts + tt_blks spp * (ONESHOT_PAGE_SIZE samsung_970pro + 1)"
proof -
  define k n where "k = 8 div nparts" and "n = capacity div nparts"
  have k: "k \<in> {1, 2, 4, 8}" "n \<le> 2 ^ 43 * k" "0 < n" using parts cap by (auto simp: k_def n_def div_greater_zero_iff)
  note i = init_params_970 [OF parts cap(2), folded k_def n_def]
  define b o' where "b = div_round_up n (16384 * k)" and "o' = div_round_up b 32768"
  have t: "b * (16384 * k) < n + 16384 * k" "o' * 32768 < b + 32768" unfolding b_def o'_def by (rule div_round_up_tight; use k in auto)+
  have e: "tt_pgs (params_970 k n) * pgsz (params_970 k n) = o' * 32768 * (16384 * k)" "tt_blks (params_970 k n) = 16384 * k"
    by (simp_all add: params_970_def set_params_def samsung_970pro_def Let_def o'_def b_def)
  have "o' * 32768 * (16384 * k) \<le> (b + 32768) * (16384 * k)" using t(2) by (intro mult_le_mono1) simp
  also have "\<dots> < n + 16384 * k * 32769" using t(1) by (simp add: algebra_simps)
  finally have "tt_pgs (params_970 k n) * pgsz (params_970 k n) < n + tt_blks (params_970 k n) * (ONESHOT_PAGE_SIZE samsung_970pro + 1)"
    unfolding e by (simp add: samsung_970pro_def)
  moreover have "geometry (params_970 k n) \<and> n \<le> tt_pgs (params_970 k n) * pgsz (params_970 k n)"
    using init_params_geometry [OF i] k(3) by (simp add: n_def samsung_970pro_def)
  ultimately show ?thesis using i params_970_fit [OF k(1,2)] unfolding n_def [symmetric] by blast
qed

theorem ssd_init_params_geometry_witness:
  "\<exists>spp. ssd_init_params samsung_970pro (2 ^ 36) 4 = Some spp \<and> params_fit spp \<and> geometry spp \<and> 2 ^ 34 \<le> tt_pgs spp * pgsz spp
     \<and> tt_pgs spp * pgsz spp < 2 ^ 34 + tt_blks spp * 32769"
  using ssd_init_params_geometry [of 4 "2 ^ 36"] by (simp add: samsung_970pro_def)

text \<open>
  On the 970 PRO profile every page is timed as an LSB page: the cell index is the flash page number modulo
  the enumeration value of the cell mode, which is 1 for MLC, so the MSB latencies of the profile are never
  used.
\<close>

theorem get_cell_970pro:
  assumes init: "ssd_init_params samsung_970pro capacity nparts = Some (sp s)"
  shows "get_cell s p = Some CELL_TYPE_LSB"
  using init_params_shape(8,12,13,23) [OF init]
  by (simp add: get_cell_def CELL_TYPE_LSB_def samsung_970pro_def)

theorem get_cell_970pro_witness:
  "\<forall>junk. get_cell (ssd_init junk (the (ssd_init_params samsung_970pro (2 ^ 36) 4))) \<lparr>g_pg = 8, g_blk = 0, g_pl = 0, g_lun = 0, g_ch = 0\<rparr> = Some CELL_TYPE_LSB"
proof (rule allI, rule get_cell_970pro)
  fix junk
  show "ssd_init_params samsung_970pro (2 ^ 36) 4 = Some (sp (ssd_init junk (the (ssd_init_params samsung_970pro (2 ^ 36) 4))))"
    using init_params_970 [of 4 "2 ^ 36"] by (simp add: ssd_init_def)
qed

end
