(* ===== verification/Conv_Ftl.thy ===== *)
theory Conv_Ftl
  imports Conv_Line Ssd
begin

text \<open>
  The page-mapping translation layer of the conventional SSD, \<open>conv_ftl.c\<close> and \<open>conv_ftl.h\<close>:
  mapping tables, lines, write pointers and garbage collection of one partition.

  A pointer to a line is its number. The kernel lists of lines are lists of numbers: \<open>list_add_tail\<close>
  appends, \<open>list_del_init\<close> unlinks a line from whichever list it is in, and
  \<open>list_first_entry\<close> of an empty list, which yields a pointer that is no line, is \<open>None\<close>.
  \<open>UNMAPPED_PPA\<close> and \<open>INVALID_LPN\<close> are \<open>None\<close> in the tables.
\<close>

section \<open>Data\<close>

record convparams =
  gc_thres_lines :: u32
  gc_thres_lines_high :: u32
  enable_gc_delay :: bool
  pba_pcent :: nat

record write_pointer =
  curline :: nat
  wp_ch :: nat
  wp_lun :: nat
  wp_pg :: nat
  wp_blk :: nat
  wp_pl :: nat

record line_mgmt =
  lines :: lines
  free_line_list :: "nat list"
  victim_line_pq :: "(lines, nat) pqueue_t option"
  full_line_list :: "nat list"
  lm_tt_lines :: nat
  free_line_cnt :: u32
  victim_line_cnt :: u32
  full_line_cnt :: u32

record write_flow_control =
  write_credits :: u32
  credits_to_refill :: u32

record conv_ftl =
  ssd :: ssd
  cp :: convparams
  maptbl :: "nat \<Rightarrow> ppa option"
  rmap :: "nat \<Rightarrow> nat option"
  wp :: write_pointer
  gc_wp :: write_pointer
  lm :: line_mgmt
  wfc :: write_flow_control

datatype io_type = USER_IO | GC_IO

abbreviation spp_of :: "conv_ftl \<Rightarrow> ssdparams" where
  "spp_of s \<equiv> sp (ssd s)"

primrec get_wp :: "io_type \<Rightarrow> conv_ftl \<Rightarrow> write_pointer" where
  "get_wp USER_IO s = wp s"
| "get_wp GC_IO s = gc_wp s"

primrec set_wp :: "io_type \<Rightarrow> conv_ftl \<Rightarrow> write_pointer \<Rightarrow> conv_ftl" where
  "set_wp USER_IO s w = s\<lparr>wp := w\<rparr>"
| "set_wp GC_IO s w = s\<lparr>gc_wp := w\<rparr>"

section \<open>Tables\<close>

definition last_pg_in_wordline :: "conv_ftl \<Rightarrow> ppa \<Rightarrow> bool" where
  "last_pg_in_wordline s p = (g_pg p mod pgs_per_oneshotpg (spp_of s) = pgs_per_oneshotpg (spp_of s) - 1)"

definition should_gc :: "conv_ftl \<Rightarrow> bool" where
  "should_gc s = (free_line_cnt (lm s) \<le> gc_thres_lines (cp s))"

definition should_gc_high :: "conv_ftl \<Rightarrow> bool" where
  "should_gc_high s = (free_line_cnt (lm s) \<le> gc_thres_lines_high (cp s))"

definition get_maptbl_ent :: "conv_ftl \<Rightarrow> nat \<Rightarrow> ppa option" where
  "get_maptbl_ent s lpn = maptbl s lpn"

definition set_maptbl_ent :: "conv_ftl \<Rightarrow> nat \<Rightarrow> ppa \<Rightarrow> conv_ftl option" where
  "set_maptbl_ent s lpn p = (if lpn < tt_pgs (spp_of s) then Some (s\<lparr>maptbl := (maptbl s)(lpn := Some p)\<rparr>) else None)"

definition ppa2pgidx :: "conv_ftl \<Rightarrow> ppa \<Rightarrow> nat option" where
  "ppa2pgidx s p =
     (let spp = spp_of s;
          pgidx = g_ch p * pgs_per_ch spp + g_lun p * pgs_per_lun spp + g_pl p * pgs_per_pl spp + g_blk p * pgs_per_blk spp + g_pg p
      in if pgidx < tt_pgs spp then Some pgidx else None)"

definition get_rmap_ent :: "conv_ftl \<Rightarrow> ppa \<Rightarrow> nat option option" where
  "get_rmap_ent s p = do { pgidx \<leftarrow> ppa2pgidx s p; Some (rmap s pgidx) }"

definition set_rmap_ent :: "conv_ftl \<Rightarrow> nat option \<Rightarrow> ppa \<Rightarrow> conv_ftl option" where
  "set_rmap_ent s lpn p = do { pgidx \<leftarrow> ppa2pgidx s p; Some (s\<lparr>rmap := (rmap s)(pgidx := lpn)\<rparr>) }"

definition valid_ppa :: "conv_ftl \<Rightarrow> ppa \<Rightarrow> bool" where
  "valid_ppa s p =
     (let spp = spp_of s
      in g_ch p < nchs spp \<and> g_lun p < luns_per_ch spp \<and> g_pl p < pls_per_lun spp \<and> g_blk p < blks_per_pl spp
         \<and> g_pg p < pgs_per_blk spp)"

definition valid_lpn :: "conv_ftl \<Rightarrow> nat \<Rightarrow> bool" where
  "valid_lpn s lpn = (lpn < tt_pgs (spp_of s))"

definition consume_write_credit :: "conv_ftl \<Rightarrow> conv_ftl" where
  "consume_write_credit s = s\<lparr>wfc := (wfc s)\<lparr>write_credits := write_credits (wfc s) - 1\<rparr>\<rparr>"

section \<open>Initialisation\<close>

definition init_maptbl :: "conv_ftl \<Rightarrow> conv_ftl" where
  "init_maptbl s = s\<lparr>maptbl := (\<lambda>i. if i < tt_pgs (spp_of s) then None else maptbl s i)\<rparr>"

definition init_rmap :: "conv_ftl \<Rightarrow> conv_ftl" where
  "init_rmap s = s\<lparr>rmap := (\<lambda>i. if i < tt_pgs (spp_of s) then None else rmap s i)\<rparr>"

text \<open>The victim queue gets the array \<open>mem\<close> from the allocator.\<close>

definition init_lines :: "(nat \<Rightarrow> nat) \<Rightarrow> conv_ftl \<Rightarrow> conv_ftl option" where
  "init_lines mem s =
     (let spp = spp_of s; n = blks_per_pl spp
      in do {
           NVMEV_ASSERT (n = tt_lines spp);
           Some (s\<lparr>lm := \<lparr>lines = (\<lambda>i. if i < n then \<lparr>lid = int i, ipc = 0, vpc = 0, pos = 0\<rparr> else lines (lm s) i),
             free_line_list = [0..<n],
             victim_line_pq = pqueue_init True (Some mem) (tt_lines spp) victim_line_cmp_pri victim_line_get_pri victim_line_set_pri
               victim_line_get_pos victim_line_set_pos,
             full_line_list = [], lm_tt_lines = n, free_line_cnt = of_nat n, victim_line_cnt = 0, full_line_cnt = 0\<rparr>\<rparr>)
         })"

definition list_del_init :: "nat \<Rightarrow> line_mgmt \<Rightarrow> line_mgmt" where
  "list_del_init l m = m\<lparr>free_line_list := remove1 l (free_line_list m), full_line_list := remove1 l (full_line_list m)\<rparr>"

text \<open>
  Taking the first free line. \<open>list_first_entry\<close> never yields NULL, so the test that follows it in the
  code is never true; an empty list hands out the list head as if it were a line.
\<close>

definition get_next_free_line :: "conv_ftl \<Rightarrow> (conv_ftl \<times> nat) option" where
  "get_next_free_line s =
     (case free_line_list (lm s) of
        [] \<Rightarrow> None
      | l # _ \<Rightarrow> Some (s\<lparr>lm := (list_del_init l (lm s))\<lparr>free_line_cnt := free_line_cnt (lm s) - 1\<rparr>\<rparr>, l))"

definition init_write_pointer :: "conv_ftl \<Rightarrow> io_type \<Rightarrow> conv_ftl option" where
  "init_write_pointer s io =
     do {
       (s1, l) \<leftarrow> get_next_free_line s;
       Some (set_wp io s1 \<lparr>curline = l, wp_ch = 0, wp_lun = 0, wp_pg = 0, wp_blk = nat (lid (lines (lm s1) l)), wp_pl = 0\<rparr>)
     }"

definition init_write_flow_control :: "conv_ftl \<Rightarrow> conv_ftl" where
  "init_write_flow_control s =
     s\<lparr>wfc := \<lparr>write_credits = of_nat (pgs_per_line (spp_of s)), credits_to_refill = of_nat (pgs_per_line (spp_of s))\<rparr>\<rparr>"

definition conv_init_ftl :: "conv_ftl \<Rightarrow> (nat \<Rightarrow> nat) \<Rightarrow> convparams \<Rightarrow> ssd \<Rightarrow> conv_ftl option" where
  "conv_init_ftl junk mem cpp dev =
     do {
       s1 \<leftarrow> init_lines mem (init_rmap (init_maptbl (junk\<lparr>cp := cpp, ssd := dev\<rparr>)));
       s2 \<leftarrow> init_write_pointer s1 USER_IO;
       s3 \<leftarrow> init_write_pointer s2 GC_IO;
       Some (init_write_flow_control s3)
     }"

text \<open>\<open>pba_pcent\<close> is \<open>(int)((1 + 0.07) * 100)\<close>.\<close>

definition conv_init_params :: convparams where
  "conv_init_params = \<lparr>gc_thres_lines = 2, gc_thres_lines_high = 2, enable_gc_delay = True, pba_pcent = 107\<rparr>"

section \<open>Write pointers\<close>

definition check_addr :: "nat \<Rightarrow> nat \<Rightarrow> unit option" where
  "check_addr a m = NVMEV_ASSERT (a < m)"

text \<open>Retiring the line that was written to the end.\<close>

definition retire_line :: "conv_ftl \<Rightarrow> nat \<Rightarrow> conv_ftl option" where
  "retire_line s l =
     (let m = lm s; ln = lines m l
      in if vpc ln = int (pgs_per_line (spp_of s))
         then do {
           NVMEV_ASSERT (ipc ln = 0);
           Some (s\<lparr>lm := m\<lparr>full_line_list := full_line_list m @ [l], full_line_cnt := full_line_cnt m + 1\<rparr>\<rparr>)
         }
         else do {
           NVMEV_ASSERT (vpc ln \<ge> 0 \<and> vpc ln < int (pgs_per_line (spp_of s)));
           NVMEV_ASSERT (ipc ln > 0);
           (q, ls, _) \<leftarrow> pqueue_insert (victim_line_pq m) (lines m) l;
           Some (s\<lparr>lm := m\<lparr>victim_line_pq := q, lines := ls, victim_line_cnt := victim_line_cnt m + 1\<rparr>\<rparr>)
         })"

definition advance_write_pointer :: "conv_ftl \<Rightarrow> io_type \<Rightarrow> conv_ftl option" where
  "advance_write_pointer s io =
     (let spp = spp_of s; w = get_wp io s; osp = pgs_per_oneshotpg spp
      in do {
           check_addr (wp_pg w) (pgs_per_blk spp);
           NVMEV_ASSERT (osp \<noteq> 0);
           let pg1 = wp_pg w + 1;
           if pg1 mod osp \<noteq> 0 then Some (set_wp io s (w\<lparr>wp_pg := pg1\<rparr>))
           else do {
             let pg0 = pg1 - osp;
             check_addr (wp_ch w) (nchs spp);
             let ch1 = wp_ch w + 1;
             if ch1 \<noteq> nchs spp then Some (set_wp io s (w\<lparr>wp_pg := pg0, wp_ch := ch1\<rparr>))
             else do {
               check_addr (wp_lun w) (luns_per_ch spp);
               let lun1 = wp_lun w + 1;
               if lun1 \<noteq> luns_per_ch spp then Some (set_wp io s (w\<lparr>wp_pg := pg0, wp_ch := 0, wp_lun := lun1\<rparr>))
               else do {
                 let pg2 = pg0 + osp;
                 if pg2 \<noteq> pgs_per_blk spp then Some (set_wp io s (w\<lparr>wp_pg := pg2, wp_ch := 0, wp_lun := 0\<rparr>))
                 else do {
                   s1 \<leftarrow> retire_line s (curline w);
                   check_addr (wp_blk w) (blks_per_pl spp);
                   (s2, l) \<leftarrow> get_next_free_line s1;
                   let blk' = nat (lid (lines (lm s2) l));
                   check_addr blk' (blks_per_pl spp);
                   NVMEV_ASSERT (wp_pl w = 0);
                   Some (set_wp io s2 \<lparr>curline = l, wp_ch = 0, wp_lun = 0, wp_pg = 0, wp_blk = blk', wp_pl = wp_pl w\<rparr>)
                 }
               }
             }
           }
         })"

definition get_new_page :: "conv_ftl \<Rightarrow> io_type \<Rightarrow> ppa option" where
  "get_new_page s io =
     (let w = get_wp io s; p = set_ppa (wp_ch w) (wp_lun w) (wp_pl w) (wp_blk w) (wp_pg w)
      in do { NVMEV_ASSERT (g_pl p = 0); Some p })"

section \<open>Page and block status\<close>

definition get_line :: "conv_ftl \<Rightarrow> ppa \<Rightarrow> nat" where
  "get_line s p = g_blk p"

definition set_status :: "ssd \<Rightarrow> ppa \<Rightarrow> page_status \<Rightarrow> ssd" where
  "set_status dev p st = put_pg dev p ((get_pg dev p)\<lparr>status := st\<rparr>)"

definition add_blk_counts :: "ssd \<Rightarrow> ppa \<Rightarrow> int \<Rightarrow> int \<Rightarrow> ssd" where
  "add_blk_counts dev p di dv =
     put_blk dev p ((get_blk dev p)\<lparr>blk_ipc := blk_ipc (get_blk dev p) + di, blk_vpc := blk_vpc (get_blk dev p) + dv\<rparr>)"

text \<open>The line part of \<open>mark_page_invalid\<close>.\<close>

definition line_page_invalid :: "conv_ftl \<Rightarrow> nat \<Rightarrow> conv_ftl option" where
  "line_page_invalid s l =
     (let m = lm s; ppl = int (pgs_per_line (spp_of s)); ln = lines m l
      in do {
           NVMEV_ASSERT (ipc ln \<ge> 0 \<and> ipc ln < ppl);
           let was_full_line = (vpc ln = ppl);
           NVMEV_ASSERT (was_full_line \<longrightarrow> ipc ln = 0);
           let ls1 = (lines m)(l := ln\<lparr>ipc := ipc ln + 1\<rparr>);
           NVMEV_ASSERT (vpc ln > 0 \<and> vpc ln \<le> ppl);
           m1 \<leftarrow> (if pos ln \<noteq> 0
                  then (case victim_line_pq m of
                          None \<Rightarrow> None
                        | Some q \<Rightarrow> (let (q', ls2) = pqueue_change_priority q ls1 (word_of_int (vpc ln - 1)) l
                                   in Some (m\<lparr>victim_line_pq := Some q', lines := ls2\<rparr>)))
                  else Some (m\<lparr>lines := ls1(l := (ls1 l)\<lparr>vpc := vpc ln - 1\<rparr>)\<rparr>));
           if was_full_line
           then do {
             let m2 = (list_del_init l m1)\<lparr>full_line_cnt := full_line_cnt m1 - 1\<rparr>;
             (q, ls3, _) \<leftarrow> pqueue_insert (victim_line_pq m2) (lines m2) l;
             Some (s\<lparr>lm := m2\<lparr>victim_line_pq := q, lines := ls3, victim_line_cnt := victim_line_cnt m2 + 1\<rparr>\<rparr>)
           }
           else Some (s\<lparr>lm := m1\<rparr>)
         })"

definition mark_page_invalid :: "conv_ftl \<Rightarrow> ppa \<Rightarrow> conv_ftl option" where
  "mark_page_invalid s p =
     (let ppb = int (pgs_per_blk (spp_of s)); b = get_blk (ssd s) p
      in do {
           NVMEV_ASSERT (status (get_pg (ssd s) p) = PG_VALID);
           NVMEV_ASSERT (blk_ipc b \<ge> 0 \<and> blk_ipc b < ppb);
           NVMEV_ASSERT (blk_vpc b > 0 \<and> blk_vpc b \<le> ppb);
           line_page_invalid (s\<lparr>ssd := add_blk_counts (set_status (ssd s) p PG_INVALID) p 1 (-1)\<rparr>) (get_line s p)
         })"

definition mark_page_valid :: "conv_ftl \<Rightarrow> ppa \<Rightarrow> conv_ftl option" where
  "mark_page_valid s p =
     (let b = get_blk (ssd s) p; l = get_line s p; m = lm s; ln = lines m l
      in do {
           NVMEV_ASSERT (status (get_pg (ssd s) p) = PG_FREE);
           NVMEV_ASSERT (blk_vpc b \<ge> 0 \<and> blk_vpc b < int (pgs_per_blk (spp_of s)));
           NVMEV_ASSERT (vpc ln \<ge> 0 \<and> vpc ln < int (pgs_per_line (spp_of s)));
           Some (s\<lparr>ssd := add_blk_counts (set_status (ssd s) p PG_VALID) p 0 1,
                   lm := m\<lparr>lines := (lines m)(l := ln\<lparr>vpc := vpc ln + 1\<rparr>)\<rparr>\<rparr>)
         })"

definition mark_block_free :: "conv_ftl \<Rightarrow> ppa \<Rightarrow> conv_ftl option" where
  "mark_block_free s p =
     (let spp = spp_of s; b = get_blk (ssd s) p
      in do {
           NVMEV_ASSERT (\<forall>i<pgs_per_blk spp. nsecs (pg b i) = secs_per_pg spp);
           NVMEV_ASSERT (npgs b = pgs_per_blk spp);
           Some (s\<lparr>ssd := put_blk (ssd s) p
             (b\<lparr>pg := (\<lambda>i. if i < pgs_per_blk spp then (pg b i)\<lparr>status := PG_FREE\<rparr> else pg b i),
                blk_ipc := 0, blk_vpc := 0, erase_cnt := erase_cnt b + 1\<rparr>)\<rparr>)
         })"

text \<open>
  The sequence that \<open>gc_write_page\<close> and the loop of \<open>conv_write\<close> share: the page under the
  write pointer is entered in both tables and marked, and the pointer moves on.
\<close>

definition place_page :: "conv_ftl \<Rightarrow> io_type \<Rightarrow> nat \<Rightarrow> (conv_ftl \<times> ppa) option" where
  "place_page s io lpn =
     do {
       p \<leftarrow> get_new_page s io;
       s1 \<leftarrow> set_maptbl_ent s lpn p;
       s2 \<leftarrow> set_rmap_ent s1 (Some lpn) p;
       s3 \<leftarrow> mark_page_valid s2 p;
       s4 \<leftarrow> advance_write_pointer s3 io;
       Some (s4, p)
     }"

section \<open>Garbage collection\<close>

text \<open>Commands to the NAND back end thread the environment; their completion time is not used here.\<close>

definition nand_io :: "conv_ftl \<Rightarrow> ssd_env \<Rightarrow> nand_op \<Rightarrow> u64 \<Rightarrow> ppa \<Rightarrow> (conv_ftl \<times> ssd_env) option" where
  "nand_io s env c len p =
     do {
       (dev, env', _, _) \<leftarrow> ssd_advance_nand (ssd s) env
         \<lparr>nand_op = c, xfer_size = len, stime = 0, nand_stime = 0, interleave_pci_dma = False, cmd_ppa = Some p\<rparr>;
       Some (s\<lparr>ssd := dev\<rparr>, env')
     }"

definition gc_read_page :: "ppa \<Rightarrow> conv_ftl \<times> ssd_env \<Rightarrow> (conv_ftl \<times> ssd_env) option" where
  "gc_read_page p = (\<lambda>(s, env).
     if enable_gc_delay (cp s) then nand_io s env NAND_READ (of_nat (pgsz (spp_of s))) p else Some (s, env))"

text \<open>The tables and the write pointer of \<open>gc_write_page\<close>: the state afterwards and the new page.\<close>

definition gc_remap :: "conv_ftl \<Rightarrow> ppa \<Rightarrow> (conv_ftl \<times> ppa) option" where
  "gc_remap s old_ppa =
     do {
       ent \<leftarrow> get_rmap_ent s old_ppa;
       lpn \<leftarrow> ent;
       NVMEV_ASSERT (valid_lpn s lpn);
       place_page s GC_IO lpn
     }"

definition gc_write_page :: "ppa \<Rightarrow> conv_ftl \<times> ssd_env \<Rightarrow> (conv_ftl \<times> ssd_env) option" where
  "gc_write_page old_ppa = (\<lambda>(s, env).
     do {
       (s1, new_ppa) \<leftarrow> gc_remap s old_ppa;
       if enable_gc_delay (cp s1)
       then if last_pg_in_wordline s1 new_ppa
            then nand_io s1 env NAND_WRITE (of_nat (pgsz (spp_of s1) * pgs_per_oneshotpg (spp_of s1))) new_ppa
            else nand_io s1 env NAND_NOP 0 new_ppa
       else Some (s1, env)
     })"

text \<open>The state and the victim, or \<open>None\<close> for the NULL it returns when there is nothing to collect.\<close>

definition select_victim_line :: "conv_ftl \<Rightarrow> bool \<Rightarrow> conv_ftl \<times> nat option" where
  "select_victim_line s force =
     (case pqueue_peek (victim_line_pq (lm s)) of
        None \<Rightarrow> (s, None)
      | Some v \<Rightarrow>
          if \<not> force \<and> vpc (lines (lm s) v) > int (pgs_per_line (spp_of s) div 8) then (s, None)
          else
            (let (q, ls, _) = pqueue_pop (victim_line_pq (lm s)) (lines (lm s));
                 ls' = ls(v := (ls v)\<lparr>pos := 0\<rparr>)
             in (s\<lparr>lm := (lm s)\<lparr>victim_line_pq := q, lines := ls', victim_line_cnt := victim_line_cnt (lm s) - 1\<rparr>\<rparr>, Some v)))"

text \<open>\<open>ppa.g.pg++\<close>, \<open>i\<close> times.\<close>

definition pg_at :: "ppa \<Rightarrow> nat \<Rightarrow> ppa" where
  "pg_at p i = p\<lparr>g_pg := (g_pg p + i) mod 2 ^ PAGE_BITS\<rparr>"

definition clean_page :: "ppa \<Rightarrow> conv_ftl \<times> ssd_env \<Rightarrow> (conv_ftl \<times> ssd_env) option" where
  "clean_page p = (\<lambda>(s, env).
     if status (get_pg (ssd s) p) = PG_VALID then gc_write_page p (s, env) else Some (s, env))"

definition clean_one_block :: "ppa \<Rightarrow> conv_ftl \<times> ssd_env \<Rightarrow> (conv_ftl \<times> ssd_env) option" where
  "clean_one_block p st =
     do {
       ((s, env), cnt) \<leftarrow> foldM (\<lambda>i ((s, env), cnt). let q = p\<lparr>g_pg := i mod 2 ^ PAGE_BITS\<rparr> in
           do {
             NVMEV_ASSERT (status (get_pg (ssd s) q) \<noteq> PG_FREE);
             if status (get_pg (ssd s) q) = PG_VALID
             then do { st1 \<leftarrow> gc_read_page q (s, env); st2 \<leftarrow> gc_write_page q st1; Some (st2, cnt + 1) }
             else Some ((s, env), cnt)
           }) [0..<pgs_per_blk (spp_of (fst st))] (st, 0);
       NVMEV_ASSERT (blk_vpc (get_blk (ssd s) p) = cnt);
       Some (s, env)
     }"

definition clean_one_flashpg :: "ppa \<Rightarrow> conv_ftl \<times> ssd_env \<Rightarrow> (conv_ftl \<times> ssd_env) option" where
  "clean_one_flashpg p = (\<lambda>(s, env).
     (let n = pgs_per_flashpg (spp_of s);
          cnt = length (filter (\<lambda>i. status (get_pg (ssd s) (pg_at p i)) = PG_VALID) [0..<n])
      in do {
           NVMEV_ASSERT (\<forall>i<n. status (get_pg (ssd s) (pg_at p i)) \<noteq> PG_FREE);
           if cnt = 0 then Some (s, env)
           else do {
             st \<leftarrow> (if enable_gc_delay (cp s) then nand_io s env NAND_READ (of_nat (pgsz (spp_of s) * cnt)) p else Some (s, env));
             foldM (\<lambda>i. clean_page (pg_at p i)) [0..<n] st
           }
         }))"

definition mark_line_free :: "conv_ftl \<Rightarrow> nat \<Rightarrow> conv_ftl" where
  "mark_line_free s l =
     (let m = lm s
      in s\<lparr>lm := m\<lparr>lines := (lines m)(l := (lines m l)\<lparr>ipc := 0, vpc := 0\<rparr>),
            free_line_list := free_line_list m @ [l], free_line_cnt := free_line_cnt m + 1\<rparr>\<rparr>)"

text \<open>
  The body of the three nested loops of \<open>do_gc\<close>: clean one flash page of the victim line, and with
  the last one of a block erase the block.
\<close>

definition erase_block :: "ppa \<Rightarrow> conv_ftl \<times> ssd_env \<Rightarrow> (conv_ftl \<times> ssd_env) option" where
  "erase_block p = (\<lambda>(s, env).
     do {
       s1 \<leftarrow> mark_block_free s p;
       (s2, env2) \<leftarrow> (if enable_gc_delay (cp s1) then nand_io s1 env NAND_ERASE 0 p else Some (s1, env));
       let l = get_lun (ssd s2) p;
       Some (s2\<lparr>ssd := put_lun (ssd s2) p (l\<lparr>lun_gc_endtime := next_lun_avail_write_time l\<rparr>)\<rparr>, env2)
     })"

definition gc_step :: "nat \<Rightarrow> nat \<times> nat \<times> nat \<Rightarrow> conv_ftl \<times> ssd_env \<Rightarrow> (conv_ftl \<times> ssd_env) option" where
  "gc_step v = (\<lambda>(flashpg, c, l) (s, env).
     (let spp = spp_of s; p = set_ppa c l 0 v (flashpg * pgs_per_flashpg spp)
      in do {
           st \<leftarrow> clean_one_flashpg p (s, env);
           if flashpg = flashpgs_per_blk spp - 1 then erase_block p st else Some st
         }))"

definition gc_visits :: "ssdparams \<Rightarrow> (nat \<times> nat \<times> nat) list" where
  "gc_visits spp = List.product [0..<flashpgs_per_blk spp] (List.product [0..<nchs spp] [0..<luns_per_ch spp])"

text \<open>The boolean is whether a line was collected (the code returns 0 or -1).\<close>

definition do_gc :: "bool \<Rightarrow> conv_ftl \<times> ssd_env \<Rightarrow> ((conv_ftl \<times> ssd_env) \<times> bool) option" where
  "do_gc force = (\<lambda>(s, env).
     (let (s1, victim) = select_victim_line s force
      in case victim of
           None \<Rightarrow> Some ((s1, env), False)
         | Some v \<Rightarrow>
             do {
               let b = nat (lid (lines (lm s1) v)) mod 2 ^ BLK_BITS;
               let s2 = s1\<lparr>wfc := (wfc s1)\<lparr>credits_to_refill := word_of_int (ipc (lines (lm s1) v))\<rparr>\<rparr>;
               (s3, env3) \<leftarrow> foldM (gc_step b) (gc_visits (spp_of s2)) (s2, env);
               Some ((mark_line_free s3 b, env3), True)
             }))"

definition forground_gc :: "conv_ftl \<times> ssd_env \<Rightarrow> (conv_ftl \<times> ssd_env) option" where
  "forground_gc = (\<lambda>(s, env).
     if should_gc_high s then do { (st, _) \<leftarrow> do_gc True (s, env); Some st } else Some (s, env))"

definition check_and_refill_write_credit :: "conv_ftl \<times> ssd_env \<Rightarrow> (conv_ftl \<times> ssd_env) option" where
  "check_and_refill_write_credit = (\<lambda>(s, env).
     if write_credits (wfc s) \<le> 0
     then do {
       (s1, env1) \<leftarrow> forground_gc (s, env);
       Some (s1\<lparr>wfc := (wfc s1)\<lparr>write_credits := write_credits (wfc s1) + credits_to_refill (wfc s1)\<rparr>\<rparr>, env1)
     }
     else Some (s, env))"

section \<open>Writing one logical page\<close>

text \<open>
  The mapping part of the loop body of \<open>conv_write\<close>: the old page is invalidated, a new one is taken
  from the host write pointer. The result has the new page.
\<close>

definition write_lpn :: "conv_ftl \<Rightarrow> nat \<Rightarrow> (conv_ftl \<times> ppa) option" where
  "write_lpn s local_lpn =
     do {
       s1 \<leftarrow> (case get_maptbl_ent s local_lpn of
                None \<Rightarrow> Some s
              | Some p \<Rightarrow> do { s' \<leftarrow> mark_page_invalid s p; set_rmap_ent s' None p });
       place_page s1 USER_IO local_lpn
     }"

end
