(* ===== verification/Conv_Geo.thy ===== *)
theory Conv_Geo
  imports Conv_Ftl
begin

text \<open>
  The addresses of the conventional translation layer: the page index of \<open>ppa2pgidx\<close> is a bijection
  between the pages of a partition and the numbers below \<open>tt_pgs\<close>, and the order in which a write
  pointer visits the pages of a line is a bijection onto the numbers below \<open>pgs_per_line\<close>.
\<close>

section \<open>Mixed radix numbers\<close>

lemma digit_less: "a < m \<Longrightarrow> b < n \<Longrightarrow> a * n + b < m * (n :: nat)"
proof -
  assume "a < m" "b < n"
  then have "a * n + b < Suc a * n" by simp
  also have "\<dots> \<le> m * n" using \<open>a < m\<close> by (intro mult_le_mono1) simp
  finally show ?thesis .
qed

lemma digit_eq: "b < n \<Longrightarrow> b' < n \<Longrightarrow> a * n + b = a' * n + b' \<longleftrightarrow> a = a' \<and> b = (b' :: nat)"
proof
  assume b: "b < n" "b' < n" and e: "a * n + b = a' * n + b'"
  have "a = (a * n + b) div n" using b by simp
  also have "\<dots> = a'" unfolding e using b by simp
  finally have "a = a'" .
  with e show "a = a' \<and> b = b'" by simp
qed simp

section \<open>Pages in range\<close>

definition in_range :: "ssdparams \<Rightarrow> ppa \<Rightarrow> bool" where
  "in_range spp p \<longleftrightarrow> g_ch p < nchs spp \<and> g_lun p < luns_per_ch spp \<and> g_pl p < pls_per_lun spp \<and> g_blk p < blks_per_pl spp
     \<and> g_pg p < pgs_per_blk spp"

lemma valid_ppa_in_range: "valid_ppa s p = in_range (spp_of s) p"
  by (simp add: valid_ppa_def in_range_def Let_def)

definition pgidx :: "ssdparams \<Rightarrow> ppa \<Rightarrow> nat" where
  "pgidx spp p = (((g_ch p * luns_per_ch spp + g_lun p) * pls_per_lun spp + g_pl p) * blks_per_pl spp + g_blk p) * pgs_per_blk spp + g_pg p"

lemma pgidx_less:
  assumes "geometry spp" and "in_range spp p"
  shows "pgidx spp p < tt_pgs spp"
proof -
  have "pgidx spp p < nchs spp * luns_per_ch spp * pls_per_lun spp * blks_per_pl spp * pgs_per_blk spp"
    unfolding pgidx_def using assms(2) by (intro digit_less) (simp_all add: in_range_def)
  also have "\<dots> = tt_pgs spp" using assms(1) by (simp add: geometry_def mult.commute mult.left_commute)
  finally show ?thesis .
qed

lemma ppa2pgidx_eq:
  assumes "geometry (spp_of s)" and "in_range (spp_of s) p"
  shows "ppa2pgidx s p = Some (pgidx (spp_of s) p)"
proof -
  let ?spp = "spp_of s"
  have "g_ch p * pgs_per_ch ?spp + g_lun p * pgs_per_lun ?spp + g_pl p * pgs_per_pl ?spp + g_blk p * pgs_per_blk ?spp + g_pg p = pgidx ?spp p"
    using assms(1) by (simp add: geometry_def pgidx_def algebra_simps)
  then show ?thesis using pgidx_less [OF assms] by (simp add: ppa2pgidx_def Let_def)
qed

lemma pgidx_inj:
  assumes "in_range spp p" and "in_range spp q"
  shows "pgidx spp p = pgidx spp q \<longleftrightarrow> p = q"
  using assms by (cases p; cases q) (auto simp: pgidx_def in_range_def digit_eq)

section \<open>Sets of pages\<close>

definition line_pages :: "ssdparams \<Rightarrow> nat \<Rightarrow> ppa set" where
  "line_pages spp b = {p. in_range spp p \<and> g_blk p = b}"

definition blk_pages :: "ssdparams \<Rightarrow> ppa \<Rightarrow> ppa set" where
  "blk_pages spp p = {q. in_range spp q \<and> same_blk p q}"

definition page_at :: "nat \<Rightarrow> nat \<Rightarrow> nat \<Rightarrow> nat \<Rightarrow> ppa" where
  "page_at b c l g = \<lparr>g_pg = g, g_blk = b, g_pl = 0, g_lun = l, g_ch = c\<rparr>"

lemma page_at_simps [simp]:
  "g_pg (page_at b c l g) = g" "g_blk (page_at b c l g) = b" "g_pl (page_at b c l g) = 0" "g_lun (page_at b c l g) = l" "g_ch (page_at b c l g) = c"
  by (simp_all add: page_at_def)

lemma page_at_collapse:
  assumes "geometry spp" and "in_range spp p"
  shows "p = page_at (g_blk p) (g_ch p) (g_lun p) (g_pg p)"
  using assms by (cases p) (simp add: page_at_def geometry_def in_range_def)

text \<open>Every coordinate fits its bit field, so a page address written to the bit fields is read back.\<close>

lemma set_ppa_page_at:
  assumes "fits_ppa spp" and "c < nchs spp" "l < luns_per_ch spp" "b < blks_per_pl spp" "g < pgs_per_blk spp"
  shows "set_ppa c l 0 b g = page_at b c l g"
  using assms by (simp add: set_ppa_def page_at_def fits_ppa_def)

lemma blk_pages_image:
  assumes "geometry spp" and "in_range spp p"
  shows "blk_pages spp p = (\<lambda>g. page_at (g_blk p) (g_ch p) (g_lun p) g) ` {..<pgs_per_blk spp}"
proof (intro subset_antisym subsetI)
  fix q assume "q \<in> blk_pages spp p"
  then show "q \<in> (\<lambda>g. page_at (g_blk p) (g_ch p) (g_lun p) g) ` {..<pgs_per_blk spp}"
    using page_at_collapse [OF assms(1), of q] by (auto simp: blk_pages_def same_blk_def in_range_def intro!: image_eqI [of _ _ "g_pg q"])
next
  fix q assume "q \<in> (\<lambda>g. page_at (g_blk p) (g_ch p) (g_lun p) g) ` {..<pgs_per_blk spp}"
  then show "q \<in> blk_pages spp p" using assms by (auto simp: blk_pages_def same_blk_def in_range_def geometry_def)
qed

lemma blk_pages_card: "geometry spp \<Longrightarrow> in_range spp p \<Longrightarrow> card (blk_pages spp p) = pgs_per_blk spp"
  by (subst blk_pages_image) (auto simp: inj_on_def page_at_def card_image)

lemma blk_pages_finite: "geometry spp \<Longrightarrow> in_range spp p \<Longrightarrow> finite (blk_pages spp p)"
  by (simp add: blk_pages_image)

section \<open>The order of a write pointer\<close>

text \<open>
  One-shot page by one-shot page, over the channels, then over the dies of a channel, then on to the next
  one-shot page of the block.
\<close>

definition wr_order :: "ssdparams \<Rightarrow> nat \<Rightarrow> nat \<Rightarrow> nat \<Rightarrow> nat" where
  "wr_order spp c l g =
     ((g div pgs_per_oneshotpg spp * luns_per_ch spp + l) * nchs spp + c) * pgs_per_oneshotpg spp + g mod pgs_per_oneshotpg spp"

abbreviation page_order :: "ssdparams \<Rightarrow> ppa \<Rightarrow> nat" where
  "page_order spp p \<equiv> wr_order spp (g_ch p) (g_lun p) (g_pg p)"

lemma wr_order_less:
  assumes "geometry spp" "c < nchs spp" "l < luns_per_ch spp" "g < pgs_per_blk spp"
  shows "wr_order spp c l g < pgs_per_line spp"
proof -
  have "g div pgs_per_oneshotpg spp < oneshotpgs_per_blk spp"
    using assms(1,4) by (intro less_mult_imp_div_less) (simp add: geometry_def mult.commute)
  then have "wr_order spp c l g < oneshotpgs_per_blk spp * luns_per_ch spp * nchs spp * pgs_per_oneshotpg spp"
    unfolding wr_order_def using assms by (intro digit_less) (simp_all add: geometry_def)
  also have "\<dots> = pgs_per_line spp" using assms(1) by (simp add: geometry_def)
  finally show ?thesis .
qed

lemma wr_order_inj:
  assumes "geometry spp" "c < nchs spp" "l < luns_per_ch spp" "c' < nchs spp" "l' < luns_per_ch spp"
    and eq: "wr_order spp c l g = wr_order spp c' l' g'"
  shows "c = c' \<and> l = l' \<and> g = g'"
proof -
  let ?o = "pgs_per_oneshotpg spp"
  have "0 < ?o" using assms(1) by (simp add: geometry_def)
  then have "c = c' \<and> l = l' \<and> g div ?o = g' div ?o \<and> g mod ?o = g' mod ?o"
    using eq assms(2-5) by (auto simp: wr_order_def digit_eq)
  then show ?thesis by (metis div_mult_mod_eq)
qed

lemma page_order_inj:
  assumes "geometry spp" "p \<in> line_pages spp b" "q \<in> line_pages spp b"
  shows "page_order spp p = page_order spp q \<longleftrightarrow> p = q"
proof
  assume "page_order spp p = page_order spp q"
  then have "g_ch p = g_ch q \<and> g_lun p = g_lun q \<and> g_pg p = g_pg q"
    using assms by (intro wr_order_inj [of spp]) (auto simp: line_pages_def in_range_def)
  then show "p = q" using assms by (cases p; cases q) (auto simp: line_pages_def in_range_def geometry_def)
qed simp

text \<open>The page with a given number in the order.\<close>

definition order_page :: "ssdparams \<Rightarrow> nat \<Rightarrow> nat \<Rightarrow> ppa" where
  "order_page spp b k =
     (let o' = pgs_per_oneshotpg spp; off = k mod o'; c = k div o' mod nchs spp; l = k div o' div nchs spp mod luns_per_ch spp;
          wl = k div o' div nchs spp div luns_per_ch spp
      in page_at b c l (wl * o' + off))"

lemma order_page:
  assumes "geometry spp" "k < pgs_per_line spp" "b < blks_per_pl spp"
  shows "order_page spp b k \<in> line_pages spp b" "page_order spp (order_page spp b k) = k"
proof -
  let ?o = "pgs_per_oneshotpg spp"
  have pos: "0 < ?o" "0 < nchs spp" "0 < luns_per_ch spp" "pls_per_lun spp = 1" using assms(1) by (simp_all add: geometry_def)
  have "k < oneshotpgs_per_blk spp * luns_per_ch spp * nchs spp * ?o"
    using assms(1,2) by (simp add: geometry_def mult.commute mult.left_commute)
  then have wl: "k div ?o div nchs spp div luns_per_ch spp < oneshotpgs_per_blk spp"
    by (simp add: less_mult_imp_div_less)
  have "k div ?o div nchs spp div luns_per_ch spp * ?o + k mod ?o < oneshotpgs_per_blk spp * ?o"
    using wl pos by (intro digit_less) simp_all
  then show "order_page spp b k \<in> line_pages spp b"
    using assms(1,3) pos by (simp add: order_page_def Let_def line_pages_def in_range_def geometry_def mult.commute)
  show "page_order spp (order_page spp b k) = k"
    using pos by (simp add: order_page_def Let_def wr_order_def)
qed

lemma line_pages_bij:
  assumes "geometry spp" "b < blks_per_pl spp"
  shows "bij_betw (page_order spp) (line_pages spp b) {..<pgs_per_line spp}"
proof (intro bij_betw_imageI)
  show "inj_on (page_order spp) (line_pages spp b)" using page_order_inj [OF assms(1)] by (intro inj_onI) blast
  show "page_order spp ` line_pages spp b = {..<pgs_per_line spp}"
  proof (intro subset_antisym subsetI)
    fix k assume "k \<in> page_order spp ` line_pages spp b"
    then show "k \<in> {..<pgs_per_line spp}" using assms(1) by (auto simp: line_pages_def in_range_def intro!: wr_order_less)
  next
    fix k assume "k \<in> {..<pgs_per_line spp}"
    then show "k \<in> page_order spp ` line_pages spp b"
      using order_page [OF assms(1) _ assms(2)] by (intro image_eqI [of _ _ "order_page spp b k"]) simp_all
  qed
qed

lemma line_pages_card: "geometry spp \<Longrightarrow> b < blks_per_pl spp \<Longrightarrow> card (line_pages spp b) = pgs_per_line spp"
  using bij_betw_same_card [OF line_pages_bij] by simp

lemma line_pages_finite: "geometry spp \<Longrightarrow> b < blks_per_pl spp \<Longrightarrow> finite (line_pages spp b)"
  using bij_betw_finite [OF line_pages_bij] by simp

lemma line_pages_iff: "p \<in> line_pages spp b \<longleftrightarrow> in_range spp p \<and> g_blk p = b"
  by (simp add: line_pages_def)

section \<open>One step of a write pointer\<close>

definition wp_in_range :: "ssdparams \<Rightarrow> write_pointer \<Rightarrow> bool" where
  "wp_in_range spp w \<longleftrightarrow> wp_ch w < nchs spp \<and> wp_lun w < luns_per_ch spp \<and> wp_pg w < pgs_per_blk spp \<and> wp_blk w < blks_per_pl spp
     \<and> wp_pl w = 0 \<and> wp_blk w = curline w"

abbreviation wp_order :: "ssdparams \<Rightarrow> write_pointer \<Rightarrow> nat" where
  "wp_order spp w \<equiv> wr_order spp (wp_ch w) (wp_lun w) (wp_pg w)"

abbreviation wp_page :: "write_pointer \<Rightarrow> ppa" where
  "wp_page w \<equiv> page_at (wp_blk w) (wp_ch w) (wp_lun w) (wp_pg w)"

lemma mod_Suc_cases:
  assumes "0 < n"
  shows "Suc g mod n \<noteq> 0 \<Longrightarrow> Suc g div n = g div n \<and> Suc g mod n = Suc (g mod n)"
    and "Suc g mod n = 0 \<Longrightarrow> Suc g div n = Suc (g div n) \<and> g mod n = n - 1 \<and> Suc g - n = g div n * n \<and> n \<le> Suc g"
proof -
  assume a: "Suc g mod n \<noteq> 0"
  then have m: "Suc g mod n = Suc (g mod n)" by (simp add: mod_Suc split: if_splits)
  moreover have "Suc g div n = g div n" using a by (simp add: div_Suc)
  ultimately show "Suc g div n = g div n \<and> Suc g mod n = Suc (g mod n)" by simp
next
  assume a: "Suc g mod n = 0"
  then have m: "g mod n = n - 1" by (simp add: mod_Suc split: if_splits)
  have d: "Suc g div n = Suc (g div n)" using a by (simp add: div_Suc)
  have "g = g div n * n + g mod n" by simp
  then have "Suc g = g div n * n + n" using m assms by linarith
  then show "Suc g div n = Suc (g div n) \<and> g mod n = n - 1 \<and> Suc g - n = g div n * n \<and> n \<le> Suc g" using d m by simp
qed

text \<open>
  The step inside a line: the next page in the order, with the state otherwise as it was; or the line is
  written to the end, and it is retired and replaced by a free one.
\<close>

definition next_line :: "conv_ftl \<Rightarrow> io_type \<Rightarrow> conv_ftl option" where
  "next_line s io =
     do {
       s1 \<leftarrow> retire_line s (curline (get_wp io s));
       (s2, l) \<leftarrow> get_next_free_line s1;
       check_addr (nat (lid (lines (lm s2) l))) (blks_per_pl (spp_of s));
       Some (set_wp io s2 \<lparr>curline = l, wp_ch = 0, wp_lun = 0, wp_pg = 0, wp_blk = nat (lid (lines (lm s2) l)), wp_pl = 0\<rparr>)
     }"

lemma advance_same_line:
  assumes geo: "geometry (spp_of s)" and w: "wp_in_range (spp_of s) (get_wp io s)"
    and more: "wp_order (spp_of s) (get_wp io s) + 1 < pgs_per_line (spp_of s)"
  shows "\<exists>w'. advance_write_pointer s io = Some (set_wp io s w') \<and> wp_in_range (spp_of s) w' \<and> curline w' = curline (get_wp io s)
     \<and> wp_order (spp_of s) w' = wp_order (spp_of s) (get_wp io s) + 1"
proof -
  let ?spp = "spp_of s" let ?w = "get_wp io s" let ?o = "pgs_per_oneshotpg (spp_of s)"
  have o: "0 < ?o" "0 < nchs ?spp" "0 < luns_per_ch ?spp" "pgs_per_blk ?spp = ?o * oneshotpgs_per_blk ?spp"
    "pgs_per_line ?spp = luns_per_ch ?spp * nchs ?spp * (?o * oneshotpgs_per_blk ?spp)"
    using geo by (simp_all add: geometry_def)
  have r: "wp_ch ?w < nchs ?spp" "wp_lun ?w < luns_per_ch ?spp" "wp_pg ?w < pgs_per_blk ?spp" using w by (simp_all add: wp_in_range_def)
  note case1 = mod_Suc_cases(1) [OF o(1), of "wp_pg ?w"] and case2 = mod_Suc_cases(2) [OF o(1), of "wp_pg ?w"]
  consider (page) "Suc (wp_pg ?w) mod ?o \<noteq> 0"
    | (chan) "Suc (wp_pg ?w) mod ?o = 0" "Suc (wp_ch ?w) < nchs ?spp"
    | (die) "Suc (wp_pg ?w) mod ?o = 0" "Suc (wp_ch ?w) = nchs ?spp" "Suc (wp_lun ?w) < luns_per_ch ?spp"
    | (word) "Suc (wp_pg ?w) mod ?o = 0" "Suc (wp_ch ?w) = nchs ?spp" "Suc (wp_lun ?w) = luns_per_ch ?spp"
    using r by linarith
  then show ?thesis
  proof cases
    case page
    have "Suc (wp_pg ?w) \<noteq> pgs_per_blk ?spp" using page o(4) by auto
    then show ?thesis using page w r case1
      by (intro exI [of _ "?w\<lparr>wp_pg := Suc (wp_pg ?w)\<rparr>"]) (simp add: advance_write_pointer_def check_addr_def Let_def o wp_in_range_def wr_order_def)
  next
    case chan
    have "wp_pg ?w div ?o * ?o < pgs_per_blk ?spp" using r(3) by (meson div_times_less_eq_dividend le_less_trans)
    then show ?thesis using chan w r case2 o(1)
      by (intro exI [of _ "?w\<lparr>wp_pg := wp_pg ?w div ?o * ?o, wp_ch := Suc (wp_ch ?w)\<rparr>"])
        (simp add: advance_write_pointer_def check_addr_def Let_def o wp_in_range_def wr_order_def algebra_simps)
  next
    case die
    have "wp_pg ?w div ?o * ?o < pgs_per_blk ?spp" using r(3) by (meson div_times_less_eq_dividend le_less_trans)
    moreover have "nchs ?spp = wp_ch ?w + 1" using die by simp
    moreover have "wr_order ?spp 0 (Suc (wp_lun ?w)) (wp_pg ?w div ?o * ?o) = wp_order ?spp ?w + 1"
      using case2 [OF die(1)] o(1) die(2) [symmetric] by (simp add: wr_order_def algebra_simps)
    ultimately show ?thesis using die w r case2 o(1)
      by (intro exI [of _ "?w\<lparr>wp_pg := wp_pg ?w div ?o * ?o, wp_ch := 0, wp_lun := Suc (wp_lun ?w)\<rparr>"])
        (simp add: advance_write_pointer_def check_addr_def Let_def o(2,3) wp_in_range_def)
  next
    case word
    have sz: "nchs ?spp = wp_ch ?w + 1" "luns_per_ch ?spp = wp_lun ?w + 1" using word by simp_all
    have ord: "wp_order ?spp ?w + 1 = Suc (wp_pg ?w div ?o) * luns_per_ch ?spp * nchs ?spp * ?o"
      using case2 [OF word(1)] o(1) by (simp add: wr_order_def sz algebra_simps)
    have ne: "Suc (wp_pg ?w) \<noteq> pgs_per_blk ?spp"
    proof
      assume "Suc (wp_pg ?w) = pgs_per_blk ?spp"
      then have "oneshotpgs_per_blk ?spp = Suc (wp_pg ?w div ?o)" using case2 [OF word(1)] o(1,4) by (metis nonzero_mult_div_cancel_left less_not_refl2)
      then show False using more ord o(5) by (simp add: algebra_simps)
    qed
    moreover have "wr_order ?spp 0 0 (Suc (wp_pg ?w)) = wp_order ?spp ?w + 1"
      unfolding ord using case2 [OF word(1)] word(1) by (simp add: wr_order_def)
    moreover have "Suc (wp_pg ?w) - ?o + ?o = Suc (wp_pg ?w)" using case2 [OF word(1)] by linarith
    ultimately show ?thesis using word w r o(1)
      by (intro exI [of _ "?w\<lparr>wp_pg := Suc (wp_pg ?w), wp_ch := 0, wp_lun := 0\<rparr>"])
        (simp add: advance_write_pointer_def check_addr_def Let_def o(2,3) wp_in_range_def)
  qed
qed

lemma advance_next_line:
  assumes geo: "geometry (spp_of s)" and w: "wp_in_range (spp_of s) (get_wp io s)"
    and last: "wp_order (spp_of s) (get_wp io s) + 1 = pgs_per_line (spp_of s)"
  shows "advance_write_pointer s io = next_line s io"
proof -
  let ?spp = "spp_of s" let ?w = "get_wp io s" let ?o = "pgs_per_oneshotpg (spp_of s)"
  have o: "0 < ?o" "0 < nchs ?spp" "0 < luns_per_ch ?spp" "0 < oneshotpgs_per_blk ?spp" "pgs_per_blk ?spp = ?o * oneshotpgs_per_blk ?spp"
    using geo by (simp_all add: geometry_def)
  have r: "wp_ch ?w < nchs ?spp" "wp_lun ?w < luns_per_ch ?spp" "wp_pg ?w < pgs_per_blk ?spp" using w by (simp_all add: wp_in_range_def)
  let ?c = "nchs ?spp - 1" and ?l = "luns_per_ch ?spp - 1" and ?g = "pgs_per_blk ?spp - 1"
  have g: "?g div ?o = oneshotpgs_per_blk ?spp - 1" "?g mod ?o = ?o - 1" "Suc ?g = pgs_per_blk ?spp"
  proof -
    have "0 < pgs_per_blk ?spp" using o by simp
    then show "Suc ?g = pgs_per_blk ?spp" by simp
    then have "Suc ?g mod ?o = 0" "Suc ?g div ?o = oneshotpgs_per_blk ?spp" using o by simp_all
    then show "?g div ?o = oneshotpgs_per_blk ?spp - 1" "?g mod ?o = ?o - 1" using mod_Suc_cases(2) [OF o(1), of ?g] by auto
  qed
  have "wr_order ?spp ?c ?l ?g + 1 = pgs_per_line ?spp"
  proof -
    obtain c l n k where e: "nchs ?spp = Suc c" "luns_per_ch ?spp = Suc l" "oneshotpgs_per_blk ?spp = Suc n" "?o = Suc k"
      using o by (metis Suc_pred)
    have "wr_order ?spp ?c ?l ?g = ((n * Suc l + l) * Suc c + c) * Suc k + k" unfolding wr_order_def g(1) g(2) by (simp add: e)
    moreover have "pgs_per_line ?spp = Suc l * Suc c * (Suc k * Suc n)" using geo e by (simp add: geometry_def)
    ultimately show ?thesis by (simp add: algebra_simps)
  qed
  then have "wp_ch ?w = ?c \<and> wp_lun ?w = ?l \<and> wp_pg ?w = ?g"
    using wr_order_inj [OF geo r(1,2), of ?c ?l "wp_pg ?w" ?g] last o by simp
  then show ?thesis using w o g(3)
    by (auto simp: advance_write_pointer_def next_line_def check_addr_def Let_def wp_in_range_def split: Option.bind_splits)
qed

end
