(* ===== verification/Conv_Inv.thy ===== *)
theory Conv_Inv
  imports Conv_Geo
begin

text \<open>
  The invariant of the conventional translation layer and how each step keeps it. It has four parts:
  the mapping tables are inverse to each other on the valid pages (\<open>map_ok\<close>), the counters of every
  block count its pages (\<open>blks_ok\<close>), every line is in exactly one place and its counters count its
  pages (\<open>lines_ok\<close>), and a write pointer splits its line into written and free pages (\<open>wp_ok\<close>).
\<close>

section \<open>Counting pages\<close>

definition pst :: "ssd \<Rightarrow> ppa \<Rightarrow> page_status" where
  "pst dev p = status (get_pg dev p)"

definition cnt :: "(ppa \<Rightarrow> page_status) \<Rightarrow> ppa set \<Rightarrow> page_status \<Rightarrow> int" where
  "cnt st R x = int (card {q \<in> R. st q = x})"

lemma cnt_upd:
  assumes "finite R"
  shows "cnt (st(p := y)) R x = cnt st R x + (if p \<in> R \<and> y = x then 1 else 0) - (if p \<in> R \<and> st p = x then 1 else 0)"
proof (cases "p \<in> R")
  case True
  let ?A = "{q \<in> R - {p}. st q = x}"
  have A: "finite ?A" "p \<notin> ?A" using assms by simp_all
  have n: "{q \<in> R. (st(p := y)) q = x} = (if y = x then insert p ?A else ?A)" using True by auto
  have o: "{q \<in> R. st q = x} = (if st p = x then insert p ?A else ?A)" using True by auto
  show ?thesis unfolding cnt_def n o using A True by simp
next
  case False
  then have "{q \<in> R. (st(p := y)) q = x} = {q \<in> R. st q = x}" by auto
  then show ?thesis using False by (simp add: cnt_def)
qed

lemma cnt_cong: "(\<And>q. q \<in> R \<Longrightarrow> st q = st' q) \<Longrightarrow> cnt st R x = cnt st' R x"
  unfolding cnt_def by (metis (mono_tags, lifting) Collect_cong)

lemma cnt_bounds:
  assumes "finite R"
  shows "0 \<le> cnt st R x" "cnt st R x \<le> int (card R)" "p \<in> R \<Longrightarrow> st p = x \<Longrightarrow> 0 < cnt st R x"
    "p \<in> R \<Longrightarrow> st p \<noteq> x \<Longrightarrow> cnt st R x < int (card R)"
proof -
  show "0 \<le> cnt st R x" by (simp add: cnt_def)
  show "cnt st R x \<le> int (card R)" unfolding cnt_def using assms by (simp add: card_mono)
  show "0 < cnt st R x" if "p \<in> R" "st p = x" using that assms by (auto simp: cnt_def card_gt_0_iff)
  show "cnt st R x < int (card R)" if "p \<in> R" "st p \<noteq> x"
  proof -
    have "{q \<in> R. st q = x} \<subset> R" using that by auto
    from psubset_card_mono [OF assms this] show ?thesis by (simp add: cnt_def)
  qed
qed

lemma cnt_all:
  assumes "finite R"
  shows "cnt st R x = int (card R) \<longleftrightarrow> (\<forall>p\<in>R. st p = x)" and "cnt st R x = 0 \<longleftrightarrow> (\<forall>p\<in>R. st p \<noteq> x)"
proof -
  have "cnt st R x = int (card R)" if "\<forall>p\<in>R. st p = x"
  proof -
    have "{q \<in> R. st q = x} = R" using that by auto
    then show ?thesis by (simp add: cnt_def)
  qed
  then show "cnt st R x = int (card R) \<longleftrightarrow> (\<forall>p\<in>R. st p = x)" using cnt_bounds(4) [OF assms] by fastforce
  show "cnt st R x = 0 \<longleftrightarrow> (\<forall>p\<in>R. st p \<noteq> x)" using assms by (auto simp: cnt_def)
qed

section \<open>The victim queue\<close>

lemma victim_insert_rule:
  assumes "victim_pq q ls" and "line_numbered ls e" and "e \<notin> pq_elems q" and "psize q < avail q"
  shows "\<exists>q' ls'. pqueue_insert (Some q) ls e = Some (Some q', ls', 0)
    \<and> victim_pq q' ls' \<and> avail q' = avail q
    \<and> pq_elems q' = insert e (pq_elems q) \<and> repositioned (insert e (pq_elems q)) ls ls'"
  using vl.insert_correct [of q ls e] assms repositioned_kept
  unfolding victim_pq_def by metis

lemma victim_pop_rule:
  assumes "victim_pq q ls" and "pq_elems q \<noteq> {}"
  shows "\<exists>q' ls' e. pqueue_pop (Some q) ls = (Some q', ls', Some e) \<and> e \<in> pq_elems q
    \<and> victim_pq q' ls' \<and> avail q' = avail q \<and> pq_elems q' = pq_elems q - {e} \<and> repositioned (pq_elems q) ls ls'"
  using vl.pop_correct [of q ls] assms repositioned_kept
  unfolding victim_pq_def victim_line_cmp_pri_def not_less by metis

lemma victim_reprioritise_rule:
  assumes "victim_pq q ls" and "e \<in> pq_elems q" and "vpc_range v" and "pqueue_change_priority q ls v e = (q', ls')"
  shows "victim_pq q' ls' \<and> avail q' = avail q \<and> pq_elems q' = pq_elems q
    \<and> repositioned (pq_elems q) (victim_line_set_pri ls e v) ls'"
proof -
  have r: "pq_same q q' \<and> pq_inv line_numbered q' ls' \<and> pq_elems q' = pq_elems q
      \<and> vl.kept (pq_elems q) (victim_line_set_pri ls e v) ls'"
    using assms by (intro vl.change_priority_correct) (simp_all add: victim_pq_def)
  then have "avail q' = avail q" by (simp add: pq_same_def)
  then show ?thesis using assms(1) r repositioned_kept pq_uses_same [of q q'] unfolding victim_pq_def by simp
qed

lemma victim_pq_size:
  assumes "victim_pq q ls"
  shows "psize q = card (pq_elems q) + 1" "finite (pq_elems q)" "a \<in> pq_elems q \<Longrightarrow> 0 < pos (ls a)" "1 \<le> psize q"
proof -
  have i: "inj_on (d q) (pq_slots q)" "1 \<le> psize q" using assms pq_invD [of line_numbered q ls] by (auto simp: victim_pq_def)
  then have "card (pq_elems q) = card (pq_slots q)" unfolding pq_elems_def by (intro card_image)
  then show "psize q = card (pq_elems q) + 1" using i(2) by (simp add: pq_slots_def)
  show "finite (pq_elems q)" by (simp add: pq_elems_def pq_slots_def)
  show "0 < pos (ls a)" if "a \<in> pq_elems q"
  proof -
    from that obtain j where j: "j \<in> pq_slots q" "a = d q j" by (auto simp: pq_elems_def)
    then have "getpos q ls a = j" using pq_invD(5) [of line_numbered q ls j] assms by (simp add: victim_pq_def)
    then show ?thesis using j(1) assms by (simp add: victim_pq_def pq_uses_def victim_line_get_pos_def pq_slots_def)
  qed
  show "1 \<le> psize q" by (rule i(2))
qed

lemma victim_pq_numbered: "victim_pq q ls \<Longrightarrow> a \<in> pq_elems q \<Longrightarrow> lid (ls a) = int a"
  using pq_invD(4) [of line_numbered q ls] by (auto simp: victim_pq_def pq_elems_def line_numbered_def)

text \<open>Fields of lines that the queue does not look at, and lines outside it, may change.\<close>

lemma victim_pq_cong:
  assumes "victim_pq q ls" and "\<And>a. a \<in> pq_elems q \<Longrightarrow> lid (ls' a) = lid (ls a) \<and> vpc (ls' a) = vpc (ls a) \<and> pos (ls' a) = pos (ls a)"
  shows "victim_pq q ls'"
proof -
  have i: "pq_inv line_numbered q ls" "pq_uses victim_line_cmp_pri victim_line_get_pri victim_line_set_pri victim_line_get_pos victim_line_set_pos q"
    using assms(1) by (simp_all add: victim_pq_def)
  have e: "victim_line_get_pri ls' a = victim_line_get_pri ls a" "victim_line_get_pos ls' a = victim_line_get_pos ls a"
    "line_numbered ls' a = line_numbered ls a" if "a \<in> pq_elems q" for a
    using assms(2) [OF that] by (simp_all add: flax_defs line_numbered_def)
  have "pq_placed line_numbered q ls'"
    using i e by (auto simp: pq_inv_def pq_placed_def pq_uses_def pq_elems_def)
  moreover have "pq_heap q ls'"
  proof (unfold pq_heap_def, intro ballI)
    fix j assume j: "j \<in> {2..<psize q}"
    then have "d q j \<in> pq_elems q" "d q (parent j) \<in> pq_elems q"
      by (auto simp: pq_elems_def pq_slots_def parent_def intro!: imageI)
    then show "\<not> cmppri q (getpri q ls' (d q (parent j))) (getpri q ls' (d q j))"
      using i e j by (auto simp: pq_inv_def pq_heap_def pq_uses_def)
  qed
  ultimately show ?thesis using i by (simp add: victim_pq_def pq_inv_def)
qed

section \<open>Lines\<close>

definition victims :: "line_mgmt \<Rightarrow> nat set" where
  "victims m = (case victim_line_pq m of None \<Rightarrow> {} | Some q \<Rightarrow> pq_elems q)"

definition pq_ok :: "ssdparams \<Rightarrow> line_mgmt \<Rightarrow> bool" where
  "pq_ok spp m \<longleftrightarrow> (case victim_line_pq m of None \<Rightarrow> False | Some q \<Rightarrow> victim_pq q (lines m) \<and> avail q = blks_per_pl spp + 1)"

text \<open>
  Every line is in the free list, in the full list, in the victim queue or in hand: the current line of a
  write pointer or the line under garbage collection, listed in \<open>H\<close>. The lines in \<open>E\<close>
  are exempt from counting.
\<close>

definition listed :: "line_mgmt \<Rightarrow> nat list \<Rightarrow> nat list" where
  "listed m H = free_line_list m @ full_line_list m @ H"

definition placed :: "ssdparams \<Rightarrow> line_mgmt \<Rightarrow> nat list \<Rightarrow> bool" where
  "placed spp m H \<longleftrightarrow> distinct (listed m H) \<and> set (listed m H) \<subseteq> {..<blks_per_pl spp}
     \<and> victims m = {..<blks_per_pl spp} - set (listed m H)
     \<and> free_line_cnt m = of_nat (length (free_line_list m))"

definition line_ok :: "ssdparams \<Rightarrow> (ppa \<Rightarrow> page_status) \<Rightarrow> line_mgmt \<Rightarrow> nat set \<Rightarrow> nat \<Rightarrow> bool" where
  "line_ok spp st m E b \<longleftrightarrow> lid (lines m b) = int b \<and> (pos (lines m b) = 0 \<longleftrightarrow> b \<notin> victims m)
     \<and> (b \<notin> E \<longrightarrow> vpc (lines m b) = cnt st (line_pages spp b) PG_VALID \<and> ipc (lines m b) = cnt st (line_pages spp b) PG_INVALID)
     \<and> (b \<in> set (free_line_list m) \<longrightarrow> (\<forall>p\<in>line_pages spp b. st p = PG_FREE))
     \<and> (b \<in> set (full_line_list m) \<longrightarrow> (\<forall>p\<in>line_pages spp b. st p = PG_VALID))
     \<and> (b \<in> victims m \<longrightarrow> (\<forall>p\<in>line_pages spp b. st p \<noteq> PG_FREE) \<and> (\<exists>p\<in>line_pages spp b. st p = PG_INVALID))"

definition lines_ok :: "ssdparams \<Rightarrow> (ppa \<Rightarrow> page_status) \<Rightarrow> line_mgmt \<Rightarrow> nat list \<Rightarrow> nat set \<Rightarrow> bool" where
  "lines_ok spp st m H E \<longleftrightarrow> pq_ok spp m \<and> placed spp m H \<and> (\<forall>b<blks_per_pl spp. line_ok spp st m E b)"

lemma lines_okD:
  assumes "lines_ok spp st m H E"
  shows "pq_ok spp m" "placed spp m H" "b < blks_per_pl spp \<Longrightarrow> line_ok spp st m E b"
  using assms by (simp_all add: lines_ok_def)

lemma pq_okE:
  assumes "pq_ok spp m"
  obtains q where "victim_line_pq m = Some q" "victim_pq q (lines m)" "avail q = blks_per_pl spp + 1" "victims m = pq_elems q"
  using assms by (auto simp: pq_ok_def victims_def split: option.splits)

lemma placed_perm: "set H = set H' \<Longrightarrow> distinct H = distinct H' \<Longrightarrow> placed spp m H = placed spp m H'"
  by (auto simp: placed_def listed_def)

lemma lines_ok_perm: "set H = set H' \<Longrightarrow> distinct H = distinct H' \<Longrightarrow> lines_ok spp st m H E = lines_ok spp st m H' E"
  unfolding lines_ok_def using placed_perm [of H H' spp m] by blast

lemma lines_ok_status:
  assumes "lines_ok spp st m H E" and "\<And>p. in_range spp p \<Longrightarrow> g_blk p \<notin> E \<Longrightarrow> st' p = st p" and "E \<subseteq> set H"
  shows "lines_ok spp st' m H E"
proof -
  have "line_ok spp st' m E b" if b: "b < blks_per_pl spp" for b
  proof (cases "b \<in> E")
    case True
    then have "b \<in> set H" using assms(3) by blast
    then have "b \<notin> set (free_line_list m)" "b \<notin> set (full_line_list m)" "b \<notin> victims m"
      using lines_okD(2) [OF assms(1)] by (auto simp: placed_def listed_def)
    then show ?thesis using lines_okD(3) [OF assms(1) b] True by (simp add: line_ok_def)
  next
    case False
    then have e: "\<And>p. p \<in> line_pages spp b \<Longrightarrow> st' p = st p" using assms(2) by (simp add: line_pages_iff)
    then have "cnt st' (line_pages spp b) x = cnt st (line_pages spp b) x" for x by (intro cnt_cong) simp
    then show ?thesis using lines_okD(3) [OF assms(1) b] e by (simp add: line_ok_def)
  qed
  then show ?thesis using assms(1) by (simp add: lines_ok_def)
qed

text \<open>Moving the first free line into the hand.\<close>

lemma take_free_line:
  assumes ok: "lines_ok (spp_of s) st (lm s) H E" and ne: "free_line_list (lm s) = l # F"
  shows "\<exists>m. get_next_free_line s = Some (s\<lparr>lm := m\<rparr>, l) \<and> lines_ok (spp_of s) st m (l # H) E
     \<and> lid (lines m l) = int l \<and> l < blks_per_pl (spp_of s) \<and> l \<notin> set H \<and> (\<forall>p\<in>line_pages (spp_of s) l. st p = PG_FREE)
     \<and> free_line_list m = F"
proof -
  let ?m = "(list_del_init l (lm s))\<lparr>free_line_cnt := free_line_cnt (lm s) - 1\<rparr>"
  note pl = lines_okD(2) [OF ok] and lok = lines_okD(3) [OF ok]
  have d: "l \<notin> set F" "l \<notin> set (full_line_list (lm s))" "l \<notin> set H" "l < blks_per_pl (spp_of s)"
    using pl ne by (auto simp: placed_def listed_def)
  then have lists: "free_line_list ?m = F" "full_line_list ?m = full_line_list (lm s)" "victims ?m = victims (lm s)" "lines ?m = lines (lm s)"
    using ne by (simp_all add: list_del_init_def remove1_idem victims_def)
  have "placed (spp_of s) ?m (l # H)" using pl ne d lists by (auto simp: placed_def listed_def)
  moreover have "line_ok (spp_of s) st ?m E b" if "b < blks_per_pl (spp_of s)" for b
    using lok [OF that] ne unfolding line_ok_def lists by simp
  moreover have "pq_ok (spp_of s) ?m" using lines_okD(1) [OF ok] by (simp add: pq_ok_def list_del_init_def split: option.splits)
  ultimately have "lines_ok (spp_of s) st ?m (l # H) E" by (simp add: lines_ok_def)
  moreover have "\<forall>p\<in>line_pages (spp_of s) l. st p = PG_FREE" "lid (lines ?m l) = int l"
    using lok [OF d(4)] ne lists(4) by (simp_all add: line_ok_def)
  ultimately show ?thesis using ne d lists(1) by (intro exI [of _ ?m]) (simp add: get_next_free_line_def)
qed

text \<open>A free slot of the queue for every line that is not in it.\<close>

lemma queue_room:
  assumes "pq_ok spp m" "placed spp m H" "victim_line_pq m = Some q" "l < blks_per_pl spp" "l \<notin> victims m"
  shows "psize q < avail q"
proof -
  have q: "victim_pq q (lines m)" "avail q = blks_per_pl spp + 1" "victims m = pq_elems q"
    using assms(1,3) by (simp_all add: pq_ok_def victims_def)
  have "pq_elems q \<subset> {..<blks_per_pl spp}" using assms(2,4,5) q(3) by (auto simp: placed_def)
  then have "card (pq_elems q) < blks_per_pl spp" using psubset_card_mono [of "{..<blks_per_pl spp}"] by simp
  then show ?thesis using victim_pq_size(1) [OF q(1)] q(2) by simp
qed

lemma repositionedD:
  assumes "repositioned X ls ls'"
  shows "lid (ls' a) = lid (ls a)" "vpc (ls' a) = vpc (ls a)" "ipc (ls' a) = ipc (ls a)" "a \<notin> X \<Longrightarrow> pos (ls' a) = pos (ls a)"
proof -
  have e: "ls' a = (ls a)\<lparr>pos := pos (ls' a)\<rparr>" using assms by (simp add: repositioned_def)
  show "lid (ls' a) = lid (ls a)" by (subst e) simp
  show "vpc (ls' a) = vpc (ls a)" by (subst e) simp
  show "ipc (ls' a) = ipc (ls a)" by (subst e) simp
  show "pos (ls' a) = pos (ls a)" if "a \<notin> X" using assms that by (simp add: repositioned_def)
qed

text \<open>Putting a line that is in hand into the queue.\<close>

lemma enqueue_victim:
  assumes pq: "pq_ok spp m" and pl: "placed spp m (l # H)"
    and lok: "\<And>b. b < blks_per_pl spp \<Longrightarrow> line_ok spp st m E b"
    and full: "\<forall>p\<in>line_pages spp l. st p \<noteq> PG_FREE" "\<exists>p\<in>line_pages spp l. st p = PG_INVALID"
  shows "\<exists>q ls. pqueue_insert (victim_line_pq m) (lines m) l = Some (q, ls, 0)
     \<and> lines_ok spp st (m\<lparr>victim_line_pq := q, lines := ls, victim_line_cnt := n\<rparr>) H E"
proof -
  obtain q where q: "victim_line_pq m = Some q" "victim_pq q (lines m)" "avail q = blks_per_pl spp + 1" "victims m = pq_elems q"
    using pq by (rule pq_okE)
  have l: "l < blks_per_pl spp" "l \<notin> victims m" using pl by (auto simp: placed_def listed_def)
  have num: "line_numbered (lines m) l" using lok [OF l(1)] by (simp add: line_ok_def line_numbered_def)
  obtain q' ls where i: "pqueue_insert (Some q) (lines m) l = Some (Some q', ls, 0)" "victim_pq q' ls" "avail q' = avail q"
    "pq_elems q' = insert l (pq_elems q)" "repositioned (insert l (pq_elems q)) (lines m) ls"
    using victim_insert_rule [OF q(2) num] l(2) q(4) queue_room [OF pq pl q(1) l] by auto
  let ?m = "m\<lparr>victim_line_pq := Some q', lines := ls, victim_line_cnt := n\<rparr>"
  have v: "victims ?m = insert l (victims m)" using i(4) q(4) by (simp add: victims_def)
  have "placed spp ?m H" using pl v unfolding placed_def by (auto simp: listed_def)
  moreover have "pq_ok spp ?m" using i(2,3) q(3) by (simp add: pq_ok_def)
  moreover have "line_ok spp st ?m E b" if b: "b < blks_per_pl spp" for b
  proof -
    have "pos (lines m b) = 0 \<longleftrightarrow> b \<notin> pq_elems q" using lok [OF b] q(4) by (simp only: line_ok_def)
    then have "pos (ls b) = 0 \<longleftrightarrow> b \<notin> victims ?m"
      unfolding v q(4) using victim_pq_size(3) [OF i(2), of b] repositionedD(4) [OF i(5), of b] i(4)
      by (cases "b \<in> insert l (pq_elems q)") simp_all
    moreover have "lines ?m = ls" "free_line_list ?m = free_line_list m" "full_line_list ?m = full_line_list m" by simp_all
    ultimately show ?thesis using lok [OF b] full unfolding line_ok_def v
      by (simp only: repositionedD(1-3) [OF i(5)]) blast
  qed
  ultimately show ?thesis using i(1) q(1) by (auto simp: lines_ok_def)
qed

lemma retire_line_ok:
  assumes geo: "geometry (spp_of s)" and ok: "lines_ok (spp_of s) st (lm s) (c # H) E"
    and c: "c \<notin> E" and written: "\<forall>p\<in>line_pages (spp_of s) c. st p \<noteq> PG_FREE"
  shows "\<exists>m. retire_line s c = Some (s\<lparr>lm := m\<rparr>) \<and> lines_ok (spp_of s) st m H E \<and> free_line_list m = free_line_list (lm s)"
proof -
  let ?spp = "spp_of s" let ?R = "line_pages ?spp c"
  note pl = lines_okD(2) [OF ok] and lok = lines_okD(3) [OF ok]
  have cb: "c < blks_per_pl ?spp" using pl by (auto simp: placed_def listed_def)
  have fin: "finite ?R" "card ?R = pgs_per_line ?spp" using line_pages_finite [OF geo cb] line_pages_card [OF geo cb] by simp_all
  have vi: "vpc (lines (lm s) c) = cnt st ?R PG_VALID" "ipc (lines (lm s) c) = cnt st ?R PG_INVALID"
    using lok [OF cb] c by (simp_all add: line_ok_def)
  show ?thesis
  proof (cases "\<forall>p\<in>?R. st p = PG_VALID")
    case True
    let ?m = "(lm s)\<lparr>full_line_list := full_line_list (lm s) @ [c], full_line_cnt := full_line_cnt (lm s) + 1\<rparr>"
    have "vpc (lines (lm s) c) = int (pgs_per_line ?spp)" "ipc (lines (lm s) c) = 0"
      using True vi cnt_all [OF fin(1), of st] fin(2) by simp_all
    then have r: "retire_line s c = Some (s\<lparr>lm := ?m\<rparr>)" by (simp add: retire_line_def Let_def)
    have v: "victims ?m = victims (lm s)" "lines ?m = lines (lm s)" "free_line_list ?m = free_line_list (lm s)"
      "full_line_list ?m = full_line_list (lm s) @ [c]" by (simp_all add: victims_def)
    have "placed ?spp ?m H" using pl v unfolding placed_def by (auto simp: listed_def)
    moreover have "line_ok ?spp st ?m E b" if "b < blks_per_pl ?spp" for b
      using lok [OF that] True unfolding line_ok_def v by simp
    moreover have "pq_ok ?spp ?m" using lines_okD(1) [OF ok] by (simp add: pq_ok_def split: option.splits)
    ultimately have "lines_ok ?spp st ?m H E" by (simp add: lines_ok_def)
    then show ?thesis using r v(3) by blast
  next
    case False
    then have inv: "\<exists>p\<in>?R. st p = PG_INVALID" using written page_status.exhaust by metis
    then have "0 < ipc (lines (lm s) c)" using vi(2) cnt_bounds(3) [OF fin(1)] by auto
    moreover have "0 \<le> vpc (lines (lm s) c)" "vpc (lines (lm s) c) < int (pgs_per_line ?spp)"
      using vi(1) cnt_bounds(1,4) [OF fin(1)] False fin(2) by auto
    moreover obtain q ls where "pqueue_insert (victim_line_pq (lm s)) (lines (lm s)) c = Some (q, ls, 0)"
      "lines_ok ?spp st ((lm s)\<lparr>victim_line_pq := q, lines := ls, victim_line_cnt := victim_line_cnt (lm s) + 1\<rparr>) H E"
      using enqueue_victim [OF lines_okD(1) [OF ok] pl lok written inv] by blast
    ultimately show ?thesis
      by (intro exI [of _ "(lm s)\<lparr>victim_line_pq := q, lines := ls, victim_line_cnt := victim_line_cnt (lm s) + 1\<rparr>"])
        (simp add: retire_line_def Let_def)
  qed
qed

text \<open>A page of a line in hand becomes valid.\<close>

lemma line_page_valid_ok:
  assumes geo: "geometry spp" and ok: "lines_ok spp st m H E" and l: "l \<in> set H"
    and p: "p \<in> line_pages spp l" "st p = PG_FREE"
  shows "lines_ok spp (st(p := PG_VALID)) (m\<lparr>lines := (lines m)(l := (lines m l)\<lparr>vpc := vpc (lines m l) + 1\<rparr>)\<rparr>) H E"
proof -
  let ?m = "m\<lparr>lines := (lines m)(l := (lines m l)\<lparr>vpc := vpc (lines m l) + 1\<rparr>)\<rparr>"
  note pl = lines_okD(2) [OF ok] and lok = lines_okD(3) [OF ok]
  have v: "victims ?m = victims m" "free_line_list ?m = free_line_list m" "full_line_list ?m = full_line_list m"
    "listed ?m H = listed m H" "free_line_cnt ?m = free_line_cnt m" by (simp_all add: victims_def listed_def)
  have nl: "l \<notin> victims m" "l \<notin> set (free_line_list m)" "l \<notin> set (full_line_list m)"
    using pl l by (auto simp: placed_def listed_def)
  have "placed spp ?m H" using pl unfolding placed_def v by simp
  moreover have "pq_ok spp ?m"
  proof -
    obtain q where q: "victim_line_pq m = Some q" "victim_pq q (lines m)" "avail q = blks_per_pl spp + 1" "victims m = pq_elems q"
      using lines_okD(1) [OF ok] by (rule pq_okE)
    then have "victim_pq q (lines ?m)" using nl(1) by (intro victim_pq_cong [OF q(2)]) auto
    then show ?thesis using q by (simp add: pq_ok_def)
  qed
  moreover have "line_ok spp (st(p := PG_VALID)) ?m E b" if b: "b < blks_per_pl spp" for b
  proof (cases "b = l")
    case True
    then show ?thesis using lok [OF b] nl p cnt_upd [OF line_pages_finite [OF geo b], of st p PG_VALID]
      unfolding line_ok_def v by simp
  next
    case False
    then have "p \<notin> line_pages spp b" using p by (simp add: line_pages_iff)
    then have "cnt (st(p := PG_VALID)) (line_pages spp b) x = cnt st (line_pages spp b) x" for x by (intro cnt_cong) auto
    moreover have "(st(p := PG_VALID)) r = st r" if "r \<in> line_pages spp b" for r using that \<open>p \<notin> line_pages spp b\<close> by auto
    ultimately show ?thesis using lok [OF b] False unfolding line_ok_def v by simp
  qed
  ultimately show ?thesis by (simp add: lines_ok_def)
qed

text \<open>Picking a victim, and giving the line back.\<close>

lemma select_victim_ok:
  assumes ok: "lines_ok (spp_of s) st (lm s) H E"
  shows "(select_victim_line s force = (s, None) \<and> (force \<longrightarrow> victims (lm s) = {})) \<or>
     (\<exists>v m. select_victim_line s force = (s\<lparr>lm := m\<rparr>, Some v) \<and> v < blks_per_pl (spp_of s) \<and> v \<in> victims (lm s)
        \<and> lines_ok (spp_of s) st m (v # H) E \<and> free_line_list m = free_line_list (lm s))"
proof -
  let ?spp = "spp_of s"
  note pl = lines_okD(2) [OF ok] and lok = lines_okD(3) [OF ok]
  obtain q where q: "victim_line_pq (lm s) = Some q" "victim_pq q (lines (lm s))" "avail q = blks_per_pl ?spp + 1" "victims (lm s) = pq_elems q"
    using lines_okD(1) [OF ok] by (rule pq_okE)
  have e: "psize q = 1 \<longleftrightarrow> pq_elems q = {}" using victim_pq_size(1,2) [OF q(2)] by simp
  show ?thesis
  proof (cases "psize q = 1 \<or> \<not> force \<and> vpc (lines (lm s) (d q 1)) > int (pgs_per_line ?spp div 8)")
    case True
    then show ?thesis using e q by (auto simp: select_victim_line_def pqueue_peek_def)
  next
    case False
    then obtain q' ls v where pop: "pqueue_pop (Some q) (lines (lm s)) = (Some q', ls, Some v)" "v \<in> pq_elems q"
      "victim_pq q' ls" "avail q' = avail q" "pq_elems q' = pq_elems q - {v}" "repositioned (pq_elems q) (lines (lm s)) ls"
      using victim_pop_rule [OF q(2)] e by blast
    have v: "v = d q 1" using pop(1) False by (auto simp: pqueue_pop_def Let_def split: prod.splits)
    let ?m = "(lm s)\<lparr>victim_line_pq := Some q', lines := ls(v := (ls v)\<lparr>pos := 0\<rparr>), victim_line_cnt := victim_line_cnt (lm s) - 1\<rparr>"
    have r: "select_victim_line s force = (s\<lparr>lm := ?m\<rparr>, Some v)"
      using False q(1) pop(1) v by (simp add: select_victim_line_def pqueue_peek_def Let_def)
    have vb: "v < blks_per_pl ?spp" "v \<notin> set (listed (lm s) H)" using pop(2) q(4) pl by (auto simp: placed_def)
    have f: "victims ?m = victims (lm s) - {v}" "free_line_list ?m = free_line_list (lm s)" "full_line_list ?m = full_line_list (lm s)"
      "listed ?m (v # H) = listed (lm s) (v # H)" "free_line_cnt ?m = free_line_cnt (lm s)"
      using pop(5) q(4) by (simp_all add: victims_def listed_def)
    have "placed ?spp ?m (v # H)" using pl vb unfolding placed_def f by (auto simp: listed_def)
    moreover have "pq_ok ?spp ?m"
    proof -
      have "victim_pq q' (lines ?m)" using pop(5) by (intro victim_pq_cong [OF pop(3)]) auto
      then show ?thesis using pop(4) q(3) by (simp add: pq_ok_def)
    qed
    moreover have "line_ok ?spp st ?m E b" if b: "b < blks_per_pl ?spp" for b
    proof -
      have "pos (lines (lm s) b) = 0 \<longleftrightarrow> b \<notin> pq_elems q" using lok [OF b] q(4) by (simp only: line_ok_def)
      then have "pos (lines ?m b) = 0 \<longleftrightarrow> b \<notin> victims ?m"
        unfolding f q(4) using victim_pq_size(3) [OF pop(3), of b] repositionedD(4) [OF pop(6), of b] pop(5)
        by (cases "b \<in> pq_elems q") auto
      moreover have "lid (lines ?m b) = lid (lines (lm s) b)" "vpc (lines ?m b) = vpc (lines (lm s) b)" "ipc (lines ?m b) = ipc (lines (lm s) b)"
        using repositionedD(1-3) [OF pop(6)] by simp_all
      ultimately show ?thesis using lok [OF b] unfolding line_ok_def f by simp
    qed
    ultimately have "lines_ok ?spp st ?m (v # H) E" by (simp add: lines_ok_def)
    then show ?thesis using r vb(1) pop(2) q(4) f(2) by blast
  qed
qed

lemma mark_line_free_ok:
  assumes geo: "geometry (spp_of s)" and ok: "lines_ok (spp_of s) st (lm s) (v # H) E"
    and free: "\<forall>p\<in>line_pages (spp_of s) v. st p = PG_FREE"
  shows "lines_ok (spp_of s) st (lm (mark_line_free s v)) H (E - {v})"
proof -
  let ?spp = "spp_of s" let ?m = "lm (mark_line_free s v)"
  note pl = lines_okD(2) [OF ok] and lok = lines_okD(3) [OF ok]
  have vb: "v < blks_per_pl ?spp" "v \<notin> victims (lm s)" using pl by (auto simp: placed_def listed_def)
  have f: "victims ?m = victims (lm s)" "free_line_list ?m = free_line_list (lm s) @ [v]" "full_line_list ?m = full_line_list (lm s)"
    "lines ?m = (lines (lm s))(v := (lines (lm s) v)\<lparr>ipc := 0, vpc := 0\<rparr>)" "free_line_cnt ?m = free_line_cnt (lm s) + 1"
    "victim_line_pq ?m = victim_line_pq (lm s)"
    by (simp_all add: mark_line_free_def Let_def victims_def)
  have "placed ?spp ?m H" using pl unfolding placed_def listed_def f by auto
  moreover have "pq_ok ?spp ?m"
  proof -
    obtain q where q: "victim_line_pq (lm s) = Some q" "victim_pq q (lines (lm s))" "avail q = blks_per_pl ?spp + 1" "victims (lm s) = pq_elems q"
      using lines_okD(1) [OF ok] by (rule pq_okE)
    then have "victim_pq q (lines ?m)" using vb(2) by (intro victim_pq_cong [OF q(2)]) (auto simp: f)
    then show ?thesis using q f(6) by (simp add: pq_ok_def)
  qed
  moreover have "line_ok ?spp st ?m (E - {v}) b" if b: "b < blks_per_pl ?spp" for b
  proof (cases "b = v")
    case True
    have "cnt st (line_pages ?spp v) PG_VALID = 0" "cnt st (line_pages ?spp v) PG_INVALID = 0"
      using cnt_all(2) [OF line_pages_finite [OF geo vb(1)]] free by auto
    then show ?thesis using lok [OF b] True free unfolding line_ok_def f by simp
  next
    case False
    then show ?thesis using lok [OF b] unfolding line_ok_def f by simp
  qed
  ultimately show ?thesis by (simp add: lines_ok_def)
qed

text \<open>A valid page becomes invalid: the line that holds it, and every other line.\<close>

lemma line_ok_invalidate:
  assumes geo: "geometry spp" and b: "b < blks_per_pl spp" and lok: "line_ok spp st m E b"
    and p: "p \<in> line_pages spp l" "st p = PG_VALID"
    and fields: "lid (lines m' b) = lid (lines m b)" "vpc (lines m' b) = vpc (lines m b) - (if b = l then 1 else 0)"
      "ipc (lines m' b) = ipc (lines m b) + (if b = l then 1 else 0)" "pos (lines m' b) = 0 \<longleftrightarrow> b \<notin> victims m'"
    and roles: "free_line_list m' = free_line_list m" "set (full_line_list m') = set (full_line_list m) - {l}"
      "victims m' - {l} = victims m - {l}" "l \<in> victims m' \<Longrightarrow> \<forall>r\<in>line_pages spp l. st r \<noteq> PG_FREE"
  shows "line_ok spp (st(p := PG_INVALID)) m' E b"
proof (cases "b = l")
  case True
  have "b \<notin> set (free_line_list m)" using lok p True by (auto simp: line_ok_def)
  then show ?thesis using lok True p roles fields cnt_upd [OF line_pages_finite [OF geo b], of st p PG_INVALID]
    unfolding line_ok_def by auto
next
  case False
  then have o: "p \<notin> line_pages spp b" using p by (simp add: line_pages_iff)
  then have "cnt (st(p := PG_INVALID)) (line_pages spp b) x = cnt st (line_pages spp b) x" for x by (intro cnt_cong) auto
  moreover have "(st(p := PG_INVALID)) r = st r" if "r \<in> line_pages spp b" for r using that o by auto
  moreover have "b \<in> victims m' \<longleftrightarrow> b \<in> victims m" "b \<in> set (full_line_list m') \<longleftrightarrow> b \<in> set (full_line_list m)"
    using False roles(2,3) by blast+
  ultimately show ?thesis using lok fields roles(1) False unfolding line_ok_def by simp
qed

lemma word_of_small_int:
  assumes "0 \<le> i" "i < 2 ^ 31"
  shows "vpc_range (word_of_int i)" "sint (ucast (word_of_int i :: u64) :: 32 word) = i"
proof -
  have u: "uint (word_of_int i :: u64) = i" using assms by (simp add: uint_word_of_int)
  then have "int (unat (word_of_int i :: u64)) < 2 ^ 31" using assms(2) by simp
  then have "unat (word_of_int i :: u64) < 2 ^ 31" by (simp only: of_nat_less_numeral_power_cancel_iff)
  then show "vpc_range (word_of_int i)" by (simp add: vpc_range_def)
  then show "sint (ucast (word_of_int i :: u64) :: 32 word) = i" using u by (simp add: sint_ucast_small)
qed

lemma requeue_ok:
  assumes geo: "geometry spp" and sz: "pgs_per_line spp < 2 ^ 31" and ok: "lines_ok spp st m H E" and l: "l \<in> victims m" "l \<notin> E"
    and p: "p \<in> line_pages spp l" "st p = PG_VALID"
    and q: "victim_line_pq m = Some q"
    and r: "pqueue_change_priority q ((lines m)(l := (lines m l)\<lparr>ipc := ipc (lines m l) + 1\<rparr>)) (word_of_int (vpc (lines m l) - 1)) l = (q', ls2)"
  shows "lines_ok spp (st(p := PG_INVALID)) (m\<lparr>victim_line_pq := Some q', lines := ls2\<rparr>) H E"
proof -
  note pl = lines_okD(2) [OF ok] and lok = lines_okD(3) [OF ok]
  have q2: "victim_pq q (lines m)" "avail q = blks_per_pl spp + 1" "victims m = pq_elems q"
    using lines_okD(1) [OF ok] q by (simp_all add: pq_ok_def victims_def)
  have lb: "l < blks_per_pl spp" using l(1) pl by (auto simp: placed_def)
  have fin: "finite (line_pages spp l)" "card (line_pages spp l) = pgs_per_line spp"
    using line_pages_finite [OF geo lb] line_pages_card [OF geo lb] by simp_all
  have v: "vpc (lines m l) = cnt st (line_pages spp l) PG_VALID" using lok [OF lb] l(2) by (simp add: line_ok_def)
  have vr: "0 \<le> vpc (lines m l) - 1" "vpc (lines m l) - 1 < 2 ^ 31"
  proof -
    show "0 \<le> vpc (lines m l) - 1" using v cnt_bounds(3) [OF fin(1) p(1), of st, OF p(2)] by simp
    have "int (pgs_per_line spp) < int (2 ^ 31)" using sz by (simp only: of_nat_less_iff)
    then have "int (pgs_per_line spp) < 2 ^ 31" by simp
    then show "vpc (lines m l) - 1 < 2 ^ 31" using v cnt_bounds(2) [OF fin(1), of st PG_VALID] fin(2) by linarith
  qed
  let ?ls1 = "(lines m)(l := (lines m l)\<lparr>ipc := ipc (lines m l) + 1\<rparr>)"
  let ?v = "word_of_int (vpc (lines m l) - 1) :: u64"
  have "victim_pq q ?ls1" by (rule victim_pq_cong [OF q2(1)]) simp
  moreover have "vpc_range ?v" by (rule word_of_small_int [OF vr])
  ultimately have c: "victim_pq q' ls2" "avail q' = avail q" "pq_elems q' = pq_elems q" "repositioned (pq_elems q) (victim_line_set_pri ?ls1 l ?v) ls2"
    using victim_reprioritise_rule [OF _ _ _ r] l(1) q2(3) by auto
  let ?m = "m\<lparr>victim_line_pq := Some q', lines := ls2\<rparr>"
  have f: "victims ?m = victims m" "listed ?m H = listed m H" "free_line_cnt ?m = free_line_cnt m" "free_line_list ?m = free_line_list m"
    using c(3) q2(3) by (simp_all add: victims_def listed_def)
  have "placed spp ?m H" using pl unfolding placed_def f by simp
  moreover have "pq_ok spp ?m" using c(1,2) q2(2) by (simp add: pq_ok_def)
  moreover have "line_ok spp (st(p := PG_INVALID)) ?m E b" if b: "b < blks_per_pl spp" for b
  proof (rule line_ok_invalidate [OF geo b lok [OF b] p])
    let ?ls = "victim_line_set_pri ?ls1 l ?v"
    have e: "lid (?ls b) = lid (lines m b)" "vpc (?ls b) = vpc (lines m b) - (if b = l then 1 else 0)"
      "ipc (?ls b) = ipc (lines m b) + (if b = l then 1 else 0)" "pos (?ls b) = pos (lines m b)"
      using word_of_small_int(2) [OF vr] by (simp_all add: victim_line_set_pri_def)
    show "lid (lines ?m b) = lid (lines m b)" "vpc (lines ?m b) = vpc (lines m b) - (if b = l then 1 else 0)"
      "ipc (lines ?m b) = ipc (lines m b) + (if b = l then 1 else 0)"
      using repositionedD(1-3) [OF c(4), of b] e by simp_all
    have "pos (lines m b) = 0 \<longleftrightarrow> b \<notin> pq_elems q" using lok [OF b] q2(3) by (simp only: line_ok_def)
    then show "pos (lines ?m b) = 0 \<longleftrightarrow> b \<notin> victims ?m"
      unfolding f q2(3) using victim_pq_size(3) [OF c(1), of b] repositionedD(4) [OF c(4), of b] c(3) e(4)
      by (cases "b \<in> pq_elems q") simp_all
    have "l \<notin> set (full_line_list m)" using l(1) pl by (auto simp: placed_def listed_def)
    then show "set (full_line_list ?m) = set (full_line_list m) - {l}" by simp
    show "\<forall>r\<in>line_pages spp l. st r \<noteq> PG_FREE" using lok [OF lb] l(1) by (simp add: line_ok_def)
  qed (simp_all add: f)
  ultimately show ?thesis by (simp add: lines_ok_def)
qed

text \<open>A line that is not queued: only its own counters change.\<close>

lemma recount_ok:
  assumes geo: "geometry spp" and ok: "lines_ok spp st m H E" and l: "l \<notin> victims m" "l < blks_per_pl spp"
    and p: "p \<in> line_pages spp l" "st p = PG_VALID"
    and m': "lines m' = (lines m)(l := (lines m l)\<lparr>ipc := ipc (lines m l) + 1, vpc := vpc (lines m l) - 1\<rparr>)"
      "victim_line_pq m' = victim_line_pq m" "free_line_list m' = free_line_list m" "free_line_cnt m' = free_line_cnt m"
      "set (full_line_list m') = set (full_line_list m) - {l}"
  shows "pq_ok spp m'" "\<And>b. b < blks_per_pl spp \<Longrightarrow> line_ok spp (st(p := PG_INVALID)) m' E b" "victims m' = victims m"
proof -
  note lok = lines_okD(3) [OF ok]
  show v: "victims m' = victims m" using m'(2) by (simp add: victims_def)
  obtain q where q: "victim_line_pq m = Some q" "victim_pq q (lines m)" "avail q = blks_per_pl spp + 1" "victims m = pq_elems q"
    using lines_okD(1) [OF ok] by (rule pq_okE)
  then have "victim_pq q (lines m')" using l(1) by (intro victim_pq_cong [OF q(2)]) (auto simp: m'(1))
  then show "pq_ok spp m'" using q m'(2) by (simp add: pq_ok_def)
  show "line_ok spp (st(p := PG_INVALID)) m' E b" if b: "b < blks_per_pl spp" for b
  proof (rule line_ok_invalidate [OF geo b lok [OF b] p])
    show "pos (lines m' b) = 0 \<longleftrightarrow> b \<notin> victims m'" unfolding v using lok [OF b] by (auto simp: m'(1) line_ok_def)
  qed (use l(1) v m' in \<open>auto simp: m'(1)\<close>)
qed

lemma line_page_invalid_ok:
  assumes geo: "geometry (spp_of s)" and sz: "pgs_per_line (spp_of s) < 2 ^ 31" and ok: "lines_ok (spp_of s) st (lm s) H E"
    and l: "l < blks_per_pl (spp_of s)" "l \<notin> E"
    and p: "p \<in> line_pages (spp_of s) l" "st p = PG_VALID"
    and hand: "l \<in> set H \<Longrightarrow> \<exists>r\<in>line_pages (spp_of s) l. st r \<noteq> PG_VALID"
  shows "\<exists>m. line_page_invalid s l = Some (s\<lparr>lm := m\<rparr>) \<and> lines_ok (spp_of s) (st(p := PG_INVALID)) m H E
     \<and> free_line_list m = free_line_list (lm s)"
proof -
  let ?spp = "spp_of s" let ?m = "lm s" let ?R = "line_pages ?spp l" let ?ln = "lines ?m l" let ?st = "st(p := PG_INVALID)"
  note pl = lines_okD(2) [OF ok] and lok = lines_okD(3) [OF ok]
  have fin: "finite ?R" "card ?R = pgs_per_line ?spp" using line_pages_finite [OF geo l(1)] line_pages_card [OF geo l(1)] by simp_all
  have vi: "vpc ?ln = cnt st ?R PG_VALID" "ipc ?ln = cnt st ?R PG_INVALID" "pos ?ln = 0 \<longleftrightarrow> l \<notin> victims ?m" using lok [OF l(1)] l(2) by (simp_all add: line_ok_def)
  have g: "0 \<le> ipc ?ln" "ipc ?ln < int (pgs_per_line ?spp)" "0 < vpc ?ln" "vpc ?ln \<le> int (pgs_per_line ?spp)"
    using vi p fin(2) cnt_bounds(1,2) [OF fin(1), of st] cnt_bounds(3,4) [OF fin(1) p(1), of st] by auto
  have full: "vpc ?ln = int (pgs_per_line ?spp) \<longleftrightarrow> (\<forall>r\<in>?R. st r = PG_VALID)" using vi(1) cnt_all(1) [OF fin(1)] fin(2) by simp
  let ?ls = "(lines ?m)(l := ?ln\<lparr>ipc := ipc ?ln + 1, vpc := vpc ?ln - 1\<rparr>)"
  show ?thesis
  proof (cases "l \<in> victims ?m")
    case True
    obtain q where q: "victim_line_pq ?m = Some q" using lines_okD(1) [OF ok] by (rule pq_okE)
    obtain q' ls2 where r: "pqueue_change_priority q ((lines ?m)(l := ?ln\<lparr>ipc := ipc ?ln + 1\<rparr>)) (word_of_int (vpc ?ln - 1)) l = (q', ls2)"
      by (metis surj_pair)
    have "lines_ok ?spp ?st (?m\<lparr>victim_line_pq := Some q', lines := ls2\<rparr>) H E" by (rule requeue_ok [OF geo sz ok True l(2) p q r])
    moreover have "vpc ?ln \<noteq> int (pgs_per_line ?spp)" using full lok [OF l(1)] True by (auto simp: line_ok_def)
    ultimately show ?thesis using g vi(3) True q r
      by (intro exI [of _ "?m\<lparr>victim_line_pq := Some q', lines := ls2\<rparr>"]) (simp add: line_page_invalid_def Let_def)
  next
    case False
    show ?thesis
    proof (cases "vpc ?ln = int (pgs_per_line ?spp)")
      case True
      let ?m2 = "?m\<lparr>free_line_list := remove1 l (free_line_list ?m), full_line_list := remove1 l (full_line_list ?m),
          lines := ?ls, full_line_cnt := full_line_cnt ?m - 1\<rparr>"
      have "l \<in> set (listed ?m H)" using False l(1) pl by (auto simp: placed_def)
      moreover have "l \<notin> set (free_line_list ?m)" using lok [OF l(1)] p by (auto simp: line_ok_def)
      moreover have "l \<notin> set H" using hand full True by blast
      ultimately have role: "l \<in> set (full_line_list ?m)" "remove1 l (free_line_list ?m) = free_line_list ?m"
        by (simp_all add: listed_def remove1_idem)
      have dist: "distinct (full_line_list ?m)" using pl by (simp add: placed_def listed_def)
      have rc: "pq_ok ?spp ?m2" "\<And>b. b < blks_per_pl ?spp \<Longrightarrow> line_ok ?spp ?st ?m2 E b" "victims ?m2 = victims ?m"
        using role(2) dist by (intro recount_ok [OF geo ok False l(1) p]; simp)+
      have "placed ?spp ?m2 (l # H)"
      proof -
        have "distinct (listed ?m2 (l # H)) \<and> set (listed ?m2 (l # H)) = set (listed ?m H)"
          using pl role dist \<open>l \<notin> set H\<close> \<open>l \<notin> set (free_line_list ?m)\<close> by (auto simp: placed_def listed_def)
        then show ?thesis using pl rc(3) role(2) unfolding placed_def by simp
      qed
      moreover have "\<forall>r\<in>?R. ?st r \<noteq> PG_FREE" using full True by auto
      moreover have "\<exists>r\<in>?R. ?st r = PG_INVALID" using p(1) by auto
      ultimately obtain q ls where "pqueue_insert (victim_line_pq ?m2) (lines ?m2) l = Some (q, ls, 0)"
        "lines_ok ?spp ?st (?m2\<lparr>victim_line_pq := q, lines := ls, victim_line_cnt := victim_line_cnt ?m2 + 1\<rparr>) H E"
        using enqueue_victim [OF rc(1) _ rc(2)] by blast
      moreover have "ipc ?ln = 0" using vi(2) full True cnt_all(2) [OF fin(1), of st PG_INVALID] by simp
      ultimately show ?thesis using g vi(3) False True role(2)
        by (intro exI [of _ "?m2\<lparr>victim_line_pq := q, lines := ls, victim_line_cnt := victim_line_cnt ?m2 + 1\<rparr>"])
          (simp add: line_page_invalid_def Let_def list_del_init_def)
    next
      case notfull: False
      let ?m1 = "?m\<lparr>lines := ?ls\<rparr>"
      have nf: "l \<notin> set (full_line_list ?m)" using notfull full lok [OF l(1)] by (auto simp: line_ok_def)
      have "pq_ok ?spp ?m1" "\<And>b. b < blks_per_pl ?spp \<Longrightarrow> line_ok ?spp ?st ?m1 E b" "victims ?m1 = victims ?m"
        using nf by (intro recount_ok [OF geo ok False l(1) p]; simp)+
      moreover have "placed ?spp ?m1 H" using pl calculation(3) by (simp add: placed_def listed_def)
      ultimately have "lines_ok ?spp ?st ?m1 H E" by (simp add: lines_ok_def)
      then show ?thesis using g vi(3) False notfull
        by (intro exI [of _ ?m1]) (simp add: line_page_invalid_def Let_def)
    qed
  qed
qed

section \<open>Blocks\<close>

definition blk_ok :: "ssdparams \<Rightarrow> ssd \<Rightarrow> ppa \<Rightarrow> bool" where
  "blk_ok spp dev p \<longleftrightarrow> (let b = get_blk dev p in
     blk_vpc b = cnt (pst dev) (blk_pages spp p) PG_VALID \<and> blk_ipc b = cnt (pst dev) (blk_pages spp p) PG_INVALID
     \<and> npgs b = pgs_per_blk spp \<and> (\<forall>i<pgs_per_blk spp. nsecs (pg b i) = secs_per_pg spp))"

definition blks_ok :: "ssdparams \<Rightarrow> ssd \<Rightarrow> bool" where
  "blks_ok spp dev \<longleftrightarrow> (\<forall>p. in_range spp p \<longrightarrow> blk_ok spp dev p)"

lemma same_blk_pages: "same_blk p q \<Longrightarrow> blk_pages spp p = blk_pages spp q"
  by (auto simp: blk_pages_def same_blk_def)

lemma in_blk_pages: "q \<in> blk_pages spp p \<longleftrightarrow> in_range spp q \<and> same_blk p q"
  by (simp add: blk_pages_def)

lemma same_blk_refl [simp]: "same_blk p p"
  by (simp add: same_blk_def)

lemma same_blk_sym: "same_blk p q \<Longrightarrow> same_blk q p"
  by (auto simp: same_blk_def)

lemma sp_mark [simp]: "sp (add_blk_counts (set_status dev p x) p di dv) = sp dev"
  by (simp add: add_blk_counts_def set_status_def)

lemma get_blk_mark:
  "get_blk (add_blk_counts (set_status dev p x) p di dv) q =
     (if same_blk p q then (get_blk dev q)\<lparr>pg := (pg (get_blk dev q))(g_pg p := (get_pg dev p)\<lparr>status := x\<rparr>),
        blk_ipc := blk_ipc (get_blk dev q) + di, blk_vpc := blk_vpc (get_blk dev q) + dv\<rparr> else get_blk dev q)"
  by (auto simp: add_blk_counts_def set_status_def get_put_blk get_blk_put_pg dest: get_same(4) [of p q dev])

lemma pst_mark [simp]: "pst (add_blk_counts (set_status dev p x) p di dv) = (pst dev)(p := x)"
proof
  fix q
  show "pst (add_blk_counts (set_status dev p x) p di dv) q = ((pst dev)(p := x)) q"
    using same_blk_pg [of p q] by (auto simp: pst_def get_pg_def get_blk_mark)
qed

lemma mark_blks_ok:
  assumes geo: "geometry spp" and ok: "blks_ok spp dev" and p: "in_range spp p"
    and di: "di = (if x = PG_INVALID then 1 else 0) - (if pst dev p = PG_INVALID then 1 else 0)"
    and dv: "dv = (if x = PG_VALID then 1 else 0) - (if pst dev p = PG_VALID then 1 else 0)"
  shows "blks_ok spp (add_blk_counts (set_status dev p x) p di dv)"
proof (unfold blks_ok_def, intro allI impI)
  fix q assume q: "in_range spp q"
  have fin: "finite (blk_pages spp q)" by (rule blk_pages_finite [OF geo q])
  have old: "blk_ok spp dev q" using ok q by (simp add: blks_ok_def)
  have mem: "p \<in> blk_pages spp q \<longleftrightarrow> same_blk p q" using p by (auto simp: in_blk_pages dest: same_blk_sym)
  have "nsecs (get_pg dev p) = secs_per_pg spp" using ok p by (simp add: blks_ok_def blk_ok_def Let_def get_pg_def in_range_def)
  then show "blk_ok spp (add_blk_counts (set_status dev p x) p di dv) q"
    using old mem by (auto simp: blk_ok_def Let_def get_blk_mark cnt_upd [OF fin] di dv)
qed

lemma blk_counts:
  assumes geo: "geometry spp" and ok: "blks_ok spp dev" and p: "in_range spp p"
  shows "0 \<le> blk_vpc (get_blk dev p)" "blk_vpc (get_blk dev p) \<le> int (pgs_per_blk spp)"
    "pst dev p = PG_VALID \<Longrightarrow> 0 < blk_vpc (get_blk dev p)" "pst dev p \<noteq> PG_VALID \<Longrightarrow> blk_vpc (get_blk dev p) < int (pgs_per_blk spp)"
    "0 \<le> blk_ipc (get_blk dev p)" "pst dev p \<noteq> PG_INVALID \<Longrightarrow> blk_ipc (get_blk dev p) < int (pgs_per_blk spp)"
proof -
  have e: "blk_vpc (get_blk dev p) = cnt (pst dev) (blk_pages spp p) PG_VALID" "blk_ipc (get_blk dev p) = cnt (pst dev) (blk_pages spp p) PG_INVALID"
    using ok p by (simp_all add: blks_ok_def blk_ok_def Let_def)
  have m: "p \<in> blk_pages spp p" using p by (simp add: in_blk_pages)
  note c = cnt_bounds [OF blk_pages_finite [OF geo p], unfolded blk_pages_card [OF geo p]]
  show "0 \<le> blk_vpc (get_blk dev p)" "blk_vpc (get_blk dev p) \<le> int (pgs_per_blk spp)" "0 \<le> blk_ipc (get_blk dev p)"
    unfolding e using c(1,2) by simp_all
  show "pst dev p = PG_VALID \<Longrightarrow> 0 < blk_vpc (get_blk dev p)" unfolding e using c(3) [OF m, of "pst dev"] by simp
  show "pst dev p \<noteq> PG_VALID \<Longrightarrow> blk_vpc (get_blk dev p) < int (pgs_per_blk spp)"
    "pst dev p \<noteq> PG_INVALID \<Longrightarrow> blk_ipc (get_blk dev p) < int (pgs_per_blk spp)" unfolding e using c(4) [OF m] by simp_all
qed

lemma mark_block_free_ok:
  assumes geo: "geometry (spp_of s)" and ok: "blks_ok (spp_of s) (ssd s)" and p: "in_range (spp_of s) p"
  shows "\<exists>dev. mark_block_free s p = Some (s\<lparr>ssd := dev\<rparr>) \<and> sp dev = spp_of s \<and> blks_ok (spp_of s) dev
     \<and> (\<forall>q. in_range (spp_of s) q \<longrightarrow> pst dev q = (if same_blk p q then PG_FREE else pst (ssd s) q))"
proof -
  let ?spp = "spp_of s" let ?b = "get_blk (ssd s) p"
  let ?nb = "?b\<lparr>pg := (\<lambda>i. if i < pgs_per_blk ?spp then (pg ?b i)\<lparr>status := PG_FREE\<rparr> else pg ?b i), blk_ipc := 0, blk_vpc := 0, erase_cnt := erase_cnt ?b + 1\<rparr>"
  let ?dev = "put_blk (ssd s) p ?nb"
  have bp: "npgs ?b = pgs_per_blk ?spp" "\<forall>i<pgs_per_blk ?spp. nsecs (pg ?b i) = secs_per_pg ?spp"
    using ok p by (simp_all add: blks_ok_def blk_ok_def Let_def)
  have st: "pst ?dev q = (if same_blk p q then PG_FREE else pst (ssd s) q)" if "in_range ?spp q" for q
    using that by (simp add: pst_def get_pg_put_blk in_range_def)
  have "blk_ok ?spp ?dev q" if q: "in_range ?spp q" for q
  proof (cases "same_blk p q")
    case True
    have "pst ?dev r = PG_FREE" if "r \<in> blk_pages ?spp q" for r
      using that st [of r] True by (auto simp: in_blk_pages same_blk_def)
    then have "cnt (pst ?dev) (blk_pages ?spp q) x = 0" if "x \<noteq> PG_FREE" for x
      using that cnt_all(2) [OF blk_pages_finite [OF geo q]] by simp
    then show ?thesis using True bp by (simp add: blk_ok_def Let_def get_put_blk)
  next
    case False
    have "pst ?dev r = pst (ssd s) r" if "r \<in> blk_pages ?spp q" for r
      using that st [of r] False by (auto simp: in_blk_pages same_blk_def)
    then have "cnt (pst ?dev) (blk_pages ?spp q) x = cnt (pst (ssd s)) (blk_pages ?spp q) x" for x by (intro cnt_cong)
    then show ?thesis using False ok q by (simp add: blks_ok_def blk_ok_def Let_def get_put_blk)
  qed
  then have "blks_ok ?spp ?dev" by (simp add: blks_ok_def)
  moreover have "mark_block_free s p = Some (s\<lparr>ssd := ?dev\<rparr>)" using bp by (simp add: mark_block_free_def Let_def)
  ultimately show ?thesis using st by (intro exI [of _ ?dev]) simp
qed

lemma nand_same_ok:
  assumes "nand_same dev dev'"
  shows "pst dev' = pst dev" "sp dev' = sp dev" "blks_ok spp dev' = blks_ok spp dev"
proof -
  show p: "pst dev' = pst dev" using nand_same_pg [OF assms] by (simp add: pst_def fun_eq_iff)
  show "sp dev' = sp dev" using assms by (simp add: nand_same_def)
  show "blks_ok spp dev' = blks_ok spp dev" using assms p by (simp add: blks_ok_def blk_ok_def nand_same_def)
qed

section \<open>Mapping tables\<close>

text \<open>
  The logical pages in \<open>X\<close> have no page for the moment; the pages in \<open>D\<close> are valid
  pages whose data has moved on.
\<close>

definition map_ok :: "ssdparams \<Rightarrow> (ppa \<Rightarrow> page_status) \<Rightarrow> (nat \<Rightarrow> ppa option) \<Rightarrow> (nat \<Rightarrow> nat option) \<Rightarrow> nat set \<Rightarrow> ppa set \<Rightarrow> bool" where
  "map_ok spp st mt rm X D \<longleftrightarrow>
     (\<forall>l p. l < tt_pgs spp \<and> l \<notin> X \<and> mt l = Some p \<longrightarrow> in_range spp p \<and> st p = PG_VALID \<and> p \<notin> D \<and> rm (pgidx spp p) = Some l)
     \<and> (\<forall>p. in_range spp p \<and> st p = PG_VALID \<and> p \<notin> D \<longrightarrow> (\<exists>l. l < tt_pgs spp \<and> l \<notin> X \<and> rm (pgidx spp p) = Some l \<and> mt l = Some p))"

lemma map_okD:
  assumes "map_ok spp st mt rm X D"
  shows "l < tt_pgs spp \<Longrightarrow> l \<notin> X \<Longrightarrow> mt l = Some p \<Longrightarrow> in_range spp p \<and> st p = PG_VALID \<and> p \<notin> D \<and> rm (pgidx spp p) = Some l"
    and "in_range spp p \<Longrightarrow> st p = PG_VALID \<Longrightarrow> p \<notin> D \<Longrightarrow> \<exists>l. l < tt_pgs spp \<and> l \<notin> X \<and> rm (pgidx spp p) = Some l \<and> mt l = Some p"
  using assms unfolding map_ok_def by blast+

lemma map_okI:
  assumes "\<And>l p. l < tt_pgs spp \<Longrightarrow> l \<notin> X \<Longrightarrow> mt l = Some p \<Longrightarrow> in_range spp p \<and> st p = PG_VALID \<and> p \<notin> D \<and> rm (pgidx spp p) = Some l"
    and "\<And>p. in_range spp p \<Longrightarrow> st p = PG_VALID \<Longrightarrow> p \<notin> D \<Longrightarrow> \<exists>l. l < tt_pgs spp \<and> l \<notin> X \<and> rm (pgidx spp p) = Some l \<and> mt l = Some p"
  shows "map_ok spp st mt rm X D"
  using assms unfolding map_ok_def by blast

lemma map_unmapped: "map_ok spp st mt rm X D \<Longrightarrow> mt l = None \<Longrightarrow> map_ok spp st mt rm (insert l X) D"
proof (rule map_okI)
  assume ok: "map_ok spp st mt rm X D" and none: "mt l = None"
  show "in_range spp p \<and> st p = PG_VALID \<and> p \<notin> D \<and> rm (pgidx spp p) = Some k"
    if "k < tt_pgs spp" "k \<notin> insert l X" "mt k = Some p" for k p using map_okD(1) [OF ok that(1) _ that(3)] that(2) by simp
  show "\<exists>k. k < tt_pgs spp \<and> k \<notin> insert l X \<and> rm (pgidx spp p) = Some k \<and> mt k = Some p"
    if "in_range spp p" "st p = PG_VALID" "p \<notin> D" for p using map_okD(2) [OF ok that] none by auto
qed

lemma map_invalidate:
  assumes ok: "map_ok spp st mt rm X D" and l: "l < tt_pgs spp" "l \<notin> X" "mt l = Some p"
  shows "map_ok spp (st(p := PG_INVALID)) mt (rm(pgidx spp p := None)) (insert l X) D"
proof (rule map_okI)
  note p = map_okD(1) [OF ok l]
  fix k q assume k: "k < tt_pgs spp" "k \<notin> insert l X" "mt k = Some q"
  then have q: "in_range spp q \<and> st q = PG_VALID \<and> q \<notin> D \<and> rm (pgidx spp q) = Some k" using map_okD(1) [OF ok] by simp
  moreover have "q \<noteq> p" using q p k(2) by auto
  moreover have "pgidx spp q \<noteq> pgidx spp p" using calculation p pgidx_inj by blast
  ultimately show "in_range spp q \<and> (st(p := PG_INVALID)) q = PG_VALID \<and> q \<notin> D \<and> (rm(pgidx spp p := None)) (pgidx spp q) = Some k" by simp
next
  note p = map_okD(1) [OF ok l]
  fix q assume q: "in_range spp q" "(st(p := PG_INVALID)) q = PG_VALID" "q \<notin> D"
  then have ne: "q \<noteq> p" by (auto split: if_splits)
  then obtain k where k: "k < tt_pgs spp" "k \<notin> X" "rm (pgidx spp q) = Some k" "mt k = Some q" using map_okD(2) [OF ok q(1) _ q(3)] q(2) by auto
  have "k \<noteq> l" using k(4) l(3) ne by auto
  moreover have "pgidx spp q \<noteq> pgidx spp p" using ne p q(1) pgidx_inj by blast
  ultimately show "\<exists>k. k < tt_pgs spp \<and> k \<notin> insert l X \<and> (rm(pgidx spp p := None)) (pgidx spp q) = Some k \<and> mt k = Some q" using k by auto
qed

text \<open>Garbage collection has copied the data of a page.\<close>

lemma map_detach:
  assumes ok: "map_ok spp st mt rm X D" and l: "l < tt_pgs spp" "l \<notin> X" "mt l = Some p"
  shows "map_ok spp st mt rm (insert l X) (insert p D)"
proof (rule map_okI)
  fix k q assume "k < tt_pgs spp" "k \<notin> insert l X" "mt k = Some q"
  then show "in_range spp q \<and> st q = PG_VALID \<and> q \<notin> insert p D \<and> rm (pgidx spp q) = Some k"
    using map_okD(1) [OF ok, of k q] map_okD(1) [OF ok l] by auto
next
  fix q assume "in_range spp q" "st q = PG_VALID" "q \<notin> insert p D"
  then show "\<exists>k. k < tt_pgs spp \<and> k \<notin> insert l X \<and> rm (pgidx spp q) = Some k \<and> mt k = Some q"
    using map_okD(2) [OF ok, of q] l(3) by auto
qed

lemma map_new:
  assumes ok: "map_ok spp st mt rm X D" and l: "l < tt_pgs spp" "l \<in> X" and p: "in_range spp p" "st p = PG_FREE" "p \<notin> D"
  shows "map_ok spp (st(p := PG_VALID)) (mt(l := Some p)) (rm(pgidx spp p := Some l)) (X - {l}) D"
proof (rule map_okI)
  fix k q assume k: "k < tt_pgs spp" "k \<notin> X - {l}" "(mt(l := Some p)) k = Some q"
  show "in_range spp q \<and> (st(p := PG_VALID)) q = PG_VALID \<and> q \<notin> D \<and> (rm(pgidx spp p := Some l)) (pgidx spp q) = Some k"
  proof (cases "k = l")
    case True
    then show ?thesis using k p by simp
  next
    case False
    then have q: "in_range spp q" "st q = PG_VALID" "q \<notin> D" "rm (pgidx spp q) = Some k" using k map_okD(1) [OF ok, of k q] by auto
    then have "pgidx spp q \<noteq> pgidx spp p" using p(1,2) pgidx_inj by force
    then show ?thesis using q by simp
  qed
next
  fix q assume q: "in_range spp q" "(st(p := PG_VALID)) q = PG_VALID" "q \<notin> D"
  show "\<exists>k. k < tt_pgs spp \<and> k \<notin> X - {l} \<and> (rm(pgidx spp p := Some l)) (pgidx spp q) = Some k \<and> (mt(l := Some p)) k = Some q"
  proof (cases "q = p")
    case True
    then show ?thesis using l by auto
  next
    case False
    then obtain k where k: "k < tt_pgs spp" "k \<notin> X" "rm (pgidx spp q) = Some k" "mt k = Some q" using map_okD(2) [OF ok q(1) _ q(3)] q(2) by auto
    moreover have "k \<noteq> l" using k(2) l(2) by auto
    moreover have "pgidx spp q \<noteq> pgidx spp p" using False q(1) p(1) pgidx_inj by blast
    ultimately show ?thesis by auto
  qed
qed

text \<open>Status changes outside the pages that count.\<close>

lemma map_ok_status:
  assumes "map_ok spp st mt rm X D" and "\<And>p. in_range spp p \<Longrightarrow> (st' p = PG_VALID \<and> p \<notin> D') \<longleftrightarrow> (st p = PG_VALID \<and> p \<notin> D)"
  shows "map_ok spp st' mt rm X D'"
  using assms unfolding map_ok_def by metis

section \<open>Write pointers\<close>

definition wp_split :: "ssdparams \<Rightarrow> (ppa \<Rightarrow> page_status) \<Rightarrow> write_pointer \<Rightarrow> nat \<Rightarrow> bool" where
  "wp_split spp st w k \<longleftrightarrow> wp_in_range spp w \<and> (\<forall>p\<in>line_pages spp (curline w). st p = PG_FREE \<longleftrightarrow> k \<le> page_order spp p)"

abbreviation wp_ok :: "ssdparams \<Rightarrow> (ppa \<Rightarrow> page_status) \<Rightarrow> write_pointer \<Rightarrow> bool" where
  "wp_ok spp st w \<equiv> wp_split spp st w (wp_order spp w)"

lemma wp_page_in_line: "geometry spp \<Longrightarrow> wp_in_range spp w \<Longrightarrow> wp_page w \<in> line_pages spp (curline w)"
  by (simp add: wp_in_range_def line_pages_iff in_range_def geometry_def)

lemma wp_page_free: "geometry spp \<Longrightarrow> wp_ok spp st w \<Longrightarrow> st (wp_page w) = PG_FREE"
  using wp_page_in_line [of spp w] by (simp add: wp_split_def)

lemma wp_fill:
  assumes geo: "geometry spp" and w: "wp_ok spp st w" and x: "x \<noteq> PG_FREE"
  shows "wp_split spp (st(wp_page w := x)) w (wp_order spp w + 1)"
proof -
  have "(st(wp_page w := x)) p = PG_FREE \<longleftrightarrow> wp_order spp w + 1 \<le> page_order spp p" if p: "p \<in> line_pages spp (curline w)" for p
  proof (cases "p = wp_page w")
    case True
    then show ?thesis using x by simp
  next
    case False
    then have "page_order spp p \<noteq> wp_order spp w"
      using page_order_inj [OF geo p wp_page_in_line [OF geo, of w]] w by (simp add: wp_split_def)
    then have "wp_order spp w \<le> page_order spp p \<longleftrightarrow> wp_order spp w + 1 \<le> page_order spp p" by linarith
    moreover have "st p = PG_FREE \<longleftrightarrow> wp_order spp w \<le> page_order spp p" using w p by (simp add: wp_split_def)
    ultimately show ?thesis unfolding fun_upd_other [OF False] by blast
  qed
  then show ?thesis using w by (simp add: wp_split_def)
qed

lemma wp_split_status:
  assumes "wp_split spp st w k" and "\<And>p. p \<in> line_pages spp (curline w) \<Longrightarrow> st' p = PG_FREE \<longleftrightarrow> st p = PG_FREE"
  shows "wp_split spp st' w k"
  using assms by (simp add: wp_split_def)

lemma get_new_page_eq:
  assumes "fits_ppa (spp_of s)" "wp_in_range (spp_of s) (get_wp io s)"
  shows "get_new_page s io = Some (wp_page (get_wp io s))"
  using assms set_ppa_page_at [OF assms(1), of "wp_ch (get_wp io s)" "wp_lun (get_wp io s)" "wp_blk (get_wp io s)" "wp_pg (get_wp io s)"]
  by (simp add: get_new_page_def Let_def wp_in_range_def)

lemma set_wp_simps [simp]:
  "ssd (set_wp io s w) = ssd s" "lm (set_wp io s w) = lm s" "maptbl (set_wp io s w) = maptbl s" "rmap (set_wp io s w) = rmap s"
  "cp (set_wp io s w) = cp s" "wfc (set_wp io s w) = wfc s"
  "get_wp io (set_wp io s w) = w" "io' \<noteq> io \<Longrightarrow> get_wp io' (set_wp io s w) = get_wp io' s"
  by (cases io; cases io'; simp)+

lemma get_wp_lm [simp]: "get_wp io (s\<lparr>lm := m\<rparr>) = get_wp io s" "get_wp io (s\<lparr>ssd := dev\<rparr>) = get_wp io s"
  "get_wp io (s\<lparr>maptbl := mt\<rparr>) = get_wp io s" "get_wp io (s\<lparr>rmap := rm\<rparr>) = get_wp io s" "get_wp io (s\<lparr>wfc := f\<rparr>) = get_wp io s"
  by (cases io; simp)+

text \<open>
  Moving on after the page under the write pointer has been written. The pointer moves to the next page of its line; at the end
  of the line the line is retired and the first free line taken.
\<close>

lemma advance_ok:
  assumes geo: "geometry (spp_of s)" and w: "wp_split (spp_of s) st (get_wp io s) (wp_order (spp_of s) (get_wp io s) + 1)"
    and ok: "lines_ok (spp_of s) st (lm s) (curline (get_wp io s) # H) E" and c: "curline (get_wp io s) \<notin> E"
    and free: "wp_order (spp_of s) (get_wp io s) + 1 < pgs_per_line (spp_of s) \<or> free_line_list (lm s) \<noteq> []"
  shows "\<exists>m w'. advance_write_pointer s io = Some (set_wp io (s\<lparr>lm := m\<rparr>) w') \<and> wp_ok (spp_of s) st w'
     \<and> lines_ok (spp_of s) st m (curline w' # H) E
     \<and> (wp_order (spp_of s) (get_wp io s) + 1 < pgs_per_line (spp_of s) \<and> m = lm s \<and> curline w' = curline (get_wp io s)
          \<and> wp_order (spp_of s) w' = wp_order (spp_of s) (get_wp io s) + 1
        \<or> wp_order (spp_of s) (get_wp io s) + 1 = pgs_per_line (spp_of s) \<and> free_line_list m = tl (free_line_list (lm s))
          \<and> wp_order (spp_of s) w' = 0)"
proof (cases "wp_order (spp_of s) (get_wp io s) + 1 < pgs_per_line (spp_of s)")
  case True
  let ?spp = "spp_of s"
  have r: "wp_in_range ?spp (get_wp io s)" using w by (simp add: wp_split_def)
  obtain w' where "advance_write_pointer s io = Some (set_wp io s w')" "wp_in_range ?spp w'" "curline w' = curline (get_wp io s)"
    "wp_order ?spp w' = wp_order ?spp (get_wp io s) + 1" using advance_same_line [OF geo r True] by blast
  then show ?thesis using w ok True by (intro exI [of _ "lm s"] exI [of _ w']) (simp add: wp_split_def)
next
  case False
  let ?spp = "spp_of s" let ?w = "get_wp io s"
  have r: "wp_in_range ?spp ?w" using w by (simp add: wp_split_def)
  have last: "wp_order ?spp ?w + 1 = pgs_per_line ?spp"
    using False wr_order_less [OF geo, of "wp_ch ?w" "wp_lun ?w" "wp_pg ?w"] r by (simp add: wp_in_range_def)
  have "st p \<noteq> PG_FREE" if p: "p \<in> line_pages ?spp (curline ?w)" for p
  proof -
    have "page_order ?spp p < pgs_per_line ?spp" using p by (intro wr_order_less [OF geo]) (simp_all add: line_pages_iff in_range_def)
    then show ?thesis using w p last by (simp add: wp_split_def)
  qed
  then obtain m1 where m1: "retire_line s (curline ?w) = Some (s\<lparr>lm := m1\<rparr>)" "lines_ok ?spp st m1 H E" "free_line_list m1 = free_line_list (lm s)"
    using retire_line_ok [OF geo ok c] by blast
  obtain l F where lF: "free_line_list (lm (s\<lparr>lm := m1\<rparr>)) = l # F" using free False m1(3) by (cases "free_line_list (lm s)") auto
  from take_free_line [of "s\<lparr>lm := m1\<rparr>" st H E, OF _ lF] m1(2)
  obtain m2 where m2: "get_next_free_line (s\<lparr>lm := m1\<rparr>) = Some (s\<lparr>lm := m2\<rparr>, l)" "lines_ok ?spp st m2 (l # H) E"
    "lid (lines m2 l) = int l" "l < blks_per_pl ?spp" "\<forall>p\<in>line_pages ?spp l. st p = PG_FREE" "free_line_list m2 = F" by auto
  let ?w' = "\<lparr>curline = l, wp_ch = 0, wp_lun = 0, wp_pg = 0, wp_blk = l, wp_pl = 0\<rparr>"
  have "advance_write_pointer s io = Some (set_wp io (s\<lparr>lm := m2\<rparr>) ?w')"
    unfolding advance_next_line [OF geo r last] next_line_def using m1(1) m2(1,3,4) by (simp add: check_addr_def)
  moreover have "wp_ok ?spp st ?w'" "wp_order ?spp ?w' = 0" using geo m2(4,5) by (simp_all add: wp_split_def wp_in_range_def geometry_def wr_order_def)
  ultimately show ?thesis using m2(2,6) lF m1(3) last by (intro exI [of _ m2] exI [of _ ?w']) simp
qed

section \<open>The invariant\<close>

definition params_ok :: "ssdparams \<Rightarrow> bool" where
  "params_ok spp \<longleftrightarrow> geometry spp \<and> fits_ppa spp \<and> pgs_per_line spp < 2 ^ 31"

text \<open>
  \<open>V\<close> is empty, or the line under garbage collection; \<open>X\<close> and \<open>D\<close> are as in \<open>map_ok\<close>.
\<close>

definition ftl_inv :: "nat list \<Rightarrow> nat set \<Rightarrow> ppa set \<Rightarrow> conv_ftl \<Rightarrow> bool" where
  "ftl_inv V X D s \<longleftrightarrow> params_ok (spp_of s) \<and> map_ok (spp_of s) (pst (ssd s)) (maptbl s) (rmap s) X D
     \<and> blks_ok (spp_of s) (ssd s) \<and> (\<forall>p\<in>D. g_blk p \<in> set V)
     \<and> lines_ok (spp_of s) (pst (ssd s)) (lm s) (curline (wp s) # curline (gc_wp s) # V) (set V)
     \<and> wp_ok (spp_of s) (pst (ssd s)) (wp s) \<and> wp_ok (spp_of s) (pst (ssd s)) (gc_wp s)"

definition conv_inv :: "conv_ftl \<Rightarrow> bool" where
  "conv_inv s = ftl_inv [] {} {} s"

lemma params_okD: "params_ok spp \<Longrightarrow> geometry spp" "params_ok spp \<Longrightarrow> fits_ppa spp" "params_ok spp \<Longrightarrow> pgs_per_line spp < 2 ^ 31"
  by (simp_all add: params_ok_def)

primrec other :: "io_type \<Rightarrow> io_type" where
  "other USER_IO = GC_IO"
| "other GC_IO = USER_IO"

lemma other_neq [simp]: "other io \<noteq> io" by (cases io) simp_all

lemma ftl_inv_iff:
  "ftl_inv V X D s \<longleftrightarrow> params_ok (spp_of s) \<and> map_ok (spp_of s) (pst (ssd s)) (maptbl s) (rmap s) X D
     \<and> blks_ok (spp_of s) (ssd s) \<and> (\<forall>p\<in>D. g_blk p \<in> set V)
     \<and> lines_ok (spp_of s) (pst (ssd s)) (lm s) (curline (get_wp io s) # curline (get_wp (other io) s) # V) (set V)
     \<and> wp_ok (spp_of s) (pst (ssd s)) (get_wp io s) \<and> wp_ok (spp_of s) (pst (ssd s)) (get_wp (other io) s)"
proof (cases io)
  case GC_IO
  have "lines_ok spp st m (a # b # V) E = lines_ok spp st m (b # a # V) E" for spp st m a b E
    by (rule lines_ok_perm) auto
  then show ?thesis using GC_IO by (auto simp: ftl_inv_def)
qed (auto simp: ftl_inv_def)

text \<open>The pages that can still be placed through a write pointer before the free lines run out.\<close>

definition room :: "conv_ftl \<Rightarrow> io_type \<Rightarrow> nat" where
  "room s io = (pgs_per_line (spp_of s) - 1 - wp_order (spp_of s) (get_wp io s)) + pgs_per_line (spp_of s) * length (free_line_list (lm s))"

lemma place_page_ok:
  assumes inv: "ftl_inv V X D s" and l: "l < tt_pgs (spp_of s)" "l \<in> X" and room: "0 < room s io"
  shows "\<exists>s'. place_page s io l = Some (s', wp_page (get_wp io s)) \<and> ftl_inv V (X - {l}) D s'
     \<and> maptbl s' = (maptbl s)(l := Some (wp_page (get_wp io s))) \<and> spp_of s' = spp_of s
     \<and> pst (ssd s') = (pst (ssd s))(wp_page (get_wp io s) := PG_VALID) \<and> room s' io = room s io - 1
     \<and> cp s' = cp s \<and> wfc s' = wfc s \<and> in_range (spp_of s) (wp_page (get_wp io s)) \<and> pst (ssd s) (wp_page (get_wp io s)) = PG_FREE
     \<and> get_wp (other io) s' = get_wp (other io) s"
proof -
  let ?spp = "spp_of s" let ?w = "get_wp io s" let ?p = "wp_page ?w" let ?st = "pst (ssd s)"
  let ?c = "curline ?w" let ?H = "curline (get_wp (other io) s) # V"
  note i = inv [unfolded ftl_inv_iff [of V X D s io]]
  have geo: "geometry ?spp" and fits: "fits_ppa ?spp" using i params_okD by blast+
  have w: "wp_ok ?spp ?st ?w" and w2: "wp_ok ?spp ?st (get_wp (other io) s)" and lok: "lines_ok ?spp ?st (lm s) (?c # ?H) (set V)" using i by blast+
  have wr: "wp_in_range ?spp ?w" "wp_in_range ?spp (get_wp (other io) s)" using w w2 by (simp_all add: wp_split_def)
  have p: "?p \<in> line_pages ?spp ?c" by (rule wp_page_in_line [OF geo wr(1)])
  then have pr: "in_range ?spp ?p" "g_blk ?p = ?c" by (simp_all only: line_pages_iff)
  have cb: "?c < blks_per_pl ?spp" using wr(1) by (simp add: wp_in_range_def)
  have dist: "?c \<noteq> curline (get_wp (other io) s)" "?c \<notin> set V" using lines_okD(2) [OF lok] by (simp_all add: placed_def listed_def)
  have free: "?st ?p = PG_FREE" by (rule wp_page_free [OF geo w])
  have pD: "?p \<notin> D" using i pr(2) dist(2) by auto
  let ?dev = "add_blk_counts (set_status (ssd s) ?p PG_VALID) ?p 0 1" let ?st' = "?st(?p := PG_VALID)"
  let ?m = "(lm s)\<lparr>lines := (lines (lm s))(?c := (lines (lm s) ?c)\<lparr>vpc := vpc (lines (lm s) ?c) + 1\<rparr>)\<rparr>"
  let ?s = "s\<lparr>maptbl := (maptbl s)(l := Some ?p), rmap := (rmap s)(pgidx ?spp ?p := Some l), ssd := ?dev, lm := ?m\<rparr>"
  have bl: "blks_ok ?spp ?dev" using i free by (intro mark_blks_ok [OF geo _ pr(1)]) auto
  have ll: "lines_ok ?spp ?st' ?m (?c # ?H) (set V)" by (rule line_page_valid_ok [OF geo lok _ p free]) simp
  have mm: "map_ok ?spp ?st' ((maptbl s)(l := Some ?p)) ((rmap s)(pgidx ?spp ?p := Some l)) (X - {l}) D"
  proof (rule map_new)
    show "map_ok ?spp ?st (maptbl s) (rmap s) X D" using i by blast
  qed (fact l pr(1) free pD)+
  have sim: "spp_of ?s = ?spp" "pst (ssd ?s) = ?st'" "get_wp io ?s = ?w" "get_wp (other io) ?s = get_wp (other io) s" "lm ?s = ?m"
    by (cases io; simp)+
  have cnts: "0 \<le> vpc (lines (lm s) ?c)" "vpc (lines (lm s) ?c) < int (pgs_per_line ?spp)"
    using lines_okD(3) [OF lok cb] dist(2) cnt_bounds(1,4) [OF line_pages_finite [OF geo cb]] line_pages_card [OF geo cb] p free
    by (auto simp: line_ok_def)
  have mark: "place_page s io l = Option.bind (advance_write_pointer ?s io) (\<lambda>s4. Some (s4, ?p))"
    using get_new_page_eq [OF fits wr(1)] l(1) ppa2pgidx_eq [of "s\<lparr>maptbl := (maptbl s)(l := Some ?p)\<rparr>" ?p] geo pr cnts free
      blk_counts(1,4) [OF geo _ pr(1), of "ssd s"] i
    by (simp add: place_page_def set_maptbl_ent_def set_rmap_ent_def mark_page_valid_def Let_def get_line_def pst_def)
  have "wp_order ?spp ?w + 1 < pgs_per_line ?spp \<or> free_line_list (lm ?s) \<noteq> []" using room by (auto simp: room_def)
  then obtain m w' where a: "advance_write_pointer ?s io = Some (set_wp io (?s\<lparr>lm := m\<rparr>) w')" "wp_ok ?spp ?st' w'" "lines_ok ?spp ?st' m (curline w' # ?H) (set V)"
    "wp_order ?spp ?w + 1 < pgs_per_line ?spp \<and> m = ?m \<and> curline w' = ?c \<and> wp_order ?spp w' = wp_order ?spp ?w + 1
        \<or> wp_order ?spp ?w + 1 = pgs_per_line ?spp \<and> free_line_list m = tl (free_line_list ?m) \<and> wp_order ?spp w' = 0"
    using advance_ok [of ?s ?st' io ?H "set V", unfolded sim, OF geo wp_fill [OF geo w] ll dist(2)] by auto
  let ?s' = "set_wp io (?s\<lparr>lm := m\<rparr>) w'"
  have o: "get_wp (other io) ?s' = get_wp (other io) s" by (cases io) simp_all
  have "wp_ok ?spp ?st' (get_wp (other io) s)"
    by (rule wp_split_status [OF w2]) (use dist(1) pr in \<open>auto simp: line_pages_iff\<close>)
  then have "ftl_inv V (X - {l}) D ?s'"
    unfolding ftl_inv_iff [of V _ D ?s' io] using i mm bl a(2,3) o by simp
  moreover have "room ?s' io = room s io - 1"
    using a(4) room by (cases "free_line_list (lm s)") (auto simp: room_def)
  ultimately show ?thesis using mark a(1) pr(1) free o by (intro exI [of _ ?s']) simp
qed

section \<open>Overwriting\<close>

lemma wp_line_unfinished:
  assumes "geometry spp" "wp_ok spp st w"
  shows "\<exists>r\<in>line_pages spp (curline w). st r \<noteq> PG_VALID"
proof (intro bexI)
  show "st (wp_page w) \<noteq> PG_VALID" unfolding wp_page_free [OF assms] by simp
  show "wp_page w \<in> line_pages spp (curline w)" using assms(2) by (intro wp_page_in_line [OF assms(1)]) (simp add: wp_split_def)
qed

lemma invalidate_ok:
  assumes inv: "ftl_inv [] X {} s" and l: "l < tt_pgs (spp_of s)" "l \<notin> X" "maptbl s l = Some p"
  shows "\<exists>s'. Option.bind (mark_page_invalid s p) (\<lambda>t. set_rmap_ent t None p) = Some s' \<and> ftl_inv [] (insert l X) {} s'
     \<and> maptbl s' = maptbl s \<and> spp_of s' = spp_of s \<and> pst (ssd s') = (pst (ssd s))(p := PG_INVALID)
     \<and> (\<forall>io. room s' io = room s io \<and> get_wp io s' = get_wp io s) \<and> cp s' = cp s \<and> wfc s' = wfc s"
proof -
  let ?spp = "spp_of s" let ?st = "pst (ssd s)" let ?H = "[curline (wp s), curline (gc_wp s)]"
  note i = inv [unfolded ftl_inv_def]
  have geo: "geometry ?spp" and sz: "pgs_per_line ?spp < 2 ^ 31" using i params_okD by blast+
  have mok: "map_ok ?spp ?st (maptbl s) (rmap s) X {}" and lok: "lines_ok ?spp ?st (lm s) ?H {}"
    and w: "wp_ok ?spp ?st (wp s)" "wp_ok ?spp ?st (gc_wp s)" and bok: "blks_ok ?spp (ssd s)" using i by simp_all
  have p: "in_range ?spp p" "?st p = PG_VALID" using map_okD(1) [OF mok l] by simp_all
  let ?dev = "add_blk_counts (set_status (ssd s) p PG_INVALID) p 1 (-1)" let ?st' = "?st(p := PG_INVALID)"
  let ?s = "s\<lparr>ssd := ?dev\<rparr>"
  have pl: "p \<in> line_pages ?spp (g_blk p)" "g_blk p < blks_per_pl ?spp" using p(1) by (simp_all add: line_pages_iff in_range_def)
  have hand: "\<exists>r\<in>line_pages ?spp (g_blk p). ?st r \<noteq> PG_VALID" if "g_blk p \<in> set ?H"
    using that wp_line_unfinished [OF geo w(1)] wp_line_unfinished [OF geo w(2)] by auto
  obtain m where m: "line_page_invalid ?s (g_blk p) = Some (?s\<lparr>lm := m\<rparr>)" "lines_ok ?spp ?st' m ?H {}" "free_line_list m = free_line_list (lm s)"
    using line_page_invalid_ok [of ?s ?st ?H "{}" "g_blk p" p] geo sz lok pl p(2) hand by auto
  have mark: "mark_page_invalid s p = Some (?s\<lparr>lm := m\<rparr>)"
    using p(2) blk_counts [OF geo bok p(1)] m(1) by (simp add: mark_page_invalid_def Let_def get_line_def pst_def)
  let ?s' = "?s\<lparr>lm := m, rmap := (rmap s)(pgidx ?spp p := None)\<rparr>"
  have "Option.bind (mark_page_invalid s p) (\<lambda>t. set_rmap_ent t None p) = Some ?s'"
    using mark ppa2pgidx_eq [of "?s\<lparr>lm := m\<rparr>" p] geo p(1) by (simp add: set_rmap_ent_def)
  moreover have "ftl_inv [] (insert l X) {} ?s'"
  proof -
    have "map_ok ?spp ?st' (maptbl s) ((rmap s)(pgidx ?spp p := None)) (insert l X) {}" by (rule map_invalidate [OF mok l])
    moreover have "blks_ok ?spp ?dev" using p(2) by (intro mark_blks_ok [OF geo bok p(1)]) auto
    moreover have "wp_ok ?spp ?st' (wp s)" "wp_ok ?spp ?st' (gc_wp s)" using p(2) by (intro wp_split_status [OF w(1)] wp_split_status [OF w(2)]; simp)+
    ultimately show ?thesis using i m(2) by (simp add: ftl_inv_def)
  qed
  moreover have "room ?s' io = room s io" "get_wp io ?s' = get_wp io s" for io using m(3) by (cases io; simp add: room_def)+
  ultimately show ?thesis by (intro exI [of _ ?s']) simp
qed

lemma write_lpn_ok:
  assumes inv: "conv_inv s" and lpn: "lpn < tt_pgs (spp_of s)" and room: "0 < room s USER_IO"
  shows "\<exists>s' p. write_lpn s lpn = Some (s', p) \<and> conv_inv s' \<and> maptbl s' = (maptbl s)(lpn := Some p) \<and> p = wp_page (wp s)
     \<and> in_range (spp_of s) p \<and> pst (ssd s) p = PG_FREE \<and> room s' USER_IO = room s USER_IO - 1 \<and> spp_of s' = spp_of s
     \<and> cp s' = cp s \<and> wfc s' = wfc s \<and> gc_wp s' = gc_wp s"
proof -
  have i: "ftl_inv [] {} {} s" using inv by (simp add: conv_inv_def)
  obtain s1 where s1: "(case get_maptbl_ent s lpn of None \<Rightarrow> Some s | Some p \<Rightarrow> Option.bind (mark_page_invalid s p) (\<lambda>t. set_rmap_ent t None p)) = Some s1"
    "ftl_inv [] {lpn} {} s1" "maptbl s1 = maptbl s" "spp_of s1 = spp_of s" "room s1 USER_IO = room s USER_IO" "wp s1 = wp s" "cp s1 = cp s" "wfc s1 = wfc s" "gc_wp s1 = gc_wp s"
    "pst (ssd s1) = (case maptbl s lpn of None \<Rightarrow> pst (ssd s) | Some p \<Rightarrow> (pst (ssd s))(p := PG_INVALID))"
  proof (cases "maptbl s lpn")
    case None
    have "ftl_inv [] {lpn} {} s" using i map_unmapped [of "spp_of s" "pst (ssd s)" "maptbl s" "rmap s" "{}" "{}" lpn] None by (simp add: ftl_inv_def)
    then show ?thesis using that [of s] None by (simp add: get_maptbl_ent_def)
  next
    case (Some p)
    then obtain s' where s': "Option.bind (mark_page_invalid s p) (\<lambda>t. set_rmap_ent t None p) = Some s'" "ftl_inv [] {lpn} {} s'"
      "maptbl s' = maptbl s" "spp_of s' = spp_of s" "pst (ssd s') = (pst (ssd s))(p := PG_INVALID)"
      "\<And>io. room s' io = room s io \<and> get_wp io s' = get_wp io s" "cp s' = cp s" "wfc s' = wfc s"
      using invalidate_ok [OF i lpn _ Some] by auto
    have "wp s' = wp s" "gc_wp s' = gc_wp s" using s'(6) [of USER_IO] s'(6) [of GC_IO] by simp_all
    then show ?thesis using that [of s'] s' Some by (simp add: get_maptbl_ent_def)
  qed
  have pl: "lpn < tt_pgs (spp_of s1)" "0 < room s1 USER_IO" using lpn room s1 by simp_all
  obtain s' where s': "place_page s1 USER_IO lpn = Some (s', wp_page (wp s))" "ftl_inv [] {} {} s'"
    "maptbl s' = (maptbl s)(lpn := Some (wp_page (wp s)))" "room s' USER_IO = room s USER_IO - 1" "spp_of s' = spp_of s"
    "cp s' = cp s" "wfc s' = wfc s" "in_range (spp_of s) (wp_page (wp s))" "gc_wp s' = gc_wp s"
    using place_page_ok [OF s1(2) pl(1) _ pl(2)] s1 by auto
  have "pst (ssd s) (wp_page (wp s)) = PG_FREE" using i by (intro wp_page_free [of "spp_of s"]) (simp_all add: ftl_inv_def params_ok_def)
  then show ?thesis using s' s1(1) by (intro exI [of _ s'] exI [of _ "wp_page (wp s)"]) (simp add: write_lpn_def conv_inv_def)
qed

end
