(* ===== verification/Conv_Gc.thy ===== *)
theory Conv_Gc
  imports Conv_Inv
begin

text \<open>
  Garbage collection of a line keeps the invariant of the translation layer: every logical page stays mapped,
  those of the victim move to pages that were free, and the line is free afterwards. It also shows that the room
  for it is always there once one free line is left.
\<close>

section \<open>Results under timing\<close>

text \<open>
  With the garbage collection delay on, a step also books NAND time, and the timing model may stop (a full credit
  ring). \<open>gc_res g r P\<close>: every result satisfies \<open>P\<close>, and there is one when the delay is off.
\<close>

definition gc_res :: "bool \<Rightarrow> ('s \<times> 'e) option \<Rightarrow> ('s \<Rightarrow> bool) \<Rightarrow> bool" where
  "gc_res g r P \<longleftrightarrow> (\<forall>s e. r = Some (s, e) \<longrightarrow> P s) \<and> (\<not> g \<longrightarrow> r \<noteq> None)"

lemma gc_res_mono: "gc_res g r P \<Longrightarrow> (\<And>s. P s \<Longrightarrow> Q s) \<Longrightarrow> gc_res g r Q"
  by (auto simp: gc_res_def)

lemma gc_res_bind:
  assumes "gc_res g r P" and "\<And>s e. P s \<Longrightarrow> gc_res g (f (s, e)) Q"
  shows "gc_res g (Option.bind r f) Q"
proof (cases r)
  case None
  then show ?thesis using assms(1) by (simp add: gc_res_def)
next
  case (Some x)
  obtain s e where x: "x = (s, e)" by (cases x)
  then have "P s" using assms(1) Some by (simp add: gc_res_def)
  then show ?thesis using assms(2) Some x by simp
qed

lemma gc_res_Some [simp]: "gc_res g (Some (s, e)) P \<longleftrightarrow> P s"
  by (simp add: gc_res_def)

lemma foldM_gc_res:
  assumes "I [] s" and "\<And>done x rest s e. xs = done @ x # rest \<Longrightarrow> I done s \<Longrightarrow> gc_res g (f x (s, e)) (I (done @ [x]))"
  shows "gc_res g (foldM f xs (s, e)) (I xs)"
proof -
  have "gc_res g (foldM f ys (s, e)) (I (done @ ys))" if "xs = done @ ys" "I done s" for "done" ys s e
    using that
  proof (induction ys arbitrary: "done" s e)
    case (Cons y ys)
    have step: "gc_res g (f y (s, e)) (I (done @ [y]))" using assms(2) Cons.prems by blast
    have IH: "I (done @ [y]) t \<Longrightarrow> gc_res g (foldM f ys (t, e')) (I (done @ y # ys))" for t e'
      using Cons.IH [of "done @ [y]" t e'] Cons.prems(1) by simp
    show ?case unfolding foldM.simps using step IH by (rule gc_res_bind)
  qed simp
  then show ?thesis using assms(1) by (metis append_Nil)
qed

lemma ftl_inv_nand_same:
  assumes "nand_same (ssd s) dev"
  shows "ftl_inv V X D (s\<lparr>ssd := dev\<rparr>) = ftl_inv V X D s" "room (s\<lparr>ssd := dev\<rparr>) io = room s io"
  using nand_same_ok [OF assms] by (simp_all add: ftl_inv_def room_def)

lemma nand_io_res:
  assumes "\<And>dev. nand_same (ssd s) dev \<Longrightarrow> P (s\<lparr>ssd := dev\<rparr>)"
  shows "gc_res True (nand_io s env c n p) P"
  using assms ssd_advance_nand_frame by (force simp: gc_res_def nand_io_def split: Option.bind_splits)

lemma delayed_res:
  assumes "enable_gc_delay (cp s) = g" and "\<And>dev. nand_same (ssd s) dev \<Longrightarrow> P (s\<lparr>ssd := dev\<rparr>)" and "P s"
  shows "gc_res g (if enable_gc_delay (cp s) then nand_io s env c n p else Some (s, env)) P"
  using assms(1,3) nand_io_res [of s P, OF assms(2)] by auto

section \<open>Moving one page\<close>

text \<open>
  The state of a collection of line \<open>v\<close>, started in \<open>s0\<close>, when the pages in \<open>D\<close> have been dealt with: the
  invariant, room for what is left, and every logical page is where it was or has moved from the line to a
  page that was free.
\<close>

definition moved :: "nat \<Rightarrow> conv_ftl \<Rightarrow> conv_ftl \<Rightarrow> bool" where
  "moved v s0 s \<longleftrightarrow> (\<forall>l. maptbl s l = maptbl s0 l \<or>
     (\<exists>p p'. maptbl s0 l = Some p \<and> p \<in> line_pages (spp_of s0) v \<and> maptbl s l = Some p' \<and> pst (ssd s0) p' = PG_FREE \<and> g_blk p' \<noteq> v))"

definition todo :: "nat \<Rightarrow> ppa set \<Rightarrow> conv_ftl \<Rightarrow> nat" where
  "todo v D s = card {q \<in> line_pages (spp_of s) v. pst (ssd s) q = PG_VALID \<and> q \<notin> D}"

definition gc_state :: "nat \<Rightarrow> conv_ftl \<Rightarrow> ppa set \<Rightarrow> conv_ftl \<Rightarrow> bool" where
  "gc_state v s0 D s \<longleftrightarrow> ftl_inv [v] {} D s \<and> moved v s0 s
     \<and> todo v D s \<le> room s GC_IO \<and> room s0 GC_IO + todo v D s = room s GC_IO + todo v {} s0
     \<and> spp_of s = spp_of s0 \<and> cp s = cp s0 \<and> wfc s = wfc s0 \<and> wp s = wp s0
     \<and> (\<forall>p. in_range (spp_of s0) p \<and> g_blk p \<noteq> v \<and> pst (ssd s) p = PG_FREE \<longrightarrow> pst (ssd s0) p = PG_FREE)
     \<and> (\<forall>p l. maptbl s0 l = Some p \<and> maptbl s l \<noteq> Some p \<longrightarrow> p \<in> D)"

lemma ftl_inv_line:
  assumes "ftl_inv [v] X D s"
  shows "v < blks_per_pl (spp_of s)" "geometry (spp_of s)" "finite (line_pages (spp_of s) v)" "v \<noteq> curline (wp s)" "v \<noteq> curline (gc_wp s)"
proof -
  have pl: "placed (spp_of s) (lm s) [curline (wp s), curline (gc_wp s), v]" and geo: "geometry (spp_of s)"
    using assms lines_okD(2) params_okD(1) unfolding ftl_inv_def by blast+
  then show "v < blks_per_pl (spp_of s)" "geometry (spp_of s)" "v \<noteq> curline (wp s)" "v \<noteq> curline (gc_wp s)"
    by (auto simp: placed_def listed_def)
  then show "finite (line_pages (spp_of s) v)" using line_pages_finite by blast
qed

lemma todo_step:
  assumes "finite (line_pages (spp_of s) v)" "q \<in> line_pages (spp_of s) v" "q \<notin> D"
    and "spp_of s' = spp_of s" "\<And>r. r \<in> line_pages (spp_of s) v \<Longrightarrow> pst (ssd s') r = pst (ssd s) r"
  shows "todo v (insert q D) s' = todo v D s - (if pst (ssd s) q = PG_VALID then 1 else 0)"
    and "pst (ssd s) q = PG_VALID \<Longrightarrow> 0 < todo v D s"
proof -
  let ?A = "{r \<in> line_pages (spp_of s) v. pst (ssd s) r = PG_VALID \<and> r \<notin> D}"
  have fin: "finite ?A" using assms(1) by simp
  have "{r \<in> line_pages (spp_of s') v. pst (ssd s') r = PG_VALID \<and> r \<notin> insert q D} = ?A - {q}" using assms(4,5) by auto
  then show "todo v (insert q D) s' = todo v D s - (if pst (ssd s) q = PG_VALID then 1 else 0)"
    unfolding todo_def using fin assms(2,3) by (auto simp: card_Diff_singleton_if)
  show "0 < todo v D s" if "pst (ssd s) q = PG_VALID" unfolding todo_def using fin that assms(2,3) by (auto simp: card_gt_0_iff)
qed

lemma gc_remap_ok:
  assumes inv: "ftl_inv [v] {} D s" and q: "q \<in> line_pages (spp_of s) v" "q \<notin> D" "pst (ssd s) q = PG_VALID" and room: "0 < room s GC_IO"
  shows "\<exists>s' l. gc_remap s q = Some (s', wp_page (gc_wp s)) \<and> ftl_inv [v] {} (insert q D) s' \<and> l < tt_pgs (spp_of s) \<and> maptbl s l = Some q
     \<and> maptbl s' = (maptbl s)(l := Some (wp_page (gc_wp s))) \<and> spp_of s' = spp_of s \<and> cp s' = cp s \<and> wfc s' = wfc s \<and> wp s' = wp s
     \<and> pst (ssd s') = (pst (ssd s))(wp_page (gc_wp s) := PG_VALID) \<and> room s' GC_IO = room s GC_IO - 1
     \<and> in_range (spp_of s) (wp_page (gc_wp s)) \<and> pst (ssd s) (wp_page (gc_wp s)) = PG_FREE"
proof -
  have geo: "geometry (spp_of s)" by (rule ftl_inv_line(2) [OF inv])
  have mok: "map_ok (spp_of s) (pst (ssd s)) (maptbl s) (rmap s) {} D" using inv by (simp add: ftl_inv_def)
  have qr: "in_range (spp_of s) q" "g_blk q = v" using q(1) by (simp_all add: line_pages_iff)
  obtain l where l: "l < tt_pgs (spp_of s)" "rmap s (pgidx (spp_of s) q) = Some l" "maptbl s l = Some q"
    using map_okD(2) [OF mok qr(1) q(3,2)] by blast
  have "ftl_inv [v] {l} (insert q D) s"
    using inv map_detach [OF mok l(1) _ l(3)] qr(2) by (auto simp: ftl_inv_def)
  from place_page_ok [OF this l(1) _ room] obtain s' where "place_page s GC_IO l = Some (s', wp_page (gc_wp s))"
    "ftl_inv [v] {} (insert q D) s'" "maptbl s' = (maptbl s)(l := Some (wp_page (gc_wp s)))" "spp_of s' = spp_of s"
    "pst (ssd s') = (pst (ssd s))(wp_page (gc_wp s) := PG_VALID)" "room s' GC_IO = room s GC_IO - 1" "cp s' = cp s" "wfc s' = wfc s"
    "in_range (spp_of s) (wp_page (gc_wp s))" "pst (ssd s) (wp_page (gc_wp s)) = PG_FREE" "wp s' = wp s" by auto
  moreover have "get_rmap_ent s q = Some (Some l)" using ppa2pgidx_eq [OF geo qr(1)] l(2) by (simp add: get_rmap_ent_def)
  ultimately show ?thesis using l by (intro exI [of _ s'] exI [of _ l]) (simp add: gc_remap_def valid_lpn_def)
qed

lemma gc_state_skip:
  assumes g: "gc_state v s0 D s" and q: "q \<in> line_pages (spp_of s0) v" "pst (ssd s) q \<noteq> PG_VALID"
  shows "gc_state v s0 (insert q D) s"
proof -
  have sp: "spp_of s = spp_of s0" and inv: "ftl_inv [v] {} D s" using g by (simp_all add: gc_state_def)
  have "map_ok (spp_of s) (pst (ssd s)) (maptbl s) (rmap s) {} (insert q D)"
  proof (rule map_ok_status)
    show "map_ok (spp_of s) (pst (ssd s)) (maptbl s) (rmap s) {} D" using inv by (simp add: ftl_inv_def)
  qed (use q(2) in blast)
  moreover have "g_blk q = v" using q(1) by (simp add: line_pages_iff)
  ultimately have "ftl_inv [v] {} (insert q D) s" using inv by (simp add: ftl_inv_def)
  moreover have "{r \<in> line_pages (spp_of s) v. pst (ssd s) r = PG_VALID \<and> r \<notin> insert q D} = {r \<in> line_pages (spp_of s) v. pst (ssd s) r = PG_VALID \<and> r \<notin> D}"
    using q(2) by auto
  then have "todo v (insert q D) s = todo v D s" by (simp add: todo_def)
  ultimately show ?thesis using g unfolding gc_state_def by auto
qed

lemma gc_state_move:
  assumes g: "gc_state v s0 D s" and q: "q \<in> line_pages (spp_of s0) v" "q \<notin> D" "pst (ssd s) q = PG_VALID"
  shows "\<exists>s' p. gc_remap s q = Some (s', p) \<and> gc_state v s0 (insert q D) s' \<and> (\<forall>r\<in>line_pages (spp_of s0) v. pst (ssd s') r = pst (ssd s) r)"
proof -
  let ?p = "wp_page (gc_wp s)"
  have sp: "spp_of s = spp_of s0" and inv: "ftl_inv [v] {} D s" and mv: "moved v s0 s" using g by (simp_all add: gc_state_def)
  note L = ftl_inv_line [OF inv]
  have qs: "q \<in> line_pages (spp_of s) v" using q(1) sp by simp
  have room: "0 < room s GC_IO" using todo_step(2) [OF L(3) qs q(2), of s] q(3) g by (simp add: gc_state_def)
  obtain s' l where r: "gc_remap s q = Some (s', ?p)" "ftl_inv [v] {} (insert q D) s'" "maptbl s l = Some q"
    "maptbl s' = (maptbl s)(l := Some ?p)" "spp_of s' = spp_of s" "cp s' = cp s" "wfc s' = wfc s"
    "pst (ssd s') = (pst (ssd s))(?p := PG_VALID)" "room s' GC_IO = room s GC_IO - 1"
    "in_range (spp_of s) ?p" "pst (ssd s) ?p = PG_FREE" "wp s' = wp s"
    using gc_remap_ok [OF inv qs q(2,3) room] by blast
  have pv: "g_blk ?p \<noteq> v" using L(5) inv by (simp add: ftl_inv_def wp_split_def wp_in_range_def)
  have same: "pst (ssd s') t = pst (ssd s) t" if "t \<in> line_pages (spp_of s) v" for t
    using that pv r(8) by (auto simp: line_pages_iff)
  have free0: "pst (ssd s0) ?p = PG_FREE" using g pv r(10,11) sp by (simp add: gc_state_def)
  have "todo v (insert q D) s' \<le> room s' GC_IO \<and> room s0 GC_IO + todo v (insert q D) s' = room s' GC_IO + todo v {} s0"
  proof -
    have "todo v D s \<le> room s GC_IO" "room s0 GC_IO + todo v D s = room s GC_IO + todo v {} s0" using g by (simp_all add: gc_state_def)
    then show ?thesis using todo_step [OF L(3) qs q(2) r(5) same] q(3) r(9) by auto
  qed
  moreover have ml: "maptbl s0 l = Some q"
    using mv r(3) qs unfolding moved_def by (metis line_pages_iff option.inject)
  have "moved v s0 s'"
    unfolding moved_def
  proof
    fix k
    show "maptbl s' k = maptbl s0 k \<or> (\<exists>p p'. maptbl s0 k = Some p \<and> p \<in> line_pages (spp_of s0) v \<and> maptbl s' k = Some p' \<and> pst (ssd s0) p' = PG_FREE \<and> g_blk p' \<noteq> v)"
      using ml q(1) free0 pv r(4) mv by (cases "k = l") (auto simp: moved_def)
  qed
  moreover have "\<forall>t. in_range (spp_of s0) t \<and> g_blk t \<noteq> v \<and> pst (ssd s') t = PG_FREE \<longrightarrow> pst (ssd s0) t = PG_FREE"
    using g r(8) by (auto simp: gc_state_def)
  moreover have "\<forall>t k. maptbl s0 k = Some t \<and> maptbl s' k \<noteq> Some t \<longrightarrow> t \<in> insert q D"
    using g r(4) ml by (auto simp: gc_state_def split: if_splits)
  ultimately have "gc_state v s0 (insert q D) s'" using r g sp unfolding gc_state_def by simp
  then show ?thesis using r(1) same sp by auto
qed

lemma gc_state_nand_same:
  assumes "nand_same (ssd s) dev"
  shows "gc_state v s0 D (s\<lparr>ssd := dev\<rparr>) = gc_state v s0 D s" "pst dev = pst (ssd s)" "sp dev = spp_of s"
  using ftl_inv_nand_same [OF assms] nand_same_ok [OF assms] by (simp_all add: gc_state_def moved_def todo_def)

definition clean_post :: "nat \<Rightarrow> conv_ftl \<Rightarrow> ppa set \<Rightarrow> conv_ftl \<Rightarrow> conv_ftl \<Rightarrow> bool" where
  "clean_post v s0 D s s' \<longleftrightarrow> gc_state v s0 D s' \<and> (\<forall>r\<in>line_pages (spp_of s0) v. pst (ssd s') r = pst (ssd s) r)"

lemma clean_page_ok:
  assumes g: "gc_state v s0 D s" and q: "q \<in> line_pages (spp_of s0) v" "q \<notin> D"
  shows "gc_res (enable_gc_delay (cp s0)) (clean_page q (s, e)) (clean_post v s0 (insert q D) s)"
proof (cases "pst (ssd s) q = PG_VALID")
  case True
  obtain s1 p where r: "gc_remap s q = Some (s1, p)" "gc_state v s0 (insert q D) s1" "\<forall>r\<in>line_pages (spp_of s0) v. pst (ssd s1) r = pst (ssd s) r"
    using gc_state_move [OF g q True] by blast
  then have post: "clean_post v s0 (insert q D) s s1" "enable_gc_delay (cp s1) = enable_gc_delay (cp s0)" by (auto simp: clean_post_def gc_state_def)
  have same: "clean_post v s0 (insert q D) s (s1\<lparr>ssd := dev\<rparr>)" if "nand_same (ssd s1) dev" for dev
    using r gc_state_nand_same [OF that] by (simp add: clean_post_def)
  have "clean_page q (s, e) = (if enable_gc_delay (cp s1)
      then if last_pg_in_wordline s1 p then nand_io s1 e NAND_WRITE (of_nat (pgsz (spp_of s1) * pgs_per_oneshotpg (spp_of s1))) p else nand_io s1 e NAND_NOP 0 p
      else Some (s1, e))"
    using True r(1) by (simp add: clean_page_def gc_write_page_def pst_def)
  then show ?thesis using post nand_io_res [of s1 "clean_post v s0 (insert q D) s", OF same] by (cases "enable_gc_delay (cp s0)") auto
next
  case False
  then show ?thesis using gc_state_skip [OF g q(1)] by (simp add: clean_page_def pst_def clean_post_def)
qed

section \<open>One flash page\<close>

lemma gc_state_skip_all:
  assumes "finite F" "gc_state v s0 D s" "F \<subseteq> line_pages (spp_of s0) v" "\<forall>q\<in>F. pst (ssd s) q \<noteq> PG_VALID"
  shows "gc_state v s0 (D \<union> F) s"
  using assms
proof (induction F rule: finite_induct)
  case (insert q F)
  then have "gc_state v s0 (insert q (D \<union> F)) s" by (intro gc_state_skip) auto
  then show ?case by simp
qed simp

definition flash_pages :: "ssdparams \<Rightarrow> nat \<Rightarrow> nat \<Rightarrow> nat \<Rightarrow> nat \<Rightarrow> ppa set" where
  "flash_pages spp v f c l = (\<lambda>i. page_at v c l (f * pgs_per_flashpg spp + i)) ` {..<pgs_per_flashpg spp}"

lemma flash_page_bound:
  assumes "geometry spp" "f < flashpgs_per_blk spp" "i < pgs_per_flashpg spp"
  shows "f * pgs_per_flashpg spp + i < pgs_per_blk spp"
  using digit_less [OF assms(2,3)] assms(1) by (simp add: geometry_def mult.commute)

lemma flash_pages_in_line:
  assumes "geometry spp" "v < blks_per_pl spp" "f < flashpgs_per_blk spp" "c < nchs spp" "l < luns_per_ch spp"
  shows "flash_pages spp v f c l = {q \<in> line_pages spp v. g_pg q div pgs_per_flashpg spp = f \<and> g_ch q = c \<and> g_lun q = l}"
proof (intro subset_antisym subsetI)
  fix q assume "q \<in> flash_pages spp v f c l"
  then show "q \<in> {q \<in> line_pages spp v. g_pg q div pgs_per_flashpg spp = f \<and> g_ch q = c \<and> g_lun q = l}"
    using assms flash_page_bound [OF assms(1,3)] by (auto simp: flash_pages_def line_pages_iff in_range_def geometry_def)
next
  fix q assume q: "q \<in> {q \<in> line_pages spp v. g_pg q div pgs_per_flashpg spp = f \<and> g_ch q = c \<and> g_lun q = l}"
  let ?i = "g_pg q mod pgs_per_flashpg spp"
  have "?i < pgs_per_flashpg spp" "g_pg q = f * pgs_per_flashpg spp + ?i" using assms(1) q by (auto simp: geometry_def)
  then show "q \<in> flash_pages spp v f c l"
    unfolding flash_pages_def using q page_at_collapse [OF assms(1), of q] by (intro image_eqI [of _ _ ?i]) (auto simp: line_pages_iff)
qed

lemma clean_one_flashpg_ok:
  assumes g: "gc_state v s0 D s" and pos: "f < flashpgs_per_blk (spp_of s0)" "c < nchs (spp_of s0)" "l < luns_per_ch (spp_of s0)"
    and new: "flash_pages (spp_of s0) v f c l \<inter> D = {}" and used: "\<forall>q\<in>flash_pages (spp_of s0) v f c l. pst (ssd s) q \<noteq> PG_FREE"
  shows "gc_res (enable_gc_delay (cp s0)) (clean_one_flashpg (page_at v c l (f * pgs_per_flashpg (spp_of s0))) (s, e))
     (clean_post v s0 (D \<union> flash_pages (spp_of s0) v f c l) s)"
proof -
  let ?spp = "spp_of s0" let ?n = "pgs_per_flashpg (spp_of s0)" let ?p = "page_at v c l (f * ?n)" let ?g = "enable_gc_delay (cp s0)"
  have inv: "ftl_inv [v] {} D s" and sp: "spp_of s = ?spp" "cp s = cp s0" using g by (simp_all add: gc_state_def)
  have geo: "geometry ?spp" and v: "v < blks_per_pl ?spp" using ftl_inv_line(1,2) [OF inv] sp by simp_all
  have fits: "pgs_per_blk ?spp \<le> 2 ^ PAGE_BITS" using inv sp by (simp add: ftl_inv_def params_ok_def fits_ppa_def)
  have at: "pg_at ?p i = page_at v c l (f * ?n + i)" if "i < ?n" for i
    using flash_page_bound [OF geo pos(1) that] fits by (simp add: pg_at_def page_at_def)
  have img: "(\<lambda>i. pg_at ?p i) ` set [0..<?n] = flash_pages ?spp v f c l" unfolding flash_pages_def using at by (intro image_cong) auto
  have sub: "flash_pages ?spp v f c l \<subseteq> line_pages ?spp v" using flash_pages_in_line [OF geo v pos] by auto
  define k where "k = length (filter (\<lambda>i. status (get_pg (ssd s) (pg_at ?p i)) = PG_VALID) [0..<?n])"
  have ass: "\<forall>i<?n. status (get_pg (ssd s) (pg_at ?p i)) \<noteq> PG_FREE" using used img by (auto simp: pst_def)
  show ?thesis
  proof (cases "k = 0")
    case True
    then have "\<forall>q\<in>(\<lambda>i. pg_at ?p i) ` set [0..<?n]. pst (ssd s) q \<noteq> PG_VALID" by (auto simp: k_def pst_def filter_empty_conv)
    then have "\<forall>q\<in>flash_pages ?spp v f c l. pst (ssd s) q \<noteq> PG_VALID" unfolding img .
    then have "gc_state v s0 (D \<union> flash_pages ?spp v f c l) s" using sub by (intro gc_state_skip_all [OF _ g]) (simp_all add: flash_pages_def)
    then show ?thesis using True ass sp by (simp add: clean_one_flashpg_def Let_def k_def clean_post_def)
  next
    case False
    let ?I = "\<lambda>done. clean_post v s0 (D \<union> (\<lambda>i. pg_at ?p i) ` set done) s"
    let ?st = "if enable_gc_delay (cp s) then nand_io s e NAND_READ (of_nat (pgsz (spp_of s) * k)) ?p else Some (s, e)"
    have start: "gc_res ?g ?st (?I [])"
      using g sp by (intro delayed_res) (auto simp: clean_post_def gc_state_nand_same)
    have "gc_res ?g (Option.bind ?st (foldM (\<lambda>i. clean_page (pg_at ?p i)) [0..<?n])) (?I [0..<?n])"
    proof (rule gc_res_bind [OF start], rule foldM_gc_res)
      fix "done" x rest t e'
      assume xs: "[0..<?n] = done @ x # rest" and t: "?I done t"
      have "distinct (done @ x # rest)" "set (done @ x # rest) = {..<?n}" unfolding xs [symmetric] by auto
      then have x: "x < ?n" "x \<notin> set done" "\<forall>i\<in>set done. i < ?n" by auto
      let ?q = "pg_at ?p x"
      have "?q \<in> flash_pages ?spp v f c l" using img x(1) by auto
      then have q: "?q \<in> line_pages ?spp v" "?q \<notin> D" using sub new by auto
      moreover have "?q \<notin> (\<lambda>i. pg_at ?p i) ` set done" using x at by (auto simp: page_at_def)
      ultimately have "gc_res ?g (clean_page ?q (t, e')) (clean_post v s0 (insert ?q (D \<union> (\<lambda>i. pg_at ?p i) ` set done)) t)"
        using t by (intro clean_page_ok) (auto simp: clean_post_def)
      then show "gc_res ?g (clean_page ?q (t, e')) (?I (done @ [x]))"
        using t by (elim gc_res_mono) (simp add: clean_post_def)
    qed
    moreover have "clean_one_flashpg ?p (s, e) = Option.bind ?st (foldM (\<lambda>i. clean_page (pg_at ?p i)) [0..<?n])"
      unfolding clean_one_flashpg_def prod.case Let_def sp(1) k_def [symmetric] using ass False by (simp only: NVMEV_ASSERT_bind if_P [OF ass] if_False)
    ultimately show ?thesis unfolding img by (simp only:)
  qed
qed

section \<open>Erasing a block\<close>

lemma gc_state_erase:
  assumes g: "gc_state v s0 D s" and p: "in_range (spp_of s0) p" "g_blk p = v" "blk_pages (spp_of s0) p \<subseteq> D"
  shows "\<exists>dev. mark_block_free s p = Some (s\<lparr>ssd := dev\<rparr>) \<and> gc_state v s0 D (s\<lparr>ssd := dev\<rparr>)
     \<and> (\<forall>q\<in>line_pages (spp_of s0) v. pst dev q = (if same_blk p q then PG_FREE else pst (ssd s) q))"
proof -
  let ?spp = "spp_of s0"
  have inv: "ftl_inv [v] {} D s" and sp: "spp_of s = ?spp" using g by (simp_all add: gc_state_def)
  note L = ftl_inv_line [OF inv]
  have i: "map_ok ?spp (pst (ssd s)) (maptbl s) (rmap s) {} D" "blks_ok ?spp (ssd s)"
    "lines_ok ?spp (pst (ssd s)) (lm s) [curline (wp s), curline (gc_wp s), v] {v}" "wp_ok ?spp (pst (ssd s)) (wp s)" "wp_ok ?spp (pst (ssd s)) (gc_wp s)"
    using inv sp by (simp_all add: ftl_inv_def)
  obtain dev where d: "mark_block_free s p = Some (s\<lparr>ssd := dev\<rparr>)" "sp dev = ?spp" "blks_ok ?spp dev"
    "\<And>q. in_range ?spp q \<Longrightarrow> pst dev q = (if same_blk p q then PG_FREE else pst (ssd s) q)"
    using mark_block_free_ok [of s p] L(2) i(2) p(1) sp by auto
  have outside: "pst dev q = pst (ssd s) q" if "in_range ?spp q" "g_blk q \<noteq> v" for q
    using d(4) [OF that(1)] that(2) p(2) by (auto simp: same_blk_def)
  have inD: "q \<in> D" if "in_range ?spp q" "same_blk p q" for q using that p(3) by (auto simp: in_blk_pages)
  have "map_ok ?spp (pst dev) (maptbl s) (rmap s) {} D"
    by (rule map_ok_status [OF i(1)]) (use d(4) inD in \<open>auto split: if_splits\<close>)
  moreover have "lines_ok ?spp (pst dev) (lm s) [curline (wp s), curline (gc_wp s), v] {v}"
    by (rule lines_ok_status [OF i(3)]) (use outside in auto)
  moreover have "wp_ok ?spp (pst dev) (wp s)" "wp_ok ?spp (pst dev) (gc_wp s)"
    using L(4,5) outside by (intro wp_split_status [OF i(4)] wp_split_status [OF i(5)]; simp add: line_pages_iff)+
  ultimately have "ftl_inv [v] {} D (s\<lparr>ssd := dev\<rparr>)" using inv d(2,3) sp by (simp add: ftl_inv_def)
  moreover have "{q \<in> line_pages ?spp v. pst dev q = PG_VALID \<and> q \<notin> D} = {q \<in> line_pages ?spp v. pst (ssd s) q = PG_VALID \<and> q \<notin> D}"
    using d(4) inD by (auto simp: line_pages_iff split: if_splits)
  then have "todo v D (s\<lparr>ssd := dev\<rparr>) = todo v D s" using d(2) sp by (simp add: todo_def)
  moreover have "room (s\<lparr>ssd := dev\<rparr>) GC_IO = room s GC_IO" using d(2) sp by (simp add: room_def)
  moreover have "pst (ssd s0) q = PG_FREE" if "in_range ?spp q" "g_blk q \<noteq> v" "pst dev q = PG_FREE" for q
    using g outside [OF that(1,2)] that by (simp add: gc_state_def)
  ultimately have "gc_state v s0 D (s\<lparr>ssd := dev\<rparr>)" using g d(2) unfolding gc_state_def by (simp add: moved_def)
  then show ?thesis using d(1,4) by (auto simp: line_pages_iff)
qed

lemma erase_block_ok:
  assumes g: "gc_state v s0 D s" and p: "in_range (spp_of s0) p" "g_blk p = v" "blk_pages (spp_of s0) p \<subseteq> D"
  shows "gc_res (enable_gc_delay (cp s0)) (erase_block p (s, e))
     (\<lambda>s'. gc_state v s0 D s' \<and> (\<forall>q\<in>line_pages (spp_of s0) v. pst (ssd s') q = (if same_blk p q then PG_FREE else pst (ssd s) q)))"
proof -
  let ?P = "\<lambda>s'. gc_state v s0 D s' \<and> (\<forall>q\<in>line_pages (spp_of s0) v. pst (ssd s') q = (if same_blk p q then PG_FREE else pst (ssd s) q))"
  obtain dev where d: "mark_block_free s p = Some (s\<lparr>ssd := dev\<rparr>)" "?P (s\<lparr>ssd := dev\<rparr>)" using gc_state_erase [OF assms] by auto
  let ?s = "s\<lparr>ssd := dev\<rparr>"
  have same: "?P (t\<lparr>ssd := dev'\<rparr>)" if "?P t" "nand_same (ssd t) dev'" for t dev' using that gc_state_nand_same [OF that(2)] by simp
  have "cp s = cp s0" using g by (simp add: gc_state_def)
  then have A: "gc_res (enable_gc_delay (cp s0)) (if enable_gc_delay (cp ?s) then nand_io ?s e NAND_ERASE 0 p else Some (?s, e)) ?P"
    using d(2) same [OF d(2)] by (intro delayed_res) simp_all
  have "nand_same (ssd t) (put_lun (ssd t) p ((get_lun (ssd t) p)\<lparr>lun_gc_endtime := x\<rparr>))" for t x by (simp add: nand_same_def)
  then have B: "?P (t\<lparr>ssd := put_lun (ssd t) p ((get_lun (ssd t) p)\<lparr>lun_gc_endtime := x\<rparr>)\<rparr>)" if "?P t" for t x by (rule same [OF that])
  show ?thesis unfolding erase_block_def prod.case d(1) Option.bind.simps Let_def
    by (rule gc_res_bind [OF A]) (unfold prod.case gc_res_Some, rule B)
qed

section \<open>The whole line\<close>

lemma sorted_product_fst: "sorted xs \<Longrightarrow> sorted (map fst (List.product xs ys))"
proof (induction xs)
  case (Cons x xs)
  have "map fst (map (Pair x) ys) = replicate (length ys) x" by (simp add: comp_def map_replicate_const)
  moreover have "sorted (replicate n x)" for n by (induction n) auto
  moreover have "x \<le> z" if "z \<in> fst ` set (List.product xs ys)" for z using that Cons.prems by (auto split: if_splits)
  ultimately show ?case using Cons by (auto simp: sorted_append simp del: replicate.simps)
qed simp

lemma gc_visits_order:
  assumes "gc_visits spp = done @ (f, c, l) # rest"
  shows "f < flashpgs_per_blk spp" "c < nchs spp" "l < luns_per_ch spp" "(f, c, l) \<notin> set done"
    "(f', c', l') \<in> set done \<Longrightarrow> f' \<le> f" "f' < f \<Longrightarrow> c' < nchs spp \<Longrightarrow> l' < luns_per_ch spp \<Longrightarrow> (f', c', l') \<in> set done"
proof -
  let ?C = "List.product [0..<nchs spp] [0..<luns_per_ch spp]"
  have v: "set (gc_visits spp) = {..<flashpgs_per_blk spp} \<times> {..<nchs spp} \<times> {..<luns_per_ch spp}" "distinct (gc_visits spp)"
    by (auto simp: gc_visits_def distinct_product)
  have "(f, c, l) \<in> set (gc_visits spp)" unfolding assms by simp
  then show fcl: "f < flashpgs_per_blk spp" "c < nchs spp" "l < luns_per_ch spp" unfolding v(1) by auto
  show "(f, c, l) \<notin> set done" using v(2) unfolding assms by simp
  have s: "sorted (map fst done @ f # map fst rest)"
    using sorted_product_fst [of "[0..<flashpgs_per_blk spp]" ?C] assms by (simp add: gc_visits_def)
  show "f' \<le> f" if "(f', c', l') \<in> set done" using s that by (force simp: sorted_append)
  show "(f', c', l') \<in> set done" if "f' < f" "c' < nchs spp" "l' < luns_per_ch spp"
  proof -
    have "(f', c', l') \<in> set (gc_visits spp)" unfolding v(1) using that fcl by auto
    moreover have "(f', c', l') \<notin> set rest" using s that(1) by (force simp: sorted_append)
    ultimately show ?thesis unfolding assms using that(1) by auto
  qed
qed

definition visited :: "ssdparams \<Rightarrow> nat \<Rightarrow> (nat \<times> nat \<times> nat) set \<Rightarrow> ppa set" where
  "visited spp v S = {q \<in> line_pages spp v. (g_pg q div pgs_per_flashpg spp, g_ch q, g_lun q) \<in> S}"

text \<open>The loop invariant of \<open>do_gc\<close> after the visits in \<open>done\<close>.\<close>

definition gc_loop :: "nat \<Rightarrow> conv_ftl \<Rightarrow> (nat \<times> nat \<times> nat) list \<Rightarrow> conv_ftl \<Rightarrow> bool" where
  "gc_loop v s0 done s \<longleftrightarrow> gc_state v s0 (visited (spp_of s0) v (set done)) s
     \<and> (\<forall>q\<in>line_pages (spp_of s0) v. if (flashpgs_per_blk (spp_of s0) - 1, g_ch q, g_lun q) \<in> set done
          then pst (ssd s) q = PG_FREE else pst (ssd s) q \<noteq> PG_FREE)"

lemma gc_step_ok:
  assumes xs: "gc_visits (spp_of s0) = done @ (f, c, l) # rest" and I: "gc_loop v s0 done s"
  shows "gc_res (enable_gc_delay (cp s0)) (gc_step v (f, c, l) (s, e)) (gc_loop v s0 (done @ [(f, c, l)]))"
proof -
  let ?spp = "spp_of s0" let ?n = "pgs_per_flashpg ?spp" let ?D = "visited ?spp v (set done)" let ?F = "flash_pages ?spp v f c l"
  let ?last = "flashpgs_per_blk ?spp - 1" let ?p = "page_at v c l (f * ?n)"
  note o = gc_visits_order [OF xs]
  have g: "gc_state v s0 ?D s" using I by (simp add: gc_loop_def)
  then have inv: "ftl_inv [v] {} ?D s" and sp: "spp_of s = ?spp" by (simp_all add: gc_state_def)
  have geo: "geometry ?spp" and v: "v < blks_per_pl ?spp" using ftl_inv_line(1,2) [OF inv] sp by simp_all
  note fp = flash_pages_in_line [OF geo v o(1,2,3)]
  have lastnot: "(?last, c, l) \<notin> set done" using o(1,4) o(5) [of ?last c l] by (cases "f = ?last") auto
  have vis: "visited ?spp v (set (done @ [(f, c, l)])) = ?D \<union> ?F" unfolding fp by (auto simp: visited_def)
  have "0 < ?n" using geo by (simp add: geometry_def)
  then have fn: "f * ?n < pgs_per_blk ?spp" using flash_page_bound [OF geo o(1), of 0] by simp
  have addr: "set_ppa c l 0 v (f * ?n) = ?p"
    using inv sp o fn v by (intro set_ppa_page_at) (auto simp: ftl_inv_def params_ok_def)
  have clean: "gc_res (enable_gc_delay (cp s0)) (clean_one_flashpg ?p (s, e)) (clean_post v s0 (?D \<union> ?F) s)"
  proof (rule clean_one_flashpg_ok [OF g o(1,2,3)])
    show "?F \<inter> ?D = {}" unfolding fp using o(4) by (auto simp: visited_def)
    show "\<forall>q\<in>?F. pst (ssd s) q \<noteq> PG_FREE" unfolding fp using I lastnot by (auto simp: gc_loop_def)
  qed
  have "gc_res (enable_gc_delay (cp s0)) (if f = ?last then erase_block ?p (t, e') else Some (t, e')) (gc_loop v s0 (done @ [(f, c, l)]))"
    if t: "clean_post v s0 (?D \<union> ?F) s t" for t e'
  proof (cases "f = ?last")
    case True
    have pr: "in_range ?spp ?p" using geo v o fn by (simp add: in_range_def geometry_def)
    have "blk_pages ?spp ?p \<subseteq> ?D \<union> ?F"
    proof
      fix q assume q: "q \<in> blk_pages ?spp ?p"
      then have qr: "in_range ?spp q" "g_blk q = v" "g_ch q = c" "g_lun q = l" by (auto simp: in_blk_pages same_blk_def)
      have "g_pg q < flashpgs_per_blk ?spp * ?n" using qr(1) geo by (simp add: in_range_def geometry_def mult.commute)
      then have "g_pg q div ?n < flashpgs_per_blk ?spp" by (rule less_mult_imp_div_less)
      then have "g_pg q div ?n < f \<or> g_pg q div ?n = f" using True by auto
      then show "q \<in> ?D \<union> ?F" using qr o(2,3,6) unfolding fp by (auto simp: visited_def line_pages_iff)
    qed
    then have "gc_res (enable_gc_delay (cp s0)) (erase_block ?p (t, e'))
       (\<lambda>s'. gc_state v s0 (?D \<union> ?F) s' \<and> (\<forall>q\<in>line_pages ?spp v. pst (ssd s') q = (if same_blk ?p q then PG_FREE else pst (ssd t) q)))"
      using t pr by (intro erase_block_ok) (simp_all add: clean_post_def)
    then have "gc_res (enable_gc_delay (cp s0)) (erase_block ?p (t, e')) (gc_loop v s0 (done @ [(f, c, l)]))"
      using t I True unfolding gc_loop_def vis
      by (elim gc_res_mono) (auto simp: clean_post_def same_blk_def line_pages_iff in_range_def geo [unfolded geometry_def])
    then show ?thesis using True by simp
  next
    case False
    then show ?thesis using t I unfolding gc_loop_def vis by (auto simp: clean_post_def)
  qed
  then show ?thesis unfolding gc_step_def prod.case Let_def sp addr
    by (intro gc_res_bind [OF clean]) blast
qed

lemma gc_loop_ok:
  assumes "gc_loop v s0 [] s"
  shows "gc_res (enable_gc_delay (cp s0)) (foldM (gc_step v) (gc_visits (spp_of s0)) (s, e)) (gc_loop v s0 (gc_visits (spp_of s0)))"
proof (rule foldM_gc_res [of "gc_loop v s0", OF assms])
  fix "done" x rest t e'
  assume "gc_visits (spp_of s0) = done @ x # rest" and "gc_loop v s0 done t"
  then show "gc_res (enable_gc_delay (cp s0)) (gc_step v x (t, e')) (gc_loop v s0 (done @ [x]))"
    by (cases x) (auto intro: gc_step_ok)
qed

section \<open>A collection\<close>

lemma lines_ok_exempt: "lines_ok spp st m H E \<Longrightarrow> E \<subseteq> E' \<Longrightarrow> lines_ok spp st m H E'"
  unfolding lines_ok_def line_ok_def by blast

lemma lines_ok_rotate: "lines_ok spp st m [a, b, v] E = lines_ok spp st m [v, a, b] E"
  by (rule lines_ok_perm) auto

lemma free_lines_kept:
  fixes ppl :: nat
  assumes "o0 < ppl" "o1 < ppl" "n < ppl" "(ppl - 1 - o0) + ppl * f0 = (ppl - 1 - o1) + ppl * f1 + n"
  shows "f0 \<le> f1 + 1"
proof (rule ccontr)
  assume "\<not> f0 \<le> f1 + 1"
  then have "f1 + 2 \<le> f0" by simp
  then have "ppl * (f1 + 2) \<le> ppl * f0" by (rule mult_le_mono2)
  then have "ppl * f1 + 2 * ppl \<le> ppl * f0" by (simp add: algebra_simps)
  then show False using assms by linarith
qed

text \<open>The state in which the loop of \<open>do_gc\<close> starts.\<close>

lemma gc_start:
  assumes inv: "conv_inv s" and free: "free_line_list (lm s) \<noteq> []" and v: "v \<in> victims (lm s)"
    and m: "lines_ok (spp_of s) (pst (ssd s)) m (v # [curline (wp s), curline (gc_wp s)]) {}" "free_line_list m = free_line_list (lm s)"
  shows "gc_loop v (s\<lparr>lm := m, wfc := f\<rparr>) [] (s\<lparr>lm := m, wfc := f\<rparr>)" "todo v {} (s\<lparr>lm := m, wfc := f\<rparr>) < pgs_per_line (spp_of s)"
proof -
  let ?spp = "spp_of s" let ?s = "s\<lparr>lm := m, wfc := f\<rparr>" let ?R = "line_pages ?spp v"
  have i: "ftl_inv [] {} {} s" using inv by (simp add: conv_inv_def)
  then have geo: "geometry ?spp" and ok: "lines_ok ?spp (pst (ssd s)) (lm s) [curline (wp s), curline (gc_wp s)] {}"
    by (simp_all add: ftl_inv_def params_ok_def)
  have vb: "v < blks_per_pl ?spp" using v lines_okD(2) [OF ok] by (auto simp: placed_def)
  have pages: "\<forall>q\<in>?R. pst (ssd s) q \<noteq> PG_FREE" "\<exists>q\<in>?R. pst (ssd s) q = PG_INVALID"
    using lines_okD(3) [OF ok vb] v by (simp_all add: line_ok_def)
  have fin: "finite ?R" "card ?R = pgs_per_line ?spp" using line_pages_finite [OF geo vb] line_pages_card [OF geo vb] by simp_all
  obtain q where q: "q \<in> ?R" "q \<notin> {q \<in> ?R. pst (ssd s) q = PG_VALID}" using pages(2) by auto
  then have "{q \<in> ?R. pst (ssd s) q = PG_VALID} \<subset> ?R" by blast
  from psubset_card_mono [OF fin(1) this] show lt: "todo v {} ?s < pgs_per_line ?spp" using fin(2) by (simp add: todo_def)
  have "lines_ok ?spp (pst (ssd s)) m [curline (wp s), curline (gc_wp s), v] {v}"
    using lines_ok_exempt [OF m(1), of "{v}"] by (simp add: lines_ok_rotate)
  then have "ftl_inv [v] {} {} ?s" using i by (simp add: ftl_inv_def)
  moreover have "pgs_per_line ?spp \<le> room ?s GC_IO" using free m(2) by (cases "free_line_list (lm s)") (simp_all add: room_def)
  ultimately have "gc_state v ?s {} ?s" using lt by (simp add: gc_state_def moved_def)
  then show "gc_loop v ?s [] ?s" using pages(1) by (simp add: gc_loop_def visited_def)
qed

lemma gc_finish:
  assumes L: "gc_loop v s2 (gc_visits (spp_of s2)) s3" and lt: "todo v {} s2 < pgs_per_line (spp_of s2)"
    and w2: "wp_in_range (spp_of s2) (gc_wp s2)"
  shows "conv_inv (mark_line_free s3 v)" "moved v s2 (mark_line_free s3 v)"
    "length (free_line_list (lm s2)) \<le> length (free_line_list (lm (mark_line_free s3 v)))"
    "v \<in> set (free_line_list (lm (mark_line_free s3 v)))" "spp_of (mark_line_free s3 v) = spp_of s2" "cp (mark_line_free s3 v) = cp s2"
    "wfc (mark_line_free s3 v) = wfc s2" "wp (mark_line_free s3 v) = wp s2"
    "room s2 GC_IO + pgs_per_line (spp_of s2) = room (mark_line_free s3 v) GC_IO + todo v {} s2" "\<forall>l p. maptbl s2 l = Some p \<and> g_blk p \<noteq> v \<longrightarrow> maptbl (mark_line_free s3 v) l = Some p"
proof -
  let ?spp = "spp_of s2" let ?V = "visited ?spp v (set (gc_visits ?spp))"
  have g: "gc_state v s2 ?V s3" using L by (simp add: gc_loop_def)
  then have inv: "ftl_inv [v] {} ?V s3" and sp: "spp_of s3 = ?spp" "cp s3 = cp s2" "wfc s3 = wfc s2" "wp s3 = wp s2" and mv: "moved v s2 s3" by (simp_all add: gc_state_def)
  have geo: "geometry ?spp" using ftl_inv_line(2) [OF inv] sp by simp
  have "in_range ?spp q \<Longrightarrow> (g_pg q div pgs_per_flashpg ?spp, g_ch q, g_lun q) \<in> set (gc_visits ?spp)"
    and "in_range ?spp q \<Longrightarrow> (flashpgs_per_blk ?spp - 1, g_ch q, g_lun q) \<in> set (gc_visits ?spp)" for q
  proof -
    assume q: "in_range ?spp q"
    have "g_pg q < flashpgs_per_blk ?spp * pgs_per_flashpg ?spp" using q geo by (simp add: in_range_def geometry_def mult.commute)
    then have f: "g_pg q div pgs_per_flashpg ?spp < flashpgs_per_blk ?spp" by (rule less_mult_imp_div_less)
    then show "(g_pg q div pgs_per_flashpg ?spp, g_ch q, g_lun q) \<in> set (gc_visits ?spp)" using q by (simp add: gc_visits_def in_range_def)
    show "(flashpgs_per_blk ?spp - 1, g_ch q, g_lun q) \<in> set (gc_visits ?spp)" using q f by (auto simp: gc_visits_def in_range_def)
  qed
  then have V: "?V = line_pages ?spp v" and free: "\<forall>q\<in>line_pages ?spp v. pst (ssd s3) q = PG_FREE"
    using L by (auto simp: visited_def line_pages_iff gc_loop_def)
  have i: "map_ok ?spp (pst (ssd s3)) (maptbl s3) (rmap s3) {} ?V" "lines_ok ?spp (pst (ssd s3)) (lm s3) [curline (wp s3), curline (gc_wp s3), v] {v}"
    using inv sp by (simp_all add: ftl_inv_def)
  have "map_ok ?spp (pst (ssd s3)) (maptbl s3) (rmap s3) {} {}"
    by (rule map_ok_status [OF i(1)]) (use V free in \<open>auto simp: line_pages_iff\<close>)
  moreover have "lines_ok ?spp (pst (ssd s3)) (lm (mark_line_free s3 v)) [curline (wp s3), curline (gc_wp s3)] {}"
    using mark_line_free_ok [of s3 "pst (ssd s3)" v "[curline (wp s3), curline (gc_wp s3)]" "{v}"] geo sp free i(2)
    by (simp add: lines_ok_rotate)
  ultimately show "conv_inv (mark_line_free s3 v)"
    using inv sp by (simp add: conv_inv_def ftl_inv_def mark_line_free_def Let_def)
  show "moved v s2 (mark_line_free s3 v)" using mv by (simp add: moved_def mark_line_free_def Let_def)
  show "v \<in> set (free_line_list (lm (mark_line_free s3 v)))" "spp_of (mark_line_free s3 v) = spp_of s2" "cp (mark_line_free s3 v) = cp s2"
    "wfc (mark_line_free s3 v) = wfc s2" "wp (mark_line_free s3 v) = wp s2" using sp by (simp_all add: mark_line_free_def Let_def)
  show "\<forall>l p. maptbl s2 l = Some p \<and> g_blk p \<noteq> v \<longrightarrow> maptbl (mark_line_free s3 v) l = Some p"
    using g V by (auto simp: gc_state_def mark_line_free_def Let_def line_pages_iff)
  have "{q \<in> line_pages ?spp v. pst (ssd s3) q = PG_VALID \<and> q \<notin> ?V} = {}" unfolding V by blast
  then have "todo v ?V s3 = 0" unfolding todo_def sp(1) by (simp only: card.empty)
  then have "room s2 GC_IO = room s3 GC_IO + todo v {} s2" using g unfolding gc_state_def by linarith
  moreover have "room (mark_line_free s3 v) GC_IO = room s3 GC_IO + pgs_per_line ?spp" using sp(1) by (simp add: room_def mark_line_free_def Let_def)
  ultimately show "room s2 GC_IO + pgs_per_line (spp_of s2) = room (mark_line_free s3 v) GC_IO + todo v {} s2" by simp
  from \<open>room s2 GC_IO = room s3 GC_IO + todo v {} s2\<close> have eq: "(pgs_per_line ?spp - 1 - wp_order ?spp (gc_wp s2)) + pgs_per_line ?spp * length (free_line_list (lm s2))
      = (pgs_per_line ?spp - 1 - wp_order ?spp (gc_wp s3)) + pgs_per_line ?spp * length (free_line_list (lm s3)) + todo v {} s2"
    by (simp only: room_def sp(1) get_wp.simps)
  have o2: "wp_order ?spp (gc_wp s2) < pgs_per_line ?spp" using w2 by (intro wr_order_less [OF geo]) (simp_all add: wp_in_range_def)
  have o3: "wp_order ?spp (gc_wp s3) < pgs_per_line ?spp"
    using inv sp by (intro wr_order_less [OF geo]) (simp_all add: ftl_inv_def wp_split_def wp_in_range_def)
  have "length (free_line_list (lm s2)) \<le> length (free_line_list (lm s3)) + 1" by (rule free_lines_kept [OF o2 o3 lt eq])
  then show "length (free_line_list (lm s2)) \<le> length (free_line_list (lm (mark_line_free s3 v)))" by (simp add: mark_line_free_def Let_def)
qed

definition gc_post :: "conv_ftl \<Rightarrow> conv_ftl \<Rightarrow> bool" where
  "gc_post s s' \<longleftrightarrow> conv_inv s' \<and> spp_of s' = spp_of s \<and> cp s' = cp s \<and> write_credits (wfc s') = write_credits (wfc s) \<and> wp s' = wp s
     \<and> length (free_line_list (lm s)) \<le> length (free_line_list (lm s'))
     \<and> (\<exists>v\<in>victims (lm s). v \<in> set (free_line_list (lm s')) \<and> moved v s s' \<and> credits_to_refill (wfc s') = word_of_int (ipc (lines (lm s) v))
          \<and> room s GC_IO + pgs_per_line (spp_of s) = room s' GC_IO + todo v {} s)"

lemma do_gc_ok:
  assumes inv: "conv_inv s" and free: "free_line_list (lm s) \<noteq> []"
  shows "(do_gc force (s, e) = Some ((s, e), False) \<and> (force \<longrightarrow> victims (lm s) = {}))
     \<or> (\<forall>s' e' b. do_gc force (s, e) = Some ((s', e'), b) \<longrightarrow> b \<and> gc_post s s') \<and> (\<not> enable_gc_delay (cp s) \<longrightarrow> do_gc force (s, e) \<noteq> None)"
proof -
  let ?spp = "spp_of s"
  have i: "ftl_inv [] {} {} s" using inv by (simp add: conv_inv_def)
  then have ok: "lines_ok ?spp (pst (ssd s)) (lm s) [curline (wp s), curline (gc_wp s)] {}" and fits: "fits_ppa ?spp"
    and w: "wp_in_range ?spp (gc_wp s)" by (simp_all add: ftl_inv_def params_ok_def wp_split_def)
  consider "select_victim_line s force = (s, None)" "force \<longrightarrow> victims (lm s) = {}"
    | v m where "select_victim_line s force = (s\<lparr>lm := m\<rparr>, Some v)" "v < blks_per_pl ?spp" "v \<in> victims (lm s)"
        "lines_ok ?spp (pst (ssd s)) m (v # [curline (wp s), curline (gc_wp s)]) {}" "free_line_list m = free_line_list (lm s)"
    using select_victim_ok [OF ok, of force] by blast
  then show ?thesis
  proof cases
    case 1
    then show ?thesis by (simp add: do_gc_def)
  next
    case 2
    let ?f = "(wfc s)\<lparr>credits_to_refill := word_of_int (ipc (lines m v))\<rparr>" let ?s = "s\<lparr>lm := m, wfc := ?f\<rparr>"
    have "lid (lines m v) = int v" using lines_okD(3) [OF 2(4,2)] by (simp add: line_ok_def)
    then have b: "nat (lid (lines m v)) mod 2 ^ BLK_BITS = v" using 2(2) fits by (simp add: fits_ppa_def)
    have start: "gc_loop v ?s [] ?s" "todo v {} ?s < pgs_per_line (spp_of ?s)" using gc_start [OF inv free 2(3,4,5)] by simp_all
    have e: "do_gc force (s, e) = Option.bind (foldM (gc_step v) (gc_visits (spp_of ?s)) (?s, e)) (\<lambda>(s3, env3). Some ((mark_line_free s3 v, env3), True))"
      unfolding do_gc_def prod.case 2(1) Let_def by (simp add: b)
    have r: "gc_res (enable_gc_delay (cp s)) (foldM (gc_step v) (gc_visits (spp_of ?s)) (?s, e)) (gc_loop v ?s (gc_visits (spp_of ?s)))"
      using gc_loop_ok [OF start(1)] by simp
    have post: "gc_post s (mark_line_free s3 v)" if "gc_loop v ?s (gc_visits (spp_of ?s)) s3" for s3
    proof -
      note fin = gc_finish [OF that start(2)]
      have "moved v s (mark_line_free s3 v)" using fin(2) w by (simp add: moved_def)
      moreover have "ipc (lines m v) = ipc (lines (lm s) v)" using lines_okD(3) [OF 2(4,2)] lines_okD(3) [OF ok 2(2)] by (simp add: line_ok_def)
      moreover have "room ?s GC_IO = room s GC_IO" "todo v {} ?s = todo v {} s" using 2(5) by (simp_all add: room_def todo_def)
      ultimately show ?thesis unfolding gc_post_def using fin w 2(3,5) by (intro conjI bexI [of _ v]) simp_all
    qed
    show ?thesis unfolding e using r post by (auto simp: gc_res_def split: Option.bind_splits)
  qed
qed

end
