(* ===== verification/Conv_Flow.thy ===== *)
theory Conv_Flow
  imports Conv_Gc
begin

text \<open>
  The start state of the conventional translation layer, its write flow control, and the properties of the
  component.
\<close>

section \<open>The start state\<close>

lemma init_pages:
  assumes "in_range spp p" "pls_per_lun spp = 1"
  shows "pst (ssd_init junk spp) p = PG_FREE" "blk_vpc (get_blk (ssd_init junk spp) p) = 0" "blk_ipc (get_blk (ssd_init junk spp) p) = 0"
    "npgs (get_blk (ssd_init junk spp) p) = pgs_per_blk spp" "i < pgs_per_blk spp \<Longrightarrow> nsecs (pg (get_blk (ssd_init junk spp) p) i) = secs_per_pg spp"
  using assms
  by (simp_all add: pst_def get_pg_def get_blk_def get_pl_def get_lun_def get_ch_def ssd_init_def ssd_init_ch_def Let_def in_range_def
      ssd_init_nand_lun_def ssd_init_nand_plane_def ssd_init_nand_blk_def ssd_init_nand_page_def)

lemma init_blks_ok:
  assumes "geometry spp"
  shows "blks_ok spp (ssd_init junk spp)"
proof -
  have one: "pls_per_lun spp = 1" using assms by (simp add: geometry_def)
  have "cnt (pst (ssd_init junk spp)) (blk_pages spp p) x = 0" if "in_range spp p" "x \<noteq> PG_FREE" for p x
    using that cnt_all(2) [OF blk_pages_finite [OF assms that(1)], of "pst (ssd_init junk spp)" x] init_pages(1) [OF _ one]
    by (simp add: in_blk_pages)
  then show ?thesis using init_pages(2-5) [OF _ one] by (simp add: blks_ok_def blk_ok_def Let_def)
qed

lemma empty_victim_pq:
  "victim_pq \<lparr>psize = Suc 0, avail = n, step = k, cmppri = victim_line_cmp_pri, getpri = victim_line_get_pri, setpri = victim_line_set_pri,
     getpos = victim_line_get_pos, setpos = victim_line_set_pos, d = mem\<rparr> ls \<longleftrightarrow> 1 \<le> n"
  by (simp add: victim_pq_def pq_uses_def pq_inv_def pq_placed_def pq_heap_def pq_slots_def)

lemma init_lines_ok:
  assumes geo: "geometry (spp_of s)" and free: "\<And>p. in_range (spp_of s) p \<Longrightarrow> st p = PG_FREE"
  shows "\<exists>m. init_lines mem s = Some (s\<lparr>lm := m\<rparr>) \<and> lines_ok (spp_of s) st m [] {} \<and> free_line_list m = [0..<blks_per_pl (spp_of s)]"
proof -
  let ?spp = "spp_of s" let ?n = "blks_per_pl ?spp"
  let ?m = "\<lparr>lines = (\<lambda>i. if i < ?n then \<lparr>lid = int i, ipc = 0, vpc = 0, pos = 0\<rparr> else lines (lm s) i),
             free_line_list = [0..<?n],
             victim_line_pq = pqueue_init True (Some mem) (tt_lines ?spp) victim_line_cmp_pri victim_line_get_pri victim_line_set_pri
               victim_line_get_pos victim_line_set_pos,
             full_line_list = [], lm_tt_lines = ?n, free_line_cnt = of_nat ?n, victim_line_cnt = 0, full_line_cnt = 0\<rparr>"
  have tt: "tt_lines ?spp = ?n" using geo by (simp add: geometry_def)
  have v: "victims ?m = {}" by (simp add: victims_def pqueue_init_def pq_elems_def pq_slots_def)
  have z: "cnt st (line_pages ?spp b) x = 0" if "b < ?n" "x \<noteq> PG_FREE" for b x
    using cnt_all(2) [OF line_pages_finite [OF geo that(1)], of st x] that(2) free by (auto simp: line_pages_iff)
  have "placed ?spp ?m []" using v by (auto simp: placed_def listed_def)
  moreover have "pq_ok ?spp ?m" using tt by (simp add: pq_ok_def pqueue_init_def empty_victim_pq)
  moreover have "line_ok ?spp st ?m {} b" if "b < ?n" for b
    using that v z [OF that] free by (auto simp: line_ok_def line_pages_iff)
  ultimately have "lines_ok ?spp st ?m [] {}" by (simp add: lines_ok_def)
  then show ?thesis using tt by (intro exI [of _ ?m]) (simp add: init_lines_def Let_def)
qed

lemma init_write_pointer_ok:
  assumes geo: "geometry (spp_of s)" and ok: "lines_ok (spp_of s) st (lm s) H {}" and ne: "free_line_list (lm s) = l # F"
  shows "\<exists>m. init_write_pointer s io = Some (set_wp io (s\<lparr>lm := m\<rparr>) \<lparr>curline = l, wp_ch = 0, wp_lun = 0, wp_pg = 0, wp_blk = l, wp_pl = 0\<rparr>)
     \<and> lines_ok (spp_of s) st m (l # H) {} \<and> free_line_list m = F
     \<and> wp_ok (spp_of s) st \<lparr>curline = l, wp_ch = 0, wp_lun = 0, wp_pg = 0, wp_blk = l, wp_pl = 0\<rparr>"
proof -
  obtain m where m: "get_next_free_line s = Some (s\<lparr>lm := m\<rparr>, l)" "lines_ok (spp_of s) st m (l # H) {}"
    "lid (lines m l) = int l" "l < blks_per_pl (spp_of s)" "\<forall>p\<in>line_pages (spp_of s) l. st p = PG_FREE" "free_line_list m = F"
    using take_free_line [OF ok ne] by blast
  moreover have "wp_ok (spp_of s) st \<lparr>curline = l, wp_ch = 0, wp_lun = 0, wp_pg = 0, wp_blk = l, wp_pl = 0\<rparr>"
    using geo m(4,5) by (simp add: wp_split_def wp_in_range_def geometry_def wr_order_def)
  ultimately show ?thesis by (intro exI [of _ m]) (simp add: init_write_pointer_def)
qed

lemma conv_init_ok:
  assumes ok: "params_ok spp" and two: "2 \<le> blks_per_pl spp"
  shows "\<exists>s. conv_init_ftl junk mem cpp (ssd_init dj spp) = Some s \<and> conv_inv s \<and> spp_of s = spp \<and> cp s = cpp
     \<and> (\<forall>l<tt_pgs spp. maptbl s l = None) \<and> length (free_line_list (lm s)) = blks_per_pl spp - 2
     \<and> wp_order spp (wp s) = 0 \<and> wp_order spp (gc_wp s) = 0
     \<and> wfc s = \<lparr>write_credits = of_nat (pgs_per_line spp), credits_to_refill = of_nat (pgs_per_line spp)\<rparr>"
proof -
  let ?dev = "ssd_init dj spp" let ?st = "pst (ssd_init dj spp)" let ?n = "blks_per_pl spp"
  have geo: "geometry spp" using ok params_okD by blast
  have sp: "sp ?dev = spp" by (simp add: ssd_init_def)
  have free: "?st p = PG_FREE" if "in_range spp p" for p using that geo init_pages(1) by (simp add: geometry_def)
  define s0 where "s0 = init_rmap (init_maptbl (junk\<lparr>cp := cpp, ssd := ?dev\<rparr>))"
  have s0: "ssd s0 = ?dev" "cp s0 = cpp" "\<forall>l<tt_pgs spp. maptbl s0 l = None" "spp_of s0 = spp"
    by (simp_all add: s0_def init_rmap_def init_maptbl_def sp)
  obtain m where m: "init_lines mem s0 = Some (s0\<lparr>lm := m\<rparr>)" "lines_ok spp ?st m [] {}" "free_line_list m = [0..<?n]"
    using init_lines_ok [of s0 ?st mem] geo free s0(4) by auto
  have n2: "[0..<?n] = 0 # 1 # [2..<?n]" using two upt_conv_Cons [of 0 ?n] upt_conv_Cons [of 1 ?n] by (simp add: numeral_2_eq_2)
  let ?w = "\<lambda>l. \<lparr>curline = l, wp_ch = 0, wp_lun = 0, wp_pg = 0, wp_blk = l, wp_pl = 0\<rparr> :: write_pointer"
  let ?s1 = "s0\<lparr>lm := m\<rparr>"
  obtain m1 where m1: "init_write_pointer ?s1 USER_IO = Some (set_wp USER_IO (?s1\<lparr>lm := m1\<rparr>) (?w 0))" "lines_ok spp ?st m1 [0] {}"
    "free_line_list m1 = 1 # [2..<?n]" "wp_ok spp ?st (?w 0)"
    using init_write_pointer_ok [of ?s1 ?st "[]" 0 "1 # [2..<?n]" USER_IO] geo m(2,3) n2 s0(4) by auto
  let ?s2 = "s0\<lparr>lm := m1, wp := ?w 0\<rparr>"
  obtain m2 where m2: "init_write_pointer ?s2 GC_IO = Some (set_wp GC_IO (?s2\<lparr>lm := m2\<rparr>) (?w 1))" "lines_ok spp ?st m2 [1, 0] {}"
    "free_line_list m2 = [2..<?n]" "wp_ok spp ?st (?w 1)"
    using init_write_pointer_ok [of ?s2 ?st "[0]" 1 "[2..<?n]" GC_IO] geo m1(2,3) s0(4) by auto
  let ?s = "init_write_flow_control (s0\<lparr>wp := ?w 0, lm := m2, gc_wp := ?w 1\<rparr>)"
  have "conv_init_ftl junk mem cpp ?dev = Some ?s" using m(1) m1(1) m2(1) by (simp add: conv_init_ftl_def s0_def [symmetric])
  moreover have "conv_inv ?s"
  proof -
    have "map_ok spp ?st (maptbl s0) (rmap s0) {} {}" using s0(3) free by (intro map_okI) auto
    moreover have "lines_ok spp ?st m2 [0, 1] {}" using m2(2) lines_ok_perm [of "[1, 0]" "[0, 1]" spp ?st m2 "{}"] by auto
    ultimately show ?thesis using ok init_blks_ok [OF geo] m1(4) m2(4) s0 by (simp add: conv_inv_def ftl_inv_def init_write_flow_control_def)
  qed
  ultimately show ?thesis using s0 m2(3) by (intro exI [of _ ?s]) (simp add: init_write_flow_control_def wr_order_def)
qed

section \<open>Flow control\<close>

text \<open>The free pages behind both write pointers, but for the last page of either current line.\<close>

definition total_room :: "conv_ftl \<Rightarrow> nat" where
  "total_room s = (let ppl = pgs_per_line (spp_of s) in
     (ppl - 1 - wp_order (spp_of s) (wp s)) + (ppl - 1 - wp_order (spp_of s) (gc_wp s)) + ppl * length (free_line_list (lm s)))"

definition mapped :: "conv_ftl \<Rightarrow> nat set" where
  "mapped s = {l. l < tt_pgs (spp_of s) \<and> maptbl s l \<noteq> None}"

text \<open>
  The invariant of the flow control when the host uses the first \<open>L\<close> logical pages: the host has
  a credit left, and all credits can be spent with two lines to spare.
\<close>

definition flow_inv :: "nat \<Rightarrow> conv_ftl \<Rightarrow> bool" where
  "flow_inv L s \<longleftrightarrow> conv_inv s \<and> mapped s \<subseteq> {..<L} \<and> L \<le> tt_pgs (spp_of s)
     \<and> L < (blks_per_pl (spp_of s) - 4) * pgs_per_line (spp_of s) \<and> gc_thres_lines_high (cp s) = 2
     \<and> 1 \<le> unat (write_credits (wfc s)) \<and> unat (write_credits (wfc s)) + 2 * pgs_per_line (spp_of s) \<le> total_room s
     \<and> 1 \<le> unat (credits_to_refill (wfc s)) \<and> unat (credits_to_refill (wfc s)) \<le> pgs_per_line (spp_of s)"

lemma conv_inv_parts:
  assumes "conv_inv s"
  shows "geometry (spp_of s)" "fits_ppa (spp_of s)" "pgs_per_line (spp_of s) < 2 ^ 31" "0 < pgs_per_line (spp_of s)"
    "lines_ok (spp_of s) (pst (ssd s)) (lm s) [curline (wp s), curline (gc_wp s)] {}"
    "map_ok (spp_of s) (pst (ssd s)) (maptbl s) (rmap s) {} {}"
    "wp_order (spp_of s) (wp s) < pgs_per_line (spp_of s)" "wp_order (spp_of s) (gc_wp s) < pgs_per_line (spp_of s)"
proof -
  show geo: "geometry (spp_of s)" and "fits_ppa (spp_of s)" "pgs_per_line (spp_of s) < 2 ^ 31"
    "lines_ok (spp_of s) (pst (ssd s)) (lm s) [curline (wp s), curline (gc_wp s)] {}"
    "map_ok (spp_of s) (pst (ssd s)) (maptbl s) (rmap s) {} {}" using assms by (simp_all add: conv_inv_def ftl_inv_def params_ok_def)
  have "wp_in_range (spp_of s) (wp s)" "wp_in_range (spp_of s) (gc_wp s)" using assms by (simp_all add: conv_inv_def ftl_inv_def wp_split_def)
  then show a: "wp_order (spp_of s) (wp s) < pgs_per_line (spp_of s)" "wp_order (spp_of s) (gc_wp s) < pgs_per_line (spp_of s)"
    by (intro wr_order_less [OF geo]; simp add: wp_in_range_def)+
  then show "0 < pgs_per_line (spp_of s)" by simp
qed

lemma total_room_rooms:
  assumes "conv_inv s"
  shows "total_room s = room s USER_IO + (pgs_per_line (spp_of s) - 1 - wp_order (spp_of s) (gc_wp s))"
    "total_room s = room s GC_IO + (pgs_per_line (spp_of s) - 1 - wp_order (spp_of s) (wp s))"
  by (simp_all add: total_room_def room_def Let_def)

text \<open>With two spare lines there is a free line, and the host can write.\<close>

lemma spare_lines:
  assumes inv: "conv_inv s" and T: "2 * pgs_per_line (spp_of s) \<le> total_room s"
  shows "free_line_list (lm s) \<noteq> []" "0 < room s USER_IO"
proof -
  note p = conv_inv_parts [OF inv]
  show "free_line_list (lm s) \<noteq> []"
  proof
    assume "free_line_list (lm s) = []"
    then have "total_room s \<le> 2 * (pgs_per_line (spp_of s) - 1)" by (simp add: total_room_def Let_def)
    then show False using T p(4) by linarith
  qed
  then show "0 < room s USER_IO" using p(4) by (simp add: room_def)
qed

text \<open>When nothing can be collected and at most two lines are free, nearly every page holds data.\<close>

lemma victim_exists:
  assumes inv: "conv_inv s" and few: "length (free_line_list (lm s)) \<le> 2" and none: "victims (lm s) = {}"
  shows "(blks_per_pl (spp_of s) - 4) * pgs_per_line (spp_of s) \<le> card (mapped s)"
proof -
  let ?spp = "spp_of s" let ?U = "full_line_list (lm s)"
  note p = conv_inv_parts [OF inv]
  have pl: "placed ?spp (lm s) [curline (wp s), curline (gc_wp s)]" by (rule lines_okD(2) [OF p(5)])
  let ?H = "[curline (wp s), curline (gc_wp s)]"
  have "set (listed (lm s) ?H) = {..<blks_per_pl ?spp}" "distinct (listed (lm s) ?H)" using pl none by (auto simp: placed_def)
  then have "length (listed (lm s) ?H) = blks_per_pl ?spp" using distinct_card [of "listed (lm s) ?H"] by simp
  then have len: "blks_per_pl ?spp - 4 \<le> length ?U" using few by (simp add: listed_def)
  have dU: "distinct ?U" "set ?U \<subseteq> {..<blks_per_pl ?spp}" using pl by (auto simp: placed_def listed_def)
  let ?P = "\<Union>b\<in>set ?U. line_pages ?spp b"
  have "card ?P = (\<Sum>b\<in>set ?U. card (line_pages ?spp b))"
    using dU(2) line_pages_finite [OF p(1)] by (intro card_UN_disjoint) (auto simp: line_pages_iff)
  also have "\<dots> = (\<Sum>b\<in>set ?U. pgs_per_line ?spp)" using dU(2) line_pages_card [OF p(1)] by (intro sum.cong) auto
  also have "\<dots> = length ?U * pgs_per_line ?spp" using distinct_card [OF dU(1)] by simp
  finally have cP: "card ?P = length ?U * pgs_per_line ?spp" .
  let ?f = "\<lambda>q. THE l. l < tt_pgs ?spp \<and> maptbl s l = Some q"
  have f: "?f q \<in> mapped s \<and> maptbl s (?f q) = Some q" if q: "q \<in> ?P" for q
  proof -
    from q obtain b where b: "b \<in> set ?U" "q \<in> line_pages ?spp b" by blast
    have "b < blks_per_pl ?spp" using b(1) dU(2) by auto
    then have "line_ok ?spp (pst (ssd s)) (lm s) {} b" by (rule lines_okD(3) [OF p(5)])
    then have "\<forall>q\<in>line_pages ?spp b. pst (ssd s) q = PG_VALID" using b(1) unfolding line_ok_def by blast
    then have "pst (ssd s) q = PG_VALID" "in_range ?spp q" using b(2) by (simp_all add: line_pages_iff)
    then obtain l where l: "l < tt_pgs ?spp" "maptbl s l = Some q" using map_okD(2) [OF p(6)] by blast
    have rm: "rmap s (pgidx ?spp q) = Some k" if "k < tt_pgs ?spp" "maptbl s k = Some q" for k
      using map_okD(1) [OF p(6) that(1) _ that(2)] by simp
    have "k = l" if "k < tt_pgs ?spp" "maptbl s k = Some q" for k using rm [OF that] unfolding rm [OF l] by (simp only: option.inject)
    then have "?f q = l" using l by (intro the_equality conjI) blast+
    then show ?thesis using l by (simp add: mapped_def)
  qed
  have "inj_on ?f ?P"
  proof (rule inj_onI)
    fix x y assume x: "x \<in> ?P" and y: "y \<in> ?P" and e: "?f x = ?f y"
    have "maptbl s (?f y) = Some x" using f [OF x] unfolding e by (rule conjunct2)
    moreover have "maptbl s (?f y) = Some y" using f [OF y] by (rule conjunct2)
    ultimately show "x = y" by (simp only: option.inject)
  qed
  moreover have "?f ` ?P \<subseteq> mapped s" using f by blast
  moreover have "finite (mapped s)" by (simp add: mapped_def)
  ultimately have "card ?P \<le> card (mapped s)" by (rule card_inj_on_le)
  moreover have "(blks_per_pl ?spp - 4) * pgs_per_line ?spp \<le> card ?P" unfolding cP by (rule mult_le_mono1 [OF len])
  ultimately show ?thesis by (rule order_trans [rotated])
qed

text \<open>As \<open>flow_inv\<close>, but the last credit may have been spent.\<close>

definition flow_due :: "nat \<Rightarrow> conv_ftl \<Rightarrow> bool" where
  "flow_due L s \<longleftrightarrow> conv_inv s \<and> mapped s \<subseteq> {..<L} \<and> L \<le> tt_pgs (spp_of s)
     \<and> L < (blks_per_pl (spp_of s) - 4) * pgs_per_line (spp_of s) \<and> gc_thres_lines_high (cp s) = 2
     \<and> unat (write_credits (wfc s)) + 2 * pgs_per_line (spp_of s) \<le> total_room s
     \<and> 1 \<le> unat (credits_to_refill (wfc s)) \<and> unat (credits_to_refill (wfc s)) \<le> pgs_per_line (spp_of s)"

lemma flow_inv_due: "flow_inv L s \<longleftrightarrow> flow_due L s \<and> 1 \<le> unat (write_credits (wfc s))"
  by (auto simp: flow_inv_def flow_due_def)

lemma moved_mapped: "moved v s s' \<Longrightarrow> spp_of s' = spp_of s \<Longrightarrow> mapped s' = mapped s"
  unfolding moved_def mapped_def by (auto, metis option.distinct(1), metis option.distinct(1))

lemma should_gc_high_iff:
  assumes "conv_inv s" "gc_thres_lines_high (cp s) = 2"
  shows "should_gc_high s \<longleftrightarrow> length (free_line_list (lm s)) \<le> 2"
proof -
  note p = conv_inv_parts [OF assms(1)]
  let ?F = "free_line_list (lm s)"
  have pl: "placed (spp_of s) (lm s) [curline (wp s), curline (gc_wp s)]" by (rule lines_okD(2) [OF p(5)])
  then have "distinct ?F" "set ?F \<subseteq> {..<blks_per_pl (spp_of s)}" by (auto simp: placed_def listed_def)
  then have "length ?F \<le> blks_per_pl (spp_of s)" using distinct_card [of ?F] card_mono [of "{..<blks_per_pl (spp_of s)}" "set ?F"] by simp
  also have "\<dots> \<le> 2 ^ 16" using p(2) by (simp add: fits_ppa_def BLK_BITS_def)
  finally have "length ?F < 2 ^ 32" by simp
  then have "unat (of_nat (length ?F) :: u32) = length ?F" by (simp add: unsigned_of_nat take_bit_nat_eq_self_iff)
  moreover have "free_line_cnt (lm s) = of_nat (length ?F)" using pl by (simp add: placed_def)
  ultimately show ?thesis using assms(2) by (simp add: should_gc_high_def word_le_nat_alt)
qed

lemma victim_counts:
  assumes inv: "conv_inv s" and v: "v \<in> victims (lm s)"
  shows "int (todo v {} s) + ipc (lines (lm s) v) = int (pgs_per_line (spp_of s))" "0 < ipc (lines (lm s) v)"
proof -
  let ?spp = "spp_of s" let ?st = "pst (ssd s)" let ?R = "line_pages ?spp v"
  note p = conv_inv_parts [OF inv]
  have vb: "v < blks_per_pl ?spp" using v lines_okD(2) [OF p(5)] by (auto simp: placed_def)
  have lo: "line_ok ?spp ?st (lm s) {} v" by (rule lines_okD(3) [OF p(5) vb])
  then have ip: "ipc (lines (lm s) v) = cnt ?st ?R PG_INVALID" and nf: "\<forall>q\<in>?R. ?st q \<noteq> PG_FREE" and ex: "\<exists>q\<in>?R. ?st q = PG_INVALID"
    using v unfolding line_ok_def by blast+
  have fin: "finite ?R" "card ?R = pgs_per_line ?spp" using line_pages_finite [OF p(1) vb] line_pages_card [OF p(1) vb] by simp_all
  have "?R = {q \<in> ?R. ?st q = PG_VALID} \<union> {q \<in> ?R. ?st q = PG_INVALID}"
  proof (intro subset_antisym subsetI)
    fix q assume "q \<in> ?R"
    then show "q \<in> {q \<in> ?R. ?st q = PG_VALID} \<union> {q \<in> ?R. ?st q = PG_INVALID}" using nf by (cases "?st q") auto
  qed auto
  then have "card ?R = card {q \<in> ?R. ?st q = PG_VALID} + card {q \<in> ?R. ?st q = PG_INVALID}"
    using fin(1) card_Un_disjoint [of "{q \<in> ?R. ?st q = PG_VALID}" "{q \<in> ?R. ?st q = PG_INVALID}"] by fastforce
  moreover have "todo v {} s = card {q \<in> ?R. ?st q = PG_VALID}" by (simp add: todo_def)
  ultimately show "int (todo v {} s) + ipc (lines (lm s) v) = int (pgs_per_line ?spp)" using fin(2) by (simp add: ip cnt_def)
  from ex obtain q where "q \<in> ?R" "?st q = PG_INVALID" by blast
  then show "0 < ipc (lines (lm s) v)" unfolding ip using cnt_bounds(3) [OF fin(1), of q ?st] by simp
qed

text \<open>What \<open>check_and_refill_write_credit\<close> does to the credits.\<close>

definition refilled :: "conv_ftl \<Rightarrow> conv_ftl" where
  "refilled s = s\<lparr>wfc := (wfc s)\<lparr>write_credits := write_credits (wfc s) + credits_to_refill (wfc s)\<rparr>\<rparr>"

lemma refilled_fields [simp]:
  "conv_inv (refilled s) = conv_inv s" "total_room (refilled s) = total_room s" "mapped (refilled s) = mapped s"
  "ssd (refilled s) = ssd s" "cp (refilled s) = cp s" "credits_to_refill (wfc (refilled s)) = credits_to_refill (wfc s)"
  "write_credits (wfc (refilled s)) = write_credits (wfc s) + credits_to_refill (wfc s)"
  by (simp_all add: refilled_def conv_inv_def ftl_inv_def total_room_def mapped_def)

lemma check_and_refill_refilled:
  "check_and_refill_write_credit (s, e) =
     (if write_credits (wfc s) = 0 then Option.bind (forground_gc (s, e)) (\<lambda>(s', e'). Some (refilled s', e')) else Some (s, e))"
  by (simp add: check_and_refill_write_credit_def refilled_def)

lemma refill_after_gc:
  assumes due: "flow_due L s" and zero: "write_credits (wfc s) = 0" and post: "gc_post s s'"
  shows "flow_inv L (refilled s') \<and> mapped (refilled s') = mapped s \<and> spp_of (refilled s') = spp_of s"
proof -
  let ?ppl = "pgs_per_line (spp_of s)"
  have inv: "conv_inv s" using due by (simp add: flow_due_def)
  obtain v where v: "v \<in> victims (lm s)" "moved v s s'" "credits_to_refill (wfc s') = word_of_int (ipc (lines (lm s) v))"
    "room s GC_IO + ?ppl = room s' GC_IO + todo v {} s" using post by (auto simp: gc_post_def)
  have p: "conv_inv s'" "spp_of s' = spp_of s" "cp s' = cp s" "write_credits (wfc s') = 0" "wp s' = wp s" using post zero by (simp_all add: gc_post_def)
  define i where "i = nat (ipc (lines (lm s) v))"
  have i: "ipc (lines (lm s) v) = int i" "0 < i" "todo v {} s + i = ?ppl" using victim_counts [OF inv v(1)] by (auto simp: i_def)
  have "i < 2 ^ 32" using i(3) conv_inv_parts(3) [OF inv] by simp
  then have r: "unat (credits_to_refill (wfc s')) = i" unfolding v(3) i(1) by (simp add: unsigned_of_nat take_bit_nat_eq_self_iff)
  have tr: "total_room s' = total_room s + i" using total_room_rooms(2) [OF inv] total_room_rooms(2) [OF p(1)] p(2,5) v(4) i(3) by simp
  have m: "mapped s' = mapped s" by (rule moved_mapped [OF v(2) p(2)])
  have "flow_inv L (refilled s')" unfolding flow_inv_def refilled_fields p(2-4) tr m
    using due p(1) r i(2,3) zero by (simp add: flow_due_def)
  then show ?thesis using m p(2) by simp
qed

lemma flow_due_gc:
  assumes due: "flow_due L s" and few: "should_gc_high s"
  shows "\<forall>s' e' b. do_gc True (s, e) = Some ((s', e'), b) \<longrightarrow> gc_post s s'" "\<not> enable_gc_delay (cp s) \<longrightarrow> do_gc True (s, e) \<noteq> None"
proof -
  have inv: "conv_inv s" and thr: "gc_thres_lines_high (cp s) = 2" using due by (simp_all add: flow_due_def)
  have len: "length (free_line_list (lm s)) \<le> 2" using few should_gc_high_iff [OF inv thr] by simp
  have "2 * pgs_per_line (spp_of s) \<le> total_room s" using due by (simp add: flow_due_def)
  then have free: "free_line_list (lm s) \<noteq> []" by (rule spare_lines [OF inv])
  have "card (mapped s) \<le> L" using due card_mono [of "{..<L}" "mapped s"] by (simp add: flow_due_def)
  then have "victims (lm s) \<noteq> {}" using victim_exists [OF inv len] due by (auto simp: flow_due_def)
  then show "\<forall>s' e' b. do_gc True (s, e) = Some ((s', e'), b) \<longrightarrow> gc_post s s'" "\<not> enable_gc_delay (cp s) \<longrightarrow> do_gc True (s, e) \<noteq> None"
    using do_gc_ok [OF inv free, of True e] by blast+
qed

lemma check_and_refill_ok:
  assumes due: "flow_due L s"
  shows "gc_res (enable_gc_delay (cp s)) (check_and_refill_write_credit (s, e)) (\<lambda>t. flow_inv L t \<and> mapped t = mapped s \<and> spp_of t = spp_of s)"
    (is "gc_res ?g _ ?Q")
proof (cases "write_credits (wfc s) = 0")
  case False
  then have "1 \<le> unat (write_credits (wfc s))" by (simp add: unat_gt_0 Suc_le_eq)
  then show ?thesis using due False by (simp add: check_and_refill_refilled flow_inv_due)
next
  case True
  have inv: "conv_inv s" and thr: "gc_thres_lines_high (cp s) = 2" using due by (simp_all add: flow_due_def)
  have "gc_res ?g (forground_gc (s, e)) (\<lambda>t. ?Q (refilled t))"
  proof (cases "should_gc_high s")
    case few: True
    have fg: "forground_gc (s, e) = Option.bind (do_gc True (s, e)) (\<lambda>(st, _). Some st)" using few by (simp add: forground_gc_def)
    show ?thesis unfolding gc_res_def fg
    proof (rule conjI; intro allI impI)
      fix t e' assume "Option.bind (do_gc True (s, e)) (\<lambda>(st, _). Some st) = Some (t, e')"
      then obtain b where "do_gc True (s, e) = Some ((t, e'), b)" by (auto split: Option.bind_splits)
      then show "?Q (refilled t)" using refill_after_gc [OF due True] flow_due_gc(1) [OF due few] by blast
    next
      assume "\<not> ?g"
      then show "Option.bind (do_gc True (s, e)) (\<lambda>(st, _). Some st) \<noteq> None" using flow_due_gc(2) [OF due few, of e] by (auto split: Option.bind_splits)
    qed
  next
    case False
    then have len: "3 \<le> length (free_line_list (lm s))" using should_gc_high_iff [OF inv thr] by simp
    then have "pgs_per_line (spp_of s) * 3 \<le> total_room s" unfolding total_room_def Let_def by (meson mult_le_mono2 trans_le_add2)
    then have "flow_inv L (refilled s)" unfolding flow_inv_def refilled_fields using due True by (simp add: flow_due_def)
    then show ?thesis using False by (simp add: forground_gc_def)
  qed
  then have "gc_res ?g (Option.bind (forground_gc (s, e)) (\<lambda>(s', e'). Some (refilled s', e'))) ?Q" by (rule gc_res_bind) simp
  then show ?thesis using True by (simp add: check_and_refill_refilled)
qed

lemma write_flow:
  assumes flow: "flow_inv L s" and lpn: "lpn < L"
  shows "\<exists>s' p. write_lpn s lpn = Some (s', p) \<and> flow_due L (consume_write_credit s') \<and> maptbl s' = (maptbl s)(lpn := Some p)
     \<and> in_range (spp_of s) p \<and> pst (ssd s) p = PG_FREE \<and> cp s' = cp s \<and> spp_of s' = spp_of s"
proof -
  have inv: "conv_inv s" and l: "lpn < tt_pgs (spp_of s)" using flow lpn by (auto simp: flow_inv_def)
  have T: "1 + 2 * pgs_per_line (spp_of s) \<le> total_room s" using flow by (simp add: flow_inv_def)
  have room: "0 < room s USER_IO" using T by (intro spare_lines(2) [OF inv]) simp
  obtain s' p where w: "write_lpn s lpn = Some (s', p)" "conv_inv s'" "maptbl s' = (maptbl s)(lpn := Some p)" "in_range (spp_of s) p"
    "pst (ssd s) p = PG_FREE" "room s' USER_IO = room s USER_IO - 1" "spp_of s' = spp_of s" "cp s' = cp s" "wfc s' = wfc s" "gc_wp s' = gc_wp s"
    using write_lpn_ok [OF inv l room] by blast
  have tr: "total_room s' = total_room s - 1"
    using total_room_rooms(1) [OF inv] total_room_rooms(1) [OF w(2)] w(6,7,10) room by simp
  have c: "unat (write_credits (wfc s) - 1) = unat (write_credits (wfc s)) - 1"
    using flow by (intro unat_minus_one) (auto simp: flow_inv_def)
  have m: "mapped s' \<subseteq> {..<L}" using flow lpn w(3,7) by (auto simp: flow_inv_def mapped_def split: if_splits)
  have f: "conv_inv (consume_write_credit s') = conv_inv s'" "total_room (consume_write_credit s') = total_room s'"
    "mapped (consume_write_credit s') = mapped s'" "spp_of (consume_write_credit s') = spp_of s'" "cp (consume_write_credit s') = cp s'"
    "wfc (consume_write_credit s') = (wfc s')\<lparr>write_credits := write_credits (wfc s') - 1\<rparr>"
    by (simp_all add: consume_write_credit_def conv_inv_def ftl_inv_def total_room_def mapped_def)
  have u: "unat (write_credits (wfc s)) + 2 * pgs_per_line (spp_of s) \<le> total_room s" "1 \<le> unat (write_credits (wfc s))"
    using flow by (simp_all add: flow_inv_def)
  have "unat (write_credits (wfc s) - 1) + 2 * pgs_per_line (spp_of s) \<le> total_room s'" unfolding c tr using u by linarith
  then have "flow_due L (consume_write_credit s')" using flow w(2) m unfolding flow_due_def f w(7,8,9) by (simp add: flow_inv_def)
  then show ?thesis using w by blast
qed

section \<open>A fresh partition\<close>

lemma init_flow_inv:
  assumes ok: "params_ok spp" and L: "L \<le> tt_pgs spp" "L < (blks_per_pl spp - 4) * pgs_per_line spp"
  shows "\<exists>s. conv_init_ftl junk mem conv_init_params (ssd_init dj spp) = Some s \<and> flow_inv L s \<and> spp_of s = spp \<and> mapped s = {}
     \<and> wp_order spp (wp s) = 0 \<and> write_credits (wfc s) = of_nat (pgs_per_line spp)"
proof -
  have b: "5 \<le> blks_per_pl spp" using L(2) by (cases "blks_per_pl spp \<le> 4") auto
  then obtain s where s: "conv_init_ftl junk mem conv_init_params (ssd_init dj spp) = Some s" "conv_inv s" "spp_of s = spp" "cp s = conv_init_params"
    "\<forall>l<tt_pgs spp. maptbl s l = None" "length (free_line_list (lm s)) = blks_per_pl spp - 2" "wp_order spp (wp s) = 0" "wp_order spp (gc_wp s) = 0"
    "wfc s = \<lparr>write_credits = of_nat (pgs_per_line spp), credits_to_refill = of_nat (pgs_per_line spp)\<rparr>"
    using conv_init_ok [OF ok, of junk mem conv_init_params dj] by auto
  have m: "mapped s = {}" using s(3,5) by (auto simp: mapped_def)
  have p: "0 < pgs_per_line spp" "pgs_per_line spp < 2 ^ 31" using conv_inv_parts(3,4) [OF s(2)] s(3) by simp_all
  then have u: "unat (of_nat (pgs_per_line spp) :: u32) = pgs_per_line spp" by (simp add: unsigned_of_nat take_bit_nat_eq_self_iff)
  have "pgs_per_line spp * 3 \<le> pgs_per_line spp * (blks_per_pl spp - 2)" using b by (intro mult_le_mono2) simp
  then have "pgs_per_line spp + 2 * pgs_per_line spp \<le> total_room s" unfolding total_room_def Let_def s(3,6) by linarith
  then have "flow_inv L s" unfolding flow_inv_def s(3,4,9) using s(2) m L p(1) u by (simp add: conv_init_params_def)
  then show ?thesis using s(1,3,7,9) m by simp
qed

text \<open>The parameters of a 64 GiB device of the 970 PRO profile, with four partitions.\<close>

definition spp_64G :: ssdparams where
  "spp_64G = the (ssd_init_params samsung_970pro (2 ^ 36) 4)"

lemma spp_64G:
  "ssd_init_params samsung_970pro (unat (2 ^ 36 :: u64)) 4 = Some spp_64G" "params_ok spp_64G" "secs_per_pg spp_64G = 8" "tt_pgs spp_64G = 4194304"
  "blks_per_pl spp_64G = 8192" "pgs_per_line spp_64G = 512" "pgs_per_oneshotpg spp_64G = 8" "nchs spp_64G = 2" "luns_per_ch spp_64G = 2" "write_buffer_size spp_64G = 1048576"
proof -
  have p: "ssd_init_params samsung_970pro (2 ^ 36) 4 = Some (params_970 2 (2 ^ 34))" using init_params_970 [of 4 "2 ^ 36"] by simp
  then have i: "ssd_init_params samsung_970pro (2 ^ 36) 4 = Some spp_64G" by (simp add: spp_64G_def)
  then show "ssd_init_params samsung_970pro (unat (2 ^ 36 :: u64)) 4 = Some spp_64G" by simp
  have s: "spp_64G = params_970 2 (2 ^ 34)" using p i by simp
  note c = s params_970_def set_params_def samsung_970pro_def Let_def div_round_up_def
  show f: "secs_per_pg spp_64G = 8" "tt_pgs spp_64G = 4194304"
    "blks_per_pl spp_64G = 8192" "pgs_per_line spp_64G = 512" "pgs_per_oneshotpg spp_64G = 8" "nchs spp_64G = 2" "luns_per_ch spp_64G = 2" "write_buffer_size spp_64G = 1048576"
    by (simp_all add: c)
  have "pgs_per_blk spp_64G = 128" by (simp add: c)
  then have "fits_ppa spp_64G" using f by (simp add: fits_ppa_def ppa_bits)
  moreover have "geometry spp_64G" by (simp add: c geometry_def)
  ultimately show "params_ok spp_64G" using f by (simp add: params_ok_def)
qed

lemma fresh_64G:
  "\<exists>s. conv_init_ftl junk mem conv_init_params (ssd_init dj spp_64G) = Some s \<and> flow_inv 3919909 s \<and> conv_inv s \<and> spp_of s = spp_64G \<and> mapped s = {}
     \<and> 0 < room s USER_IO \<and> free_line_list (lm s) \<noteq> [] \<and> \<not> tt_pgs (spp_of s) \<le> 7"
proof -
  have L: "3919909 \<le> tt_pgs spp_64G" "3919909 < (blks_per_pl spp_64G - 4) * pgs_per_line spp_64G" by (simp_all add: spp_64G)
  obtain s where s: "conv_init_ftl junk mem conv_init_params (ssd_init dj spp_64G) = Some s" "flow_inv 3919909 s" "spp_of s = spp_64G" "mapped s = {}"
    using init_flow_inv [OF spp_64G(2) L] by blast
  have c: "conv_inv s" using s(2) by (simp add: flow_inv_def)
  have "0 < room s USER_IO" "free_line_list (lm s) \<noteq> []" using s(2) by (intro spare_lines [OF c]; simp add: flow_inv_def)+
  then show ?thesis using s c by (auto simp: spp_64G)
qed

end
