(* ===== verification/Nvme.thy ===== *)
theory Nvme
  imports Ssd
begin

text \<open>
  Commands, requests and results as the namespaces see them (\<open>nvme.h\<close>, \<open>nvme_csd.h\<close>, \<open>nvme_zns.h\<close>,
  \<open>nvmev.h\<close>). A command is a union; the record has the fields that the handlers read, each meant for its
  own commands.
\<close>

section \<open>Data\<close>

datatype nvmev_io_status = NVMEV_IO_STATUS_SUCCESS | NVMEV_IO_STATUS_DEFERRED | NVMEV_IO_STATUS_ERROR

text \<open>The fields of the command union that the handlers read.\<close>

record nvme_command =
  opcode :: u8
  slba :: u64
  rw_length :: u16
  rw_control :: u16
  sb :: u64
  memory_length :: u32
  memory_cdw13 :: u32
  memory_copy_length :: u64
  copy_format :: u16
  copy_control_flag :: u32
  zsa :: u8
  select_all :: bool
  zsaso :: bool
  nr_dw :: u32
  zra :: u8
  zra_specific_field :: u8
  zra_specific_features :: bool

text \<open>\<open>memset(&cmd, 0, sizeof cmd)\<close>.\<close>

definition zero_command :: nvme_command where
  "zero_command = \<lparr>opcode = 0, slba = 0, rw_length = 0, rw_control = 0, sb = 0, memory_length = 0, memory_cdw13 = 0, memory_copy_length = 0, copy_format = 0, copy_control_flag = 0,
     zsa = 0, select_all = False, zsaso = False, nr_dw = 0, zra = 0, zra_specific_field = 0, zra_specific_features = False\<rparr>"

record nvmev_request =
  cmd :: nvme_command
  sq_id :: u32
  nsecs_start :: u64

record nvmev_result =
  res_status :: u32
  nsecs_nand_start :: u64
  nsecs_target :: u64

record writeback =
  wb_sqid :: u32
  wb_nsecs_target :: u64
  buffs_to_release :: u32

section \<open>Codes\<close>

definition NVME_SC_SUCCESS :: u32 where "NVME_SC_SUCCESS = 0"
definition NVME_SC_INVALID_FIELD :: u32 where "NVME_SC_INVALID_FIELD = 2"
definition NVME_SC_DATA_XFER_ERROR :: u32 where "NVME_SC_DATA_XFER_ERROR = 4"
definition NVME_RW_FUA :: u16 where "NVME_RW_FUA = 2 ^ 14"

definition nvme_cmd_flush :: u8 where "nvme_cmd_flush = 0"
definition nvme_cmd_write :: u8 where "nvme_cmd_write = 1"
definition nvme_cmd_read :: u8 where "nvme_cmd_read = 2"
definition nvme_cmd_memory_read :: u8 where "nvme_cmd_memory_read = 0x32"
definition nvme_cmd_memory_write :: u8 where "nvme_cmd_memory_write = 0x35"
definition nvme_cmd_memory_management :: u8 where "nvme_cmd_memory_management = 0x37"
definition nvme_cmd_memory_copy :: u8 where "nvme_cmd_memory_copy = 0x3d"
definition nvme_cmd_execute_program :: u8 where "nvme_cmd_execute_program = 0x41"
definition nvme_cmd_compound_execute_program :: u8 where "nvme_cmd_compound_execute_program = 0x43"
definition nvme_test :: u8 where "nvme_test = 0x46"
definition nvme_cmd_namespace_copy :: u8 where "nvme_cmd_namespace_copy = 0x49"

definition nvme_cmd_zone_mgmt_send :: u8 where "nvme_cmd_zone_mgmt_send = 0x79"
definition nvme_cmd_zone_mgmt_recv :: u8 where "nvme_cmd_zone_mgmt_recv = 0x7a"

lemmas opcode_defs = nvme_cmd_flush_def nvme_cmd_write_def nvme_cmd_read_def nvme_cmd_memory_read_def
  nvme_cmd_memory_write_def nvme_test_def nvme_cmd_namespace_copy_def
  nvme_cmd_memory_management_def nvme_cmd_memory_copy_def nvme_cmd_execute_program_def nvme_cmd_compound_execute_program_def
  nvme_cmd_zone_mgmt_send_def nvme_cmd_zone_mgmt_recv_def

definition nr_lba :: "nvme_command \<Rightarrow> u64" where
  "nr_lba c = ucast (rw_length c) + 1"

end
