(* ===== verification/Conv_Io.thy ===== *)
theory Conv_Io
  imports Conv_Flow Nvme
begin

text \<open>
  The command level of the conventional SSD, \<open>conv_ftl.c\<close>: a namespace is an array of partitions that share
  the PCIe link and the write buffer; logical page \<open>lpn\<close> belongs to partition \<open>lpn mod nr_parts\<close>. A
  handler takes the namespace, the request and the result structure and gives the new namespace, the result
  and the status of the call. \<open>enqueue_writeback_io_req\<close> of \<open>io.c\<close> is recorded as the sequence of its
  calls.
\<close>

unbundle bit_operations_syntax

section \<open>Data\<close>

record conv_ns =
  nr_parts :: nat
  ftls :: "nat \<Rightarrow> conv_ftl"
  env :: ssd_env
  writebacks :: "writeback list"
  ns_size :: u64

text \<open>\<open>spp\<close> of every handler: the parameters of partition 0, which all partitions share.\<close>

abbreviation ns_spp :: "conv_ns \<Rightarrow> ssdparams" where
  "ns_spp ns \<equiv> spp_of (ftls ns 0)"

definition start_lpn :: "ssdparams \<Rightarrow> nvme_command \<Rightarrow> nat" where
  "start_lpn spp c = unat (slba c) div secs_per_pg spp"

definition end_lpn :: "ssdparams \<Rightarrow> nvme_command \<Rightarrow> nat" where
  "end_lpn spp c = unat (slba c + nr_lba c - 1) div secs_per_pg spp"

text \<open>Requests the device makes itself carry the queue number \<open>0xFFFFFFFF\<close>.\<close>

definition from_host :: "nvmev_request \<Rightarrow> bool" where
  "from_host req \<longleftrightarrow> sq_id req \<noteq> 0xFFFFFFFF"

section \<open>Initialisation\<close>

text \<open>
  \<open>junk\<close>, \<open>mem\<close>, \<open>dj\<close> and \<open>pj\<close> are the contents of fresh memory; the profile is the one compiled in.
\<close>

definition conv_init_namespace ::
  "ssd_config \<Rightarrow> nat \<Rightarrow> (nat \<Rightarrow> conv_ftl) \<Rightarrow> (nat \<Rightarrow> nat) \<Rightarrow> (nat \<Rightarrow> nat \<Rightarrow> ssd_channel) \<Rightarrow> (nat \<Rightarrow> u8) \<Rightarrow> (nat \<Rightarrow> u64) \<Rightarrow> u64 \<Rightarrow> conv_ns option" where
  "conv_init_namespace c parts junk mem dj pj clk sz =
     do {
       spp \<leftarrow> ssd_init_params c (unat sz) parts;
       let cpp = conv_init_params;
       fs \<leftarrow> foldM (\<lambda>i fs. do { f \<leftarrow> conv_init_ftl (junk i) mem cpp (ssd_init (dj i) spp); Some (fs(i := f)) }) [0..<parts] junk;
       NVMEV_ASSERT (pba_pcent cpp \<noteq> 0);
       Some \<lparr>nr_parts = parts, ftls = fs, env = ssd_init_env pj clk spp, writebacks = [], ns_size = sz * 100 div of_nat (pba_pcent cpp)\<rparr>
     }"

section \<open>Reads\<close>

definition is_same_flash_page :: "conv_ftl \<Rightarrow> ppa \<Rightarrow> ppa \<Rightarrow> bool" where
  "is_same_flash_page s p q =
     (blk_in_ssd p = blk_in_ssd q \<and> g_pg p div pgs_per_flashpg (spp_of s) = g_pg q div pgs_per_flashpg (spp_of s))"

text \<open>The logical pages of the inner loops: from \<open>lpn\<close> in steps of \<open>nr_parts\<close> up to the end.\<close>

definition part_lpns :: "nat \<Rightarrow> nat \<Rightarrow> nat \<Rightarrow> nat list" where
  "part_lpns parts lpn end = (if lpn \<le> end then map (\<lambda>k. lpn + k * parts) [0..<(end - lpn) div parts + 1] else [])"

text \<open>What the read loops carry: the partition, the shared parts, the command, the latest completion time, the bytes collected and their page.\<close>

record read_ctx =
  rc_ftl :: conv_ftl
  rc_env :: ssd_env
  srd :: nand_cmd
  nsecs_latest :: u64
  rc_xfer :: u32
  prev_ppa :: "ppa option"

definition issue_read :: "read_ctx \<Rightarrow> read_ctx option" where
  "issue_read x =
     (if rc_xfer x > 0
      then do {
        (dev, e, c, nsecs_completed) \<leftarrow> ssd_advance_nand (ssd (rc_ftl x)) (rc_env x) ((srd x)\<lparr>xfer_size := ucast (rc_xfer x), cmd_ppa := prev_ppa x\<rparr>);
        Some (x\<lparr>rc_ftl := (rc_ftl x)\<lparr>ssd := dev\<rparr>, rc_env := e, srd := c,
                nsecs_latest := (if nsecs_completed > nsecs_latest x then nsecs_completed else nsecs_latest x)\<rparr>)
      }
      else Some x)"

definition read_page :: "nat \<Rightarrow> nat \<Rightarrow> read_ctx \<Rightarrow> read_ctx option" where
  "read_page parts lpn x =
     (let s = rc_ftl x; pgsize = of_nat (pgsz (spp_of s)) in
      case get_maptbl_ent s (lpn div parts) of
        None \<Rightarrow> Some x
      | Some cur \<Rightarrow>
          if \<not> valid_ppa s cur then Some x
          else if (case prev_ppa x of None \<Rightarrow> False | Some prev \<Rightarrow> is_same_flash_page s cur prev)
          then Some (x\<lparr>rc_xfer := rc_xfer x + pgsize\<rparr>)
          else do { x1 \<leftarrow> issue_read x; Some (x1\<lparr>rc_xfer := pgsize, prev_ppa := Some cur\<rparr>) })"

definition read_part :: "nat \<Rightarrow> nat \<Rightarrow> nat \<Rightarrow> read_ctx \<Rightarrow> read_ctx option" where
  "read_part parts end lpn x =
     do {
       x1 \<leftarrow> foldM (read_page parts) (part_lpns parts lpn end) (x\<lparr>rc_xfer := 0, prev_ppa := get_maptbl_ent (rc_ftl x) (lpn div parts)\<rparr>);
       issue_read x1
     }"

text \<open>The first pages of the outer loop: at most one for each partition.\<close>

definition first_lpns :: "nat \<Rightarrow> nat \<Rightarrow> nat \<Rightarrow> nat list" where
  "first_lpns parts start end = [start..<min (start + parts) (end + 1)]"

definition conv_read :: "conv_ns \<Rightarrow> nvmev_request \<Rightarrow> nvmev_result \<Rightarrow> (conv_ns \<times> nvmev_result \<times> nvmev_io_status) option" where
  "conv_read ns req ret =
     (let spp = ns_spp ns; parts = nr_parts ns; c = cmd req; start = start_lpn spp c; end = end_lpn spp c in
      if secs_per_pg spp = 0 \<or> parts = 0 then None
      else if end div parts \<ge> tt_pgs spp
      then Some (ns, ret\<lparr>res_status := NVME_SC_DATA_XFER_ERROR, nsecs_target := nsecs_start req\<rparr>, NVMEV_IO_STATUS_ERROR)
      else
        (let t0 = nsecs_start req + (if LBA_TO_BYTE (nr_lba c) \<le> KB 4 * of_nat parts then fw_4kb_rd_lat spp else fw_rd_lat spp);
             rd = \<lparr>nand_op = NAND_READ, xfer_size = 0, stime = t0, nand_stime = 0, interleave_pci_dma = from_host req, cmd_ppa = None\<rparr>
         in do {
              (ns', rd', latest) \<leftarrow> foldM (\<lambda>lpn (n, rd, latest). do {
                  x \<leftarrow> read_part parts end lpn \<lparr>rc_ftl = ftls n (lpn mod parts), rc_env = env n, srd = rd, nsecs_latest = latest, rc_xfer = 0, prev_ppa = None\<rparr>;
                  Some (n\<lparr>ftls := (ftls n)(lpn mod parts := rc_ftl x), env := rc_env x\<rparr>, srd x, nsecs_latest x)
                }) (first_lpns parts start end) (ns, rd, nsecs_start req);
              Some (ns', ret\<lparr>nsecs_nand_start := nand_stime rd', nsecs_target := latest, res_status := NVME_SC_SUCCESS\<rparr>, NVMEV_IO_STATUS_SUCCESS)
            }))"

text \<open>
  \<open>__get_seq_lpn\<close>: how far the mapping is sequential. It has no range check, so an access past the table
  stops it. The pages of one partition give the last page that continued a flash page, if any.
\<close>

fun seq_part :: "conv_ftl \<Rightarrow> nat \<Rightarrow> nat list \<Rightarrow> ppa option \<Rightarrow> nat option \<Rightarrow> nat option option" where
  "seq_part s parts [] prev temp = Some temp"
| "seq_part s parts (lpn # rest) prev temp =
     (if lpn div parts \<ge> tt_pgs (spp_of s) then None
      else case get_maptbl_ent s (lpn div parts) of
             None \<Rightarrow> Some temp
           | Some cur \<Rightarrow>
               if \<not> valid_ppa s cur then Some temp
               else if (case prev of None \<Rightarrow> False | Some q \<Rightarrow> is_same_flash_page s cur q)
               then seq_part s parts rest prev (Some lpn)
               else seq_part s parts rest (Some cur) temp)"

definition get_seq_lpn :: "conv_ns \<Rightarrow> nvmev_request \<Rightarrow> nvmev_result \<Rightarrow> (nvmev_result \<times> u64) option" where
  "get_seq_lpn ns req ret =
     (let spp = ns_spp ns; parts = nr_parts ns; start = start_lpn spp (cmd req); end = end_lpn spp (cmd req) in
      if secs_per_pg spp = 0 \<or> parts = 0 then None
      else do {
        seq_lpn \<leftarrow> foldM (\<lambda>lpn seq.
            if lpn div parts \<ge> tt_pgs spp then None
            else do {
              temp \<leftarrow> seq_part (ftls ns (lpn mod parts)) parts (part_lpns parts lpn end) (get_maptbl_ent (ftls ns (lpn mod parts)) (lpn div parts)) None;
              Some (case temp of None \<Rightarrow> seq | Some t \<Rightarrow> max seq t)
            }) (first_lpns parts start end) start;
        Some (ret\<lparr>nsecs_target := of_nat ((seq_lpn + 1 - start) * secs_per_pg spp)\<rparr>, of_nat (seq_lpn * secs_per_pg spp))
      })"

section \<open>Writes\<close>

text \<open>One pass of the loop of \<open>conv_write\<close>: the mapping, the program command with the last page of a word line, and the credits.\<close>

definition write_page :: "nvmev_request \<Rightarrow> nand_cmd \<Rightarrow> nat \<Rightarrow> conv_ns \<times> u64 \<Rightarrow> (conv_ns \<times> u64) option" where
  "write_page req swr lpn = (\<lambda>(ns, latest).
     (let parts = nr_parts ns; spp = ns_spp ns; osz = pgs_per_oneshotpg spp * pgsz spp in
      do {
        (s1, p) \<leftarrow> write_lpn (ftls ns (lpn mod parts)) (lpn div parts);
        (s2, e2, latest', wb) \<leftarrow>
          (if last_pg_in_wordline s1 p
           then do {
             (dev, e, _, nsecs_completed) \<leftarrow> ssd_advance_nand (ssd s1) (env ns) (swr\<lparr>xfer_size := of_nat osz, cmd_ppa := Some p\<rparr>);
             Some (s1\<lparr>ssd := dev\<rparr>, e, if nsecs_completed > latest then nsecs_completed else latest,
                   [\<lparr>wb_sqid = sq_id req, wb_nsecs_target = nsecs_completed, buffs_to_release = of_nat osz\<rparr>])
           }
           else Some (s1, env ns, latest, []));
        (s3, e3) \<leftarrow> check_and_refill_write_credit (consume_write_credit s2, e2);
        Some (ns\<lparr>ftls := (ftls ns)(lpn mod parts := s3), env := e3, writebacks := writebacks ns @ wb\<rparr>, latest')
      }))"

definition conv_write :: "conv_ns \<Rightarrow> nvmev_request \<Rightarrow> nvmev_result \<Rightarrow> (conv_ns \<times> nvmev_result \<times> nvmev_io_status) option" where
  "conv_write ns req ret =
     (let spp = ns_spp ns; parts = nr_parts ns; c = cmd req; start = start_lpn spp c; end = end_lpn spp c;
          bytes = LBA_TO_BYTE (nr_lba c) in
      if secs_per_pg spp = 0 \<or> parts = 0 then None
      else if end div parts \<ge> tt_pgs spp
      then Some (ns, ret\<lparr>res_status := NVME_SC_DATA_XFER_ERROR, nsecs_target := nsecs_start req\<rparr>, NVMEV_IO_STATUS_ERROR)
      else
        (let (wbuf, allocated_buf_size) = buffer_allocate (write_buffer (env ns)) (ucast bytes) in
         if ucast allocated_buf_size < bytes then Some (ns\<lparr>env := (env ns)\<lparr>write_buffer := wbuf\<rparr>\<rparr>, ret, NVMEV_IO_STATUS_DEFERRED)
         else do {
           (e1, xfer_completed) \<leftarrow> ssd_advance_write_buffer spp ((env ns)\<lparr>write_buffer := wbuf\<rparr>) (nsecs_start req) bytes (from_host req);
           let swr = \<lparr>nand_op = NAND_WRITE, xfer_size = 0, stime = xfer_completed, nand_stime = 0, interleave_pci_dma = False, cmd_ppa = None\<rparr>;
           (ns', latest) \<leftarrow> foldM (write_page req swr) [start..<end + 1] (ns\<lparr>env := e1\<rparr>, xfer_completed);
           Some (ns', ret\<lparr>nsecs_target := (if rw_control c AND NVME_RW_FUA \<noteq> 0 \<or> \<not> write_early_completion spp then latest else xfer_completed),
                           nsecs_nand_start := xfer_completed, res_status := NVME_SC_SUCCESS\<rparr>, NVMEV_IO_STATUS_SUCCESS)
         }))"

section \<open>Other commands\<close>

definition pcie_rw :: "conv_ns \<Rightarrow> nvmev_request \<Rightarrow> nvmev_result \<Rightarrow> (conv_ns \<times> nvmev_result) option" where
  "pcie_rw ns req ret =
     do {
       (e, t) \<leftarrow> ssd_advance_pcie (env ns) (nsecs_start req) (ucast (memory_length (cmd req)));
       Some (ns\<lparr>env := e\<rparr>, ret\<lparr>nsecs_target := t, res_status := NVME_SC_SUCCESS\<rparr>)
     }"

definition conv_flush :: "conv_ns \<Rightarrow> nvmev_request \<Rightarrow> nvmev_result \<Rightarrow> conv_ns \<times> nvmev_result" where
  "conv_flush ns req ret =
     (let (start, e0) = get_clock (env ns);
          (e1, latest) = foldl (\<lambda>(e, latest) i. let (e', t) = ssd_next_idle_time (ssd (ftls ns i)) e in (e', max latest t)) (e0, start) [0..<nr_parts ns]
      in (ns\<lparr>env := e1\<rparr>, ret\<lparr>res_status := NVME_SC_SUCCESS, nsecs_target := latest\<rparr>))"

text \<open>
  \<open>conv_namespace_copy\<close>: the source range of the command is read or written in pieces. \<open>saddr\<close> and
  \<open>nByte\<close> are the fields of the one entry that \<open>get_prp_data\<close> fetches from the host.
\<close>

definition copy_block_size :: "u32 \<Rightarrow> nat" where
  "copy_block_size nByte = (if nByte < 512 then 1 else unat nByte div 512 - 1)"

function copy_pieces :: "nvmev_request \<Rightarrow> u64 \<Rightarrow> nat \<Rightarrow> nat \<Rightarrow> conv_ns \<Rightarrow> nvmev_result \<Rightarrow> nvmev_result \<Rightarrow> (conv_ns \<times> nvmev_result \<times> nvmev_io_status) option" where
  "copy_pieces req saddr offs rest ns dummy_ret ret =
     (if rest = 0 then Some (ns, ret, NVMEV_IO_STATUS_SUCCESS)
      else
        (let temp_len = min rest 0xFFFF;
             op = ucast (copy_control_flag (cmd req)) :: u8;
             dummy = \<lparr>cmd = zero_command\<lparr>opcode := op, slba := saddr + of_nat offs, rw_length := of_nat temp_len\<rparr>,
                      sq_id = 0xFFFFFFFF, nsecs_start = nsecs_start req\<rparr>
         in do {
              (ns1, dr, st) \<leftarrow> (if op = nvme_cmd_write then conv_write ns dummy dummy_ret
                              else if op = nvme_cmd_read then conv_read ns dummy dummy_ret
                              else Some (ns, dummy_ret, NVMEV_IO_STATUS_SUCCESS));
              if st \<noteq> NVMEV_IO_STATUS_SUCCESS then Some (ns1, ret\<lparr>nsecs_target := -1\<rparr>, st)
              else copy_pieces req saddr (offs + (temp_len + 1)) (rest - temp_len) ns1 dr (ret\<lparr>nsecs_target := nsecs_target dr\<rparr>)
            }))"
  by pat_completeness auto
termination
  by (relation "measure (\<lambda>(req, a, o', r, ns, d, ret). r)") auto

declare copy_pieces.simps [simp del]

definition conv_namespace_copy :: "u64 \<Rightarrow> u32 \<Rightarrow> conv_ns \<Rightarrow> nvmev_request \<Rightarrow> nvmev_result \<Rightarrow> (conv_ns \<times> nvmev_result \<times> nvmev_io_status) option" where
  "conv_namespace_copy saddr nByte ns req ret =
     (if copy_format (cmd req) \<noteq> 1 then None
      else copy_pieces req saddr 0 (copy_block_size nByte) ns
             \<lparr>res_status = NVME_SC_SUCCESS, nsecs_nand_start = 0, nsecs_target = nsecs_start req\<rparr> ret)"

definition conv_proc_nvme_io_cmd :: "(nvmev_request \<Rightarrow> u64 \<times> u32) \<Rightarrow> conv_ns \<Rightarrow> nvmev_request \<Rightarrow> nvmev_result \<Rightarrow> (conv_ns \<times> nvmev_result \<times> nvmev_io_status) option" where
  "conv_proc_nvme_io_cmd get_prp_data ns req ret =
     (let op = opcode (cmd req) in
      if op = nvme_cmd_write then conv_write ns req ret
      else if op = nvme_cmd_read then conv_read ns req ret
      else if op = nvme_cmd_flush then (let (ns', ret') = conv_flush ns req ret in Some (ns', ret', NVMEV_IO_STATUS_SUCCESS))
      else if op = nvme_cmd_memory_write \<or> op = nvme_cmd_memory_read
      then do { (ns', ret') \<leftarrow> pcie_rw ns req ret; Some (ns', ret', NVMEV_IO_STATUS_SUCCESS) }
      else if op = nvme_test then do { (ret', _) \<leftarrow> get_seq_lpn ns req ret; Some (ns, ret', NVMEV_IO_STATUS_SUCCESS) }
      else if op = nvme_cmd_namespace_copy
      then (let (saddr, nByte) = get_prp_data req in conv_namespace_copy saddr nByte ns req ret)
      else Some (ns, ret, NVMEV_IO_STATUS_SUCCESS))"

section \<open>The namespace as a device\<close>

text \<open>
  The invariant of a namespace of which the host uses the first \<open>L\<close> pages of every partition, and the set
  of logical pages that hold data.
\<close>

definition ns_inv :: "ssdparams \<Rightarrow> nat \<Rightarrow> conv_ns \<Rightarrow> bool" where
  "ns_inv spp L ns \<longleftrightarrow> 0 < nr_parts ns \<and> 0 < secs_per_pg spp \<and> (\<forall>i<nr_parts ns. flow_inv L (ftls ns i) \<and> spp_of (ftls ns i) = spp)"

lemma ns_invD:
  assumes "ns_inv spp L ns"
  shows "0 < nr_parts ns" "0 < secs_per_pg spp" "ns_spp ns = spp" "flow_inv L (ftls ns (lpn mod nr_parts ns))" "spp_of (ftls ns (lpn mod nr_parts ns)) = spp"
  using assms by (simp_all add: ns_inv_def)

definition written :: "conv_ns \<Rightarrow> nat set" where
  "written ns = {lpn. lpn div nr_parts ns \<in> mapped (ftls ns (lpn mod nr_parts ns))}"

lemma written_update:
  assumes "i < nr_parts ns" and "mapped s = M \<union> mapped (ftls ns i)"
  shows "written (ns\<lparr>ftls := (ftls ns)(i := s), env := e, writebacks := w\<rparr>) = written ns \<union> {lpn. lpn mod nr_parts ns = i \<and> lpn div nr_parts ns \<in> M}"
  using assms by (auto simp: written_def)

lemma split_lpn:
  assumes "0 < n"
  shows "{lpn. lpn mod n = a mod n \<and> lpn div n \<in> {a div n}} = {a :: nat}"
proof (intro set_eqI iffI)
  fix x assume "x \<in> {lpn. lpn mod n = a mod n \<and> lpn div n \<in> {a div n}}"
  then have "x div n * n + x mod n = a div n * n + a mod n" by simp
  then show "x \<in> {a}" by simp
qed simp

lemma flow_nand_same:
  assumes "nand_same (ssd s) dev"
  shows "flow_due L (s\<lparr>ssd := dev\<rparr>) = flow_due L s" "flow_inv L (s\<lparr>ssd := dev\<rparr>) = flow_inv L s" "mapped (s\<lparr>ssd := dev\<rparr>) = mapped s" "sp dev = spp_of s"
proof -
  show sp: "sp dev = spp_of s" using assms by (simp add: nand_same_def)
  have f: "conv_inv (s\<lparr>ssd := dev\<rparr>) = conv_inv s" "mapped (s\<lparr>ssd := dev\<rparr>) = mapped s" "total_room (s\<lparr>ssd := dev\<rparr>) = total_room s"
    using sp ftl_inv_nand_same(1) [OF assms] by (simp_all add: conv_inv_def mapped_def total_room_def)
  show "mapped (s\<lparr>ssd := dev\<rparr>) = mapped s" by (rule f(2))
  show d: "flow_due L (s\<lparr>ssd := dev\<rparr>) = flow_due L s" unfolding flow_due_def f using sp by simp
  show "flow_inv L (s\<lparr>ssd := dev\<rparr>) = flow_inv L s" unfolding flow_inv_due d by simp
qed

lemma consume_nand: "consume_write_credit (s\<lparr>ssd := dev\<rparr>) = (consume_write_credit s)\<lparr>ssd := dev\<rparr>"
  "ssd (consume_write_credit s) = ssd s" "mapped (consume_write_credit s) = mapped s"
  by (simp_all add: consume_write_credit_def mapped_def)

lemma ns_inv_update:
  assumes "ns_inv spp L ns" and "flow_inv L s" and "spp_of s = spp"
  shows "ns_inv spp L (ns\<lparr>ftls := (ftls ns)(i := s), env := e, writebacks := w\<rparr>)"
  using assms by (simp add: ns_inv_def)

text \<open>The middle of a pass only touches the timing state of the partition.\<close>

lemma write_page_steps:
  assumes "write_page req swr lpn (ns, t) = Some (ns', t')" and "write_lpn (ftls ns (lpn mod nr_parts ns)) (lpn div nr_parts ns) = Some (s1, p)"
  obtains s2 e2 s3 e3 wb where "s2 = s1 \<or> (\<exists>dev. nand_same (ssd s1) dev \<and> s2 = s1\<lparr>ssd := dev\<rparr>)"
    "check_and_refill_write_credit (consume_write_credit s2, e2) = Some (s3, e3)"
    "ns' = ns\<lparr>ftls := (ftls ns)(lpn mod nr_parts ns := s3), env := e3, writebacks := writebacks ns @ wb\<rparr>"
proof (cases "last_pg_in_wordline s1 p")
  case True
  let ?n = "pgs_per_oneshotpg (ns_spp ns) * pgsz (ns_spp ns)"
  obtain dev e c t1 where a: "ssd_advance_nand (ssd s1) (env ns) (swr\<lparr>xfer_size := of_nat ?n, cmd_ppa := Some p\<rparr>) = Some (dev, e, c, t1)"
    using assms True by (auto simp: write_page_def Let_def split: Option.bind_splits)
  have same: "nand_same (ssd s1) dev" by (rule ssd_advance_nand_frame [OF a])
  show ?thesis using assms True a that [of "s1\<lparr>ssd := dev\<rparr>" e] same by (auto simp: write_page_def Let_def split: Option.bind_splits)
next
  case False
  then show ?thesis using assms that [of s1 "env ns" _ _ "[]"] by (auto simp: write_page_def Let_def split: Option.bind_splits)
qed

lemma write_page_ok:
  assumes inv: "ns_inv spp L ns" and lpn: "lpn div nr_parts ns < L" and res: "write_page req swr lpn (ns, t) = Some (ns', t')"
  shows "ns_inv spp L ns' \<and> nr_parts ns' = nr_parts ns \<and> written ns' = insert lpn (written ns)"
proof -
  let ?i = "lpn mod nr_parts ns" let ?s = "ftls ns ?i" let ?l = "lpn div nr_parts ns"
  have i: "?i < nr_parts ns" "0 < nr_parts ns" using inv by (simp_all add: ns_inv_def)
  have flow: "flow_inv L ?s" "spp_of ?s = spp" using ns_invD [OF inv] by blast+
  obtain s1 p where w: "write_lpn ?s ?l = Some (s1, p)" "flow_due L (consume_write_credit s1)"
    "maptbl s1 = (maptbl ?s)(?l := Some p)" "spp_of s1 = spp_of ?s" using write_flow [OF flow(1) lpn] by blast
  have "?l < tt_pgs spp" using lpn flow by (simp add: flow_inv_def)
  then have m1: "mapped s1 = {?l} \<union> mapped ?s" using w(3,4) flow(2) by (auto simp: mapped_def)
  from res w(1) obtain s2 e2 s3 e3 wb where s2: "s2 = s1 \<or> (\<exists>dev. nand_same (ssd s1) dev \<and> s2 = s1\<lparr>ssd := dev\<rparr>)"
    and s3: "check_and_refill_write_credit (consume_write_credit s2, e2) = Some (s3, e3)"
    and ns': "ns' = ns\<lparr>ftls := (ftls ns)(?i := s3), env := e3, writebacks := writebacks ns @ wb\<rparr>" by (rule write_page_steps)
  have due: "flow_due L (consume_write_credit s2) \<and> mapped s2 = mapped s1 \<and> spp_of s2 = spp_of s1"
    using s2 w(2) flow_nand_same(1) [of "consume_write_credit s1"] flow_nand_same(3,4) [of s1] by (auto simp: consume_nand)
  then have "gc_res (enable_gc_delay (cp (consume_write_credit s2))) (check_and_refill_write_credit (consume_write_credit s2, e2))
      (\<lambda>t. flow_inv L t \<and> mapped t = mapped (consume_write_credit s2) \<and> spp_of t = spp_of (consume_write_credit s2))" by (intro check_and_refill_ok) blast
  then have "flow_inv L s3" "mapped s3 = mapped (consume_write_credit s2)" "spp_of s3 = spp_of (consume_write_credit s2)" using s3 by (simp_all add: gc_res_def)
  then have f3: "flow_inv L s3" "mapped s3 = {?l} \<union> mapped ?s" "spp_of s3 = spp" using due m1 w(4) flow(2) by (simp_all add: consume_nand)
  have "written ns' = written ns \<union> {lpn}" unfolding ns' written_update [OF i(1) f3(2)] split_lpn [OF i(2)] ..
  then show ?thesis using ns_inv_update [OF inv f3(1,3)] unfolding ns' by simp
qed

lemma ns_inv_env [simp]: "ns_inv spp L (ns\<lparr>env := e\<rparr>) = ns_inv spp L ns" "written (ns\<lparr>env := e\<rparr>) = written ns"
  by (simp_all add: ns_inv_def written_def)

lemma conv_write_ok:
  assumes inv: "ns_inv spp L ns" and lpn: "end_lpn spp (cmd req) div nr_parts ns < L" and res: "conv_write ns req ret = Some (ns', ret', st)"
  shows "ns_inv spp L ns' \<and> nr_parts ns' = nr_parts ns \<and> st \<noteq> NVMEV_IO_STATUS_ERROR
     \<and> written ns' = (if st = NVMEV_IO_STATUS_SUCCESS then written ns \<union> {start_lpn spp (cmd req)..end_lpn spp (cmd req)} else written ns)"
proof -
  let ?a = "start_lpn spp (cmd req)" and ?b = "end_lpn spp (cmd req)" and ?n = "nr_parts ns"
  have "L \<le> tt_pgs spp" using inv by (auto simp: ns_inv_def flow_inv_def)
  then have range: "\<not> tt_pgs spp \<le> ?b div ?n" using lpn by simp
  note d = ns_invD [OF inv]
  consider e where "ns' = ns\<lparr>env := e\<rparr>" "st = NVMEV_IO_STATUS_DEFERRED"
    | e t swr t' where "foldM (write_page req swr) [?a..<?b + 1] (ns\<lparr>env := e\<rparr>, t) = Some (ns', t')" "st = NVMEV_IO_STATUS_SUCCESS"
    using res range d(1-3) by (auto simp: conv_write_def Let_def split: prod.splits if_splits Option.bind_splits)
  then show ?thesis
  proof cases
    case 1
    then show ?thesis using inv by simp
  next
    case 2
    let ?I = "\<lambda>done (n, t). ns_inv spp L n \<and> nr_parts n = ?n \<and> written n = written ns \<union> set done"
    have "?I [?a..<?b + 1] (ns', t')" using 2(1)
    proof (rule foldM_invariant)
      show "?I [] (ns\<lparr>env := e\<rparr>, t)" using inv by simp
    next
      fix "done" x rest s s' assume split: "[?a..<?b + 1] = done @ x # rest" and I: "?I done s" and r: "write_page req swr x s = Some s'"
      obtain n t n' t' where s: "s = (n, t)" "s' = (n', t')" by (cases s, cases s')
      have "x \<in> set [?a..<?b + 1]" unfolding split by simp
      then have "x div nr_parts n < L" using lpn I s div_le_mono [of x ?b ?n] by auto
      then show "?I (done @ [x]) s'" using I r s write_page_ok [of spp L n x req swr t n' t'] by simp
    qed
    moreover have "set [?a..<?b + 1] = {?a..?b}" by auto
    ultimately show ?thesis using 2(2) by (simp del: set_upt)
  qed
qed

text \<open>Reads only move the timing state.\<close>

definition timing_only :: "conv_ftl \<Rightarrow> conv_ftl \<Rightarrow> bool" where
  "timing_only s s' \<longleftrightarrow> nand_same (ssd s) (ssd s') \<and> s' = s\<lparr>ssd := ssd s'\<rparr>"

lemma nand_same_refl: "nand_same dev dev"
  by (simp add: nand_same_def)

lemma timing_only_refl [simp]: "timing_only s s"
  by (simp add: timing_only_def nand_same_def)

lemma timing_only_trans: "timing_only s s' \<Longrightarrow> timing_only s' s'' \<Longrightarrow> timing_only s s''"
  unfolding timing_only_def by (auto simp: nand_same_def) (metis conv_ftl.fold_congs(1) conv_ftl.update_convs(1) conv_ftl.surjective)

lemma issue_read_same: "issue_read x = Some x' \<Longrightarrow> timing_only (rc_ftl x) (rc_ftl x')"
  by (auto simp: issue_read_def timing_only_def nand_same_refl split: if_splits Option.bind_splits dest: ssd_advance_nand_frame)

lemma read_page_same: "read_page parts lpn x = Some x' \<Longrightarrow> timing_only (rc_ftl x) (rc_ftl x')"
  by (auto simp: read_page_def Let_def split: option.splits if_splits Option.bind_splits dest: issue_read_same)

lemma foldM_timing:
  assumes "foldM f xs x = Some x'" and "\<And>a x x'. f a x = Some x' \<Longrightarrow> timing_only (g x) (g x')"
  shows "timing_only (g x) (g x')"
  using assms(1)
proof (induction xs arbitrary: x)
  case (Cons a xs)
  then obtain y where "f a x = Some y" "foldM f xs y = Some x'" by (auto split: Option.bind_splits)
  then show ?case using assms(2) Cons.IH timing_only_trans by blast
qed simp

lemma read_part_same: "read_part parts end lpn x = Some x' \<Longrightarrow> timing_only (rc_ftl x) (rc_ftl x')"
  by (auto simp: read_part_def split: Option.bind_splits dest!: issue_read_same foldM_timing [of "read_page parts" _ _ _ rc_ftl, OF _ read_page_same]
      intro: timing_only_trans)

lemma timing_flow:
  assumes "timing_only s s'"
  shows "flow_inv L s' = flow_inv L s" "mapped s' = mapped s" "maptbl s' = maptbl s" "spp_of s' = spp_of s"
proof -
  have n: "nand_same (ssd s) (ssd s')" and s: "s' = s\<lparr>ssd := ssd s'\<rparr>" using assms by (simp_all add: timing_only_def)
  show "flow_inv L s' = flow_inv L s" "mapped s' = mapped s" by (subst s; rule flow_nand_same [OF n])+
  show "maptbl s' = maptbl s" by (subst s) simp
  show "spp_of s' = spp_of s" using n by (simp add: nand_same_def)
qed

definition ns_timing_only :: "conv_ns \<Rightarrow> conv_ns \<Rightarrow> bool" where
  "ns_timing_only ns ns' \<longleftrightarrow> nr_parts ns' = nr_parts ns \<and> writebacks ns' = writebacks ns \<and> (\<forall>i. timing_only (ftls ns i) (ftls ns' i))"

lemma ns_timing_only_inv:
  assumes "ns_timing_only ns ns'"
  shows "ns_inv spp L ns' = ns_inv spp L ns" "written ns' = written ns"
proof -
  have "flow_inv L (ftls ns' i) = flow_inv L (ftls ns i)" "mapped (ftls ns' i) = mapped (ftls ns i)" "spp_of (ftls ns' i) = spp_of (ftls ns i)" for i
    using assms timing_flow unfolding ns_timing_only_def by blast+
  then show "ns_inv spp L ns' = ns_inv spp L ns" "written ns' = written ns"
    using assms by (simp_all add: ns_timing_only_def ns_inv_def written_def)
qed

lemma ns_timing_only_refl [simp]: "ns_timing_only ns ns" "ns_timing_only ns (ns\<lparr>env := e\<rparr>)"
  by (simp_all add: ns_timing_only_def)

lemma ns_timing_only_trans: "ns_timing_only a b \<Longrightarrow> ns_timing_only b c \<Longrightarrow> ns_timing_only a c"
  unfolding ns_timing_only_def using timing_only_trans by (metis (mono_tags, lifting))

lemma conv_read_timing:
  assumes "conv_read ns req ret = Some (ns', ret', st)"
  shows "ns_timing_only ns ns'"
proof -
  let ?n = "nr_parts ns"
  let ?f = "\<lambda>lpn (n, rd, latest). Option.bind (read_part ?n (end_lpn (ns_spp ns) (cmd req)) lpn
      \<lparr>rc_ftl = ftls n (lpn mod ?n), rc_env = env n, srd = rd, nsecs_latest = latest, rc_xfer = 0, prev_ppa = None\<rparr>)
      (\<lambda>x. Some (n\<lparr>ftls := (ftls n)(lpn mod ?n := rc_ftl x), env := rc_env x\<rparr>, srd x, nsecs_latest x))"
  consider "ns' = ns" | xs rd t rd' t' where "foldM ?f xs (ns, rd, t) = Some (ns', rd', t')"
    using assms by (auto simp: conv_read_def Let_def split: if_splits Option.bind_splits)
  then show ?thesis
  proof cases
    case 2
    have "(\<lambda>_ x. ns_timing_only ns (fst x)) xs (ns', rd', t')" using 2
    proof (rule foldM_invariant)
      fix "done" x rest s s' assume I: "ns_timing_only ns (fst s)" and f: "?f x s = Some s'"
      obtain n rd latest where s: "s = (n, rd, latest)" by (cases s)
      have "ns_timing_only n (fst s')" using f s by (auto simp: ns_timing_only_def split: Option.bind_splits dest!: read_part_same)
      then show "ns_timing_only ns (fst s')" using I s ns_timing_only_trans by simp
    qed simp
    then show ?thesis by simp
  qed simp
qed

end
