(* ===== verification/Conv_Read.thy ===== *)
theory Conv_Read
  imports Conv_Io
begin

text \<open>
  The read path of the conventional SSD: the nested loops of \<open>conv_read\<close> group consecutive pages of a flash page
  into one NAND read. They are compared with a reference that cuts the page list into runs first.
\<close>

section \<open>Grouping of reads\<close>

text \<open>
  The reference for the read loops: the mapped pages, cut into maximal runs of the same flash page, are read
  run by run.
\<close>

lemma length_dropWhile_less [termination_simp]: "length (dropWhile P xs) < Suc (length xs)"
  by (simp add: le_imp_less_Suc length_dropWhile_le)

fun flash_runs :: "('p \<Rightarrow> 'p \<Rightarrow> bool) \<Rightarrow> 'p list \<Rightarrow> ('p \<times> nat) list" where
  "flash_runs same [] = []"
| "flash_runs same (p # ps) = (p, Suc (length (takeWhile (\<lambda>q. same q p) ps))) # flash_runs same (dropWhile (\<lambda>q. same q p) ps)"

definition mapped_pages :: "conv_ftl \<Rightarrow> nat \<Rightarrow> nat list \<Rightarrow> ppa list" where
  "mapped_pages s parts lpns = List.map_filter (\<lambda>lpn. maptbl s (lpn div parts)) lpns"

definition issue_run :: "ppa \<times> nat \<Rightarrow> read_ctx \<Rightarrow> read_ctx option" where
  "issue_run = (\<lambda>(p, n) x. issue_read (x\<lparr>rc_xfer := of_nat (n * pgsz (spp_of (rc_ftl x))), prev_ppa := Some p\<rparr>))"

definition read_core :: "read_ctx \<Rightarrow> read_ctx" where
  "read_core x = x\<lparr>rc_xfer := 0, prev_ppa := None\<rparr>"

lemma flash_runs_total: "sum_list (map snd (flash_runs same ps)) = length ps"
proof (induction same ps rule: flash_runs.induct)
  case (2 same p ps)
  have "length (takeWhile (\<lambda>q. same q p) ps) + length (dropWhile (\<lambda>q. same q p) ps) = length ps"
    by (metis length_append takeWhile_dropWhile_id)
  then show ?case using 2 by simp
qed simp

lemma mapped_pages_simps [simp]:
  "mapped_pages s parts [] = []"
  "mapped_pages s parts (l # ls) = (case maptbl s (l div parts) of None \<Rightarrow> mapped_pages s parts ls | Some p \<Rightarrow> p # mapped_pages s parts ls)"
  by (simp_all add: mapped_pages_def List.map_filter_def split: option.splits)

lemma timing_pages: "timing_only s s' \<Longrightarrow> mapped_pages s' = mapped_pages s \<and> valid_ppa s' = valid_ppa s \<and> is_same_flash_page s' = is_same_flash_page s"
  using timing_flow(3,4) [of s s'] by (simp add: mapped_pages_def valid_ppa_def is_same_flash_page_def fun_eq_iff)

lemma issue_run_cong: "issue_run r (x\<lparr>rc_xfer := a, prev_ppa := b\<rparr>) = issue_run r x" "issue_run r (x\<lparr>rc_xfer := a\<rparr>) = issue_run r x"
  by (simp_all add: issue_run_def split: prod.splits)

lemma issue_run_now: "prev_ppa x = Some p \<Longrightarrow> rc_xfer x = of_nat (n * pgsz (spp_of (rc_ftl x))) \<Longrightarrow> issue_run (p, n) x = issue_read x"
  by (simp add: issue_run_def) (metis (no_types, lifting) read_ctx.cases read_ctx.update_convs(5,6) read_ctx.select_convs(5,6))

definition all_valid :: "conv_ftl \<Rightarrow> nat \<Rightarrow> nat list \<Rightarrow> bool" where
  "all_valid s parts ls \<longleftrightarrow> (\<forall>l\<in>set ls. \<forall>p. maptbl s (l div parts) = Some p \<longrightarrow> valid_ppa s p)"

text \<open>With a run of \<open>n\<close> pages under way.\<close>

lemma read_loop_run:
  assumes "prev_ppa x = Some p" and "rc_xfer x = of_nat (n * z)" and "z = pgsz (spp_of (rc_ftl x))" and "all_valid (rc_ftl x) parts ls"
  shows "map_option read_core (Option.bind (foldM (read_page parts) ls x) issue_read)
       = map_option read_core (foldM issue_run
           ((p, n + length (takeWhile (\<lambda>q. is_same_flash_page (rc_ftl x) q p) (mapped_pages (rc_ftl x) parts ls)))
            # flash_runs (is_same_flash_page (rc_ftl x)) (dropWhile (\<lambda>q. is_same_flash_page (rc_ftl x) q p) (mapped_pages (rc_ftl x) parts ls))) x)"
  using assms
proof (induction ls arbitrary: x p n)
  case Nil
  then show ?case using issue_run_now [of x p n] by (cases "issue_read x") simp_all
next
  case (Cons l ls)
  show ?case
  proof (cases "maptbl (rc_ftl x) (l div parts)")
    case None
    then show ?thesis using Cons.IH [OF Cons.prems(1-3)] Cons.prems(4) by (simp add: read_page_def get_maptbl_ent_def all_valid_def)
  next
    case (Some q)
    have v: "valid_ppa (rc_ftl x) q" "all_valid (rc_ftl x) parts ls" using Cons.prems(4) Some by (auto simp: all_valid_def)
    show ?thesis
    proof (cases "is_same_flash_page (rc_ftl x) q p")
      case True
      let ?x = "x\<lparr>rc_xfer := rc_xfer x + of_nat z\<rparr>"
      have r: "read_page parts l x = Some ?x" using Some v(1) True Cons.prems(1,3) by (simp add: read_page_def get_maptbl_ent_def Let_def)
      have "rc_xfer ?x = of_nat (Suc n * z)" using Cons.prems(2) by simp
      then show ?thesis using Cons.IH [of ?x p "Suc n"] Cons.prems(1,3) v(2) r Some True by (simp add: issue_run_cong)
    next
      case False
      have r: "read_page parts l x = Option.bind (issue_read x) (\<lambda>x1. Some (x1\<lparr>rc_xfer := of_nat z, prev_ppa := Some q\<rparr>))"
        using Some v(1) False Cons.prems(1,3) by (simp add: read_page_def get_maptbl_ent_def Let_def)
      have run: "issue_run (p, n) x = issue_read x" using issue_run_now Cons.prems(1-3) by simp
      show ?thesis
      proof (cases "issue_read x")
        case None
        then show ?thesis using r run Some False by simp
      next
        case (Some x1)
        let ?x = "x1\<lparr>rc_xfer := of_nat z, prev_ppa := Some q\<rparr>"
        have t: "timing_only (rc_ftl x) (rc_ftl x1)" by (rule issue_read_same [OF Some])
        note p = timing_pages [OF t] timing_flow(3,4) [OF t]
        have av: "all_valid (rc_ftl ?x) parts ls" using v(2) p by (simp add: all_valid_def)
        have "map_option read_core (Option.bind (foldM (read_page parts) ls ?x) issue_read)
            = map_option read_core (foldM issue_run (flash_runs (is_same_flash_page (rc_ftl x)) (q # mapped_pages (rc_ftl x) parts ls)) x1)"
          using Cons.IH [of ?x q 1] Cons.prems(3) av p by (simp add: issue_run_cong)
        then show ?thesis using r run Some False \<open>maptbl (rc_ftl x) (l div parts) = Some q\<close> by simp
      qed
    qed
  qed
qed

lemma read_loop_idle:
  assumes "prev_ppa x = None" and "rc_xfer x = 0" and "all_valid (rc_ftl x) parts ls"
  shows "map_option read_core (Option.bind (foldM (read_page parts) ls x) issue_read)
       = map_option read_core (foldM issue_run (flash_runs (is_same_flash_page (rc_ftl x)) (mapped_pages (rc_ftl x) parts ls)) x)"
  using assms
proof (induction ls)
  case Nil
  then show ?case by (simp add: issue_read_def)
next
  case (Cons l ls)
  show ?case
  proof (cases "maptbl (rc_ftl x) (l div parts)")
    case None
    then show ?thesis using Cons by (simp add: read_page_def get_maptbl_ent_def all_valid_def)
  next
    case (Some q)
    let ?x = "x\<lparr>rc_xfer := of_nat (pgsz (spp_of (rc_ftl x))), prev_ppa := Some q\<rparr>"
    have v: "valid_ppa (rc_ftl x) q" "all_valid (rc_ftl ?x) parts ls" using Cons.prems(3) Some by (auto simp: all_valid_def)
    have "read_page parts l x = Some ?x" using Some v(1) Cons.prems(1,2) by (simp add: read_page_def get_maptbl_ent_def Let_def issue_read_def)
    then show ?thesis using read_loop_run [of ?x q 1 "pgsz (spp_of (rc_ftl x))"] v(2) Some by (simp add: issue_run_cong)
  qed
qed

lemma part_lpns_bound:
  assumes "l \<in> set (part_lpns parts lpn e)"
  shows "l \<le> e"
proof -
  obtain k where k: "k \<le> (e - lpn) div parts" "l = lpn + k * parts" "lpn \<le> e"
    using assms by (auto simp: part_lpns_def less_Suc_eq_le split: if_splits simp del: upt_Suc)
  have "k * parts \<le> (e - lpn) div parts * parts" using k(1) by (rule mult_le_mono1)
  also have "\<dots> \<le> e - lpn" by simp
  finally show ?thesis using k by simp
qed

lemma read_part_start:
  assumes "all_valid (rc_ftl x) parts (part_lpns parts lpn e)" and "lpn \<le> e" and "prev_ppa x = None" and "rc_xfer x = 0"
  shows "map_option read_core (read_part parts e lpn x)
     = map_option read_core (foldM issue_run (flash_runs (is_same_flash_page (rc_ftl x)) (mapped_pages (rc_ftl x) parts (part_lpns parts lpn e))) x)"
proof -
  obtain ls where ls: "part_lpns parts lpn e = lpn # ls"
    using assms(2) by (auto simp: part_lpns_def upt_conv_Cons simp del: upt_Suc)
  show ?thesis
  proof (cases "maptbl (rc_ftl x) (lpn div parts)")
    case None
    then have "x\<lparr>rc_xfer := 0, prev_ppa := get_maptbl_ent (rc_ftl x) (lpn div parts)\<rparr> = x"
      using assms(3,4) by (simp add: get_maptbl_ent_def)
    then show ?thesis using read_loop_idle [OF assms(3,4,1)] by (simp add: read_part_def)
  next
    case (Some p)
    let ?x = "x\<lparr>rc_xfer := of_nat (pgsz (spp_of (rc_ftl x))), prev_ppa := Some p\<rparr>"
    have v: "valid_ppa (rc_ftl x) p" "all_valid (rc_ftl ?x) parts ls" using assms(1) Some by (auto simp: all_valid_def ls)
    have "read_page parts lpn (x\<lparr>rc_xfer := 0, prev_ppa := Some p\<rparr>) = Some ?x"
      using Some v(1) by (simp add: read_page_def get_maptbl_ent_def Let_def is_same_flash_page_def)
    then show ?thesis using read_loop_run [of ?x p 1 "pgsz (spp_of (rc_ftl x))"] v(2) Some
      by (simp add: read_part_def ls get_maptbl_ent_def issue_run_cong)
  qed
qed

text \<open>
  C12. Reading a range from one partition sends the NAND exactly one read for each maximal run of pages on the
  same flash page, in order, each of the size of its run; unmapped pages are skipped, and together the runs
  have every mapped page once.
\<close>

theorem read_part_runs:
  assumes "conv_inv (rc_ftl x)" and "0 < parts" and "lpn \<le> e" and "e div parts < tt_pgs (spp_of (rc_ftl x))"
    and "prev_ppa x = None" and "rc_xfer x = 0"
  shows "let runs = flash_runs (is_same_flash_page (rc_ftl x)) (mapped_pages (rc_ftl x) parts (part_lpns parts lpn e))
     in map_option read_core (read_part parts e lpn x) = map_option read_core (foldM issue_run runs x)
        \<and> sum_list (map snd runs) = length (mapped_pages (rc_ftl x) parts (part_lpns parts lpn e))"
proof -
  have "all_valid (rc_ftl x) parts (part_lpns parts lpn e)" unfolding all_valid_def
  proof (intro ballI allI impI)
    fix l p assume "l \<in> set (part_lpns parts lpn e)" and m: "maptbl (rc_ftl x) (l div parts) = Some p"
    then have "l div parts < tt_pgs (spp_of (rc_ftl x))" using part_lpns_bound [of l parts lpn e] div_le_mono [of l e parts] assms(4) by simp
    then show "valid_ppa (rc_ftl x) p" using assms(1) m map_okD(1) unfolding valid_ppa_in_range conv_inv_def ftl_inv_def by blast
  qed
  then show ?thesis using read_part_start assms(3,5,6) flash_runs_total by (simp add: Let_def)
qed

theorem read_part_runs_witness:
  "\<forall>junk mem dj e c t. \<exists>s s' p. conv_init_ftl junk mem conv_init_params (ssd_init dj spp_64G) = Some s \<and> write_lpn s 7 = Some (s', p) \<and>
     (let x = \<lparr>rc_ftl = s', rc_env = e, srd = c, nsecs_latest = t, rc_xfer = 0, prev_ppa = None\<rparr>
      in map_option read_core (read_part 1 7 7 x) = map_option read_core (issue_run (p, 1) x))"
proof (intro allI)
  fix junk mem dj e c t
  obtain s where s: "conv_init_ftl junk mem conv_init_params (ssd_init dj spp_64G) = Some s" "conv_inv s" "7 < tt_pgs (spp_of s)" "0 < room s USER_IO"
    using fresh_64G [of junk mem dj] by auto
  obtain s' p where w: "write_lpn s 7 = Some (s', p)" "conv_inv s'" "maptbl s' = (maptbl s)(7 := Some p)" "spp_of s' = spp_of s"
    using write_lpn_ok [OF s(2-4)] by blast
  let ?x = "\<lparr>rc_ftl = s', rc_env = e, srd = c, nsecs_latest = t, rc_xfer = 0, prev_ppa = None\<rparr>"
  have pages: "mapped_pages s' 1 (part_lpns 1 7 7) = [p]" using w(3) by (simp add: part_lpns_def)
  have "map_option read_core (read_part 1 7 7 ?x) = map_option read_core (foldM issue_run (flash_runs (is_same_flash_page s') [p]) ?x)"
    using read_part_runs [of ?x 1 7 7] w(2,4) s(3) unfolding Let_def pages [symmetric] by simp
  then have "map_option read_core (read_part 1 7 7 ?x) = map_option read_core (issue_run (p, 1) ?x)" by (cases "issue_run (p, 1) ?x") simp_all
  then show "\<exists>s s' p. conv_init_ftl junk mem conv_init_params (ssd_init dj spp_64G) = Some s \<and> write_lpn s 7 = Some (s', p) \<and>
     (let x = \<lparr>rc_ftl = s', rc_env = e, srd = c, nsecs_latest = t, rc_xfer = 0, prev_ppa = None\<rparr>
      in map_option read_core (read_part 1 7 7 x) = map_option read_core (issue_run (p, 1) x))"
    using s(1) w(1) unfolding Let_def by blast
qed

end
