(* ===== verification/Conv_Device.thy ===== *)
theory Conv_Device
  imports Conv_Read
begin

text \<open>
  The conventional SSD as a whole: the contract of a device of logical pages (locale \<open>logical_device\<close>), its
  interpretation on the command interpreter of \<open>conv_ftl.c\<close>, and the properties of writing, collecting and
  flow control that a user of the translation layer relies on.
\<close>

section \<open>Any sequence of commands\<close>

lemma copy_pieces_timing:
  assumes "copy_pieces req a offs r ns dr ret = Some (ns', ret', st)" and "(ucast (copy_control_flag (cmd req)) :: u8) \<noteq> nvme_cmd_write"
  shows "ns_timing_only ns ns'"
  using assms
proof (induction req a offs r ns dr ret rule: copy_pieces.induct)
  case (1 req a offs r ns dr ret)
  show ?case
  proof (cases "r = 0")
    case True
    then show ?thesis using 1(2) by (simp add: copy_pieces.simps)
  next
    case False
    let ?len = "min r 0xFFFF" let ?op = "ucast (copy_control_flag (cmd req)) :: u8"
    let ?dummy = "\<lparr>cmd = zero_command\<lparr>opcode := ?op, slba := a + of_nat offs, rw_length := of_nat ?len\<rparr>, sq_id = 0xFFFFFFFF, nsecs_start = nsecs_start req\<rparr>"
    obtain ns1 dr1 st1 where one: "(if ?op = nvme_cmd_read then conv_read ns ?dummy dr else Some (ns, dr, NVMEV_IO_STATUS_SUCCESS)) = Some (ns1, dr1, st1)"
      and rest: "(if st1 \<noteq> NVMEV_IO_STATUS_SUCCESS then Some (ns1, ret\<lparr>nsecs_target := -1\<rparr>, st1)
         else copy_pieces req a (offs + (?len + 1)) (r - ?len) ns1 dr1 (ret\<lparr>nsecs_target := nsecs_target dr1\<rparr>)) = Some (ns', ret', st)"
      using 1(2,3) False by (simp add: copy_pieces.simps [of req a offs r] Let_def split: Option.bind_splits prod.splits del: fun_upd_apply)
    have t1: "ns_timing_only ns ns1" using one conv_read_timing by (auto split: if_splits)
    show ?thesis
    proof (cases "st1 = NVMEV_IO_STATUS_SUCCESS")
      case True
      then have "ns_timing_only ns1 ns'" using 1(1) [OF False refl refl refl] 1(3) one rest by auto
      then show ?thesis using t1 ns_timing_only_trans by blast
    qed (use rest t1 in auto)
  qed
qed

text \<open>
  What a command interpreter promises as a device with logical pages. A command may write several ranges of pages,
  one after the other: one that succeeds has written all of them, and one that does not stopped at one of them, so
  that it wrote the ranges before it and nothing else. A command with one range that fails writes nothing.
\<close>

fun run_cmds :: "('c \<Rightarrow> 's \<Rightarrow> ('s \<times> nvmev_io_status) option) \<Rightarrow> 'c list \<Rightarrow> 's \<Rightarrow> ('s \<times> nvmev_io_status list) option" where
  "run_cmds exec [] s = Some (s, [])"
| "run_cmds exec (c # cs) s = do { (s1, st) \<leftarrow> exec c s; (s', sts) \<leftarrow> run_cmds exec cs s1; Some (s', st # sts) }"

text \<open>How many of \<open>n\<close> ranges a command with status \<open>st\<close> can have written.\<close>

fun ranges_done :: "nat \<Rightarrow> nvmev_io_status \<Rightarrow> nat \<Rightarrow> bool" where
  "ranges_done n NVMEV_IO_STATUS_SUCCESS k \<longleftrightarrow> k = n"
| "ranges_done n _ k \<longleftrightarrow> k = 0 \<or> k < n"

inductive spec_run :: "('c \<Rightarrow> nat set list) \<Rightarrow> 'c list \<Rightarrow> nvmev_io_status list \<Rightarrow> nat set \<Rightarrow> bool" for pages where
  no_cmd: "spec_run pages [] [] {}"
| one_cmd: "ranges_done (length (pages c)) st k \<Longrightarrow> spec_run pages cs sts M
    \<Longrightarrow> spec_run pages (c # cs) (st # sts) (\<Union> (set (take k (pages c))) \<union> M)"

inductive_simps spec_run_simps [simp]: "spec_run pages [] sts M" "spec_run pages (c # cs) (st # sts) M"

locale logical_device =
  fixes inv :: "'s \<Rightarrow> bool" and content :: "'s \<Rightarrow> nat set"
    and exec :: "'c \<Rightarrow> 's \<Rightarrow> ('s \<times> nvmev_io_status) option" and accepted :: "'c \<Rightarrow> bool" and pages :: "'c \<Rightarrow> nat set list"
  assumes exec_inv: "inv s \<Longrightarrow> accepted c \<Longrightarrow> exec c s = Some (s', st) \<Longrightarrow> inv s'"
    and exec_content: "inv s \<Longrightarrow> accepted c \<Longrightarrow> exec c s = Some (s', st) \<Longrightarrow>
          \<exists>k. ranges_done (length (pages c)) st k \<and> content s' = content s \<union> \<Union> (set (take k (pages c)))"
begin

lemma run_refines:
  assumes "inv s" and "list_all accepted cs" and "run_cmds exec cs s = Some (s', sts)"
  shows "inv s' \<and> (\<exists>M. spec_run pages cs sts M \<and> content s' = content s \<union> M)"
  using assms
proof (induction cs arbitrary: s sts)
  case Nil
  then show ?case by (auto intro: exI [of _ "{}"])
next
  case (Cons c cs)
  then obtain s1 st sts1 where e: "exec c s = Some (s1, st)" "run_cmds exec cs s1 = Some (s', sts1)" "sts = st # sts1"
    by (auto split: Option.bind_splits)
  obtain k where k: "ranges_done (length (pages c)) st k" "content s1 = content s \<union> \<Union> (set (take k (pages c)))"
    using exec_content [OF _ _ e(1)] Cons.prems by auto
  obtain M where M: "inv s'" "spec_run pages cs sts1 M" "content s' = content s1 \<union> M" using Cons.IH [OF _ _ e(2)] exec_inv [OF _ _ e(1)] Cons.prems by auto
  have "spec_run pages (c # cs) sts (\<Union> (set (take k (pages c))) \<union> M)" unfolding e(3) by (rule spec_run.one_cmd [OF k(1) M(2)])
  moreover have "content s' = content s \<union> (\<Union> (set (take k (pages c))) \<union> M)" using k(2) M(3) by auto
  ultimately show ?case using M(1) by blast
qed

end

text \<open>The namespace as such a device: host requests, with the source range that \<open>get_prp_data\<close> fetches for a copy.\<close>

definition exec_cmd :: "(nvmev_request \<Rightarrow> u64 \<times> u32) \<Rightarrow> nvmev_request \<times> nvmev_result \<Rightarrow> conv_ns \<Rightarrow> (conv_ns \<times> nvmev_io_status) option" where
  "exec_cmd prp = (\<lambda>(req, ret) ns. map_option (\<lambda>(ns', _, st). (ns', st)) (conv_proc_nvme_io_cmd prp ns req ret))"

text \<open>The write commands that a copy to the namespace stands for; each piece starts one block further than the last one ended.\<close>

function copy_writes :: "u64 \<Rightarrow> nat \<Rightarrow> nat \<Rightarrow> nvme_command list" where
  "copy_writes saddr offs rest =
     (if rest = 0 then []
      else (let len = min rest 0xFFFF in
        zero_command\<lparr>opcode := nvme_cmd_write, slba := saddr + of_nat offs, rw_length := of_nat len\<rparr> # copy_writes saddr (offs + (len + 1)) (rest - len)))"
  by pat_completeness auto
termination
  by (relation "measure (\<lambda>(a, o', r). r)") auto

declare copy_writes.simps [simp del]

definition cmd_writes :: "(nvmev_request \<Rightarrow> u64 \<times> u32) \<Rightarrow> nvmev_request \<times> nvmev_result \<Rightarrow> nvme_command list" where
  "cmd_writes prp = (\<lambda>(req, ret).
     if opcode (cmd req) = nvme_cmd_write then [cmd req]
     else if opcode (cmd req) = nvme_cmd_namespace_copy \<and> (ucast (copy_control_flag (cmd req)) :: u8) = nvme_cmd_write
     then (let (saddr, nByte) = prp req in copy_writes saddr 0 (copy_block_size nByte))
     else [])"

definition write_pages :: "ssdparams \<Rightarrow> nvme_command \<Rightarrow> nat set" where
  "write_pages spp c = {start_lpn spp c..end_lpn spp c}"

definition cmd_pages :: "(nvmev_request \<Rightarrow> u64 \<times> u32) \<Rightarrow> ssdparams \<Rightarrow> nvmev_request \<times> nvmev_result \<Rightarrow> nat set list" where
  "cmd_pages prp spp c = map (write_pages spp) (cmd_writes prp c)"

text \<open>
  A write ends within the first \<open>L\<close> pages of its partition, which leaves spare space for the collection, or beyond the
  last page of the translation layer, where it is refused.
\<close>

definition in_space :: "ssdparams \<Rightarrow> nat \<Rightarrow> nat \<Rightarrow> nvme_command \<Rightarrow> bool" where
  "in_space spp parts L c \<longleftrightarrow> end_lpn spp c div parts < L \<or> tt_pgs spp \<le> end_lpn spp c div parts"

definition cmd_accepted :: "(nvmev_request \<Rightarrow> u64 \<times> u32) \<Rightarrow> ssdparams \<Rightarrow> nat \<Rightarrow> nat \<Rightarrow> nvmev_request \<times> nvmev_result \<Rightarrow> bool" where
  "cmd_accepted prp spp parts L c \<longleftrightarrow> list_all (in_space spp parts L) (cmd_writes prp c)"

definition dev_inv :: "ssdparams \<Rightarrow> nat \<Rightarrow> nat \<Rightarrow> conv_ns \<Rightarrow> bool" where
  "dev_inv spp parts L ns \<longleftrightarrow> ns_inv spp L ns \<and> nr_parts ns = parts"

lemma not_write_timing:
  assumes "conv_proc_nvme_io_cmd prp ns req ret = Some (ns', ret', st)" and "opcode (cmd req) \<noteq> nvme_cmd_write"
    and "opcode (cmd req) = nvme_cmd_namespace_copy \<longrightarrow> (ucast (copy_control_flag (cmd req)) :: u8) \<noteq> nvme_cmd_write"
  shows "ns_timing_only ns ns'"
proof -
  have flush: "ns_timing_only ns (fst (conv_flush ns req ret))" by (simp add: conv_flush_def Let_def split: prod.splits)
  have pcie: "pcie_rw ns req ret = Some (n, r) \<Longrightarrow> ns_timing_only ns n" for n r by (auto simp: pcie_rw_def split: Option.bind_splits)
  have copy: "opcode (cmd req) = nvme_cmd_namespace_copy \<Longrightarrow> conv_namespace_copy a b ns req ret = Some (n, r, t) \<Longrightarrow> ns_timing_only ns n" for a b n r t
    using assms(3) copy_pieces_timing by (auto simp: conv_namespace_copy_def split: if_splits)
  show ?thesis using assms(1,2) flush pcie copy conv_read_timing
    by (simp add: conv_proc_nvme_io_cmd_def Let_def split: if_splits prod.splits Option.bind_splits)
qed

lemma conv_write_step:
  assumes inv: "dev_inv spp parts L ns" and sp: "in_space spp parts L (cmd req)" and res: "conv_write ns req ret = Some (ns', ret', st)"
  shows "dev_inv spp parts L ns' \<and> written ns' = (if st = NVMEV_IO_STATUS_SUCCESS then written ns \<union> write_pages spp (cmd req) else written ns)"
proof (cases "end_lpn spp (cmd req) div parts < L")
  case True
  then show ?thesis using conv_write_ok [OF _ _ res, of spp L] inv by (simp add: dev_inv_def write_pages_def)
next
  case False
  then have b: "tt_pgs spp \<le> end_lpn spp (cmd req) div nr_parts ns" and i: "ns_inv spp L ns" using sp inv by (simp_all add: in_space_def dev_inv_def)
  have "ns' = ns" "st = NVMEV_IO_STATUS_ERROR" using res b ns_invD(1-3) [OF i] by (auto simp: conv_write_def Let_def)
  then show ?thesis using inv by simp
qed

lemma copy_pieces_writes:
  assumes "copy_pieces req a offs r ns dr ret = Some (ns', ret', st)" and "(ucast (copy_control_flag (cmd req)) :: u8) = nvme_cmd_write"
    and "dev_inv spp parts L ns" and "list_all (in_space spp parts L) (copy_writes a offs r)"
  shows "dev_inv spp parts L ns' \<and> (\<exists>k. (if st = NVMEV_IO_STATUS_SUCCESS then k = length (copy_writes a offs r) else k < length (copy_writes a offs r))
     \<and> written ns' = written ns \<union> \<Union> (set (take k (map (write_pages spp) (copy_writes a offs r)))))"
  using assms
proof (induction req a offs r ns dr ret rule: copy_pieces.induct)
  case (1 req a offs r ns dr ret)
  show ?case
  proof (cases "r = 0")
    case True
    then show ?thesis using 1(2,4) by (auto simp: copy_pieces.simps copy_writes.simps)
  next
    case False
    let ?len = "min r 0xFFFF"
    let ?c = "zero_command\<lparr>opcode := nvme_cmd_write, slba := a + of_nat offs, rw_length := of_nat ?len\<rparr>"
    let ?dummy = "\<lparr>cmd = ?c, sq_id = 0xFFFFFFFF, nsecs_start = nsecs_start req\<rparr>" and ?R = "copy_writes a (offs + (?len + 1)) (r - ?len)"
    obtain ns1 dr1 st1 where one: "conv_write ns ?dummy dr = Some (ns1, dr1, st1)"
      and rest: "(if st1 \<noteq> NVMEV_IO_STATUS_SUCCESS then Some (ns1, ret\<lparr>nsecs_target := -1\<rparr>, st1)
         else copy_pieces req a (offs + (?len + 1)) (r - ?len) ns1 dr1 (ret\<lparr>nsecs_target := nsecs_target dr1\<rparr>)) = Some (ns', ret', st)"
      using 1(2,3) False by (simp add: copy_pieces.simps [of req a offs r] Let_def split: Option.bind_splits prod.splits del: fun_upd_apply)
    have W: "copy_writes a offs r = ?c # ?R" using False by (subst copy_writes.simps) (simp add: Let_def)
    have sp: "in_space spp parts L ?c" "list_all (in_space spp parts L) ?R" using 1(5) unfolding W by simp_all
    note step = conv_write_step [OF 1(4) _ one, simplified, OF sp(1)]
    show ?thesis
    proof (cases "st1 = NVMEV_IO_STATUS_SUCCESS")
      case True
      then have "dev_inv spp parts L ns' \<and> (\<exists>k. (if st = NVMEV_IO_STATUS_SUCCESS then k = length ?R else k < length ?R) \<and> written ns' = written ns1 \<union> \<Union> (set (take k (map (write_pages spp) ?R))))"
        by (intro 1(1) [OF False refl refl refl, of "(ns1, dr1, st1)" ns1 "(dr1, st1)" dr1 st1]) (use 1(3) one rest step sp(2) in simp_all)
      then obtain k where k: "dev_inv spp parts L ns'" "if st = NVMEV_IO_STATUS_SUCCESS then k = length ?R else k < length ?R" "written ns' = written ns1 \<union> \<Union> (set (take k (map (write_pages spp) ?R)))" by blast
      then show ?thesis unfolding W using step True by (intro conjI [OF k(1)] exI [of _ "Suc k"]) (auto split: if_splits)
    next
      case no: False
      then have "ns' = ns1" "st = st1" using rest by simp_all
      then show ?thesis unfolding W using step no by (intro conjI exI [of _ 0]) simp_all
    qed
  qed
qed

lemma exec_cmd_step:
  assumes inv: "dev_inv spp parts L ns" and acc: "cmd_accepted prp spp parts L c" and e: "exec_cmd prp c ns = Some (ns', st)"
  shows "dev_inv spp parts L ns' \<and> (\<exists>k. ranges_done (length (cmd_pages prp spp c)) st k \<and> written ns' = written ns \<union> \<Union> (set (take k (cmd_pages prp spp c))))"
proof -
  obtain req ret where c: "c = (req, ret)" by (cases c)
  obtain ret' where p: "conv_proc_nvme_io_cmd prp ns req ret = Some (ns', ret', st)" using e by (auto simp: exec_cmd_def c)
  consider (w) "opcode (cmd req) = nvme_cmd_write"
    | (cp) "opcode (cmd req) = nvme_cmd_namespace_copy" "(ucast (copy_control_flag (cmd req)) :: u8) = nvme_cmd_write"
    | (n) "opcode (cmd req) \<noteq> nvme_cmd_write" "opcode (cmd req) = nvme_cmd_namespace_copy \<longrightarrow> (ucast (copy_control_flag (cmd req)) :: u8) \<noteq> nvme_cmd_write" by blast
  then show ?thesis
  proof cases
    case w
    then have "conv_write ns req ret = Some (ns', ret', st)" using p by (simp add: conv_proc_nvme_io_cmd_def)
    moreover have "cmd_writes prp c = [cmd req]" using w by (simp add: c cmd_writes_def)
    ultimately show ?thesis using conv_write_step [OF inv, of req ret ns' ret' st] acc
      by (cases st) (auto simp: cmd_accepted_def cmd_pages_def intro: exI [of _ 0] exI [of _ "Suc 0"])
  next
    case cp
    obtain saddr nByte where pr: "prp req = (saddr, nByte)" by (cases "prp req")
    have "opcode (cmd req) \<noteq> nvme_cmd_write" using cp(1) by (simp add: opcode_defs)
    then have W: "cmd_writes prp c = copy_writes saddr 0 (copy_block_size nByte)" using cp pr by (simp add: c cmd_writes_def)
    obtain dr where "copy_pieces req saddr 0 (copy_block_size nByte) ns dr ret = Some (ns', ret', st)"
      using p cp(1) pr by (auto simp: conv_proc_nvme_io_cmd_def conv_namespace_copy_def opcode_defs split: if_splits)
    from copy_pieces_writes [OF this cp(2) inv] show ?thesis using acc by (cases st) (auto simp: cmd_accepted_def cmd_pages_def W)
  next
    case n
    have "ns_timing_only ns ns'" using not_write_timing [OF p n] .
    moreover have "cmd_writes prp c = []" using n by (auto simp: c cmd_writes_def)
    moreover have "ranges_done 0 st 0" by (cases st) simp_all
    ultimately show ?thesis using inv ns_timing_only_inv [of ns ns'] by (auto simp: dev_inv_def cmd_pages_def ns_timing_only_def)
  qed
qed

interpretation conv_dev: logical_device "dev_inv spp parts L" written "exec_cmd prp" "cmd_accepted prp spp parts L" "cmd_pages prp spp"
  for spp parts L prp
  by unfold_locales (use exec_cmd_step in blast)+

section \<open>A fresh namespace\<close>

lemma conv_init_namespace_ok:
  assumes init: "ssd_init_params c (unat sz) parts = Some spp" and ok: "params_ok spp" and parts: "0 < parts" and secs: "0 < secs_per_pg spp"
    and L: "L \<le> tt_pgs spp" "L < (blks_per_pl spp - 4) * pgs_per_line spp"
  shows "\<exists>ns. conv_init_namespace c parts junk mem dj pj clk sz = Some ns \<and> dev_inv spp parts L ns \<and> written ns = {}
     \<and> env ns = ssd_init_env pj clk spp \<and> (\<forall>i<parts. wp_order spp (wp (ftls ns i)) = 0 \<and> write_credits (wfc (ftls ns i)) = of_nat (pgs_per_line spp))"
proof -
  let ?f = "\<lambda>i fs. Option.bind (conv_init_ftl (junk i) mem conv_init_params (ssd_init (dj i) spp)) (\<lambda>f. Some (fs(i := f)))"
  let ?I = "\<lambda>done (fs :: nat \<Rightarrow> conv_ftl). \<forall>i\<in>set done. flow_inv L (fs i) \<and> spp_of (fs i) = spp \<and> mapped (fs i) = {}
     \<and> wp_order spp (wp (fs i)) = 0 \<and> write_credits (wfc (fs i)) = of_nat (pgs_per_line spp)"
  have "\<exists>fs. foldM ?f [0..<parts] junk = Some fs \<and> ?I [0..<parts] fs"
  proof (rule foldM_total)
    fix "done" x rest s assume "?I done s"
    moreover obtain f where "conv_init_ftl (junk x) mem conv_init_params (ssd_init (dj x) spp) = Some f" "flow_inv L f" "spp_of f = spp" "mapped f = {}"
      "wp_order spp (wp f) = 0" "write_credits (wfc f) = of_nat (pgs_per_line spp)"
      using init_flow_inv [OF ok L] by blast
    ultimately show "\<exists>s'. ?f x s = Some s' \<and> ?I (done @ [x]) s'" by simp
  qed simp
  then obtain fs where fs: "foldM ?f [0..<parts] junk = Some fs" "\<forall>i<parts. flow_inv L (fs i) \<and> spp_of (fs i) = spp \<and> mapped (fs i) = {}
     \<and> wp_order spp (wp (fs i)) = 0 \<and> write_credits (wfc (fs i)) = of_nat (pgs_per_line spp)" by auto
  then show ?thesis using init parts secs by (auto simp: conv_init_namespace_def Let_def dev_inv_def ns_inv_def written_def conv_init_params_def)
qed

text \<open>
  A write of one page by the device itself returns when the page does not end a word line and a credit is left:
  it asks nothing of the timing model.
\<close>

lemma conv_write_quiet:
  assumes inv: "ns_inv spp L ns" and lpn: "start_lpn spp (cmd req) = lpn" "end_lpn spp (cmd req) = lpn" "lpn div nr_parts ns < L"
    and buf: "ucast (LBA_TO_BYTE (nr_lba (cmd req))) \<le> remaining (write_buffer (env ns))" "ucast (ucast (LBA_TO_BYTE (nr_lba (cmd req))) :: u32) = LBA_TO_BYTE (nr_lba (cmd req))"
    and quiet: "\<not> from_host req" "wp_pg (wp (ftls ns (lpn mod nr_parts ns))) mod pgs_per_oneshotpg spp \<noteq> pgs_per_oneshotpg spp - 1"
      "write_credits (wfc (ftls ns (lpn mod nr_parts ns))) \<noteq> 1"
  shows "\<exists>ns' ret'. conv_write ns req ret = Some (ns', ret', NVMEV_IO_STATUS_SUCCESS)"
proof -
  let ?s = "ftls ns (lpn mod nr_parts ns)" let ?l = "lpn div nr_parts ns"
  note d = ns_invD [OF inv]
  have flow: "flow_inv L ?s" "spp_of ?s = spp" using d by blast+
  have lt: "?l < tt_pgs (spp_of ?s)" "conv_inv ?s" using flow(1) lpn(3) by (simp_all add: flow_inv_def)
  have room: "0 < room ?s USER_IO" using flow(1) by (intro spare_lines(2) [OF lt(2)]) (simp add: flow_inv_def)
  obtain s1 p where w: "write_lpn ?s ?l = Some (s1, p)" "p = wp_page (wp ?s)" "spp_of s1 = spp" "wfc s1 = wfc ?s" "in_range spp p"
    using write_lpn_ok [OF lt(2,1) room] flow(2) by metis
  have fits: "fits_ppa spp" using conv_inv_parts(2) [OF lt(2)] flow(2) by simp
  have "wp_in_range spp (wp ?s)" using lt(2) flow(2) by (simp add: conv_inv_def ftl_inv_def wp_split_def)
  then have "g_pg p = wp_pg (wp ?s)" using w(2) fits by (simp add: set_ppa_page_at wp_in_range_def)
  then have last: "\<not> last_pg_in_wordline s1 p" using quiet(2) w(3) by (simp add: last_pg_in_wordline_def)
  have "write_credits (wfc (consume_write_credit s1)) \<noteq> 0" using quiet(3) w(4) by (simp add: consume_write_credit_def)
  then have some: "\<exists>n' t'. write_page req swr lpn (ns\<lparr>env := e\<rparr>, t) = Some (n', t')" for swr e t
    using w(1) last by (simp add: write_page_def Let_def check_and_refill_refilled)
  have range: "\<not> tt_pgs spp \<le> lpn div nr_parts ns" "secs_per_pg spp \<noteq> 0" "nr_parts ns \<noteq> 0" using lt(1) flow(2) d by simp_all
  let ?bytes = "LBA_TO_BYTE (nr_lba (cmd req))"
  define e where "e = (env ns)\<lparr>write_buffer := fst (buffer_allocate (write_buffer (env ns)) (ucast ?bytes))\<rparr>"
  define t where "t = nsecs_start req + fw_wbuf_lat0 spp + fw_wbuf_lat1 spp * DIV_ROUND_UP ?bytes (KB 4)"
  define swr where "swr = \<lparr>nand_op = NAND_WRITE, xfer_size = 0, stime = t, nand_stime = 0, interleave_pci_dma = False, cmd_ppa = None\<rparr>"
  have al: "snd (buffer_allocate (write_buffer (env ns)) (ucast ?bytes)) = ucast ?bytes" using buf(1) by (auto simp: buffer_allocate_def)
  have wbuf: "ssd_advance_write_buffer spp e (nsecs_start req) ?bytes (from_host req) = Some (e, t)"
    using quiet(1) by (simp add: ssd_advance_write_buffer_def t_def)
  obtain n' t' where n': "write_page req swr lpn (ns\<lparr>env := e\<rparr>, t) = Some (n', t')" using some by blast
  then have loop: "foldM (write_page req swr) [lpn..<lpn + 1] (ns\<lparr>env := e\<rparr>, t) = Some (n', t')" by simp
  show ?thesis unfolding conv_write_def Let_def d(3) lpn split_def al e_def [symmetric] wbuf swr_def [symmetric]
    using range buf(2) n' by (simp add: swr_def)
qed

text \<open>A write of logical page 0 that the device issues itself.\<close>

definition write0 :: nvmev_request where
  "write0 = \<lparr>cmd = zero_command\<lparr>opcode := nvme_cmd_write, rw_length := 7\<rparr>, sq_id = 0xFFFFFFFF, nsecs_start = 0\<rparr>"

lemma write0_pages: "start_lpn spp_64G (cmd write0) = 0" "end_lpn spp_64G (cmd write0) = 0" "LBA_TO_BYTE (nr_lba (cmd write0)) = 4096"
  by (simp_all add: write0_def zero_command_def start_lpn_def end_lpn_def nr_lba_def LBA_TO_BYTE_def spp_64G(3))

lemma wr_order_zero: "0 < nchs spp \<Longrightarrow> 0 < luns_per_ch spp \<Longrightarrow> 0 < pgs_per_oneshotpg spp \<Longrightarrow> wr_order spp c l g = 0 \<Longrightarrow> g = 0"
  unfolding wr_order_def by (metis add_is_0 div_mult_mod_eq mult_is_0 less_numeral_extra(3))

lemma write0_runs:
  "\<forall>junk mem dj pj clk prp ret. \<exists>ns0 ns. conv_init_namespace samsung_970pro 4 junk mem dj pj clk (2 ^ 36) = Some ns0
     \<and> run_cmds (exec_cmd prp) [(write0, ret)] ns0 = Some (ns, [NVMEV_IO_STATUS_SUCCESS])"
proof (intro allI)
  fix junk mem dj pj clk prp ret
  let ?L = "3919909 :: nat"
  have L: "?L \<le> tt_pgs spp_64G" "?L < (blks_per_pl spp_64G - 4) * pgs_per_line spp_64G" "0 < secs_per_pg spp_64G" by (simp_all add: spp_64G)
  obtain ns0 where n: "conv_init_namespace samsung_970pro 4 junk mem dj pj clk (2 ^ 36) = Some ns0" "dev_inv spp_64G 4 ?L ns0" "env ns0 = ssd_init_env pj clk spp_64G"
      "\<forall>i<4. wp_order spp_64G (wp (ftls ns0 i)) = 0 \<and> write_credits (wfc (ftls ns0 i)) = of_nat (pgs_per_line spp_64G)"
    using conv_init_namespace_ok [OF spp_64G(1,2) _ L(3,1,2), of junk mem dj pj clk] by auto
  have inv: "ns_inv spp_64G ?L ns0" "nr_parts ns0 = 4" using n(2) by (simp_all add: dev_inv_def)
  have w0: "wp_order spp_64G (wp (ftls ns0 0)) = 0" "write_credits (wfc (ftls ns0 0)) = of_nat (pgs_per_line spp_64G)" using n(4) by simp_all
  have pg: "wp_pg (wp (ftls ns0 0)) = 0" by (rule wr_order_zero [OF _ _ _ w0(1)]) (simp_all add: spp_64G)
  have "\<exists>ns' ret'. conv_write ns0 write0 ret = Some (ns', ret', NVMEV_IO_STATUS_SUCCESS)"
  proof (rule conv_write_quiet [OF inv(1) write0_pages(1,2)])
    show "write_credits (wfc (ftls ns0 (0 mod nr_parts ns0))) \<noteq> 1" using w0(2) by (simp add: spp_64G)
    show "\<not> from_host write0" by (simp add: from_host_def write0_def zero_command_def)
    show "ucast (LBA_TO_BYTE (nr_lba (cmd write0))) \<le> remaining (write_buffer (env ns0))"
      using n(3) by (simp add: write0_pages ssd_init_env_def buffer_init_def spp_64G)
  qed (use pg in \<open>simp_all add: write0_pages spp_64G\<close>)
  then obtain ns' ret' where w: "conv_write ns0 write0 ret = Some (ns', ret', NVMEV_IO_STATUS_SUCCESS)" by blast
  have r: "run_cmds (exec_cmd prp) [(write0, ret)] ns0 = Some (ns', [NVMEV_IO_STATUS_SUCCESS])"
    using w by (simp add: exec_cmd_def conv_proc_nvme_io_cmd_def write0_def zero_command_def)
  then show "\<exists>ns0 ns. conv_init_namespace samsung_970pro 4 junk mem dj pj clk (2 ^ 36) = Some ns0
     \<and> run_cmds (exec_cmd prp) [(write0, ret)] ns0 = Some (ns, [NVMEV_IO_STATUS_SUCCESS])" using n(1) by blast
qed

section \<open>One partition\<close>

lemma map_inj:
  assumes "conv_inv s"
  shows "inj_on (maptbl s) (mapped s)"
proof (rule inj_onI)
  fix a b assume ab: "a \<in> mapped s" "b \<in> mapped s" "maptbl s a = maptbl s b"
  then obtain p where p: "maptbl s a = Some p" "maptbl s b = Some p" "a < tt_pgs (spp_of s)" "b < tt_pgs (spp_of s)" by (auto simp: mapped_def)
  have m: "map_ok (spp_of s) (pst (ssd s)) (maptbl s) (rmap s) {} {}" using assms by (simp add: conv_inv_def ftl_inv_def)
  then have "rmap s (pgidx (spp_of s) p) = Some a" "rmap s (pgidx (spp_of s) p) = Some b" using p map_okD(1) by blast+
  then show "a = b" by simp
qed

text \<open>
  C4. Writing a logical page while the host pointer has room takes a free physical page, enters exactly that
  page in the map and changes no other entry; no two logical pages share a physical page, and the counters,
  lists and queue of the lines stay consistent with the page states.
\<close>

theorem write_lpn_fresh_page:
  assumes "conv_inv s" and "lpn < tt_pgs (spp_of s)" and "0 < room s USER_IO"
  shows "\<exists>s' p. write_lpn s lpn = Some (s', p) \<and> pst (ssd s) p = PG_FREE \<and> in_range (spp_of s) p \<and> maptbl s' = (maptbl s)(lpn := Some p)
     \<and> inj_on (maptbl s') (mapped s') \<and> conv_inv s' \<and> room s' USER_IO = room s USER_IO - 1"
  using write_lpn_ok [OF assms] map_inj by metis

theorem write_lpn_fresh_page_witness:
  "\<forall>junk mem dj. \<exists>s s' p. conv_init_ftl junk mem conv_init_params (ssd_init dj spp_64G) = Some s \<and> write_lpn s 7 = Some (s', p) \<and> maptbl s' 7 = Some p \<and> conv_inv s'"
proof (intro allI)
  fix junk mem dj
  obtain s where s: "conv_init_ftl junk mem conv_init_params (ssd_init dj spp_64G) = Some s" "conv_inv s" "7 < tt_pgs (spp_of s)" "0 < room s USER_IO"
    using fresh_64G [of junk mem dj] by auto
  show "\<exists>s s' p. conv_init_ftl junk mem conv_init_params (ssd_init dj spp_64G) = Some s \<and> write_lpn s 7 = Some (s', p) \<and> maptbl s' 7 = Some p \<and> conv_inv s'"
    using s(1) write_lpn_fresh_page [OF s(2-4)] by fastforce
qed

text \<open>
  C3. A collection either finds nothing to collect and changes nothing, or, when it returns, has emptied a
  victim line and put it on the free list: exactly the same logical pages are mapped as before, one that moved
  was on that line and is now on a page that was free elsewhere, and no free line was lost. When delays are not
  simulated it always returns.
\<close>

theorem do_gc_keeps_data:
  assumes "conv_inv s" and "free_line_list (lm s) \<noteq> []"
  shows "(do_gc force (s, e) = Some ((s, e), False) \<and> (force \<longrightarrow> victims (lm s) = {})) \<or>
     ((\<forall>s' e' b. do_gc force (s, e) = Some ((s', e'), b) \<longrightarrow> b \<and> conv_inv s' \<and> mapped s' = mapped s
          \<and> length (free_line_list (lm s)) \<le> length (free_line_list (lm s'))
          \<and> (\<exists>v\<in>victims (lm s). v \<in> set (free_line_list (lm s')) \<and>
               (\<forall>l. maptbl s' l \<noteq> maptbl s l \<longrightarrow> (\<exists>p p'. maptbl s l = Some p \<and> p \<in> line_pages (spp_of s) v \<and> maptbl s' l = Some p' \<and> pst (ssd s) p' = PG_FREE))))
      \<and> (\<not> enable_gc_delay (cp s) \<longrightarrow> do_gc force (s, e) \<noteq> None))"
proof -
  have post: "conv_inv s' \<and> mapped s' = mapped s \<and> length (free_line_list (lm s)) \<le> length (free_line_list (lm s'))
      \<and> (\<exists>v\<in>victims (lm s). v \<in> set (free_line_list (lm s')) \<and>
           (\<forall>l. maptbl s' l \<noteq> maptbl s l \<longrightarrow> (\<exists>p p'. maptbl s l = Some p \<and> p \<in> line_pages (spp_of s) v \<and> maptbl s' l = Some p' \<and> pst (ssd s) p' = PG_FREE)))"
    if g: "gc_post s s'" for s'
  proof -
    obtain v where v: "v \<in> victims (lm s)" "v \<in> set (free_line_list (lm s'))" "moved v s s'" "spp_of s' = spp_of s" using g unfolding gc_post_def by blast
    have "mapped s' = mapped s" by (rule moved_mapped [OF v(3,4)])
    moreover have "\<forall>l. maptbl s' l \<noteq> maptbl s l \<longrightarrow> (\<exists>p p'. maptbl s l = Some p \<and> p \<in> line_pages (spp_of s) v \<and> maptbl s' l = Some p' \<and> pst (ssd s) p' = PG_FREE)"
      using v(3) unfolding moved_def by blast
    ultimately show ?thesis using g v(1,2) unfolding gc_post_def by blast
  qed
  show ?thesis using do_gc_ok [OF assms, of force e] post by blast
qed

theorem do_gc_keeps_data_witness:
  "\<forall>junk mem dj e. \<exists>s. conv_init_ftl junk mem conv_init_params (ssd_init dj spp_64G) = Some s \<and>
     (do_gc False (s, e) = Some ((s, e), False) \<or> (\<forall>s' e'. do_gc False (s, e) \<noteq> Some ((s', e'), False)))"
proof (intro allI)
  fix junk mem dj e
  obtain s where s: "conv_init_ftl junk mem conv_init_params (ssd_init dj spp_64G) = Some s" "conv_inv s" "free_line_list (lm s) \<noteq> []"
    using fresh_64G [of junk mem dj] by auto
  show "\<exists>s. conv_init_ftl junk mem conv_init_params (ssd_init dj spp_64G) = Some s \<and>
     (do_gc False (s, e) = Some ((s, e), False) \<or> (\<forall>s' e'. do_gc False (s, e) \<noteq> Some ((s', e'), False)))"
    using s(1) do_gc_keeps_data [OF s(2,3), of False e] by blast
qed

text \<open>
  C5. Flow control keeps writing possible: while the host stays within the first \<open>L\<close> logical pages, every write
  of a page finds a page, and after its credit is spent and refilled (with a collection when lines are short) the
  same holds again; the step stops only if the simulated delays of the collection stop it.
\<close>

theorem write_credit_never_stalls:
  assumes "flow_inv L s" and "lpn < L"
  shows "\<exists>s1 p. write_lpn s lpn = Some (s1, p) \<and>
     (case check_and_refill_write_credit (consume_write_credit s1, e) of
        None \<Rightarrow> enable_gc_delay (cp s)
      | Some (s2, e2) \<Rightarrow> flow_inv L s2 \<and> mapped s2 = insert lpn (mapped s))"
proof -
  obtain s1 p where w: "write_lpn s lpn = Some (s1, p)" "flow_due L (consume_write_credit s1)" "maptbl s1 = (maptbl s)(lpn := Some p)"
    "cp s1 = cp s" "spp_of s1 = spp_of s" using write_flow [OF assms] by blast
  have "lpn < tt_pgs (spp_of s)" using assms by (simp add: flow_inv_def)
  then have "mapped s1 = insert lpn (mapped s)" using w(3,5) by (auto simp: mapped_def)
  then have m: "mapped (consume_write_credit s1) = insert lpn (mapped s)" "cp (consume_write_credit s1) = cp s" using w(4) by (simp_all add: consume_nand, simp add: consume_write_credit_def)
  have g: "gc_res (enable_gc_delay (cp s)) (check_and_refill_write_credit (consume_write_credit s1, e)) (\<lambda>t. flow_inv L t \<and> mapped t = insert lpn (mapped s))"
    using check_and_refill_ok [OF w(2), of e] unfolding m by (rule gc_res_mono) blast
  show ?thesis
  proof (cases "check_and_refill_write_credit (consume_write_credit s1, e)")
    case None
    then show ?thesis using w(1) g by (simp add: gc_res_def)
  next
    case (Some x)
    then show ?thesis using w(1) g by (cases x) (simp add: gc_res_def)
  qed
qed

theorem write_credit_never_stalls_witness:
  "\<forall>junk mem dj e. \<exists>s s1 p. conv_init_ftl junk mem conv_init_params (ssd_init dj spp_64G) = Some s \<and> write_lpn s 7 = Some (s1, p) \<and>
     (case check_and_refill_write_credit (consume_write_credit s1, e) of None \<Rightarrow> enable_gc_delay (cp s) | Some (s2, e2) \<Rightarrow> flow_inv 3919909 s2 \<and> mapped s2 = {7})"
proof (intro allI)
  fix junk mem dj e
  obtain s where s: "conv_init_ftl junk mem conv_init_params (ssd_init dj spp_64G) = Some s" "flow_inv 3919909 s" "mapped s = {}" using fresh_64G [of junk mem dj] by auto
  have seven: "7 < (3919909 :: nat)" by simp
  show "\<exists>s s1 p. conv_init_ftl junk mem conv_init_params (ssd_init dj spp_64G) = Some s \<and> write_lpn s 7 = Some (s1, p) \<and>
     (case check_and_refill_write_credit (consume_write_credit s1, e) of None \<Rightarrow> enable_gc_delay (cp s) | Some (s2, e2) \<Rightarrow> flow_inv 3919909 s2 \<and> mapped s2 = {7})"
    using s(1) write_credit_never_stalls [OF s(2) seven, of e] unfolding s(3) by blast
qed

primrec advance_steps :: "io_type \<Rightarrow> nat \<Rightarrow> conv_ftl \<Rightarrow> conv_ftl option" where
  "advance_steps io 0 s = Some s"
| "advance_steps io (Suc k) s = Option.bind (advance_steps io k s) (\<lambda>t. advance_write_pointer t io)"

lemma get_set_wp [simp]: "get_wp io (set_wp io s w) = w" "spp_of (set_wp io s w) = spp_of s" "set_wp io (set_wp io s w) w' = set_wp io s w'"
  by (cases io; simp)+

lemma advance_steps_order:
  assumes geo: "geometry (spp_of s)" and w: "wp_in_range (spp_of s) (get_wp io s)" "wp_order (spp_of s) (get_wp io s) = 0" and k: "k < pgs_per_line (spp_of s)"
  shows "\<exists>w'. advance_steps io k s = Some (set_wp io s w') \<and> wp_in_range (spp_of s) w' \<and> curline w' = curline (get_wp io s) \<and> wp_order (spp_of s) w' = k"
  using k
proof (induction k)
  case 0
  have "set_wp io s (get_wp io s) = s" by (cases io) simp_all
  then show ?case using w by (intro exI [of _ "get_wp io s"]) simp
next
  case (Suc k)
  then obtain w' where w': "advance_steps io k s = Some (set_wp io s w')" "wp_in_range (spp_of s) w'" "curline w' = curline (get_wp io s)" "wp_order (spp_of s) w' = k" by auto
  then show ?case using advance_same_line [of "set_wp io s w'" io] geo Suc.prems by auto
qed

text \<open>
  C13. The write pointer goes through a line in the order of one-shot pages over channels and dies: from the
  start of a line, \<open>k\<close> steps of \<open>advance_write_pointer\<close> reach page number \<open>k\<close> of that order on the same line,
  and the order numbers every page of the line exactly once.
\<close>

theorem write_pointer_order:
  assumes "geometry (spp_of s)" and "wp_in_range (spp_of s) (get_wp io s)" and "wp_order (spp_of s) (get_wp io s) = 0" and "k < pgs_per_line (spp_of s)"
  shows "\<exists>w. advance_steps io k s = Some (set_wp io s w) \<and> wp_page w = order_page (spp_of s) (curline (get_wp io s)) k
     \<and> bij_betw (order_page (spp_of s) (curline (get_wp io s))) {..<pgs_per_line (spp_of s)} (line_pages (spp_of s) (curline (get_wp io s)))"
proof -
  let ?spp = "spp_of s" let ?b = "curline (get_wp io s)"
  obtain w where w: "advance_steps io k s = Some (set_wp io s w)" "wp_in_range ?spp w" "curline w = ?b" "wp_order ?spp w = k"
    using advance_steps_order [OF assms] by blast
  have b: "?b < blks_per_pl ?spp" using assms(2) by (simp add: wp_in_range_def)
  note op = order_page [OF assms(1) _ b]
  have p: "wp_page w \<in> line_pages ?spp ?b" using wp_page_in_line [OF assms(1) w(2)] w(3) by simp
  then have eq: "wp_page w = order_page ?spp ?b k" using page_order_inj [OF assms(1) p op(1) [OF assms(4)]] op(2) [OF assms(4)] w(4) by simp
  have "bij_betw (order_page ?spp ?b) {..<pgs_per_line ?spp} (line_pages ?spp ?b)"
  proof (rule bij_betw_byWitness [where f' = "page_order ?spp"])
    show "\<forall>a\<in>{..<pgs_per_line ?spp}. page_order ?spp (order_page ?spp ?b a) = a" using op(2) by simp
    show "\<forall>q\<in>line_pages ?spp ?b. order_page ?spp ?b (page_order ?spp q) = q"
      using page_order_inj [OF assms(1)] op bij_betwE [OF line_pages_bij [OF assms(1) b]] by blast
    show "order_page ?spp ?b ` {..<pgs_per_line ?spp} \<subseteq> line_pages ?spp ?b" using op(1) by auto
    show "page_order ?spp ` line_pages ?spp ?b \<subseteq> {..<pgs_per_line ?spp}" using line_pages_bij [OF assms(1) b] by (simp add: bij_betw_def)
  qed
  then show ?thesis using w(1) eq by blast
qed

theorem write_pointer_order_witness:
  "\<forall>junk mem dj. \<exists>s w. conv_init_ftl junk mem conv_init_params (ssd_init dj spp_64G) = Some s \<and> advance_steps USER_IO 300 s = Some (set_wp USER_IO s w)
     \<and> wp_page w = order_page spp_64G (curline (wp s)) 300"
proof (intro allI)
  fix junk mem dj
  have L: "3919909 \<le> tt_pgs spp_64G" "3919909 < (blks_per_pl spp_64G - 4) * pgs_per_line spp_64G" by (simp_all add: spp_64G)
  obtain s where s: "conv_init_ftl junk mem conv_init_params (ssd_init dj spp_64G) = Some s" "flow_inv 3919909 s" "spp_of s = spp_64G" "wp_order spp_64G (wp s) = 0"
    using init_flow_inv [OF spp_64G(2) L] by blast
  have "geometry spp_64G" "wp_in_range spp_64G (wp s)" using s(2,3) by (simp_all add: flow_inv_def conv_inv_def ftl_inv_def wp_split_def params_ok_def)
  moreover have "300 < pgs_per_line spp_64G" by (simp add: spp_64G)
  ultimately show "\<exists>s w. conv_init_ftl junk mem conv_init_params (ssd_init dj spp_64G) = Some s \<and> advance_steps USER_IO 300 s = Some (set_wp USER_IO s w)
     \<and> wp_page w = order_page spp_64G (curline (wp s)) 300"
    using s(1) write_pointer_order [of s USER_IO 300] unfolding s(3) get_wp.simps using s(4) by blast
qed

section \<open>Requests that are refused\<close>

lemma command_bytes: "unat (LBA_TO_BYTE (nr_lba c)) = (unat (rw_length c) + 1) * 512"
proof -
  have w: "unat (rw_length c) < 65536" using unsigned_less [of "rw_length c"] by simp
  have tb: "take_bit 64 (unat (rw_length c)) = unat (rw_length c)" using w by (simp add: take_bit_nat_eq_self)
  have "unat (nr_lba c) = unat (rw_length c) + 1" unfolding nr_lba_def using w tb by (simp add: unat_word_ariths unsigned_ucast_eq)
  then show ?thesis using w by (simp add: LBA_TO_BYTE_def push_bit_eq_mult unat_word_ariths)
qed

text \<open>The write buffer either takes all bytes of a command or is left as it was.\<close>

lemma command_buffer:
  "ucast (snd (buffer_allocate b (ucast (LBA_TO_BYTE (nr_lba c))))) < LBA_TO_BYTE (nr_lba c)
     \<longleftrightarrow> remaining b < ucast (LBA_TO_BYTE (nr_lba c))"
  "remaining b < ucast (LBA_TO_BYTE (nr_lba c)) \<Longrightarrow> fst (buffer_allocate b (ucast (LBA_TO_BYTE (nr_lba c)))) = b"
proof -
  have "unat (rw_length c) < 65536" using unsigned_less [of "rw_length c"] by simp
  then have fit: "LBA_TO_BYTE (nr_lba c) \<le> ucast (ucast (LBA_TO_BYTE (nr_lba c)) :: u32)" "0 < LBA_TO_BYTE (nr_lba c)"
    using command_bytes [of c] by (simp_all add: word_le_nat_alt word_less_nat_alt unsigned_ucast_eq unsigned_take_bit_eq take_bit_nat_eq_self)
  show "ucast (snd (buffer_allocate b (ucast (LBA_TO_BYTE (nr_lba c))))) < LBA_TO_BYTE (nr_lba c) \<longleftrightarrow> remaining b < ucast (LBA_TO_BYTE (nr_lba c))"
    using fit by (cases "remaining b < ucast (LBA_TO_BYTE (nr_lba c))") (simp_all add: buffer_allocate_def leD)
  show "remaining b < ucast (LBA_TO_BYTE (nr_lba c)) \<Longrightarrow> fst (buffer_allocate b (ucast (LBA_TO_BYTE (nr_lba c)))) = b"
    by (simp add: buffer_allocate_def)
qed

text \<open>The three outcomes of a read or a write before anything is transferred.\<close>

lemma write_refusals:
  assumes "0 < nr_parts ns" and "0 < secs_per_pg (ns_spp ns)"
  shows "tt_pgs (ns_spp ns) \<le> end_lpn (ns_spp ns) (cmd req) div nr_parts ns \<Longrightarrow>
      conv_write ns req ret = Some (ns, ret\<lparr>res_status := NVME_SC_DATA_XFER_ERROR, nsecs_target := nsecs_start req\<rparr>, NVMEV_IO_STATUS_ERROR)"
    "end_lpn (ns_spp ns) (cmd req) div nr_parts ns < tt_pgs (ns_spp ns) \<Longrightarrow> remaining (write_buffer (env ns)) < ucast (LBA_TO_BYTE (nr_lba (cmd req))) \<Longrightarrow>
      conv_write ns req ret = Some (ns, ret, NVMEV_IO_STATUS_DEFERRED)"
    "end_lpn (ns_spp ns) (cmd req) div nr_parts ns < tt_pgs (ns_spp ns) \<Longrightarrow> \<not> remaining (write_buffer (env ns)) < ucast (LBA_TO_BYTE (nr_lba (cmd req))) \<Longrightarrow>
      conv_write ns req ret = Some (ns', ret', st) \<Longrightarrow> st = NVMEV_IO_STATUS_SUCCESS"
  using assms command_buffer [of "write_buffer (env ns)" "cmd req"]
  by (auto simp: conv_write_def Let_def split_def split: if_splits Option.bind_splits)

text \<open>
  C35. A read or write whose last page is beyond the translation layer is refused with \<open>NVME_SC_DATA_XFER_ERROR\<close>, and
  a write within it for which the write buffer is short is deferred; both leave the namespace as it was. No other read
  or write, and no other command but a copy, ends with an error or is deferred.
\<close>

theorem refused_unchanged:
  assumes "0 < nr_parts ns" and "0 < secs_per_pg (ns_spp ns)" and "opcode (cmd req) \<noteq> nvme_cmd_namespace_copy"
  shows "if opcode (cmd req) \<in> {nvme_cmd_read, nvme_cmd_write} \<and> tt_pgs (ns_spp ns) \<le> end_lpn (ns_spp ns) (cmd req) div nr_parts ns
     then conv_proc_nvme_io_cmd prp ns req ret = Some (ns, ret\<lparr>res_status := NVME_SC_DATA_XFER_ERROR, nsecs_target := nsecs_start req\<rparr>, NVMEV_IO_STATUS_ERROR)
     else if opcode (cmd req) = nvme_cmd_write \<and> remaining (write_buffer (env ns)) < ucast (LBA_TO_BYTE (nr_lba (cmd req)))
     then conv_proc_nvme_io_cmd prp ns req ret = Some (ns, ret, NVMEV_IO_STATUS_DEFERRED)
     else \<forall>ns' ret' st. conv_proc_nvme_io_cmd prp ns req ret = Some (ns', ret', st) \<longrightarrow> st = NVMEV_IO_STATUS_SUCCESS"
proof -
  consider (w) "opcode (cmd req) = nvme_cmd_write" | (r) "opcode (cmd req) = nvme_cmd_read" | (n) "opcode (cmd req) \<notin> {nvme_cmd_read, nvme_cmd_write}" by blast
  then show ?thesis
  proof cases
    case w
    then have "conv_proc_nvme_io_cmd prp ns req ret = conv_write ns req ret" by (simp add: conv_proc_nvme_io_cmd_def)
    then show ?thesis using w write_refusals [OF assms(1,2), of req ret] by (auto simp: not_le)
  next
    case r
    then have "conv_proc_nvme_io_cmd prp ns req ret = conv_read ns req ret" "nvme_cmd_read \<noteq> nvme_cmd_write" by (simp_all add: conv_proc_nvme_io_cmd_def opcode_defs)
    then show ?thesis using r assms(1,2) by (auto simp: conv_read_def Let_def split: Option.bind_splits)
  next
    case n
    then show ?thesis using assms(3) by (auto simp: conv_proc_nvme_io_cmd_def Let_def split: if_splits prod.splits Option.bind_splits)
  qed
qed

theorem refused_unchanged_witness:
  "\<forall>ret prp junk mem dj pj clk. \<exists>ns. conv_init_namespace samsung_970pro 4 junk mem dj pj clk (2 ^ 36) = Some ns
     \<and> (\<forall>op\<in>{nvme_cmd_read, nvme_cmd_write}. \<exists>ret'. conv_proc_nvme_io_cmd prp ns (write0\<lparr>cmd := (cmd write0)\<lparr>opcode := op, slba := 2 ^ 27\<rparr>\<rparr>) ret = Some (ns, ret', NVMEV_IO_STATUS_ERROR))
     \<and> conv_proc_nvme_io_cmd prp (ns\<lparr>env := (env ns)\<lparr>write_buffer := buffer_init 512\<rparr>\<rparr>) write0 ret = Some (ns\<lparr>env := (env ns)\<lparr>write_buffer := buffer_init 512\<rparr>\<rparr>, ret, NVMEV_IO_STATUS_DEFERRED)"
proof (intro allI)
  fix ret prp junk mem dj pj clk
  have L: "3919909 \<le> tt_pgs spp_64G" "3919909 < (blks_per_pl spp_64G - 4) * pgs_per_line spp_64G" "0 < secs_per_pg spp_64G" by (simp_all add: spp_64G)
  obtain ns where n: "conv_init_namespace samsung_970pro 4 junk mem dj pj clk (2 ^ 36) = Some ns" "dev_inv spp_64G 4 3919909 ns"
    using conv_init_namespace_ok [OF spp_64G(1,2) _ L(3,1,2), of junk mem dj pj clk] by auto
  have d: "ns_spp ns = spp_64G" "nr_parts ns = 4" using n(2) ns_invD by (auto simp: dev_inv_def)
  let ?short = "ns\<lparr>env := (env ns)\<lparr>write_buffer := buffer_init 512\<rparr>\<rparr>"
  have e: "end_lpn spp_64G ((cmd write0)\<lparr>opcode := op, slba := 2 ^ 27\<rparr>) div 4 = 4194304" for op by (simp add: write0_def zero_command_def end_lpn_def nr_lba_def spp_64G)
  have "\<exists>ret'. conv_proc_nvme_io_cmd prp ns (write0\<lparr>cmd := (cmd write0)\<lparr>opcode := op, slba := 2 ^ 27\<rparr>\<rparr>) ret = Some (ns, ret', NVMEV_IO_STATUS_ERROR)"
    if "op \<in> {nvme_cmd_read, nvme_cmd_write}" for op
    using refused_unchanged [of ns "write0\<lparr>cmd := (cmd write0)\<lparr>opcode := op, slba := 2 ^ 27\<rparr>\<rparr>" prp ret] that e [of op] by (auto simp: d spp_64G opcode_defs)
  moreover have "conv_proc_nvme_io_cmd prp ?short write0 ret = Some (?short, ret, NVMEV_IO_STATUS_DEFERRED)"
  proof -
    have "opcode (cmd write0) = nvme_cmd_write" by (simp add: write0_def)
    then show ?thesis using refused_unchanged [of ?short write0 prp ret] write0_pages(2,3) by (simp add: d spp_64G opcode_defs buffer_init_def)
  qed
  ultimately show "\<exists>ns. conv_init_namespace samsung_970pro 4 junk mem dj pj clk (2 ^ 36) = Some ns
     \<and> (\<forall>op\<in>{nvme_cmd_read, nvme_cmd_write}. \<exists>ret'. conv_proc_nvme_io_cmd prp ns (write0\<lparr>cmd := (cmd write0)\<lparr>opcode := op, slba := 2 ^ 27\<rparr>\<rparr>) ret = Some (ns, ret', NVMEV_IO_STATUS_ERROR))
     \<and> conv_proc_nvme_io_cmd prp (ns\<lparr>env := (env ns)\<lparr>write_buffer := buffer_init 512\<rparr>\<rparr>) write0 ret = Some (ns\<lparr>env := (env ns)\<lparr>write_buffer := buffer_init 512\<rparr>\<rparr>, ret, NVMEV_IO_STATUS_DEFERRED)"
    using n(1) by blast
qed

text \<open>
  C36. The range check looks at the end of a request only. When the 64-bit sum of start and length wraps, the end
  is before the start: a read of such a range is answered with success without reading anything, and so is a write
  for which the buffer has room and whose transfer into it is timed; it writes nothing, while its bytes are taken
  from the write buffer and never queued for release.
\<close>

theorem wrapped_range_accepted:
  assumes "end_lpn (ns_spp ns) (cmd req) < start_lpn (ns_spp ns) (cmd req)" and "end_lpn (ns_spp ns) (cmd req) div nr_parts ns < tt_pgs (ns_spp ns)"
    and "0 < nr_parts ns" and "0 < secs_per_pg (ns_spp ns)"
    and "ucast (LBA_TO_BYTE (nr_lba (cmd req))) \<le> remaining (write_buffer (env ns))"
    and "ssd_advance_write_buffer (ns_spp ns) ((env ns)\<lparr>write_buffer := fst (buffer_allocate (write_buffer (env ns)) (ucast (LBA_TO_BYTE (nr_lba (cmd req)))))\<rparr>)
      (nsecs_start req) (LBA_TO_BYTE (nr_lba (cmd req))) (from_host req) = Some (e, t)"
  shows "(\<exists>ret'. conv_read ns req ret = Some (ns, ret', NVMEV_IO_STATUS_SUCCESS))
     \<and> (\<exists>ns' ret'. conv_write ns req ret = Some (ns', ret', NVMEV_IO_STATUS_SUCCESS) \<and> ftls ns' = ftls ns \<and> writebacks ns' = writebacks ns
          \<and> remaining (write_buffer (env ns')) = remaining (write_buffer (env ns)) - ucast (LBA_TO_BYTE (nr_lba (cmd req))))"
proof -
  let ?b = "LBA_TO_BYTE (nr_lba (cmd req))"
  have l: "[start_lpn (ns_spp ns) (cmd req)..<end_lpn (ns_spp ns) (cmd req) + 1] = []" "first_lpns (nr_parts ns) (start_lpn (ns_spp ns) (cmd req)) (end_lpn (ns_spp ns) (cmd req)) = []"
    using assms(1) by (simp_all add: first_lpns_def)
  have r: "\<not> tt_pgs (ns_spp ns) \<le> end_lpn (ns_spp ns) (cmd req) div nr_parts ns" using assms(2) by simp
  have read: "\<exists>ret'. conv_read ns req ret = Some (ns, ret', NVMEV_IO_STATUS_SUCCESS)"
    unfolding conv_read_def Let_def l using r assms(3,4) by simp
  have got: "\<not> ucast (snd (buffer_allocate (write_buffer (env ns)) (ucast ?b))) < ?b" using command_buffer(1) assms(5) by (simp add: not_less)
  have "\<exists>ret'. conv_write ns req ret = Some (ns\<lparr>env := e\<rparr>, ret', NVMEV_IO_STATUS_SUCCESS)"
    unfolding conv_write_def Let_def l split_def assms(6) using r got assms(3,4) by simp
  moreover have "write_buffer e = fst (buffer_allocate (write_buffer (env ns)) (ucast ?b))"
    using assms(6) by (auto simp: ssd_advance_write_buffer_def ssd_advance_pcie_def get_clock_def Let_def split: if_splits Option.bind_splits)
  ultimately show ?thesis using read assms(5) by (auto simp: buffer_allocate_def)
qed

theorem wrapped_range_accepted_witness:
  "\<forall>ret junk mem dj pj clk. \<exists>ns ns' ret' ret''. conv_init_namespace samsung_970pro 4 junk mem dj pj clk (2 ^ 36) = Some ns
     \<and> conv_read ns (write0\<lparr>cmd := (cmd write0)\<lparr>slba := 2 ^ 64 - 4\<rparr>\<rparr>) ret = Some (ns, ret', NVMEV_IO_STATUS_SUCCESS)
     \<and> conv_write ns (write0\<lparr>cmd := (cmd write0)\<lparr>slba := 2 ^ 64 - 4\<rparr>\<rparr>) ret = Some (ns', ret'', NVMEV_IO_STATUS_SUCCESS)
     \<and> ftls ns' = ftls ns \<and> writebacks ns' = writebacks ns \<and> remaining (write_buffer (env ns')) = remaining (write_buffer (env ns)) - 4096"
proof (intro allI)
  fix ret junk mem dj pj clk
  let ?req = "write0\<lparr>cmd := (cmd write0)\<lparr>slba := 2 ^ 64 - 4\<rparr>\<rparr>"
  have L: "3919909 \<le> tt_pgs spp_64G" "3919909 < (blks_per_pl spp_64G - 4) * pgs_per_line spp_64G" "0 < secs_per_pg spp_64G" by (simp_all add: spp_64G)
  obtain ns where n: "conv_init_namespace samsung_970pro 4 junk mem dj pj clk (2 ^ 36) = Some ns" "dev_inv spp_64G 4 3919909 ns" "env ns = ssd_init_env pj clk spp_64G"
    using conv_init_namespace_ok [OF spp_64G(1,2) _ L(3,1,2), of junk mem dj pj clk] by auto
  have d: "ns_spp ns = spp_64G" "nr_parts ns = 4" using n(2) ns_invD by (auto simp: dev_inv_def)
  have e: "end_lpn spp_64G (cmd ?req) = 0" "0 < start_lpn spp_64G (cmd ?req)" by (simp_all add: write0_def zero_command_def end_lpn_def start_lpn_def nr_lba_def spp_64G unat_word_ariths)
  have b: "LBA_TO_BYTE (nr_lba (cmd ?req)) = 4096" "\<not> from_host ?req" by (simp_all add: write0_def zero_command_def nr_lba_def LBA_TO_BYTE_def from_host_def)
  have rem: "ucast (4096 :: u64) \<le> remaining (write_buffer (env ns))" using n(3) by (simp add: ssd_init_env_def buffer_init_def spp_64G)
  obtain e1 t where wb: "ssd_advance_write_buffer spp_64G ((env ns)\<lparr>write_buffer := fst (buffer_allocate (write_buffer (env ns)) (ucast (4096 :: u64)))\<rparr>)
      (nsecs_start ?req) 4096 (from_host ?req) = Some (e1, t)" using b(2) by (simp add: ssd_advance_write_buffer_def)
  show "\<exists>ns ns' ret' ret''. conv_init_namespace samsung_970pro 4 junk mem dj pj clk (2 ^ 36) = Some ns
     \<and> conv_read ns ?req ret = Some (ns, ret', NVMEV_IO_STATUS_SUCCESS) \<and> conv_write ns ?req ret = Some (ns', ret'', NVMEV_IO_STATUS_SUCCESS)
     \<and> ftls ns' = ftls ns \<and> writebacks ns' = writebacks ns \<and> remaining (write_buffer (env ns')) = remaining (write_buffer (env ns)) - 4096"
    using n(1) wrapped_range_accepted [of ns ?req e1 t ret] e rem wb unfolding d b by (auto simp: spp_64G)
qed

end
