(* ===== verification/Slm_Region.thy ===== *)
theory Slm_Region
  imports Flax_Prelude
begin

unbundle bit_operations_syntax

text \<open>
  One region of the shared local memory (SLM): the descriptor \<open>struct slm_lba_info\<close> of
  \<open>csd_slm.h\<close> and the functions of \<open>csd_slm.c\<close> and \<open>csd_dispatcher.c\<close> that
  work on a descriptor alone. Sizes and addresses are 64-bit words and wrap as in the code.

  The arrays \<open>ht_pending\<close> and \<open>extents\<close> are lists whose length is the counter the
  code keeps beside them (\<open>ht_pending_cnt\<close>, \<open>extent_count\<close>): a slot at or above
  the counter is written before it is read. \<open>sre\<close> is \<open>None\<close> for NULL.
\<close>

section \<open>Data\<close>

definition SLM_PAGE_SIZE :: u32 where
  "SLM_PAGE_SIZE = 4 * 1024"

definition HT_MAX_PENDING :: nat where
  "HT_MAX_PENDING = 256"

definition HT_NOTIFY_GRAIN :: u64 where
  "HT_NOTIFY_GRAIN = 16 * 1024"

definition MAGIC_BUFFER_SIZE :: u32 where
  "MAGIC_BUFFER_SIZE = SLM_PAGE_SIZE * 32768"

definition MAGIC_BUFFER_MASK :: u32 where
  "MAGIC_BUFFER_MASK = MAGIC_BUFFER_SIZE - 1"

definition MAX_EXTENT_ENTRIES :: nat where
  "MAX_EXTENT_ENTRIES = 16"

definition MAGIC_READ_BUFFER_PAGES :: u64 where
  "MAGIC_READ_BUFFER_PAGES = 4096"

definition MIN_IO_REQUEST_SIZE :: u64 where
  "MIN_IO_REQUEST_SIZE = 16 * 1024"

definition page_size :: u64 where
  "page_size = ucast SLM_PAGE_SIZE"

definition DIVIDE_UP :: "u64 \<Rightarrow> u64 \<Rightarrow> u64" where
  "DIVIDE_UP val divisor = (val + divisor - 1) div divisor"

text \<open>
  \<open>ALIGNED_DOWN\<close> and \<open>ALIGNED_UP\<close> complement the alignment at its own width. For
  \<open>SLM_PAGE_SIZE\<close>, an \<open>unsigned int\<close>, the mask has 32 bits and is then
  extended with zeros; for a \<open>size_t\<close> it has 64.
\<close>

definition ALIGNED_DOWN32 :: "u64 \<Rightarrow> u32 \<Rightarrow> u64" where
  "ALIGNED_DOWN32 val align = val AND ucast (NOT (align - 1))"

definition ALIGNED_UP32 :: "u64 \<Rightarrow> u32 \<Rightarrow> u64" where
  "ALIGNED_UP32 val align = (val + ucast align - 1) AND ucast (NOT (align - 1))"

definition ALIGNED_DOWN64 :: "u64 \<Rightarrow> u64 \<Rightarrow> u64" where
  "ALIGNED_DOWN64 val align = val AND NOT (align - 1)"

record source_range_entry =
  sre_nsid :: u32
  saddr :: u64
  nByte :: u32

record ht_interval =
  istart :: u64
  iend :: u64

record extent_map_entry =
  file_offset :: u64
  file_size :: u64
  slm_offset :: u64
  ready :: bool

record slm_lba_info =
  info_start_addr :: u64
  info_len :: u64
  info_nentry :: nat
  info_sre :: "source_range_entry list option"
  demand_read_offset :: u64
  demand_read_size :: u64
  request_done :: bool
  random_access :: bool
  info_task_id :: u32
  next_addr :: u64
  is_output :: bool
  final_offset :: u64
  final_leftovers :: u64
  stream_access :: bool
  is_circular :: bool
  logical_total_size :: u64
  load_complete :: bool
  compute_logical_offset :: u64
  output_is_circular :: bool
  host_consumed_logical_offset :: u64
  output_logical_total_size :: u64
  extent_mapped :: bool
  extent_next_free_page :: u64
  extents :: "extent_map_entry list"
  demand_read_slm_target :: u64
  use_head_tail :: bool
  ht_head :: u64
  ht_tail :: u64
  ht_producer_done :: bool
  ht_pending :: "ht_interval list"

section \<open>Head and tail\<close>

text \<open>
  The coalescing scan of \<open>ht_advance_head\<close>: the first pending entry that the range
  touches is extended; \<open>None\<close> when there is none.
\<close>

fun ht_coalesce :: "ht_interval list \<Rightarrow> u64 \<Rightarrow> u64 \<Rightarrow> ht_interval list option" where
  "ht_coalesce [] start endi = None"
| "ht_coalesce (p # ps) start endi =
     (if start \<le> iend p \<and> endi \<ge> istart p
      then Some (p\<lparr>istart := (if start < istart p then start else istart p),
                   iend := (if endi > iend p then endi else iend p)\<rparr> # ps)
      else map_option (Cons p) (ht_coalesce ps start endi))"

fun ht_first_ready :: "u64 \<Rightarrow> ht_interval list \<Rightarrow> nat option" where
  "ht_first_ready hd0 [] = None"
| "ht_first_ready hd0 (p # ps) = (if istart p \<le> hd0 then Some 0 else map_option Suc (ht_first_ready hd0 ps))"

lemma ht_first_ready_less: "ht_first_ready hd0 ps = Some i \<Longrightarrow> i < length ps \<and> istart (ps ! i) \<le> hd0"
  by (induction ps arbitrary: i) (auto split: if_splits)

text \<open>The absorbing loop: the slot taken is refilled from the last one.\<close>

function ht_absorb :: "u64 \<Rightarrow> ht_interval list \<Rightarrow> u64 \<times> ht_interval list" where
  "ht_absorb hd0 ps =
     (case ht_first_ready hd0 ps of
        None \<Rightarrow> (hd0, ps)
      | Some i \<Rightarrow> ht_absorb (if iend (ps ! i) > hd0 then iend (ps ! i) else hd0) (butlast (ps[i := last ps])))"
  by pat_completeness auto
termination
  by (relation "measure (\<lambda>(h, ps). length ps)") (auto dest: ht_first_ready_less)

declare ht_absorb.simps [simp del]

definition ht_advance_head :: "slm_lba_info \<Rightarrow> u64 \<Rightarrow> u64 \<Rightarrow> slm_lba_info option" where
  "ht_advance_head info start endi =
     (if endi \<le> start then Some info
      else
        do {
          info1 \<leftarrow>
            (if start \<le> ht_head info then
               Some (if endi > ht_head info then info\<lparr>ht_head := endi\<rparr> else info)
             else
               (case ht_coalesce (ht_pending info) start endi of
                  Some ps \<Rightarrow> Some (info\<lparr>ht_pending := ps\<rparr>)
                | None \<Rightarrow>
                    if length (ht_pending info) \<ge> HT_MAX_PENDING then None
                    else Some (info\<lparr>ht_pending := ht_pending info @ [\<lparr>istart = start, iend = endi\<rparr>]\<rparr>)));
          let (h, ps) = ht_absorb (ht_head info1) (ht_pending info1);
          Some (info1\<lparr>ht_head := h, ht_pending := ps\<rparr>)
        })"

definition ht_advance_head_page :: "slm_lba_info \<Rightarrow> u64 \<Rightarrow> slm_lba_info" where
  "ht_advance_head_page info rel_byte_end =
     (let rel_page_end = ALIGNED_DOWN32 rel_byte_end SLM_PAGE_SIZE
      in if rel_page_end > ht_head info then info\<lparr>ht_head := rel_page_end\<rparr> else info)"

definition ht_set_tail :: "slm_lba_info \<Rightarrow> u64 \<Rightarrow> slm_lba_info" where
  "ht_set_tail info rel_end = (if rel_end > ht_tail info then info\<lparr>ht_tail := rel_end\<rparr> else info)"

definition notify_circular_load_ready :: "slm_lba_info \<Rightarrow> u64 \<Rightarrow> u64 \<Rightarrow> slm_lba_info option" where
  "notify_circular_load_ready info logical len =
     (if \<not> ht_producer_done info then ht_advance_head info logical (logical + len) else Some info)"

definition notify_circular_output_produced :: "slm_lba_info \<Rightarrow> u64 \<Rightarrow> slm_lba_info" where
  "notify_circular_output_produced info logical_write_end =
     (let grain = (if HT_NOTIFY_GRAIN > page_size then HT_NOTIFY_GRAIN else page_size);
          rel_grain_end = ALIGNED_DOWN64 logical_write_end grain
      in if \<not> ht_producer_done info \<and> rel_grain_end > ht_head info then info\<lparr>ht_head := rel_grain_end\<rparr> else info)"

section \<open>Extents\<close>

definition extent_covers :: "extent_map_entry \<Rightarrow> u64 \<Rightarrow> u64 \<Rightarrow> bool" where
  "extent_covers e off len \<longleftrightarrow> off \<ge> file_offset e \<and> off + len \<le> file_offset e + file_size e"

fun extent_scan :: "extent_map_entry list \<Rightarrow> u64 \<Rightarrow> u64 \<Rightarrow> extent_map_entry option" where
  "extent_scan [] off len = None"
| "extent_scan (e # es) off len = (if extent_covers e off len then Some e else extent_scan es off len)"

definition extent_is_mapped :: "slm_lba_info \<Rightarrow> u64 \<Rightarrow> u64 \<Rightarrow> bool" where
  "extent_is_mapped info logical_addr len \<longleftrightarrow>
     extent_scan (extents info) (logical_addr - info_start_addr info) len \<noteq> None"

fun extent_translate_scan :: "extent_map_entry list \<Rightarrow> u64 \<Rightarrow> u64 option" where
  "extent_translate_scan [] off = None"
| "extent_translate_scan (e # es) off =
     (if off \<ge> file_offset e \<and> off < file_offset e + file_size e
      then Some (slm_offset e + (off - file_offset e)) else extent_translate_scan es off)"

definition extent_translate_addr :: "slm_lba_info \<Rightarrow> u64 \<Rightarrow> u64" where
  "extent_translate_addr info logical_addr =
     (case extent_translate_scan (extents info) (logical_addr - info_start_addr info) of
        Some off \<Rightarrow> info_start_addr info + off
      | None \<Rightarrow> logical_addr)"

fun extent_set_ready :: "extent_map_entry list \<Rightarrow> u64 \<Rightarrow> extent_map_entry list" where
  "extent_set_ready [] off = []"
| "extent_set_ready (e # es) off =
     (if file_offset e = off then e\<lparr>ready := True\<rparr> # es else e # extent_set_ready es off)"

section \<open>Readiness of a probe\<close>

definition head_tail_ready :: "slm_lba_info \<Rightarrow> u64 \<Rightarrow> u64 \<Rightarrow> slm_lba_info \<times> bool" where
  "head_tail_ready info rel_start len =
     (let last_page = (if len = page_size then rel_start div page_size else (rel_start + len - 1) div page_size)
      in if last_page < DIVIDE_UP (ht_head info) page_size
         then (if \<not> is_output info then info\<lparr>next_addr := rel_start + len\<rparr> else info, True)
         else (info, False))"

definition extent_ready :: "slm_lba_info \<Rightarrow> u64 \<Rightarrow> u64 \<Rightarrow> slm_lba_info \<times> bool" where
  "extent_ready info rel len =
     (case extent_scan (extents info) rel len of
        Some e \<Rightarrow> if ready e then (if \<not> is_output info then info\<lparr>next_addr := rel + len\<rparr> else info, True)
                   else (info, False)
      | None \<Rightarrow> (info, False))"

text \<open>The bodies of the two probes once the descriptor is known; a NULL descriptor is not ready.\<close>

definition check_ready_stream :: "slm_lba_info \<Rightarrow> u64 \<Rightarrow> u64 \<Rightarrow> slm_lba_info \<times> bool" where
  "check_ready_stream info start_addr len =
     (let rel = start_addr - info_start_addr info
      in if use_head_tail info \<and> \<not> extent_mapped info \<and> \<not> is_circular info \<and> \<not> output_is_circular info
         then head_tail_ready info rel len
         else if extent_mapped info then extent_ready info rel len
         else (info, False))"

definition check_slm_data_ready_info :: "u64 \<Rightarrow> u64 \<Rightarrow> slm_lba_info option \<Rightarrow> slm_lba_info option \<times> bool" where
  "check_slm_data_ready_info start_addr len infop =
     (case infop of
        None \<Rightarrow> (None, False)
      | Some info \<Rightarrow>
          if \<not> is_output info \<and> random_access info \<and> demand_read_offset info \<noteq> -1 then (Some info, False)
          else
            (let rel = start_addr - info_start_addr info
             in if extent_mapped info then map_prod Some id (extent_ready info rel len)
                else if use_head_tail info \<and> \<not> is_circular info \<and> \<not> output_is_circular info
                then map_prod Some id (head_tail_ready info rel len)
                else (Some info, False)))"

section \<open>Addresses of a circular buffer\<close>

definition calculate_circular_buf_addr :: "slm_lba_info option \<Rightarrow> u64 \<Rightarrow> u64 \<Rightarrow> u64" where
  "calculate_circular_buf_addr lba_info base_addr logical_offset =
     (case lba_info of
        Some i \<Rightarrow> if is_circular i then base_addr + (logical_offset AND ucast MAGIC_BUFFER_MASK)
                   else base_addr + logical_offset
      | None \<Rightarrow> base_addr + logical_offset)"

definition calculate_circular_io_size :: "slm_lba_info option \<Rightarrow> u64 \<Rightarrow> u64 \<Rightarrow> u64" where
  "calculate_circular_io_size lba_info logical_offset requested_size =
     (case lba_info of
        Some i \<Rightarrow>
          if is_circular i then
            (let physical_offset = logical_offset AND ucast MAGIC_BUFFER_MASK;
                 remaining_in_buffer = ucast MAGIC_BUFFER_SIZE - physical_offset
             in if requested_size > remaining_in_buffer then remaining_in_buffer else requested_size)
          else requested_size
      | None \<Rightarrow> requested_size)"

section \<open>Source ranges\<close>

text \<open>
  The scan that the three functions share: the entry in which the offset falls and the offset in it.
  When the offset is beyond the last entry, the remaining offset and no entry.
\<close>

fun sre_find :: "source_range_entry list \<Rightarrow> u64 \<Rightarrow> source_range_entry option \<times> u64" where
  "sre_find [] off = (None, off)"
| "sre_find (e # es) off = (if off < ucast (nByte e) then (Some e, off) else sre_find es (off - ucast (nByte e)))"

text \<open>
  Reading entry 0 of an empty table is outside it; \<open>base_addr\<close> stays that of the last entry
  when the offset is beyond the table.
\<close>

definition calculate_lba :: "source_range_entry list \<Rightarrow> u64 \<Rightarrow> u64 option" where
  "calculate_lba sre io_offset =
     (if io_offset = 0 then (case sre of [] \<Rightarrow> None | e # _ \<Rightarrow> Some (saddr e))
      else
        (let (e, local_offset) = sre_find sre io_offset;
             base_addr = (case e of Some e \<Rightarrow> saddr e | None \<Rightarrow> if sre = [] then 0 else saddr (last sre))
         in Some (base_addr + local_offset div 512)))"

text \<open>\<open>ALIGNED_UP(io_size, 512)\<close> has a signed 512, whose complement extends with ones.\<close>

definition calculate_io_size :: "source_range_entry list \<Rightarrow> u64 \<Rightarrow> u64 \<Rightarrow> u64 option" where
  "calculate_io_size sre io_offset io_size0 =
     (let io_size = (if io_size0 mod 512 \<noteq> 0 then (io_size0 + 512 - 1) AND NOT (512 - 1) else io_size0)
      in if io_offset = 0 then
           (case sre of [] \<Rightarrow> None
            | e # _ \<Rightarrow> Some (if io_size < ucast (nByte e) then io_size else ucast (nByte e)))
         else
           (case sre_find sre io_offset of
              (None, _) \<Rightarrow> Some 0
            | (Some e, local_offset) \<Rightarrow>
                Some (if local_offset + io_size > ucast (nByte e) then ucast (nByte e) - local_offset else io_size)))"

definition calculate_local_offset :: "source_range_entry list \<Rightarrow> u64 \<Rightarrow> u64" where
  "calculate_local_offset sre io_offset = snd (sre_find sre io_offset) mod 512"

section \<open>The frontier is the first missing byte\<close>

text \<open>The bytes a region has received: those below the head and those in pending ranges.\<close>

definition bytes_of :: "ht_interval list \<Rightarrow> u64 set" where
  "bytes_of ps = (\<Union>p\<in>set ps. {istart p ..< iend p})"

definition received :: "slm_lba_info \<Rightarrow> u64 set" where
  "received info = {..< ht_head info} \<union> bytes_of (ht_pending info)"

definition ht_inv :: "slm_lba_info \<Rightarrow> bool" where
  "ht_inv info \<longleftrightarrow> (\<forall>p\<in>set (ht_pending info). ht_head info < istart p \<and> istart p < iend p)
     \<and> length (ht_pending info) \<le> HT_MAX_PENDING"

lemma bytes_of_simps [simp]:
  "bytes_of [] = {}" "bytes_of (p # ps) = {istart p ..< iend p} \<union> bytes_of ps"
  "bytes_of (ps @ qs) = bytes_of ps \<union> bytes_of qs"
  by (auto simp: bytes_of_def)

lemma swap_remove_set:
  assumes "i < length ps"
  shows "insert (ps ! i) (set (butlast (ps[i := last ps]))) = set ps"
proof -
  define as bs where "as = take i ps" and "bs = drop (Suc i) ps"
  have ps: "ps = as @ (ps ! i) # bs" and i: "i = length as"
    using assms id_take_nth_drop [OF assms] by (auto simp: as_def bs_def)
  show ?thesis
  proof (cases bs rule: rev_cases)
    case Nil
    then have "butlast (ps[i := last ps]) = as" using ps i by (metis butlast_snoc last_snoc list_update_id nth_append_length)
    then show ?thesis using ps Nil by (metis list.set(2) set_append Un_insert_right sup_bot.right_neutral list.set(1))
  next
    case (snoc cs z)
    have "last ps = z" by (subst ps) (simp add: snoc)
    then have "butlast (ps[i := last ps]) = as @ z # cs"
      using ps i snoc by (metis append_Cons append_assoc butlast_snoc list_update_length)
    moreover have "set ps = insert (ps ! i) (set as \<union> insert z (set cs))" by (subst ps) (auto simp: snoc)
    ultimately show ?thesis by auto
  qed
qed

lemma ht_coalesce_None: "ht_coalesce ps s e = None \<Longrightarrow> p \<in> set ps \<Longrightarrow> \<not> (s \<le> iend p \<and> istart p \<le> e)"
  by (induction ps) (auto split: if_splits)

lemma ht_coalesce_Some:
  assumes "s < e" and "h < s"
  shows "ht_coalesce ps s e = Some qs \<Longrightarrow> \<forall>p\<in>set ps. h < istart p \<and> istart p < iend p \<Longrightarrow>
     length qs = length ps \<and> bytes_of qs = bytes_of ps \<union> {s ..< e} \<and> (\<forall>p\<in>set qs. h < istart p \<and> istart p < iend p)"
proof (induction ps arbitrary: qs)
  case (Cons p ps)
  show ?case
  proof (cases "s \<le> iend p \<and> istart p \<le> e")
    case True
    have "{(if s < istart p then s else istart p) ..< (if iend p < e then e else iend p)}
        = {istart p ..< iend p} \<union> {s ..< e}"
      using True assms(1) by auto
    moreover have "s < iend p" if "s < istart p" using that Cons.prems(2) by (auto intro: less_trans)
    moreover have "istart p < e" if "iend p < e" using that Cons.prems(2) by (auto intro: less_trans)
    ultimately show ?thesis using Cons.prems True assms by auto
  next
    case False
    then obtain rs where "ht_coalesce ps s e = Some rs" "qs = p # rs" using Cons.prems(1) by auto
    then show ?thesis using Cons.IH [of rs] Cons.prems(2) by auto
  qed
qed simp

lemma ht_first_ready_None: "ht_first_ready h ps = None \<longleftrightarrow> (\<forall>p\<in>set ps. h < istart p)"
  by (induction ps) auto

lemma ht_absorb_correct:
  "ht_absorb h ps = (h', ps') \<Longrightarrow> \<forall>p\<in>set ps. istart p < iend p \<Longrightarrow>
     {..< h'} \<union> bytes_of ps' = {..< h} \<union> bytes_of ps \<and> (\<forall>p\<in>set ps'. h' < istart p \<and> istart p < iend p)
     \<and> length ps' \<le> length ps \<and> h \<le> h'"
proof (induction h ps rule: ht_absorb.induct)
  case (1 h ps)
  show ?case
  proof (cases "ht_first_ready h ps")
    case None
    then have "h' = h" "ps' = ps" using "1.prems"(1) by (simp_all add: ht_absorb.simps [of h ps])
    then show ?thesis using None "1.prems"(2) by (simp add: ht_first_ready_None)
  next
    case (Some i)
    let ?h = "if iend (ps ! i) > h then iend (ps ! i) else h" and ?ps = "butlast (ps[i := last ps])"
    have i: "i < length ps" "istart (ps ! i) \<le> h" using ht_first_ready_less [OF Some] by auto
    note set = swap_remove_set [OF i(1)]
    have e: "ht_absorb ?h ?ps = (h', ps')" using "1.prems"(1) Some by (simp add: ht_absorb.simps [of h ps])
    have ne: "\<forall>p\<in>set ?ps. istart p < iend p" using "1.prems"(2) set by blast
    from "1.IH" [OF Some e ne] have IH: "{..< h'} \<union> bytes_of ps' = {..< ?h} \<union> bytes_of ?ps"
      "\<forall>p\<in>set ps'. h' < istart p \<and> istart p < iend p" "length ps' \<le> length ?ps" "?h \<le> h'" by auto
    have "{..< ?h} = {..< h} \<union> {istart (ps ! i) ..< iend (ps ! i)}" using i(2) by auto
    moreover have "bytes_of ps = {istart (ps ! i) ..< iend (ps ! i)} \<union> bytes_of ?ps"
      unfolding bytes_of_def by (subst set [symmetric]) (simp only: UN_insert)
    ultimately have "{..< ?h} \<union> bytes_of ?ps = {..< h} \<union> bytes_of ps" by blast
    moreover have "h \<le> h'" using IH(4) by (auto split: if_splits)
    ultimately show ?thesis using IH(1,2,3) by auto
  qed
qed

theorem ht_advance_head_received:
  assumes inv: "ht_inv info" and room: "length (ht_pending info) < HT_MAX_PENDING"
  shows "\<exists>info'. ht_advance_head info s e = Some info' \<and> ht_inv info' \<and> received info' = received info \<union> {s ..< e}
     \<and> ht_head info \<le> ht_head info' \<and> length (ht_pending info') \<le> Suc (length (ht_pending info))"
proof (cases "e \<le> s")
  case True
  then show ?thesis using inv by (simp add: ht_advance_head_def)
next
  case False
  have step: ?thesis if "ht_advance_head info s e = (let (h', ps') = ht_absorb h ps in Some (i1\<lparr>ht_head := h', ht_pending := ps'\<rparr>))"
    "\<forall>p\<in>set ps. istart p < iend p" "{..< h} \<union> bytes_of ps = received info \<union> {s ..< e}" "ht_head info \<le> h"
    "length ps \<le> Suc (length (ht_pending info))" for h ps i1
  proof -
    obtain h' ps' where a: "ht_absorb h ps = (h', ps')" by fastforce
    note ok = ht_absorb_correct [OF a that(2)]
    have "ht_inv (i1\<lparr>ht_head := h', ht_pending := ps'\<rparr>)" using ok that(5) room by (auto simp: ht_inv_def)
    moreover have "received (i1\<lparr>ht_head := h', ht_pending := ps'\<rparr>) = received info \<union> {s ..< e}"
      using ok that(3) by (simp add: received_def)
    ultimately show ?thesis using that a ok by auto
  qed
  have ne: "\<forall>p\<in>set (ht_pending info). ht_head info < istart p \<and> istart p < iend p" using inv by (simp add: ht_inv_def)
  show ?thesis
  proof (cases "s \<le> ht_head info")
    case True
    have "{..< (if e > ht_head info then e else ht_head info)} = {..< ht_head info} \<union> {s ..< e}" using True by auto
    then show ?thesis
      by (intro step [of "if e > ht_head info then e else ht_head info" "ht_pending info" "if e > ht_head info then info\<lparr>ht_head := e\<rparr> else info"])
        (use True False ne in \<open>auto simp: ht_advance_head_def received_def split: if_splits\<close>)
  next
    case out: False
    show ?thesis
    proof (cases "ht_coalesce (ht_pending info) s e")
      case None
      then show ?thesis
        by (intro step [of "ht_head info" "ht_pending info @ [\<lparr>istart = s, iend = e\<rparr>]" "info\<lparr>ht_pending := ht_pending info @ [\<lparr>istart = s, iend = e\<rparr>]\<rparr>"])
          (use out False ne room in \<open>auto simp: ht_advance_head_def received_def\<close>)
    next
      case (Some ps)
      then show ?thesis using ht_coalesce_Some [of s e "ht_head info" "ht_pending info" ps] out False ne
        by (intro step [of "ht_head info" ps "info\<lparr>ht_pending := ps\<rparr>"]) (auto simp: ht_advance_head_def received_def)
    qed
  qed
qed

section \<open>The contract of a frontier\<close>

text \<open>
  What consumers rely on: the head is the first byte that has not been received. A producer
  delivers ranges in any order.
\<close>

primrec deliver :: "('s \<Rightarrow> u64 \<Rightarrow> u64 \<Rightarrow> 's option) \<Rightarrow> (u64 \<times> u64) list \<Rightarrow> 's \<Rightarrow> 's option" where
  "deliver adv [] s = Some s"
| "deliver adv (r # rs) s = do { s' \<leftarrow> adv s (fst r) (snd r); deliver adv rs s' }"

definition ranges :: "(u64 \<times> u64) list \<Rightarrow> u64 set" where
  "ranges rs = (\<Union>r\<in>set rs. {fst r ..< snd r})"

locale frontier =
  fixes inv :: "'s \<Rightarrow> bool"
    and head :: "'s \<Rightarrow> u64"
    and got :: "'s \<Rightarrow> u64 set"
    and room :: "'s \<Rightarrow> nat"
    and adv :: "'s \<Rightarrow> u64 \<Rightarrow> u64 \<Rightarrow> 's option"
  assumes adv_ok: "inv s \<Longrightarrow> 0 < room s \<Longrightarrow>
      \<exists>s'. adv s a b = Some s' \<and> inv s' \<and> got s' = got s \<union> {a ..< b} \<and> room s \<le> Suc (room s')"
    and below_head: "inv s \<Longrightarrow> x < head s \<Longrightarrow> x \<in> got s"
    and head_missing: "inv s \<Longrightarrow> head s \<notin> got s"
begin

lemma head_unique: "inv s \<Longrightarrow> inv t \<Longrightarrow> got s = got t \<Longrightarrow> head s = head t"
  by (metis below_head head_missing linorder_cases)

lemma deliver_ok:
  "inv s \<Longrightarrow> length rs \<le> room s \<Longrightarrow>
     \<exists>s'. deliver adv rs s = Some s' \<and> inv s' \<and> got s' = got s \<union> ranges rs"
proof (induction rs arbitrary: s)
  case (Cons r rs)
  obtain s1 where s1: "adv s (fst r) (snd r) = Some s1" "inv s1" "got s1 = got s \<union> {fst r ..< snd r}" "room s \<le> Suc (room s1)"
    using adv_ok [OF Cons.prems(1), of "fst r" "snd r"] Cons.prems(2) by fastforce
  then show ?case using Cons.IH [of s1] Cons.prems(2) by (auto simp: ranges_def)
qed (simp add: ranges_def)

lemma deliver_any_order:
  assumes "inv s" and "length rs \<le> room s" and "length qs \<le> room s" and "ranges rs = ranges qs"
    and "deliver adv rs s = Some t" and "deliver adv qs s = Some u"
  shows "head t = head u"
  using deliver_ok [OF assms(1,2)] deliver_ok [OF assms(1,3)] assms(4-) head_unique [of t u] by auto

end

interpretation ht: frontier ht_inv ht_head received "\<lambda>i. HT_MAX_PENDING - length (ht_pending i)" ht_advance_head
proof
  show "\<exists>s'. ht_advance_head s a b = Some s' \<and> ht_inv s' \<and> received s' = received s \<union> {a ..< b}
      \<and> HT_MAX_PENDING - length (ht_pending s) \<le> Suc (HT_MAX_PENDING - length (ht_pending s'))"
    if i: "ht_inv s" and r: "0 < HT_MAX_PENDING - length (ht_pending s)" for s a b
  proof -
    obtain s' where s': "ht_advance_head s a b = Some s'" "ht_inv s'" "received s' = received s \<union> {a ..< b}"
      "length (ht_pending s') \<le> Suc (length (ht_pending s))"
      using ht_advance_head_received [OF i, of a b] r by auto
    then have "HT_MAX_PENDING - length (ht_pending s) \<le> Suc (HT_MAX_PENDING - length (ht_pending s'))" by linarith
    with s' show ?thesis by blast
  qed
  show "x \<in> received s" if "ht_inv s" "x < ht_head s" for s x
    using that by (simp add: received_def)
  show "ht_head s \<notin> received s" if "ht_inv s" for s
    using that by (auto simp: received_def ht_inv_def bytes_of_def)
qed

section \<open>Page arithmetic\<close>

lemma page_size_eq: "page_size = 4096"
  by (simp add: page_size_def SLM_PAGE_SIZE_def)

lemma aligned_down32_bits: "ALIGNED_DOWN32 v SLM_PAGE_SIZE = push_bit 12 (drop_bit 12 (take_bit 32 v))"
proof -
  have m: "(ucast (NOT (SLM_PAGE_SIZE - 1)) :: u64) = push_bit 12 (mask 20)"
    by (simp add: SLM_PAGE_SIZE_def mask_eq_exp_minus_1)
  show ?thesis unfolding ALIGNED_DOWN32_def m by (rule bit_eqI) (auto simp: bit_simps)
qed

lemma aligned_down32_unat:
  "unat (ALIGNED_DOWN32 v SLM_PAGE_SIZE) = ((unat v mod 2 ^ 32) div 4096) * 4096"
proof -
  have "((unat v mod 2 ^ 32) div 4096) * 4096 \<le> unat v mod 2 ^ 32" by (rule div_times_less_eq_dividend)
  also have "\<dots> < 2 ^ 32" by simp
  finally have b: "((unat v mod 2 ^ 32) div 4096) * 4096 < 2 ^ 32" .
  have "unat (ALIGNED_DOWN32 v SLM_PAGE_SIZE) = take_bit 64 (((unat v mod 2 ^ 32) div 4096) * 4096)"
    unfolding aligned_down32_bits
    by (simp only: unsigned_push_bit_eq unsigned_drop_bit_eq unsigned_take_bit_eq) (simp add: take_bit_eq_mod push_bit_eq_mult drop_bit_eq_div)
  then show ?thesis using b by (simp add: take_bit_nat_eq_self_iff)
qed

lemma divide_up_page:
  assumes "unat h + 4095 < 2 ^ 64"
  shows "unat (DIVIDE_UP h page_size) = (unat h + 4095) div 4096"
proof -
  have "h + 4096 - 1 = 4095 + h" by simp
  moreover have "unat (4095 + h) = unat h + 4095" using assms unat_add_no_wrap [of 4095 h] by simp
  ultimately show ?thesis by (simp add: DIVIDE_UP_def page_size_eq unat_div)
qed

lemma page_below_frontier:
  assumes "unat h + 4095 < 2 ^ 64"
  shows "p < DIVIDE_UP h page_size \<longleftrightarrow> unat p * 4096 < unat h"
  unfolding word_less_nat_alt divide_up_page [OF assms] by linarith

lemma span_in_pages:
  fixes r l k :: nat
  assumes "0 < l" and "(r + l - 1) div 4096 * 4096 < k * 4096"
  shows "r + l \<le> k * 4096"
proof -
  have "(r + l - 1) div 4096 < k" using assms(2) by simp
  then have "r + l - 1 < k * 4096" by (simp add: div_less_iff_less_mult)
  then show ?thesis using assms(1) by simp
qed

section \<open>Properties\<close>

definition fresh_info :: slm_lba_info where
  "fresh_info = \<lparr>info_start_addr = 0, info_len = 65536, info_nentry = 0, info_sre = None, demand_read_offset = -1,
     demand_read_size = 0, request_done = True, random_access = False, info_task_id = 0, next_addr = 0,
     is_output = False, final_offset = -1, final_leftovers = 0, stream_access = False, is_circular = False,
     logical_total_size = 65536, load_complete = False, compute_logical_offset = 0, output_is_circular = False,
     host_consumed_logical_offset = 0, output_logical_total_size = 0, extent_mapped = False,
     extent_next_free_page = 0, extents = [], demand_read_slm_target = 0, use_head_tail = True, ht_head = 0,
     ht_tail = 0, ht_producer_done = False, ht_pending = []\<rparr>"

text \<open>
  C17. However the completed ranges of a load are ordered, overlapped or duplicated, as long as there are
  at most 256 of them every call returns, and afterwards the produced frontier is exactly the first
  byte of the region that no range contains.
\<close>

theorem ht_frontier_exact:
  assumes "ht_head info = 0" and "ht_pending info = []" and "length rs \<le> HT_MAX_PENDING"
  shows "\<exists>info'. deliver ht_advance_head rs info = Some info'
     \<and> (\<forall>b. b < ht_head info' \<longrightarrow> b \<in> ranges rs) \<and> ht_head info' \<notin> ranges rs"
proof -
  have inv: "ht_inv info" using assms by (simp add: ht_inv_def HT_MAX_PENDING_def)
  have got: "received info = {}" using assms by (auto simp: received_def)
  obtain info' where d: "deliver ht_advance_head rs info = Some info'" "ht_inv info'" "received info' = ranges rs"
    using ht.deliver_ok [OF inv, of rs] assms got by auto
  then show ?thesis using ht.below_head [OF d(2)] ht.head_missing [OF d(2)] by auto
qed

theorem ht_frontier_exact_witness:
  "\<exists>info'. deliver ht_advance_head [(8192, 12288), (0, 4096), (4096, 8192)] fresh_info = Some info'
     \<and> (\<forall>b. b < ht_head info' \<longrightarrow> b \<in> ranges [(8192, 12288), (0, 4096), (4096, 8192)])
     \<and> ht_head info' \<notin> ranges [(8192, 12288), (0, 4096), (4096, 8192)]"
  using ht_frontier_exact [of fresh_info "[(8192, 12288), (0, 4096), (4096, 8192)]"]
  by (simp add: fresh_info_def HT_MAX_PENDING_def)

text \<open>
  C18. When a probe of a streamed region is reported ready and the frontier stands on a page boundary, every byte of
  the probe has been received; of a probe of exactly one page this holds for its bytes in its first page, the only
  page the code looks at (all of the probe when it is page aligned).
\<close>

theorem stream_ready_sound:
  assumes inv: "ht_inv info" and al: "unat (ht_head info) mod 4096 = 0" "unat (ht_head info) + 4095 < 2 ^ 64"
    and probe: "0 < len" "unat (addr - info_start_addr info) + unat len < 2 ^ 64"
    and mode: "use_head_tail info" "\<not> extent_mapped info"
    and ready: "snd (check_ready_stream info addr len)"
  shows "\<forall>b. addr - info_start_addr info \<le> b \<and> b < addr - info_start_addr info + len
     \<and> (len = page_size \<longrightarrow> b div page_size = (addr - info_start_addr info) div page_size) \<longrightarrow> b \<in> received info"
proof (intro allI impI)
  fix b
  define rel where "rel = addr - info_start_addr info"
  assume b: "addr - info_start_addr info \<le> b \<and> b < addr - info_start_addr info + len \<and> (len = page_size \<longrightarrow> b div page_size = (addr - info_start_addr info) div page_size)"
  have e: "unat (rel + len) = unat rel + unat len" using probe(2) unat_add_no_wrap [of rel len] by (simp add: rel_def)
  have l0: "0 < unat len" using probe(1) by (simp add: word_less_nat_alt)
  then have le: "unat (rel + len - 1) = unat rel + unat len - 1"
    using e unat_sub_le [of 1 "rel + len"] by (simp add: word_le_nat_alt)
  have p: "(if len = page_size then unat rel div 4096 else (unat rel + unat len - 1) div 4096) * 4096 < unat (ht_head info)"
    using ready mode le page_below_frontier [OF al(2)]
    by (auto simp: check_ready_stream_def head_tail_ready_def Let_def rel_def page_size_eq unat_div split: if_splits)
  obtain k where k: "unat (ht_head info) = k * 4096"
    using al(1) by (metis dvd_def mod_0_imp_dvd mult.commute)
  have bl: "unat b < unat rel + unat len" using b e by (simp add: word_less_nat_alt flip: rel_def)
  have "unat b div 4096 = unat rel div 4096" if "len = page_size"
    using b that by (simp add: page_size_eq word_unat_eq_iff unat_div flip: rel_def)
  then have "unat b < k * 4096"
    using p k l0 bl span_in_pages [of "unat len" "unat rel" k] span_in_pages [of 1 "unat b" k] by (auto split: if_splits)
  then have "b < ht_head info" using k by (simp add: word_less_nat_alt)
  then show "b \<in> received info" by (rule ht.below_head [OF inv])
qed

theorem stream_ready_sound_witness:
  "let i = fresh_info\<lparr>ht_head := 8192\<rparr> in
     snd (check_ready_stream i 5000 3000) \<and> (\<forall>b. 5000 \<le> b \<and> b < 8000 \<longrightarrow> b \<in> received i)
     \<and> snd (check_ready_stream i 5000 4096) \<and> (\<forall>b. 5000 \<le> b \<and> b < 9096 \<and> b div 4096 = 1 \<longrightarrow> b \<in> received i) \<and> 9095 \<notin> received i"
proof -
  let ?i = "fresh_info\<lparr>ht_head := 8192\<rparr>"
  have r: "snd (check_ready_stream ?i 5000 3000)" "snd (check_ready_stream ?i 5000 4096)"
    by (simp_all add: fresh_info_def check_ready_stream_def head_tail_ready_def DIVIDE_UP_def page_size_eq)
  have i: "ht_inv ?i" by (simp add: fresh_info_def ht_inv_def HT_MAX_PENDING_def)
  have "\<forall>b. 5000 \<le> b \<and> b < 8000 \<longrightarrow> b \<in> received ?i" using stream_ready_sound [OF i _ _ _ _ _ _ r(1)] by (simp add: fresh_info_def page_size_eq)
  moreover have "\<forall>b. 5000 \<le> b \<and> b < 9096 \<and> b div 4096 = 1 \<longrightarrow> b \<in> received ?i"
    using stream_ready_sound [OF i _ _ _ _ _ _ r(2)] by (simp add: fresh_info_def page_size_eq)
  moreover have "9095 \<notin> received ?i" by (simp add: fresh_info_def received_def)
  ultimately show ?thesis using r by simp
qed

text \<open>
  C31. A page-wise producer never publishes past 4 GiB: the page mask has 32 bits, so
  \<open>ht_advance_head_page\<close> keeps a frontier that is below 4 GiB there, whatever byte
  position it is called with.
\<close>

theorem page_frontier_below_4G:
  assumes "unat (ht_head info) \<le> 2 ^ 32 - 4096"
  shows "unat (ht_head (ht_advance_head_page info rel_byte_end)) \<le> 2 ^ 32 - 4096"
proof -
  have "(unat rel_byte_end mod 2 ^ 32) div 4096 < 2 ^ 20"
    by (rule less_mult_imp_div_less) simp
  then have "unat (ALIGNED_DOWN32 rel_byte_end SLM_PAGE_SIZE) \<le> 2 ^ 32 - 4096"
    unfolding aligned_down32_unat by simp
  then show ?thesis using assms by (simp add: ht_advance_head_page_def Let_def)
qed

theorem page_frontier_below_4G_witness:
  "unat (ht_head (ht_advance_head_page fresh_info (2 ^ 32 + 8192))) \<le> 2 ^ 32 - 4096"
  using page_frontier_below_4G [of fresh_info "2 ^ 32 + 8192"] by (simp add: fresh_info_def)

text \<open>
  C27. A transfer planned for a circular buffer stays inside it: it starts at a physical offset below the
  buffer size, is no longer than requested, ends at or before the end of the buffer, is
  not empty unless the request is, and the physical offset is the logical one modulo the size.
\<close>

theorem circular_io_in_buffer:
  assumes "is_circular i"
  shows "\<exists>off. calculate_circular_buf_addr (Some i) base logical = base + off
     \<and> unat off = unat logical mod 2 ^ 27
     \<and> unat off + unat (calculate_circular_io_size (Some i) logical req) \<le> 2 ^ 27
     \<and> calculate_circular_io_size (Some i) logical req \<le> req
     \<and> (0 < req \<longrightarrow> 0 < calculate_circular_io_size (Some i) logical req)"
proof -
  define off where "off = logical AND ucast MAGIC_BUFFER_MASK"
  have m: "(ucast MAGIC_BUFFER_MASK :: u64) = mask 27"
    by (simp add: MAGIC_BUFFER_MASK_def MAGIC_BUFFER_SIZE_def SLM_PAGE_SIZE_def mask_eq_exp_minus_1)
  have o: "unat off = unat logical mod 2 ^ 27"
    unfolding off_def m take_bit_eq_mask [symmetric] by (subst unsigned_take_bit_eq) (simp add: take_bit_eq_mod)
  have z: "(ucast MAGIC_BUFFER_SIZE :: u64) = 2 ^ 27" by (simp add: MAGIC_BUFFER_SIZE_def SLM_PAGE_SIZE_def)
  have lt: "unat off < 2 ^ 27" using o by simp
  then have r: "unat (2 ^ 27 - off) = 2 ^ 27 - unat off" using unat_sub_le [of off "2 ^ 27"] by (simp add: word_le_nat_alt)
  have "calculate_circular_io_size (Some i) logical req = (if req > 2 ^ 27 - off then 2 ^ 27 - off else req)"
    using assms by (simp add: calculate_circular_io_size_def Let_def off_def z)
  then show ?thesis using assms o lt r
    by (intro exI [of _ off]) (auto simp: calculate_circular_buf_addr_def off_def word_less_nat_alt word_le_nat_alt split: if_splits)
qed

theorem circular_io_in_buffer_witness:
  "\<exists>off. calculate_circular_buf_addr (Some (fresh_info\<lparr>is_circular := True\<rparr>)) 4096 134217000 = 4096 + off
     \<and> unat off + unat (calculate_circular_io_size (Some (fresh_info\<lparr>is_circular := True\<rparr>)) 134217000 65536) \<le> 2 ^ 27"
  using circular_io_in_buffer [of "fresh_info\<lparr>is_circular := True\<rparr>" 4096 134217000 65536] by (simp del: unat_sub_le) blast

definition sre_sum :: "source_range_entry list \<Rightarrow> nat" where
  "sre_sum es = (\<Sum>e\<leftarrow>es. unat (nByte e))"

lemma unat_nByte: "unat (ucast (nByte e) :: u64) = unat (nByte e)"
  using order.strict_trans [OF unsigned_less [of "nByte e"], of "2 ^ 64"]
  by (simp add: unsigned_ucast_eq take_bit_nat_eq_self_iff)

lemma sre_find_in_range:
  "unat off < sre_sum es \<Longrightarrow>
     \<exists>i l. i < length es \<and> sre_find es off = (Some (es ! i), l) \<and> sre_sum (take i es) + unat l = unat off
        \<and> unat l < unat (nByte (es ! i))"
proof (induction es arbitrary: off)
  case (Cons e es)
  show ?case
  proof (cases "off < ucast (nByte e)")
    case True
    then show ?thesis by (intro exI [of _ 0] exI [of _ off]) (simp add: sre_sum_def word_less_nat_alt unat_nByte)
  next
    case False
    then have le: "ucast (nByte e) \<le> off" by simp
    then have u: "unat (off - ucast (nByte e)) = unat off - unat (nByte e)" "unat (nByte e) \<le> unat off"
      by (simp_all add: word_le_nat_alt unat_nByte)
    then have "unat (off - ucast (nByte e)) < sre_sum es" using Cons.prems by (simp add: sre_sum_def)
    from Cons.IH [OF this] obtain i l where "i < length es" "sre_find es (off - ucast (nByte e)) = (Some (es ! i), l)"
      "sre_sum (take i es) + unat l = unat (off - ucast (nByte e))" "unat l < unat (nByte (es ! i))" by blast
    then show ?thesis using False u by (intro exI [of _ "Suc i"] exI [of _ l]) (simp add: sre_sum_def)
  qed
qed (simp add: sre_sum_def)

lemma and_not_mask_unat: "unat (v AND NOT (mask k) :: u64) = unat v div 2 ^ k * 2 ^ k"
proof -
  have "v AND NOT (mask k) = push_bit k (drop_bit k v)" by (rule bit_eqI) (auto simp: bit_simps)
  then have "unat (v AND NOT (mask k)) = take_bit 64 (unat v div 2 ^ k * 2 ^ k)"
    by (simp only: unsigned_push_bit_eq unsigned_drop_bit_eq) (use unsigned_less [of v, where 'a = nat] in \<open>simp add: take_bit_eq_mod push_bit_eq_mult drop_bit_eq_div\<close>)
  also have "\<dots> = unat v div 2 ^ k * 2 ^ k"
    using le_less_trans [OF div_times_less_eq_dividend [of "unat v" "2 ^ k"] unsigned_less [of v, where 'a = nat]]
    by (simp add: take_bit_nat_eq_self_iff)
  finally show ?thesis .
qed

lemma sector_round_up:
  fixes n :: u64
  assumes "unat n + 511 < 2 ^ 64"
  shows "unat (if n mod 512 \<noteq> 0 then (n + 512 - 1) AND NOT (512 - 1) else n) = (unat n + 511) div 512 * 512"
proof (cases "n mod 512 = 0")
  case True
  then have "unat n mod 512 = 0" using unat_mod [of n 512] by simp
  then obtain k where "unat n = 512 * k" using mod_0_imp_dvd by (auto simp: dvd_def)
  then have "(unat n + 511) div 512 * 512 = unat n" by simp
  then show ?thesis using True by simp
next
  case False
  have "n + 512 - 1 = 511 + n" "(512 - 1 :: u64) = mask 9" by (simp_all add: mask_eq_exp_minus_1)
  then have "unat ((n + 512 - 1) AND NOT (512 - 1)) = unat (511 + n) div 2 ^ 9 * 2 ^ 9"
    by (simp only: and_not_mask_unat)
  also have "unat (511 + n) = unat n + 511" using assms unat_add_no_wrap [of 511 n] by simp
  finally show ?thesis using False by (simp only: if_True not_False_eq_True) simp
qed

text \<open>
  C26. A load request at a stream offset inside the source ranges is planned on the entry that contains
  the offset: the device address is that entry's start plus the sectors before the offset, the
  length is positive, does not run past the entry, and is at most the requested length rounded up
  to a sector, and the sector remainder is that of the offset in the entry.
\<close>

theorem sre_plan_in_entry:
  assumes off: "unat off < sre_sum es" and first: "0 < unat (nByte (hd es))"
    and size: "0 < unat n" "unat n + 511 + 2 ^ 32 < 2 ^ 64"
  shows "\<exists>i l k. i < length es \<and> sre_sum (take i es) + unat l = unat off \<and> unat l < unat (nByte (es ! i))
     \<and> calculate_lba es off = Some (saddr (es ! i) + l div 512)
     \<and> calculate_io_size es off n = Some k \<and> 0 < unat k \<and> unat l + unat k \<le> unat (nByte (es ! i))
     \<and> unat k \<le> (unat n + 511) div 512 * 512 \<and> calculate_local_offset es off = l mod 512"
proof -
  obtain i l where il: "i < length es" "sre_find es off = (Some (es ! i), l)" "sre_sum (take i es) + unat l = unat off"
    "unat l < unat (nByte (es ! i))" using sre_find_in_range [OF off] by blast
  define m where "m = (if n mod 512 \<noteq> 0 then (n + 512 - 1) AND NOT (512 - 1) else n)"
  have m: "unat m = (unat n + 511) div 512 * 512" unfolding m_def by (rule sector_round_up) (use size in simp)
  have m0: "0 < unat m" "unat m + 2 ^ 32 < 2 ^ 64" using m size by auto
  have b: "unat (nByte (es ! i)) < 2 ^ 32" using unsigned_less [of "nByte (es ! i)"] by simp
  have lm: "unat (l + m) = unat l + unat m" using unat_add_no_wrap [of l m] m0 il(4) b by simp
  have "es \<noteq> []" using il(1) by auto
  have bu: "unat (ucast (nByte (es ! i)) - l) = unat (nByte (es ! i)) - unat l"
    using il(4) unat_sub_le [of l "ucast (nByte (es ! i))"] by (simp add: word_le_nat_alt unat_nByte)
  show ?thesis
  proof (cases "off = 0")
    case True
    have i0: "i = 0" "unat l = 0"
    proof -
      show l0: "unat l = 0" using il(3) True by simp
      show "i = 0"
      proof (rule ccontr)
        assume "i \<noteq> 0"
        then have "hd es \<in> set (take i es)" using \<open>es \<noteq> []\<close> by (cases es; cases i) auto
        then have "unat (nByte (hd es)) \<le> sre_sum (take i es)" unfolding sre_sum_def by (intro member_le_sum_list) auto
        then show False using first il(3) True by simp
      qed
    qed
    define k where "k = (if m < ucast (nByte (es ! 0)) then m else ucast (nByte (es ! 0)))"
    have "calculate_lba es off = Some (saddr (es ! 0))" "calculate_io_size es off n = Some k"
      using True \<open>es \<noteq> []\<close> by (cases es; simp add: calculate_lba_def calculate_io_size_def k_def m_def Let_def)+
    moreover have "0 < unat k" "unat k \<le> unat (nByte (es ! 0))" "unat k \<le> unat m"
      using m0 first \<open>es \<noteq> []\<close> by (auto simp: k_def word_less_nat_alt unat_nByte hd_conv_nth)
    moreover have "calculate_local_offset es off = l mod 512" using il(2) by (simp add: calculate_local_offset_def)
    ultimately show ?thesis using il i0 m by (intro exI [of _ i] exI [of _ l] exI [of _ k]) (auto simp: unat_eq_zero)
  next
    case False
    define k where "k = (if l + m > ucast (nByte (es ! i)) then ucast (nByte (es ! i)) - l else m)"
    have "calculate_lba es off = Some (saddr (es ! i) + l div 512)" "calculate_io_size es off n = Some k"
      using False il(2) by (simp_all add: calculate_lba_def calculate_io_size_def k_def m_def)
    moreover have "0 < unat k" "unat l + unat k \<le> unat (nByte (es ! i))" "unat k \<le> unat m"
      using m0 il(4) lm bu by (auto simp: k_def word_less_nat_alt unat_nByte)
    moreover have "calculate_local_offset es off = l mod 512" using il(2) by (simp add: calculate_local_offset_def)
    ultimately show ?thesis using il m by (intro exI [of _ i] exI [of _ l] exI [of _ k]) auto
  qed
qed

definition sample_sre :: "source_range_entry list" where
  "sample_sre = [\<lparr>sre_nsid = 1, saddr = 80, nByte = 4096\<rparr>, \<lparr>sre_nsid = 1, saddr = 16, nByte = 8192\<rparr>]"

theorem sre_plan_in_entry_witness:
  "\<exists>i l k. i < length sample_sre \<and> sre_sum (take i sample_sre) + unat l = 5000
     \<and> calculate_lba sample_sre 5000 = Some (saddr (sample_sre ! i) + l div 512)
     \<and> calculate_io_size sample_sre 5000 16384 = Some k \<and> 0 < unat k"
proof -
  have "unat (5000 :: u64) < sre_sum sample_sre" "0 < unat (nByte (hd sample_sre))"
    by (simp_all add: sre_sum_def sample_sre_def)
  from sre_plan_in_entry [OF this, of 16384] show ?thesis by auto
qed

end
