(* ===== verification/Buddy.thy ===== *)
theory Buddy
  imports Flax_Prelude
begin

text \<open>
  The buddy allocator of \<open>buddy.c\<close>, which hands out ranges of the shared local
  memory. A node of the C tree has a state and, while it is split, two children; here the
  state is the constructor and only a split node has children. \<open>act_size\<close> is written
  when a node becomes allocated and read only while it is, so only allocated nodes have it.

  The C functions use \<open>(size_t)-1\<close> for failure, which is \<open>None\<close> here; an index
  is a position in the pool, so it stays below the pool size (\<open>wf_node\<close>) and the
  sums of the code do not wrap. A request is served by recursion in the tree; a request for
  0 bytes never stops splitting, so the recursion itself is partial.
\<close>

section \<open>The tree\<close>

datatype node_t =
    FREE (nidx: nat) (nsize: nat)
  | SPLIT (nidx: nat) (nsize: nat) (left: node_t) (right: node_t)
  | ALLOC (nidx: nat) (nsize: nat) (act_size: nat)

definition buddy_init :: "nat \<Rightarrow> bool \<Rightarrow> node_t option \<times> int" where
  "buddy_init sz kzalloc_ok = (if kzalloc_ok then (Some (FREE 0 sz), 0) else (None, -1))"

text \<open>The new tree and the index; \<open>None\<close> when the recursion does not return.\<close>

partial_function (option) buddy_alloc_rec ::
  "node_t \<Rightarrow> nat \<Rightarrow> (node_t \<times> nat option) option" where
  "buddy_alloc_rec n req =
     (case n of
        SPLIT i s l r \<Rightarrow>
          do {
            (l', rt) \<leftarrow> buddy_alloc_rec l req;
            if rt \<noteq> None then Some (SPLIT i s l' r, rt)
            else do {
              (r', rt') \<leftarrow> buddy_alloc_rec r req;
              Some (SPLIT i s l' r', rt')
            }
          }
      | ALLOC i s a \<Rightarrow> Some (n, None)
      | FREE i s \<Rightarrow>
          if s < req then Some (n, None)
          else if s div 2 \<ge> req then
            do {
              (l', rt) \<leftarrow> buddy_alloc_rec (FREE i (s div 2)) req;
              Some (SPLIT i s l' (FREE (i + s div 2) (s div 2)), rt)
            }
          else Some (ALLOC i s req, Some i))"

fun buddy_free_rec :: "node_t \<Rightarrow> nat \<Rightarrow> node_t \<times> int" where
  "buddy_free_rec (SPLIT i s l r) idx =
     (let (l', rt_left) = buddy_free_rec l idx;
          (r', rt_right) = buddy_free_rec r idx;
          n' = (if is_FREE l' \<and> is_FREE r' then FREE i s else SPLIT i s l' r')
      in if rt_left = 0 \<or> rt_right = 0 then (n', 0) else (n', -1))"
| "buddy_free_rec (ALLOC i s a) idx = (if i = idx then (FREE i s, 0) else (ALLOC i s a, -1))"
| "buddy_free_rec (FREE i s) idx = (FREE i s, -1)"

fun buddy_size_rec :: "node_t \<Rightarrow> nat \<Rightarrow> nat option" where
  "buddy_size_rec (SPLIT i s l r) idx =
     (case buddy_size_rec r idx of None \<Rightarrow> buddy_size_rec l idx | Some rt \<Rightarrow> Some rt)"
| "buddy_size_rec (ALLOC i s a) idx = (if i \<le> idx \<and> idx < i + s then Some (i + s - idx) else None)"
| "buddy_size_rec (FREE i s) idx = None"

text \<open>As in the code, the split case goes on with the plain size function.\<close>

fun buddy_act_size_rec :: "node_t \<Rightarrow> nat \<Rightarrow> nat option" where
  "buddy_act_size_rec (SPLIT i s l r) idx =
     (case buddy_size_rec r idx of None \<Rightarrow> buddy_size_rec l idx | Some rt \<Rightarrow> Some rt)"
| "buddy_act_size_rec (ALLOC i s a) idx = (if i \<le> idx \<and> idx < i + a then Some (i + a - idx) else None)"
| "buddy_act_size_rec (FREE i s) idx = None"

text \<open>The nodes in the order in which \<open>_buddy_kill\<close> frees them.\<close>

fun buddy_kill_rec :: "node_t \<Rightarrow> node_t list" where
  "buddy_kill_rec (SPLIT i s l r) = buddy_kill_rec l @ buddy_kill_rec r @ [SPLIT i s l r]"
| "buddy_kill_rec (ALLOC i s a) = [ALLOC i s a]"
| "buddy_kill_rec (FREE i s) = [FREE i s]"

section \<open>The wrappers on \<open>buddy_head\<close>\<close>

definition buddy_alloc :: "node_t \<Rightarrow> nat \<Rightarrow> (node_t \<times> nat option) option" where
  "buddy_alloc buddy_head req = buddy_alloc_rec buddy_head req"

definition buddy_free :: "node_t \<Rightarrow> nat \<Rightarrow> node_t \<times> int" where
  "buddy_free buddy_head idx = buddy_free_rec buddy_head idx"

definition buddy_size :: "node_t \<Rightarrow> nat \<Rightarrow> nat option" where
  "buddy_size buddy_head idx = buddy_size_rec buddy_head idx"

definition buddy_act_size :: "node_t \<Rightarrow> nat \<Rightarrow> nat option" where
  "buddy_act_size buddy_head idx = buddy_act_size_rec buddy_head idx"

definition buddy_is_allocated :: "node_t \<Rightarrow> bool" where
  "buddy_is_allocated buddy_head = (\<not> is_FREE buddy_head)"

lemmas buddy_wrappers [flax_defs] = buddy_alloc_def buddy_free_def buddy_size_def
  buddy_act_size_def buddy_is_allocated_def

section \<open>Well-formed trees\<close>

text \<open>
  The children of a split node are its two halves, and they are not both free: freeing merges
  such a pair at once.
\<close>

fun wf_node :: "node_t \<Rightarrow> bool" where
  "wf_node (FREE i s) \<longleftrightarrow> 0 < s"
| "wf_node (ALLOC i s a) \<longleftrightarrow> 0 < a \<and> a \<le> s"
| "wf_node (SPLIT i s l r) \<longleftrightarrow> nidx l = i \<and> nsize l = s div 2
     \<and> nidx r = i + s div 2 \<and> nsize r = s div 2
     \<and> wf_node l \<and> wf_node r \<and> \<not> (is_FREE l \<and> is_FREE r)"

text \<open>The allocated blocks: index, block size, requested size.\<close>

fun allocs :: "node_t \<Rightarrow> (nat \<times> nat \<times> nat) set" where
  "allocs (FREE i s) = {}"
| "allocs (ALLOC i s a) = {(i, s, a)}"
| "allocs (SPLIT i s l r) = allocs l \<union> allocs r"

fun frees :: "node_t \<Rightarrow> (nat \<times> nat) set" where
  "frees (FREE i s) = {(i, s)}"
| "frees (ALLOC i s a) = {}"
| "frees (SPLIT i s l r) = frees l \<union> frees r"

lemma wf_node_pos: "wf_node n \<Longrightarrow> 0 < nsize n"
  by (induction n) auto

lemma allocs_within:
  "wf_node n \<Longrightarrow> (i, s, a) \<in> allocs n \<Longrightarrow> nidx n \<le> i \<and> i + s \<le> nidx n + nsize n \<and> 0 < a \<and> a \<le> s"
  by (induction n) fastforce+

lemma wf_split_alloc: "wf_node n \<Longrightarrow> \<not> is_FREE n \<Longrightarrow> allocs n \<noteq> {}"
  by (induction n) auto

text \<open>Two allocated blocks are the same or do not meet.\<close>

lemma allocs_disjoint:
  assumes "wf_node n" and "(i, s, a) \<in> allocs n" and "(j, t, b) \<in> allocs n"
  shows "(i, s, a) = (j, t, b) \<or> i + s \<le> j \<or> j + t \<le> i"
  using assms
proof (induction n)
  case (SPLIT k m l r)
  then show ?case using allocs_within [of l] allocs_within [of r] by fastforce
qed auto

section \<open>Allocation\<close>

text \<open>
  The outcome of a request: refused with the tree unchanged when every free leaf is too small;
  otherwise one more block, at most twice the request, and freeing it restores the tree.
\<close>

definition alloc_result :: "node_t \<Rightarrow> nat \<Rightarrow> node_t \<Rightarrow> nat option \<Rightarrow> bool" where
  "alloc_result n req n' rt \<longleftrightarrow>
     (case rt of
        None \<Rightarrow> n' = n \<and> (\<forall>(i, s)\<in>frees n. s < req)
      | Some i \<Rightarrow> wf_node n' \<and> \<not> is_FREE n' \<and> nidx n' = nidx n \<and> nsize n' = nsize n
          \<and> (\<exists>s. req \<le> s \<and> s div 2 < req \<and> (i, s, req) \<notin> allocs n
               \<and> allocs n' = insert (i, s, req) (allocs n))
          \<and> buddy_free_rec n' i = (n, 0))"

lemma buddy_free_rec_absent:
  "wf_node n \<Longrightarrow> (\<forall>s a. (idx, s, a) \<notin> allocs n) \<Longrightarrow> buddy_free_rec n idx = (n, -1)"
  by (induction n) (auto simp: Let_def)

lemma alloc_result_free:
  "0 < req \<Longrightarrow> 0 < s \<Longrightarrow>
     \<exists>n' rt. buddy_alloc_rec (FREE i s) req = Some (n', rt) \<and> alloc_result (FREE i s) req n' rt"
proof (induction s rule: less_induct)
  case (less s)
  show ?case
  proof (cases "req \<le> s \<and> req \<le> s div 2")
    case True
    then have h: "0 < s div 2" "s div 2 < s" using less.prems by auto
    from less.IH [OF h(2) less.prems(1) h(1)] obtain n' rt where
      c: "buddy_alloc_rec (FREE i (s div 2)) req = Some (n', rt)"
         "alloc_result (FREE i (s div 2)) req n' rt" by blast
    then obtain j where rt: "rt = Some j" using True by (cases rt) (auto simp: alloc_result_def)
    have "buddy_free_rec (SPLIT i s n' (FREE (i + s div 2) (s div 2))) j = (FREE i s, 0)"
      using c(2) rt by (simp add: alloc_result_def)
    then show ?thesis
      using c rt True h by (subst buddy_alloc_rec.simps) (auto simp: alloc_result_def)
  next
    case False
    then show ?thesis
      using less.prems by (subst buddy_alloc_rec.simps) (auto simp: alloc_result_def)
  qed
qed

theorem alloc_result_ex:
  assumes "0 < req"
  shows "wf_node n \<Longrightarrow> \<exists>n' rt. buddy_alloc_rec n req = Some (n', rt) \<and> alloc_result n req n' rt"
proof (induction n)
  case (FREE i s)
  then show ?case using alloc_result_free [OF assms] by simp
next
  case (ALLOC i s a)
  then show ?case by (simp add: buddy_alloc_rec.simps alloc_result_def)
next
  case (SPLIT i s l r)
  have wl: "wf_node l" and wr: "wf_node r" using SPLIT.prems by simp_all
  obtain l' rt where l: "buddy_alloc_rec l req = Some (l', rt)" "alloc_result l req l' rt"
    using SPLIT.IH(1) wl by blast
  obtain r' rt' where r: "buddy_alloc_rec r req = Some (r', rt')" "alloc_result r req r' rt'"
    using SPLIT.IH(2) wr by blast
  have apart: "x \<notin> allocs r" if "x \<in> allocs l'" "rt = Some j" for x j
    using that l(2) SPLIT.prems allocs_within [of l' "fst x" "fst (snd x)" "snd (snd x)"]
      allocs_within [of r "fst x" "fst (snd x)" "snd (snd x)"]
    by (force simp: alloc_result_def)
  show ?case
  proof (cases rt)
    case (Some j)
    have "\<forall>t a. (j, t, a) \<notin> allocs r"
      using Some l(2) SPLIT.prems allocs_within [of l' j _ req] allocs_within [of r j]
      by (force simp: alloc_result_def)
    from buddy_free_rec_absent [OF wr this]
    have "buddy_free_rec (SPLIT i s l' r) j = (SPLIT i s l r, 0)"
      using Some l(2) SPLIT.prems by (auto simp: alloc_result_def)
    then show ?thesis
      using l Some SPLIT.prems apart by (subst buddy_alloc_rec.simps) (auto simp: alloc_result_def)
  next
    case None
    then have l': "l' = l" using l(2) by (simp add: alloc_result_def)
    show ?thesis
    proof (cases rt')
      case N: None
      then show ?thesis
        using l r None l' by (subst buddy_alloc_rec.simps) (auto simp: alloc_result_def)
    next
      case (Some j)
      have "\<forall>t a. (j, t, a) \<notin> allocs l"
        using Some r(2) SPLIT.prems allocs_within [of r' j _ req] allocs_within [of l j]
        by (force simp: alloc_result_def)
      from buddy_free_rec_absent [OF wl this]
      have "buddy_free_rec (SPLIT i s l r') j = (SPLIT i s l r, 0)"
        using Some r(2) SPLIT.prems by (auto simp: alloc_result_def)
      then show ?thesis
        using l r None l' Some SPLIT.prems \<open>\<forall>t a. (j, t, a) \<notin> allocs l\<close>
        by (subst buddy_alloc_rec.simps) (auto simp: alloc_result_def)
    qed
  qed
qed

section \<open>Freeing and looking up\<close>

text \<open>A free tree, or a tree whose node at \<open>idx\<close> is given back.\<close>

lemma buddy_free_rec_present:
  "wf_node n \<Longrightarrow> (idx, s, a) \<in> allocs n \<Longrightarrow>
     \<exists>n'. buddy_free_rec n idx = (n', 0) \<and> wf_node n' \<and> nidx n' = nidx n \<and> nsize n' = nsize n
        \<and> allocs n' = allocs n - {(idx, s, a)}"
proof (induction n)
  case (SPLIT i t l r)
  have wl: "wf_node l" and wr: "wf_node r" and p: "0 < t div 2"
    using SPLIT.prems wf_node_pos [of l] by auto
  show ?case
  proof (cases "(idx, s, a) \<in> allocs l")
    case True
    with SPLIT.IH(1) wl obtain l' where l': "buddy_free_rec l idx = (l', 0)" "wf_node l'"
      "nidx l' = nidx l" "nsize l' = nsize l" "allocs l' = allocs l - {(idx, s, a)}" by blast
    have a: "(idx, u, b) \<notin> allocs r" for u b
      using True SPLIT.prems(1) allocs_within [OF wl True] allocs_within [OF wr, of idx u b] by auto
    then have "buddy_free_rec r idx = (r, -1)" using wr by (intro buddy_free_rec_absent) auto
    with l' a SPLIT.prems p show ?thesis by (cases "is_FREE l' \<and> is_FREE r") (auto simp: is_FREE_def)
  next
    case False
    then have T: "(idx, s, a) \<in> allocs r" using SPLIT.prems by simp
    with SPLIT.IH(2) wr obtain r' where r': "buddy_free_rec r idx = (r', 0)" "wf_node r'"
      "nidx r' = nidx r" "nsize r' = nsize r" "allocs r' = allocs r - {(idx, s, a)}" by blast
    have a: "(idx, u, b) \<notin> allocs l" for u b
      using T SPLIT.prems(1) allocs_within [OF wr T] allocs_within [OF wl, of idx u b] by auto
    then have "buddy_free_rec l idx = (l, -1)" using wl by (intro buddy_free_rec_absent) auto
    with r' a SPLIT.prems p show ?thesis by (cases "is_FREE l \<and> is_FREE r'") (auto simp: is_FREE_def)
  qed
qed auto

lemma buddy_size_rec_None:
  "buddy_size_rec n idx = None \<longleftrightarrow> (\<forall>(i, s, a)\<in>allocs n. \<not> (i \<le> idx \<and> idx < i + s))"
  by (induction n) (auto split: option.splits)

lemma buddy_size_rec_cover:
  "wf_node n \<Longrightarrow> (i, s, a) \<in> allocs n \<Longrightarrow> i \<le> idx \<Longrightarrow> idx < i + s \<Longrightarrow>
     buddy_size_rec n idx = Some (i + s - idx)"
proof (induction n)
  case (SPLIT k t l r)
  have wl: "wf_node l" and wr: "wf_node r" using SPLIT.prems by auto
  show ?case
  proof (cases "(i, s, a) \<in> allocs r")
    case True
    then show ?thesis using SPLIT.IH(2) [OF wr True] SPLIT.prems by simp
  next
    case False
    then have l: "(i, s, a) \<in> allocs l" using SPLIT.prems by simp
    have "buddy_size_rec r idx = None"
      unfolding buddy_size_rec_None
      using SPLIT.prems allocs_within [OF wl l] allocs_within [OF wr] by fastforce
    then show ?thesis using SPLIT.IH(1) [OF wl l] SPLIT.prems by simp
  qed
qed auto

lemma buddy_size_rec_Some:
  "wf_node n \<Longrightarrow> buddy_size_rec n idx = Some k \<longleftrightarrow>
     (\<exists>i s a. (i, s, a) \<in> allocs n \<and> i \<le> idx \<and> idx < i + s \<and> k = i + s - idx)"
  using buddy_size_rec_None [of n idx] buddy_size_rec_cover [of n _ _ _ idx]
  by (cases "buddy_size_rec n idx") fastforce+

section \<open>A request for no bytes\<close>

text \<open>Any answer the recursion gives to a request for 0 bytes comes from a tree without a free leaf.\<close>

lemma buddy_alloc_rec_zero: "buddy_alloc_rec n 0 = Some r \<Longrightarrow> frees n = {} \<and> snd r = None"
proof -
  have "buddy_alloc_rec n q = Some r \<Longrightarrow> q = 0 \<longrightarrow> frees n = {} \<and> snd r = None" for q
  proof (erule buddy_alloc_rec.raw_induct [rotated])
    fix f :: "node_t \<Rightarrow> nat \<Rightarrow> (node_t \<times> nat option) option" and n q r
    assume IH: "\<And>n q r. f n q = Some r \<Longrightarrow> q = 0 \<longrightarrow> frees n = {} \<and> snd r = None"
    have IH': "f n 0 = Some (a, b) \<Longrightarrow> frees n = {} \<and> b = None" for n a b using IH by fastforce
    assume "(case n of
        SPLIT i s l r \<Rightarrow>
          do {
            (l', rt) \<leftarrow> f l q;
            if rt \<noteq> None then Some (SPLIT i s l' r, rt)
            else do {
              (r', rt') \<leftarrow> f r q;
              Some (SPLIT i s l' r', rt')
            }
          }
      | ALLOC i s a \<Rightarrow> Some (n, None)
      | FREE i s \<Rightarrow>
          if s < q then Some (n, None)
          else if s div 2 \<ge> q then
            do {
              (l', rt) \<leftarrow> f (FREE i (s div 2)) q;
              Some (SPLIT i s l' (FREE (i + s div 2) (s div 2)), rt)
            }
          else Some (ALLOC i s q, Some i)) = Some r"
    then show "q = 0 \<longrightarrow> frees n = {} \<and> snd r = None"
      by (cases "q = 0") (auto dest!: IH' split: node_t.splits if_splits Option.bind_splits prod.splits)
  qed
  then show "buddy_alloc_rec n 0 = Some r \<Longrightarrow> frees n = {} \<and> snd r = None" by blast
qed

section \<open>The contract of a range allocator\<close>

text \<open>
  What the code that hands out device memory relies on: requests and frees keep the invariant
  and the pool, a granted block is new and large enough, a free gives back exactly the named
  block, and live blocks lie in the pool without overlap. A client is a sequence of requests.
\<close>

datatype request = Alloc nat | Free nat

primrec serve :: "('s \<Rightarrow> nat \<Rightarrow> ('s \<times> nat option) option) \<Rightarrow> ('s \<Rightarrow> nat \<Rightarrow> 's \<times> int)
    \<Rightarrow> request list \<Rightarrow> 's \<Rightarrow> 's option" where
  "serve alloc free [] t = Some t"
| "serve alloc free (q # qs) t =
     (case q of
        Alloc len \<Rightarrow> do { (t', rt) \<leftarrow> alloc t len; serve alloc free qs t' }
      | Free idx \<Rightarrow> serve alloc free qs (fst (free t idx)))"

locale range_allocator =
  fixes alloc :: "'s \<Rightarrow> nat \<Rightarrow> ('s \<times> nat option) option"
    and free :: "'s \<Rightarrow> nat \<Rightarrow> 's \<times> int"
    and inv :: "'s \<Rightarrow> bool"
    and blocks :: "'s \<Rightarrow> (nat \<times> nat \<times> nat) set"
    and pool :: "'s \<Rightarrow> nat \<times> nat"
  assumes alloc_cases: "inv t \<Longrightarrow> 0 < q \<Longrightarrow>
      (alloc t q = Some (t, None)) \<or>
      (\<exists>t' i s. alloc t q = Some (t', Some i) \<and> inv t' \<and> pool t' = pool t \<and> q \<le> s
         \<and> (i, s, q) \<notin> blocks t \<and> blocks t' = insert (i, s, q) (blocks t))"
    and free_present: "inv t \<Longrightarrow> (i, s, a) \<in> blocks t \<Longrightarrow>
      \<exists>t'. free t i = (t', 0) \<and> inv t' \<and> pool t' = pool t \<and> blocks t' = blocks t - {(i, s, a)}"
    and free_absent: "inv t \<Longrightarrow> \<forall>s a. (i, s, a) \<notin> blocks t \<Longrightarrow> free t i = (t, -1)"
    and inside: "inv t \<Longrightarrow> (i, s, a) \<in> blocks t \<Longrightarrow>
      fst (pool t) \<le> i \<and> i + s \<le> fst (pool t) + snd (pool t) \<and> 0 < a \<and> a \<le> s"
    and disjoint: "inv t \<Longrightarrow> (i, s, a) \<in> blocks t \<Longrightarrow> (j, u, b) \<in> blocks t \<Longrightarrow>
      (i, s, a) = (j, u, b) \<or> i + s \<le> j \<or> j + u \<le> i"
begin

lemma free_inv: "inv t \<Longrightarrow> inv (fst (free t i)) \<and> pool (fst (free t i)) = pool t"
  using free_present [of t i] free_absent [of t i] by fastforce

lemma serve_inv:
  "inv t \<Longrightarrow> (\<forall>len. Alloc len \<in> set qs \<longrightarrow> 0 < len) \<Longrightarrow>
     \<exists>t'. serve alloc free qs t = Some t' \<and> inv t' \<and> pool t' = pool t"
proof (induction qs arbitrary: t)
  case (Cons q qs)
  show ?case
  proof (cases q)
    case (Alloc len)
    then have "0 < len" using Cons.prems by simp
    from alloc_cases [OF Cons.prems(1) this] obtain t' rt where
      "alloc t len = Some (t', rt)" "inv t'" "pool t' = pool t" using Cons.prems by blast
    then show ?thesis using Cons Alloc by force
  next
    case (Free i)
    then show ?thesis using Cons.IH [of "fst (free t i)"] Cons.prems free_inv [of t i] by simp
  qed
qed simp

text \<open>A block stays where it is until it is freed.\<close>

lemma serve_keeps:
  "inv t \<Longrightarrow> (\<forall>len. Alloc len \<in> set qs \<longrightarrow> 0 < len) \<Longrightarrow> (i, s, a) \<in> blocks t \<Longrightarrow> Free i \<notin> set qs \<Longrightarrow>
     serve alloc free qs t = Some t' \<Longrightarrow> (i, s, a) \<in> blocks t'"
proof (induction qs arbitrary: t)
  case (Cons q qs)
  show ?case
  proof (cases q)
    case (Alloc len)
    then have "0 < len" using Cons.prems by simp
    from alloc_cases [OF Cons.prems(1) this] obtain u rt where
      "alloc t len = Some (u, rt)" "inv u" "(i, s, a) \<in> blocks u" using Cons.prems by blast
    then show ?thesis using Cons Alloc by force
  next
    case (Free j)
    then have "(i, s, a) \<in> blocks (fst (free t j))"
      using Cons.prems free_present [of t j] free_absent [of t j] by fastforce
    then show ?thesis using Cons.IH [of "fst (free t j)"] Cons.prems Free free_inv [of t j] by simp
  qed
qed simp

end

interpretation buddy: range_allocator buddy_alloc buddy_free wf_node allocs "\<lambda>n. (nidx n, nsize n)"
proof unfold_locales
  fix n q assume "wf_node n" "0 < (q::nat)"
  from alloc_result_ex [OF this(2,1)] obtain n' rt where
    r: "buddy_alloc_rec n q = Some (n', rt)" "alloc_result n q n' rt" by blast
  then show
    "buddy_alloc n q = Some (n, None) \<or>
     (\<exists>t' i s. buddy_alloc n q = Some (t', Some i) \<and> wf_node t' \<and> (nidx t', nsize t') = (nidx n, nsize n)
        \<and> q \<le> s \<and> (i, s, q) \<notin> allocs n \<and> allocs t' = insert (i, s, q) (allocs n))"
    by (cases rt) (auto simp: buddy_wrappers alloc_result_def)
qed (use buddy_free_rec_present buddy_free_rec_absent allocs_within allocs_disjoint in
  \<open>fastforce simp: buddy_wrappers\<close>)+

lemma buddy_is_allocated_iff: "wf_node n \<Longrightarrow> buddy_is_allocated n \<longleftrightarrow> allocs n \<noteq> {}"
  using wf_split_alloc [of n] by (cases n) (auto simp: buddy_wrappers)

section \<open>Properties\<close>

text \<open>A pool of 16 bytes with one block of 4 and one of 3 bytes.\<close>

definition sample_tree :: node_t where
  "sample_tree = SPLIT 0 16 (SPLIT 0 8 (ALLOC 0 4 4) (ALLOC 4 4 3)) (FREE 8 8)"

text \<open>
  C10. A request for at least one byte always returns. It is refused only when no free block can
  hold it, and then nothing changes. Otherwise it gets a new block of at least the requested and
  less than twice the requested size, every other block stays, the tree stays
  well-formed, and freeing the block gives the old tree back, splits undone.
\<close>

theorem buddy_alloc_correct:
  assumes "wf_node n" and "0 < req"
  shows "buddy_alloc n req = Some (n, None) \<and> (\<forall>(i, s)\<in>frees n. s < req) \<or>
    (\<exists>n' i s. buddy_alloc n req = Some (n', Some i) \<and> wf_node n' \<and> req \<le> s \<and> s div 2 < req
       \<and> (i, s, req) \<notin> allocs n \<and> allocs n' = insert (i, s, req) (allocs n)
       \<and> buddy_free n' i = (n, 0))"
proof -
  obtain n' rt where "buddy_alloc_rec n req = Some (n', rt)" "alloc_result n req n' rt"
    using alloc_result_ex [OF assms(2,1)] by blast
  then show ?thesis by (cases rt) (auto simp: buddy_wrappers alloc_result_def)
qed

theorem buddy_alloc_correct_witness:
  "\<exists>n' i s. buddy_alloc sample_tree 3 = Some (n', Some i) \<and> wf_node n' \<and> 3 \<le> s \<and> s div 2 < 3
       \<and> (i, s, 3) \<notin> allocs sample_tree \<and> allocs n' = insert (i, s, 3) (allocs sample_tree)
       \<and> buddy_free n' i = (sample_tree, 0)"
  using buddy_alloc_correct [of sample_tree 3] by (simp add: sample_tree_def)

text \<open>
  C11. Whatever requests (of at least one byte) and frees are served on a fresh pool of
  \<open>sz\<close> bytes, every one of them returns, the live blocks lie inside the pool and no two
  of them overlap; and when no block is live the pool is again one free block.
\<close>

theorem buddy_serve_safe:
  assumes "0 < sz" and "fst (buddy_init sz True) = Some n"
    and "\<forall>len. Alloc len \<in> set qs \<longrightarrow> 0 < len"
  shows "\<exists>t. serve buddy_alloc buddy_free qs n = Some t
     \<and> (\<forall>(i, s, a)\<in>allocs t. i + s \<le> sz \<and> a \<le> s
          \<and> (\<forall>(j, u, b)\<in>allocs t. (i, s, a) = (j, u, b) \<or> i + s \<le> j \<or> j + u \<le> i))
     \<and> (allocs t = {} \<longrightarrow> t = n)"
proof -
  have n: "n = FREE 0 sz" using assms(2) by (simp add: buddy_init_def)
  then have "wf_node n" using assms(1) by simp
  from buddy.serve_inv [OF this assms(3)] obtain t where
    t: "serve buddy_alloc buddy_free qs n = Some t" "wf_node t" "nidx t = 0" "nsize t = sz" by (auto simp: n)
  have "t = n" if "allocs t = {}"
    using that t wf_split_alloc [of t] by (cases t) (auto simp: n)
  moreover have "i + s \<le> sz \<and> a \<le> s" if "(i, s, a) \<in> allocs t" for i s a
    using allocs_within [OF t(2) that] t by simp
  ultimately show ?thesis using t allocs_disjoint [OF t(2)] by fastforce
qed

theorem buddy_serve_safe_witness:
  "\<exists>t. serve buddy_alloc buddy_free [Alloc 4, Alloc 3, Free 0] (FREE 0 16) = Some t
     \<and> (\<forall>(i, s, a)\<in>allocs t. i + s \<le> 16 \<and> a \<le> s
          \<and> (\<forall>(j, u, b)\<in>allocs t. (i, s, a) = (j, u, b) \<or> i + s \<le> j \<or> j + u \<le> i))
     \<and> (allocs t = {} \<longrightarrow> t = FREE 0 16)"
  using buddy_serve_safe [of 16 "FREE 0 16" "[Alloc 4, Alloc 3, Free 0]"] by (simp add: buddy_init_def)

text \<open>
  Freeing an index where a block starts removes exactly that block and keeps the tree
  well-formed; any other index is refused with the tree unchanged. Looking up an index gives the
  distance to the end of the block that covers it, and fails when none does.
\<close>

theorem buddy_free_size_correct:
  assumes "wf_node n"
  shows "(if \<exists>s a. (idx, s, a) \<in> allocs n
      then \<exists>n' s a. buddy_free n idx = (n', 0) \<and> wf_node n' \<and> (idx, s, a) \<in> allocs n
              \<and> allocs n' = allocs n - {(idx, s, a)}
      else buddy_free n idx = (n, -1))
    \<and> (buddy_size n idx = Some k \<longleftrightarrow>
       (\<exists>i s a. (i, s, a) \<in> allocs n \<and> i \<le> idx \<and> idx < i + s \<and> k = i + s - idx))"
proof (cases "\<exists>s a. (idx, s, a) \<in> allocs n")
  case True
  then obtain s a where "(idx, s, a) \<in> allocs n" by blast
  then show ?thesis
    using buddy_free_rec_present [OF assms, of idx s a] buddy_size_rec_Some [OF assms]
    by (auto simp: buddy_wrappers)
next
  case False
  then show ?thesis
    using buddy_free_rec_absent [OF assms, of idx] buddy_size_rec_Some [OF assms] by (simp add: buddy_wrappers)
qed

theorem buddy_free_size_correct_witness:
  "(\<exists>n' s a. buddy_free sample_tree 4 = (n', 0) \<and> wf_node n' \<and> (4, s, a) \<in> allocs sample_tree
       \<and> allocs n' = allocs sample_tree - {(4, s, a)})
   \<and> (buddy_size sample_tree 5 = Some 3 \<longleftrightarrow>
       (\<exists>i s a. (i, s, a) \<in> allocs sample_tree \<and> i \<le> 5 \<and> 5 < i + s \<and> 3 = i + s - 5))"
  using buddy_free_size_correct [of sample_tree 4] buddy_free_size_correct [of sample_tree 5 3]
  by (simp add: sample_tree_def)

text \<open>
  C16. A request for 0 bytes on a tree with a free block never returns: the block is split over
  and over. With no free block it is refused like any other.
\<close>

theorem buddy_alloc_zero_diverges:
  "frees n \<noteq> {} \<Longrightarrow> buddy_alloc n 0 = None"
  using buddy_alloc_rec_zero [of n] by (cases "buddy_alloc_rec n 0") (auto simp: buddy_wrappers)

theorem buddy_alloc_zero_diverges_witness: "buddy_alloc (FREE 0 16) 0 = None"
  using buddy_alloc_zero_diverges [of "FREE 0 16"] by simp

text \<open>
  The requested size of a block is reported only when the block is the whole pool: below a
  split, \<open>buddy_act_size\<close> is \<open>buddy_size\<close>, so a request smaller than its
  block is reported with the block's size.
\<close>

theorem buddy_act_size_below_split:
  assumes "wf_node n" and "nidx n = 0" and "(i, s, a) \<in> allocs n" and "s < nsize n"
  shows "buddy_act_size n i = Some s"
proof -
  from assms obtain l r where n: "n = SPLIT 0 (nsize n) l r" by (cases n) auto
  have "buddy_act_size n i = buddy_size_rec n i" by (subst (1 2) n) (simp add: buddy_wrappers)
  then show ?thesis
    using buddy_size_rec_cover [OF assms(1,3), of i] allocs_within [OF assms(1,3)] by simp
qed

theorem buddy_act_size_below_split_witness:
  "(4, 4, 3) \<in> allocs sample_tree \<and> buddy_act_size sample_tree 4 = Some 4"
  using buddy_act_size_below_split [of sample_tree 4 4 3] by (simp add: sample_tree_def)

end
