(* ===== verification/Csd_Task.thy ===== *)
theory Csd_Task
  imports Flax_Prelude
begin

unbundle bit_operations_syntax

text \<open>
  The task table of the computational storage dispatcher (\<open>csd_dispatcher.h\<close>, first part of
  \<open>csd_dispatcher.c\<close>): tasks live in a fixed array and are chained by index into one of
  several doubly linked lists (free, done, one per compute core). An index is a natural number
  below \<open>MAX_TASK_COUNT\<close>; \<open>(unsigned int)-1\<close>, the end of a chain, is
  \<open>None\<close>. The shared-memory descriptor of a task is a pointer, a number here.
\<close>

section \<open>Data\<close>

definition MAX_TASK_COUNT :: nat where
  "MAX_TASK_COUNT = 128"

definition TASK_POOL_BITS :: nat where
  "TASK_POOL_BITS = 7"

definition TASK_POOL_MASK :: u32 where
  "TASK_POOL_MASK = push_bit TASK_POOL_BITS 1 - 1"

definition TASK_ID_NONE :: u32 where
  "TASK_ID_NONE = -1"

definition COPY_TO_SLM_PROGRAM_INDEX :: u32 where
  "COPY_TO_SLM_PROGRAM_INDEX = 0"

datatype TASK_STEP = CCSD_TASK_FREE | CCSD_TASK_SCHEDULE | CCSD_TASK_WAIT | CCSD_TASK_END

record ccsd_task_info =
  task_step :: TASK_STEP
  proc_idx :: u32
  invalid :: bool
  total_size :: u64
  task_status :: u32
  task_slm_lba_info :: "nat option"
  requested_io_offset :: u64
  done_io_offset :: u64
  internal_io_count :: int
  input_buf_addr :: u64
  output_buf_addr :: u64
  program_idx :: u32
  origin_program_idx :: u32
  param_size :: u64
  params :: "u32 list"
  task_result :: u64
  processed_offset :: u64
  task_opcode :: u32
  t_next :: "nat option"
  t_prev :: "nat option"
  task_nsecs_target :: u64
  host_id :: int
  io_quota :: int
  is_first_io :: bool
  generation_id :: u32

type_synonym task_array = "nat \<Rightarrow> ccsd_task_info"

record ccsd_list =
  lhead :: "nat option"
  ltail :: "nat option"
  running :: int

record ccsd_task_table =
  task :: task_array
  free_list :: ccsd_list
  done_list :: ccsd_list
  comp_list :: "nat \<Rightarrow> ccsd_list"
  copy_to_slm_list_id :: nat
  num_slm_resources :: nat
  num_cpu_resources :: nat
  compute_turn :: nat
  next_generation :: u32

definition TASK_POOL_INDEX :: "u32 \<Rightarrow> nat" where
  "TASK_POOL_INDEX gen_id = unat (gen_id AND TASK_POOL_MASK)"

definition TASK_GEN_VALID :: "u32 \<Rightarrow> ccsd_task_info \<Rightarrow> bool" where
  "TASK_GEN_VALID gen_id t \<longleftrightarrow> gen_id \<noteq> TASK_ID_NONE \<and> generation_id t = gen_id"

section \<open>List operations\<close>

text \<open>The stores \<open>task_start->prev = -1; task_end->next = -1\<close> of both operations.\<close>

definition detach_ends :: "task_array \<Rightarrow> nat \<Rightarrow> nat \<Rightarrow> task_array" where
  "detach_ends T start endi =
     (let T1 = T(start := (T start)\<lparr>t_prev := None\<rparr>)
      in T1(endi := (T1 endi)\<lparr>t_next := None\<rparr>))"

definition enqueue_task_multi ::
  "task_array \<Rightarrow> ccsd_list \<Rightarrow> nat \<Rightarrow> nat \<Rightarrow> nat \<Rightarrow> (task_array \<times> ccsd_list) option" where
  "enqueue_task_multi T l start endi count =
     (let T2 = detach_ends T start endi
      in case lhead l of
           None \<Rightarrow> Some (T2, l\<lparr>lhead := Some start, ltail := Some endi, running := running l + int count\<rparr>)
         | Some _ \<Rightarrow>
             (case ltail l of
                None \<Rightarrow> None
              | Some t \<Rightarrow>
                  (let T3 = T2(start := (T2 start)\<lparr>t_prev := Some t\<rparr>);
                       T4 = T3(t := (T3 t)\<lparr>t_next := Some start\<rparr>)
                   in Some (T4, l\<lparr>ltail := Some endi, running := running l + int count\<rparr>))))"

definition dequeue_task_multi ::
  "task_array \<Rightarrow> ccsd_list \<Rightarrow> nat \<Rightarrow> nat \<Rightarrow> nat \<Rightarrow> task_array \<times> ccsd_list" where
  "dequeue_task_multi T l start endi count =
     (let prv = t_prev (T start);
          nxt = t_next (T endi);
          T2 = detach_ends T start endi;
          l1 = (if lhead l = Some start then l\<lparr>lhead := nxt\<rparr> else l);
          l2 = (if ltail l1 = Some endi then l1\<lparr>ltail := prv\<rparr> else l1);
          T3 = (case nxt of None \<Rightarrow> T2 | Some x \<Rightarrow> T2(x := (T2 x)\<lparr>t_prev := prv\<rparr>));
          T4 = (case prv of None \<Rightarrow> T3 | Some x \<Rightarrow> T3(x := (T3 x)\<lparr>t_next := nxt\<rparr>))
      in (T4, l2\<lparr>running := running l2 - int count\<rparr>))"

definition enqueue_task :: "task_array \<Rightarrow> ccsd_list \<Rightarrow> nat \<Rightarrow> (task_array \<times> ccsd_list) option" where
  "enqueue_task T l task_id = enqueue_task_multi T l task_id task_id 1"

definition dequeue_task :: "task_array \<Rightarrow> ccsd_list \<Rightarrow> nat \<Rightarrow> task_array \<times> ccsd_list" where
  "dequeue_task T l task_id = dequeue_task_multi T l task_id task_id 1"

definition enqueue_compute_work :: "ccsd_task_table \<Rightarrow> nat \<Rightarrow> nat \<Rightarrow> ccsd_task_table option" where
  "enqueue_compute_work tt task_id turn =
     map_option (\<lambda>(T, l). tt\<lparr>task := T, comp_list := (comp_list tt)(turn := l)\<rparr>)
       (enqueue_task (task tt) (comp_list tt turn) task_id)"

text \<open>The first core whose list is empty.\<close>

fun find_idle_from :: "(nat \<Rightarrow> ccsd_list) \<Rightarrow> nat \<Rightarrow> nat \<Rightarrow> nat option" where
  "find_idle_from ls i 0 = None"
| "find_idle_from ls i (Suc left) =
     (if running (ls i) = 0 then Some i else find_idle_from ls (Suc i) left)"

definition find_idle_compute_core :: "ccsd_task_table \<Rightarrow> nat option" where
  "find_idle_compute_core tt = find_idle_from (comp_list tt) 0 (num_cpu_resources tt)"

definition get_running_task_count :: "ccsd_task_table \<Rightarrow> int" where
  "get_running_task_count tt = int MAX_TASK_COUNT - running (free_list tt)"

text \<open>The new table and the task identifier; \<open>TASK_ID_NONE\<close> when the free list is empty.\<close>

definition make_generation_id :: "u32 \<Rightarrow> nat \<Rightarrow> u32" where
  "make_generation_id gen pool_index = push_bit TASK_POOL_BITS gen OR word_of_nat pool_index"

definition allocate_new_task :: "ccsd_task_table \<Rightarrow> (ccsd_task_table \<times> u32) option" where
  "allocate_new_task tt =
     (case lhead (free_list tt) of
        None \<Rightarrow> Some (tt, TASK_ID_NONE)
      | Some pool_index \<Rightarrow>
          if pool_index \<ge> MAX_TASK_COUNT \<or> task_step (task tt pool_index) \<noteq> CCSD_TASK_FREE then None
          else
            (let (T, l) = dequeue_task (task tt) (free_list tt) pool_index;
                 gen_id = make_generation_id (next_generation tt) pool_index;
                 gen = next_generation tt + 1;
                 (gen_id, gen) = (if gen_id = TASK_ID_NONE then (make_generation_id gen pool_index, gen + 1)
                                  else (gen_id, gen))
             in Some (tt\<lparr>task := T(pool_index := (T pool_index)\<lparr>generation_id := gen_id\<rparr>),
                         free_list := l, next_generation := gen\<rparr>, gen_id)))"

section \<open>Chains\<close>

text \<open>
  \<open>chain T p xs n\<close>: the tasks \<open>xs\<close> are linked in this order, entered from
  \<open>p\<close> and left towards \<open>n\<close>.
\<close>

abbreviation first_of :: "nat list \<Rightarrow> nat option \<Rightarrow> nat option" where
  "first_of xs n \<equiv> (case xs of [] \<Rightarrow> n | x # _ \<Rightarrow> Some x)"

definition last_of :: "nat list \<Rightarrow> nat option \<Rightarrow> nat option" where
  "last_of xs p = (if xs = [] then p else Some (last xs))"

lemma last_of_simps [simp]:
  "last_of [] p = p" "last_of (x # xs) p = last_of xs (Some x)" "last_of (xs @ ys) p = last_of ys (last_of xs p)"
  by (auto simp: last_of_def)

fun chain :: "task_array \<Rightarrow> nat option \<Rightarrow> nat list \<Rightarrow> nat option \<Rightarrow> bool" where
  "chain T p [] n \<longleftrightarrow> True"
| "chain T p (x # xs) n \<longleftrightarrow> t_prev (T x) = p \<and> t_next (T x) = first_of xs n \<and> chain T (Some x) xs n"

lemma chain_append:
  "chain T p (xs @ ys) n \<longleftrightarrow> chain T p xs (first_of ys n) \<and> chain T (last_of xs p) ys n"
  by (induction xs arbitrary: p) (auto split: list.splits)

lemma chain_cong:
  "(\<And>x. x \<in> set xs \<Longrightarrow> t_prev (T x) = t_prev (T' x) \<and> t_next (T x) = t_next (T' x)) \<Longrightarrow>
     chain T p xs n \<longleftrightarrow> chain T' p xs n"
  by (induction xs arbitrary: p) auto

lemma chain_same: "chain T p xs n \<Longrightarrow> (\<And>x. x \<in> set xs \<Longrightarrow> T' x = T x) \<Longrightarrow> chain T' p xs n"
  using chain_cong [of xs T T'] by simp

definition list_rep :: "task_array \<Rightarrow> ccsd_list \<Rightarrow> nat list \<Rightarrow> bool" where
  "list_rep T l xs \<longleftrightarrow> distinct xs \<and> chain T None xs None \<and> lhead l = first_of xs None
     \<and> ltail l = last_of xs None \<and> running l = int (length xs)"

lemma list_rep_cong:
  "(\<And>x. x \<in> set xs \<Longrightarrow> t_prev (T x) = t_prev (T' x) \<and> t_next (T x) = t_next (T' x)) \<Longrightarrow>
     list_rep T l xs \<longleftrightarrow> list_rep T' l xs"
  unfolding list_rep_def by (metis chain_cong)

text \<open>The parts of a task that linking does not touch.\<close>

definition unlinked :: "ccsd_task_info \<Rightarrow> ccsd_task_info" where
  "unlinked t = t\<lparr>t_next := None, t_prev := None\<rparr>"

text \<open>Changing the entry of the first and the exit of the last element of a chain.\<close>

lemma chain_upd [simp]: "x \<notin> set xs \<Longrightarrow> chain (T(x := v)) p xs n \<longleftrightarrow> chain T p xs n"
  by (intro chain_cong) auto

lemma chain_enter:
  "distinct (x # xs) \<Longrightarrow> chain T p (x # xs) n \<Longrightarrow> chain (T(x := (T x)\<lparr>t_prev := q\<rparr>)) q (x # xs) n"
  by simp

lemma chain_exit:
  "distinct xs \<Longrightarrow> xs \<noteq> [] \<Longrightarrow> chain T p xs n \<Longrightarrow>
     chain (T(last xs := (T (last xs))\<lparr>t_next := m\<rparr>)) p xs m"
proof (induction xs arbitrary: p)
  case (Cons x xs)
  then show ?case by (cases xs) (auto split: if_splits)
qed simp

lemma unlinked_links [simp]:
  "unlinked (t\<lparr>t_prev := p\<rparr>) = unlinked t" "unlinked (t\<lparr>t_next := n\<rparr>) = unlinked t"
  by (simp_all add: unlinked_def)

lemma detach_ends_chain:
  assumes c: "chain T p ys n" "distinct ys" "ys \<noteq> []"
  defines "T2 \<equiv> detach_ends T (hd ys) (last ys)"
  shows "chain T2 None ys None" and "\<And>x. x \<notin> set ys \<Longrightarrow> T2 x = T x" and "\<And>x. unlinked (T2 x) = unlinked (T x)"
proof -
  obtain y ys' where y: "ys = y # ys'" using c by (cases ys) auto
  have "chain (T(hd ys := (T (hd ys))\<lparr>t_prev := None\<rparr>)) None ys n" unfolding y using chain_enter [of y ys' T p n None] c y by simp
  from chain_exit [OF c(2,3) this] show "chain T2 None ys None"
    by (simp add: T2_def detach_ends_def Let_def)
  show "T2 x = T x" if "x \<notin> set ys" for x
  proof -
    have "x \<noteq> hd ys" "x \<noteq> last ys" using that c(3) hd_in_set last_in_set by blast+
    then show ?thesis by (simp add: T2_def detach_ends_def Let_def)
  qed
  show "unlinked (T2 x) = unlinked (T x)" for x by (simp add: T2_def detach_ends_def Let_def)
qed

lemma enqueue_multi_rep:
  assumes r: "list_rep T l xs" and ys: "chain T p ys n" "distinct ys" "ys \<noteq> []" and disj: "set xs \<inter> set ys = {}"
  shows "\<exists>T' l'. enqueue_task_multi T l (hd ys) (last ys) (length ys) = Some (T', l')
    \<and> list_rep T' l' (xs @ ys) \<and> (\<forall>x. unlinked (T' x) = unlinked (T x))
    \<and> (\<forall>x. x \<notin> set xs \<union> set ys \<longrightarrow> T' x = T x)"
proof -
  obtain y ys' where y: "ys = y # ys'" using ys by (cases ys) auto
  then have hy: "hd ys = y" "y \<in> set ys" "first_of ys None = Some y" by auto
  define T2 where "T2 = detach_ends T y (last ys)"
  note T2 = detach_ends_chain [OF ys, unfolded hy, folded T2_def]
  show ?thesis
  proof (cases "xs = []")
    case True
    let ?l = "l\<lparr>lhead := Some y, ltail := Some (last ys), running := running l + int (length ys)\<rparr>"
    have "lhead l = None" using r True by (simp add: list_rep_def)
    then have e: "enqueue_task_multi T l (hd ys) (last ys) (length ys) = Some (T2, ?l)"
      by (simp add: enqueue_task_multi_def hy T2_def)
    moreover have "list_rep T2 ?l (xs @ ys)"
      using r True T2(1) hy ys by (simp add: list_rep_def last_of_def)
    ultimately show ?thesis using T2(2,3) by blast
  next
    case False
    define t where "t = last xs"
    have t: "t \<in> set xs" "t \<notin> set ys" using last_in_set [OF False] disj t_def by blast+
    define T3 where "T3 = T2(y := (T2 y)\<lparr>t_prev := Some t\<rparr>)"
    define T4 where "T4 = T3(t := (T3 t)\<lparr>t_next := Some y\<rparr>)"
    let ?l = "l\<lparr>ltail := Some (last ys), running := running l + int (length ys)\<rparr>"
    have "chain T3 (Some t) ys None"
      unfolding T3_def y using chain_enter [of y ys' T2 None None "Some t"] T2(1) ys y by simp
    then have c4: "chain T4 (Some t) ys None" using t by (simp add: T4_def)
    have same: "T3 x = T x" if "x \<notin> set ys" for x
      using that hy(2) T2(2) [OF that] by (cases "x = y") (simp_all add: T3_def)
    then have "chain T3 None xs None"
      using chain_cong [of xs T3 T] r disj by (auto simp: list_rep_def disjoint_iff)
    then have cx: "chain T4 None xs (Some y)"
      unfolding T4_def t_def using chain_exit [of xs T3 None None "Some y"] False r
      by (simp add: list_rep_def)
    have "lhead l \<noteq> None" "ltail l = Some t"
      using r False by (auto simp: list_rep_def last_of_def t_def split: list.splits)
    then have e: "enqueue_task_multi T l (hd ys) (last ys) (length ys) = Some (T4, ?l)"
      by (auto simp: enqueue_task_multi_def hy T2_def T3_def T4_def Let_def)
    have "list_rep T4 ?l (xs @ ys)"
      using r disj ys c4 cx False hy
      by (simp add: list_rep_def chain_append last_of_def t_def split: list.splits)
    moreover have "unlinked (T4 x) = unlinked (T x)" for x
      by (simp add: T4_def T3_def T2(3))
    moreover have "T4 x = T x" if "x \<notin> set xs \<union> set ys" for x
    proof -
      have "x \<noteq> t" "x \<notin> set ys" using that t(1) by blast+
      then show ?thesis using same [of x] by (simp add: T4_def)
    qed
    ultimately show ?thesis using e by blast
  qed
qed

lemma chain_last_next: "chain T p xs n \<Longrightarrow> xs \<noteq> [] \<Longrightarrow> t_next (T (last xs)) = n"
  by (induction xs arbitrary: p) (auto split: list.splits)

text \<open>Linking what comes before and what comes after a cut.\<close>

lemma link_around:
  assumes a: "chain T None as m" and b: "chain T q bs None" and dist: "distinct (as @ bs)"
  defines "T3 \<equiv> (case first_of bs None of None \<Rightarrow> T | Some x \<Rightarrow> T(x := (T x)\<lparr>t_prev := last_of as None\<rparr>))"
  defines "T4 \<equiv> (case last_of as None of None \<Rightarrow> T3 | Some x \<Rightarrow> T3(x := (T3 x)\<lparr>t_next := first_of bs None\<rparr>))"
  shows "chain T4 None (as @ bs) None" and "\<And>x. x \<notin> set (as @ bs) \<Longrightarrow> T4 x = T x"
    and "\<And>x. unlinked (T4 x) = unlinked (T x)"
proof -
  let ?p = "last_of as None" and ?n = "first_of bs None"
  have b3: "chain T3 ?p bs None"
    using b dist chain_enter [of _ _ T q None ?p] by (cases bs) (simp_all add: T3_def del: chain.simps(2))
  have a3: "chain T3 None as m" using a dist by (cases bs) (simp_all add: T3_def)
  have a4: "chain T4 None as ?n"
    using a3 dist chain_exit [of as T3 None m ?n] by (cases "as = []") (simp_all add: T4_def last_of_def)
  have "last as \<notin> set bs" if "as \<noteq> []" using that dist last_in_set [of as] by (simp add: disjoint_iff)
  then have "chain T4 ?p bs None" using b3 by (cases "as = []") (simp_all add: T4_def last_of_def)
  with a4 show "chain T4 None (as @ bs) None" by (simp add: chain_append)
  show "unlinked (T4 x) = unlinked (T x)" for x by (simp add: T4_def T3_def split: option.splits)
  show "T4 x = T x" if x: "x \<notin> set (as @ bs)" for x
  proof -
    have "?n \<noteq> Some x" "?p \<noteq> Some x" using x by (auto simp: last_of_def split: list.splits if_splits)
    then show ?thesis by (simp add: T4_def T3_def split: option.splits)
  qed
qed

lemma dequeue_multi_rep:
  assumes r: "list_rep T l (as @ ys @ bs)" and ys: "ys \<noteq> []"
    and d: "dequeue_task_multi T l (hd ys) (last ys) (length ys) = (T', l')"
  shows "list_rep T' l' (as @ bs) \<and> chain T' None ys None \<and> (\<forall>x. unlinked (T' x) = unlinked (T x))
    \<and> (\<forall>x. x \<notin> set (as @ ys @ bs) \<longrightarrow> T' x = T x)"
proof -
  obtain y ys' where y: "ys = y # ys'" using ys by (cases ys) auto
  then have hy: "hd ys = y" "y \<in> set ys" "\<And>n. first_of ys n = Some y" by auto
  have dist: "distinct ys" "distinct (as @ bs)" "set (as @ bs) \<inter> set ys = {}"
    using r by (auto simp: list_rep_def)
  let ?p = "last_of as None" and ?n = "first_of bs None"
  have ca: "chain T None as (Some y)" and cy: "chain T ?p ys ?n" and cb: "chain T (Some (last ys)) bs None"
    using r chain_append [of T None as "ys @ bs" None] chain_append [of T ?p ys bs None] ys
    by (simp_all add: list_rep_def y last_of_def)
  have p: "t_prev (T y) = ?p" using cy y by simp
  have n: "t_next (T (last ys)) = ?n" using chain_last_next [OF cy ys] .
  define T2 where "T2 = detach_ends T y (last ys)"
  note T2 = detach_ends_chain [OF cy dist(1) ys, unfolded hy, folded T2_def]
  have "chain T2 None as (Some y)" "chain T2 (Some (last ys)) bs None"
    using T2(2) dist(3) by (auto intro!: chain_same [OF ca] chain_same [OF cb])
  note T4 = link_around [OF this dist(2)]
  have T': "T' = (let T3 = (case ?n of None \<Rightarrow> T2 | Some x \<Rightarrow> T2(x := (T2 x)\<lparr>t_prev := ?p\<rparr>))
      in case ?p of None \<Rightarrow> T3 | Some x \<Rightarrow> T3(x := (T3 x)\<lparr>t_next := ?n\<rparr>))"
    using arg_cong [OF d, of fst] by (simp add: dequeue_task_multi_def Let_def hy p n flip: T2_def)
  note T4 = T4 [folded T' [unfolded Let_def]]
  have y4: "chain T' None ys None" by (rule chain_same [OF T2(1)]) (use T4(2) dist(3) in blast)
  have hd_l: "lhead l = Some (if as = [] then y else hd as)"
    using r by (cases as) (simp_all add: list_rep_def y)
  have tl_l: "ltail l = Some (if bs = [] then last ys else last bs)"
    using r ys by (simp add: list_rep_def last_of_def)
  have ne: "as \<noteq> [] \<Longrightarrow> hd as \<noteq> y" "bs \<noteq> [] \<Longrightarrow> last bs \<noteq> last ys"
    using dist(3) hy(2) hd_in_set [of as] last_in_set [of bs] last_in_set [OF ys]
    by (metis IntI UnCI empty_iff set_append)+
  have l'_eq: "l' = snd (dequeue_task_multi T l y (last ys) (length ys))" using d hy by simp
  have "lhead l' = first_of (as @ bs) None"
    unfolding l'_eq using hd_l tl_l ne by (cases as) (simp_all add: dequeue_task_multi_def Let_def n)
  moreover have "ltail l' = last_of (as @ bs) None"
    unfolding l'_eq using hd_l tl_l ne by (cases "bs = []") (simp_all add: dequeue_task_multi_def Let_def p last_of_def)
  moreover have "running l' = int (length (as @ bs))"
    unfolding l'_eq using r by (simp add: dequeue_task_multi_def Let_def list_rep_def)
  ultimately have "list_rep T' l' (as @ bs)" using T4(1) dist by (simp add: list_rep_def)
  moreover have "T' x = T x" if "x \<notin> set (as @ ys @ bs)" for x
    using that T4(2) [of x] T2(2) [of x] by simp
  ultimately show ?thesis using T4(3) T2(3) y4 by simp
qed

section \<open>The contract of an intrusive list\<close>

text \<open>
  What the dispatcher relies on when it moves tasks between lists: enqueueing appends, dequeueing
  takes out exactly the named task wherever it is, a task outside the list is not touched, and
  nothing but the links of a task changes.
\<close>

locale intrusive_list =
  fixes rep :: "'m \<Rightarrow> 'l \<Rightarrow> nat list \<Rightarrow> bool"
    and enq :: "'m \<Rightarrow> 'l \<Rightarrow> nat \<Rightarrow> ('m \<times> 'l) option"
    and deq :: "'m \<Rightarrow> 'l \<Rightarrow> nat \<Rightarrow> 'm \<times> 'l"
    and payload :: "'m \<Rightarrow> nat \<Rightarrow> 'v"
    and same_at :: "'m \<Rightarrow> 'm \<Rightarrow> nat \<Rightarrow> bool"
  assumes enq_rep: "rep m l xs \<Longrightarrow> x \<notin> set xs \<Longrightarrow>
      \<exists>m' l'. enq m l x = Some (m', l') \<and> rep m' l' (xs @ [x]) \<and> payload m' = payload m
        \<and> (\<forall>y. y \<notin> insert x (set xs) \<longrightarrow> same_at m m' y)"
    and deq_rep: "rep m l (as @ x # bs) \<Longrightarrow> deq m l x = (m', l') \<Longrightarrow>
      rep m' l' (as @ bs) \<and> payload m' = payload m \<and> (\<forall>y. y \<notin> set (as @ x # bs) \<longrightarrow> same_at m m' y)"
    and rep_same: "rep m l xs \<Longrightarrow> (\<And>y. y \<in> set xs \<Longrightarrow> same_at m m' y) \<Longrightarrow> rep m' l xs"
    and rep_distinct: "rep m l xs \<Longrightarrow> distinct xs"
begin

text \<open>A task moves from one list to the end of another; a third list is not touched.\<close>

lemma move_rep:
  assumes "rep m l (as @ x # bs)" and "rep m k ys" and disj: "set (as @ x # bs) \<inter> set ys = {}"
    and "deq m l x = (m1, l1)"
  shows "\<exists>m2 k2. enq m1 k x = Some (m2, k2) \<and> rep m2 l1 (as @ bs) \<and> rep m2 k2 (ys @ [x])
    \<and> payload m2 = payload m
    \<and> (\<forall>j zs. rep m j zs \<and> set zs \<inter> set (as @ x # bs @ ys) = {} \<longrightarrow> rep m2 j zs)"
proof -
  have d: "rep m1 l1 (as @ bs)" "payload m1 = payload m"
    "\<And>y. y \<notin> set (as @ x # bs) \<Longrightarrow> same_at m m1 y" using deq_rep [OF assms(1,4)] by auto
  have k1: "rep m1 k ys" using rep_same [OF assms(2)] d(3) disj by blast
  have "x \<notin> set ys" using disj by auto
  then obtain m2 k2 where e: "enq m1 k x = Some (m2, k2)" "rep m2 k2 (ys @ [x])" "payload m2 = payload m1"
    "\<And>y. y \<notin> insert x (set ys) \<Longrightarrow> same_at m1 m2 y" using enq_rep [OF k1] by blast
  have xn: "x \<notin> set (as @ bs)" using rep_distinct [OF assms(1)] by auto
  have l2: "rep m2 l1 (as @ bs)"
    by (rule rep_same [OF d(1)], rule e(4)) (use xn disj in auto)
  have "rep m2 j zs" if z: "rep m j zs" "set zs \<inter> set (as @ x # bs @ ys) = {}" for j zs
  proof -
    have "rep m1 j zs" by (rule rep_same [OF z(1)], rule d(3)) (use z(2) in auto)
    then show ?thesis by (rule rep_same, intro e(4)) (use z(2) in auto)
  qed
  then show ?thesis using e l2 d(2) by auto
qed

end

lemma enqueue_rep:
  assumes "list_rep T l xs" and "x \<notin> set xs"
  shows "\<exists>T' l'. enqueue_task T l x = Some (T', l') \<and> list_rep T' l' (xs @ [x])
    \<and> (\<forall>y. unlinked (T' y) = unlinked (T y)) \<and> (\<forall>y. y \<notin> insert x (set xs) \<longrightarrow> T' y = T y)"
  using enqueue_multi_rep [OF assms(1), of "t_prev (T x)" "[x]" "t_next (T x)"] assms(2)
  by (auto simp: enqueue_task_def)

lemma dequeue_rep:
  assumes "list_rep T l (as @ x # bs)" and "dequeue_task T l x = (T', l')"
  shows "list_rep T' l' (as @ bs) \<and> (\<forall>y. unlinked (T' y) = unlinked (T y))
    \<and> (\<forall>y. y \<notin> set (as @ x # bs) \<longrightarrow> T' y = T y)"
  using dequeue_multi_rep [of T l as "[x]" bs T' l'] assms by (simp add: dequeue_task_def)

interpretation tasks: intrusive_list list_rep enqueue_task dequeue_task "\<lambda>T x. unlinked (T x)" "\<lambda>T T' y. T' y = T y"
proof
  show "\<exists>m' l'. enqueue_task m l x = Some (m', l') \<and> list_rep m' l' (xs @ [x])
      \<and> (\<lambda>x. unlinked (m' x)) = (\<lambda>x. unlinked (m x)) \<and> (\<forall>y. y \<notin> insert x (set xs) \<longrightarrow> m' y = m y)"
    if "list_rep m l xs" "x \<notin> set xs" for m l xs x
    using enqueue_rep [OF that] by blast
  show "list_rep m' l' (as @ bs) \<and> (\<lambda>x. unlinked (m' x)) = (\<lambda>x. unlinked (m x))
      \<and> (\<forall>y. y \<notin> set (as @ x # bs) \<longrightarrow> m' y = m y)"
    if "list_rep m l (as @ x # bs)" "dequeue_task m l x = (m', l')" for m l as x bs m' l'
    using dequeue_rep [OF that] by blast
  show "list_rep m' l xs" if "list_rep m l xs" "\<And>y. y \<in> set xs \<Longrightarrow> m' y = m y" for m l xs m'
    using list_rep_cong [of xs m' m l] that by simp
  show "distinct xs" if "list_rep m l xs" for m l xs
    using that by (simp add: list_rep_def)
qed

section \<open>Task identifiers\<close>

lemma pool_mask_eq: "TASK_POOL_MASK = mask 7"
  by (simp add: TASK_POOL_MASK_def TASK_POOL_BITS_def mask_eq_decr_exp)

lemma task_pool_index_mod: "TASK_POOL_INDEX w = unat w mod 128"
  unfolding TASK_POOL_INDEX_def pool_mask_eq take_bit_eq_mask [symmetric]
  by (subst unsigned_take_bit_eq) (simp add: take_bit_eq_mod)

lemma generation_id_unat:
  assumes "i < 128"
  shows "unat (make_generation_id g i) = (unat g mod 2 ^ 25) * 128 + i"
proof -
  have i: "unat (word_of_nat i :: u32) = i" using assms by (simp add: unsigned_of_nat take_bit_eq_mod)
  have p: "unat (push_bit 7 g) = (unat g mod 2 ^ 25) * 128"
    by (simp add: push_bit_eq_mult unat_word_ariths mult_mod_left)
  have "push_bit 7 g AND (word_of_nat i :: u32) = 0"
  proof (rule bit_eqI)
    fix n
    have "n < 7" if "bit (word_of_nat i :: u32) n"
    proof (rule ccontr)
      assume "\<not> n < 7"
      then have "(128::nat) \<le> 2 ^ n" using power_increasing [of 7 n "2::nat"] by simp
      then have "i div 2 ^ n = 0" using assms by simp
      moreover have "bit i n" using that by (simp only: bit_of_nat_iff)
      ultimately show False by (simp add: bit_iff_odd)
    qed
    then show "bit (push_bit 7 g AND (word_of_nat i :: u32)) n \<longleftrightarrow> bit (0 :: u32) n"
      by (auto simp: bit_simps)
  qed
  then have "make_generation_id g i = push_bit 7 g + word_of_nat i"
    by (simp add: make_generation_id_def TASK_POOL_BITS_def disjunctive_add_eq_or)
  moreover have "(unat g mod 2 ^ 25) * 128 + i < 2 ^ 32"
    using assms mod_less_divisor [of "2 ^ 25" "unat g"] by simp
  ultimately show ?thesis using i p unat_add_no_wrap [of "push_bit 7 g" "word_of_nat i"] by simp
qed

lemma generation_id_pool: "i < 128 \<Longrightarrow> TASK_POOL_INDEX (make_generation_id g i) = i"
  by (simp add: task_pool_index_mod generation_id_unat)

lemma generation_id_eq:
  assumes "i < 128" and "j < 128"
  shows "make_generation_id g i = make_generation_id h j \<longleftrightarrow> i = j \<and> unat g mod 2 ^ 25 = unat h mod 2 ^ 25"
proof
  assume e: "make_generation_id g i = make_generation_id h j"
  have "i = j" using generation_id_pool [OF assms(1)] generation_id_pool [OF assms(2)] e by metis
  moreover have "(unat g mod 2 ^ 25) * 128 + i = (unat h mod 2 ^ 25) * 128 + j"
    using generation_id_unat assms e by metis
  ultimately show "i = j \<and> unat g mod 2 ^ 25 = unat h mod 2 ^ 25" by simp
next
  assume "i = j \<and> unat g mod 2 ^ 25 = unat h mod 2 ^ 25"
  then show "make_generation_id g i = make_generation_id h j"
    using generation_id_unat assms by (metis word_unat_eq_iff)
qed

lemma succ_mod_ne: "1 < m \<Longrightarrow> Suc a mod m \<noteq> a mod (m::nat)"
  by (simp add: mod_Suc)

lemma unat_succ_mod: "unat (g + 1 :: u32) mod 2 ^ 25 = Suc (unat g) mod 2 ^ 25"
  by (simp add: unat_word_ariths mod_mod_cancel)

text \<open>The sentinel is produced only at the last generation of the last slot, never twice running.\<close>

lemma generation_id_none:
  assumes "i < 128" and "make_generation_id g i = TASK_ID_NONE"
  shows "make_generation_id (g + 1) i \<noteq> TASK_ID_NONE"
proof
  assume "make_generation_id (g + 1) i = TASK_ID_NONE"
  then have "unat (g + 1) mod 2 ^ 25 = unat g mod 2 ^ 25"
    using generation_id_eq [OF assms(1,1)] assms(2) by metis
  then show False using succ_mod_ne [of "2 ^ 25" "unat g"] unat_succ_mod [of g] by simp
qed

section \<open>Properties\<close>

text \<open>
  A table is consistent when its free list is a chain of free tasks of the pool.
\<close>

definition free_inv :: "ccsd_task_table \<Rightarrow> nat list \<Rightarrow> bool" where
  "free_inv tt fs \<longleftrightarrow> list_rep (task tt) (free_list tt) fs
     \<and> (\<forall>x\<in>set fs. x < MAX_TASK_COUNT \<and> task_step (task tt x) = CCSD_TASK_FREE)"

lemma unlinked_fields:
  "unlinked t = unlinked u \<Longrightarrow> task_step t = task_step u \<and> generation_id t = generation_id u \<and> program_idx t = program_idx u"
  unfolding unlinked_def by (cases t; cases u) simp

text \<open>Taking the first task of the free list.\<close>

lemma allocate_effect:
  assumes r: "list_rep (task tt) (free_list tt) (x # xs)" and x: "x < MAX_TASK_COUNT" "task_step (task tt x) = CCSD_TASK_FREE"
  shows "\<exists>tt' g j. allocate_new_task tt = Some (tt', g) \<and> j \<in> {0, 1} \<and> g = make_generation_id (next_generation tt + j) x \<and> g \<noteq> TASK_ID_NONE
     \<and> TASK_POOL_INDEX g = x \<and> list_rep (task tt') (free_list tt') xs
     \<and> (\<forall>y. unlinked (task tt' y) = unlinked (if y = x then (task tt y)\<lparr>generation_id := g\<rparr> else task tt y))
     \<and> (\<forall>y. y \<notin> set (x # xs) \<longrightarrow> task tt' y = task tt y)
     \<and> tt' = tt\<lparr>task := task tt', free_list := free_list tt', next_generation := next_generation tt + j + 1\<rparr>"
proof -
  let ?g = "next_generation tt"
  have x': "x < 128" "lhead (free_list tt) = Some x" using x r by (simp_all add: MAX_TASK_COUNT_def list_rep_def)
  obtain T l where d: "dequeue_task (task tt) (free_list tt) x = (T, l)" by fastforce
  have q: "list_rep T l xs" "\<And>y. unlinked (T y) = unlinked (task tt y)" "\<And>y. y \<notin> set (x # xs) \<Longrightarrow> T y = task tt y"
    using dequeue_rep [of "task tt" "free_list tt" "[]" x xs T l] d r by auto
  define j where "j = (if make_generation_id ?g x = TASK_ID_NONE then 1 else 0 :: u32)"
  define g where "g = make_generation_id (?g + j) x"
  define T' where "T' = T(x := (T x)\<lparr>generation_id := g\<rparr>)"
  have g: "g \<noteq> TASK_ID_NONE" "TASK_POOL_INDEX g = x"
    using generation_id_none [OF x'(1)] generation_id_pool [OF x'(1)] by (auto simp: g_def j_def)
  have a: "allocate_new_task tt = Some (tt\<lparr>task := T', free_list := l, next_generation := ?g + j + 1\<rparr>, g)"
    using x x'(2) d by (cases "make_generation_id ?g x = TASK_ID_NONE") (simp_all add: allocate_new_task_def Let_def T'_def g_def j_def)
  have "x \<notin> set xs" using r by (simp add: list_rep_def)
  then have l': "list_rep T' l xs" using q(1) list_rep_cong [of xs T' T l] by (auto simp: T'_def)
  have "unlinked (t\<lparr>generation_id := v\<rparr>) = (unlinked t)\<lparr>generation_id := v\<rparr>" for t v by (simp add: unlinked_def)
  then have "unlinked (T' y) = unlinked (if y = x then (task tt y)\<lparr>generation_id := g\<rparr> else task tt y)" for y
    using q(2) by (simp add: T'_def)
  moreover have "T' y = task tt y" if "y \<notin> set (x # xs)" for y using q(3) [OF that] that by (simp add: T'_def)
  moreover have "j \<in> {0, 1}" by (simp add: j_def)
  ultimately show ?thesis using a g l' g_def
    by (intro exI [of _ "tt\<lparr>task := T', free_list := l, next_generation := ?g + j + 1\<rparr>"] exI [of _ g] exI [of _ j]) simp
qed

definition empty_list :: ccsd_list where
  "empty_list = \<lparr>lhead = None, ltail = None, running = 0\<rparr>"

text \<open>A task of the static table, zeroed, with the fields that initialisation sets; \<open>params\<close> has 128 words.\<close>

definition idle_task :: ccsd_task_info where
  "idle_task = \<lparr>task_step = CCSD_TASK_FREE, proc_idx = 0, invalid = False, total_size = 0, task_status = 0,
     task_slm_lba_info = None, requested_io_offset = 0, done_io_offset = 0, internal_io_count = 0,
     input_buf_addr = 0, output_buf_addr = 0, program_idx = 0, origin_program_idx = 0, param_size = 0,
     params = replicate 128 0, task_result = 0, processed_offset = 0, task_opcode = 0, t_next = None, t_prev = None,
     task_nsecs_target = 0, host_id = 0, io_quota = 0, is_first_io = False, generation_id = TASK_ID_NONE\<rparr>"

text \<open>Tasks 3, 1 and 2 are chained in this order.\<close>

definition sample_tasks :: task_array where
  "sample_tasks = (\<lambda>_. idle_task)
     (3 := idle_task\<lparr>t_next := Some 1\<rparr>, 1 := idle_task\<lparr>t_prev := Some 3, t_next := Some 2\<rparr>,
      2 := idle_task\<lparr>t_prev := Some 1\<rparr>)"

definition sample_list :: ccsd_list where
  "sample_list = \<lparr>lhead = Some 3, ltail = Some 2, running = 3\<rparr>"

definition sample_table :: ccsd_task_table where
  "sample_table = \<lparr>task = sample_tasks, free_list = sample_list, done_list = empty_list,
     comp_list = (\<lambda>_. empty_list), copy_to_slm_list_id = 4, num_slm_resources = 1, num_cpu_resources = 4,
     compute_turn = 0, next_generation = -1\<rparr>"

lemma sample_rep: "list_rep sample_tasks sample_list [3, 1, 2]"
  by (simp add: list_rep_def sample_tasks_def sample_list_def idle_task_def last_of_def)

lemma empty_rep: "list_rep T empty_list []"
  by (simp add: list_rep_def empty_list_def)

text \<open>
  C25. Moving a task, wherever it stands in its list, to another list: dequeueing it and enqueueing it
  there succeeds, the first list loses exactly that task and keeps its order, the second gets it at
  the end, every list without a task of these two is still intact, and no field of any task but the
  links changes.
\<close>

theorem move_task:
  assumes "list_rep T l (as @ x # bs)" and "list_rep T k ys" and "set (as @ x # bs) \<inter> set ys = {}"
    and "dequeue_task T l x = (T1, l1)"
  shows "\<exists>T2 k2. enqueue_task T1 k x = Some (T2, k2) \<and> list_rep T2 l1 (as @ bs) \<and> list_rep T2 k2 (ys @ [x])
    \<and> (\<forall>j zs. list_rep T j zs \<and> set zs \<inter> set (as @ x # bs @ ys) = {} \<longrightarrow> list_rep T2 j zs)
    \<and> (\<forall>y. unlinked (T2 y) = unlinked (T y))"
  using tasks.move_rep [OF assms] by (auto dest: fun_cong)

theorem move_task_witness:
  "\<exists>T2 k2. enqueue_task (fst (dequeue_task sample_tasks sample_list 1)) empty_list 1 = Some (T2, k2)
     \<and> list_rep T2 (snd (dequeue_task sample_tasks sample_list 1)) [3, 2] \<and> list_rep T2 k2 [1]"
  using move_task [of sample_tasks sample_list "[3]" 1 "[2]" empty_list "[]"] sample_rep empty_rep
  by (cases "dequeue_task sample_tasks sample_list 1") auto

text \<open>
  Allocating a task. With an empty free list the result is \<open>TASK_ID_NONE\<close> and nothing
  changes. Otherwise the first free task is taken; its identifier is not the sentinel, names the
  slot in its low bits and is valid for that task alone, whatever the generation counter is; the rest
  of the free list stays.
\<close>

theorem allocate_new_task_correct:
  assumes "free_inv tt fs"
  shows "(if fs = [] then allocate_new_task tt = Some (tt, TASK_ID_NONE)
     else \<exists>tt' gen_id. allocate_new_task tt = Some (tt', gen_id) \<and> gen_id \<noteq> TASK_ID_NONE
        \<and> TASK_POOL_INDEX gen_id = hd fs \<and> TASK_GEN_VALID gen_id (task tt' (hd fs)) \<and> free_inv tt' (tl fs)
        \<and> (\<forall>x. x \<noteq> hd fs \<longrightarrow> unlinked (task tt' x) = unlinked (task tt x)))"
proof (cases fs)
  case Nil
  then show ?thesis using assms by (simp add: free_inv_def list_rep_def allocate_new_task_def)
next
  case (Cons x xs)
  have x: "list_rep (task tt) (free_list tt) (x # xs)" "x < MAX_TASK_COUNT" "task_step (task tt x) = CCSD_TASK_FREE"
    using assms Cons by (auto simp: free_inv_def)
  obtain tt' g where e: "allocate_new_task tt = Some (tt', g)" "g \<noteq> TASK_ID_NONE" "TASK_POOL_INDEX g = x" "list_rep (task tt') (free_list tt') xs"
    and u: "\<And>y. unlinked (task tt' y) = unlinked (if y = x then (task tt y)\<lparr>generation_id := g\<rparr> else task tt y)"
    using allocate_effect [OF x] by blast
  have "task_step (task tt' y) = task_step (task tt y)" for y using unlinked_fields [OF u [of y]] by simp
  then have "free_inv tt' xs" using e(4) assms Cons by (simp add: free_inv_def)
  moreover have "generation_id (task tt' x) = g" using unlinked_fields [OF u [of x]] by simp
  moreover have "unlinked (task tt' y) = unlinked (task tt y)" if "y \<noteq> x" for y using u [of y] that by simp
  ultimately show ?thesis using e Cons by (auto simp: TASK_GEN_VALID_def)
qed

theorem allocate_new_task_correct_witness:
  "\<exists>tt' gen_id. allocate_new_task sample_table = Some (tt', gen_id) \<and> gen_id \<noteq> TASK_ID_NONE
     \<and> TASK_POOL_INDEX gen_id = 3 \<and> TASK_GEN_VALID gen_id (task tt' 3) \<and> free_inv tt' [1, 2]"
proof -
  have "free_inv sample_table [3, 1, 2]" using sample_rep
    by (simp add: free_inv_def sample_table_def MAX_TASK_COUNT_def) (simp add: sample_tasks_def idle_task_def)
  from allocate_new_task_correct [OF this] show ?thesis by auto
qed

text \<open>
  Identifiers built for two allocations are equal only if they name the same slot and the two
  generations differ by a multiple of \<open>2 ^ 25\<close>: an identifier kept across fewer than
  \<open>2 ^ 25\<close> allocations of the pool is never mistaken for a later one.
\<close>

theorem generation_id_distinct:
  assumes "i < MAX_TASK_COUNT" and "j < MAX_TASK_COUNT"
  shows "make_generation_id g i = make_generation_id h j \<longleftrightarrow> i = j \<and> unat g mod 2 ^ 25 = unat h mod 2 ^ 25"
  using generation_id_eq assms by (simp add: MAX_TASK_COUNT_def)

theorem generation_id_distinct_witness:
  "make_generation_id 0 5 \<noteq> make_generation_id 1 5"
  using generation_id_distinct [of 5 5 0 1] by (simp add: MAX_TASK_COUNT_def)

text \<open>The idle core that is reported is the first one with an empty list.\<close>

lemma find_idle_from_Some:
  "find_idle_from ls i n = Some k \<longleftrightarrow> i \<le> k \<and> k < i + n \<and> running (ls k) = 0 \<and> (\<forall>j. i \<le> j \<and> j < k \<longrightarrow> running (ls j) \<noteq> 0)"
  by (induction n arbitrary: i) (auto simp: le_Suc_eq less_Suc_eq not_less_eq_eq dest: le_neq_implies_less)

end
