(* ===== verification/Slm.thy ===== *)
theory Slm
  imports Slm_Region Buddy Csd_Task
begin

unbundle bit_operations_syntax

text \<open>
  The shared local memory manager, \<open>csd_slm.c\<close>: the buddy pool, the map from pages to the
  region descriptor that owns them (\<open>slm_data_ready_info\<close>), the descriptors (objects of
  a store, a pointer is a number) and the load tasks the demand path wakes. A function that reads the page
  map outside its bounds, dereferences NULL or a freed descriptor, or calls \<open>BUG\<close>
  gives \<open>None\<close>. The bytes of the memory itself are not represented: readiness is
  tracked by the descriptors alone.
\<close>

section \<open>State\<close>

record slm_state =
  slm_start_addr :: u64
  buddy_head :: "node_t option"
  page_count :: nat
  page_info :: "nat \<Rightarrow> nat option"
  infos :: "nat \<Rightarrow> slm_lba_info option"
  next_info :: nat
  slm_tasks :: task_array

definition get_slm_offset :: "slm_state \<Rightarrow> u64 \<Rightarrow> u64" where
  "get_slm_offset w addr = addr - slm_start_addr w"

definition get_slm_addr :: "slm_state \<Rightarrow> u64 \<Rightarrow> u64" where
  "get_slm_addr w offset = slm_start_addr w + offset"

definition page_of :: "slm_state \<Rightarrow> u64 \<Rightarrow> nat" where
  "page_of w addr = unat (get_slm_offset w addr div page_size)"

text \<open>Reading the page map at an address and the descriptor found there.\<close>

definition get_slm_lba_info_from_addr :: "slm_state \<Rightarrow> u64 \<Rightarrow> nat option option" where
  "get_slm_lba_info_from_addr w addr =
     (if page_of w addr < page_count w then Some (page_info w (page_of w addr)) else None)"

definition fetch :: "slm_state \<Rightarrow> u64 \<Rightarrow> (nat \<times> slm_lba_info) option option" where
  "fetch w addr =
     do {
       p \<leftarrow> get_slm_lba_info_from_addr w addr;
       (case p of None \<Rightarrow> Some None
        | Some q \<Rightarrow> map_option (\<lambda>i. Some (q, i)) (infos w q))
     }"

definition put :: "slm_state \<Rightarrow> nat \<Rightarrow> slm_lba_info \<Rightarrow> slm_state" where
  "put w q i = w\<lparr>infos := (infos w)(q \<mapsto> i)\<rparr>"

section \<open>Allocation\<close>

definition size_or_none :: "nat option \<Rightarrow> u64" where
  "size_or_none r = (case r of None \<Rightarrow> -1 | Some k \<Rightarrow> word_of_nat k)"

definition init_slm_memory :: "u64 \<Rightarrow> u64 \<Rightarrow> bool \<Rightarrow> bool \<Rightarrow> task_array \<Rightarrow> slm_state option" where
  "init_slm_memory start slm_size vmalloc_ok kzalloc_ok ts =
     (if \<not> vmalloc_ok then None
      else Some \<lparr>slm_start_addr = start, buddy_head = fst (buddy_init (unat slm_size) kzalloc_ok),
                 page_count = unat (slm_size div page_size), page_info = (\<lambda>_. None), infos = (\<lambda>_. None),
                 next_info = 0, slm_tasks = ts\<rparr>)"

definition check_allocated_slm_range :: "slm_state \<Rightarrow> u64 \<Rightarrow> u64 \<Rightarrow> bool option" where
  "check_allocated_slm_range w addr sz =
     do {
       h \<leftarrow> buddy_head w;
       let slm_size = size_or_none (buddy_act_size h (unat (get_slm_offset w addr)));
       Some (sz \<le> slm_size)
     }"

definition alloc_slm_range :: "slm_state \<Rightarrow> u64 \<Rightarrow> (slm_state \<times> u64) option" where
  "alloc_slm_range w sz =
     do {
       h \<leftarrow> buddy_head w;
       (h', rt) \<leftarrow> buddy_alloc h (unat sz);
       let w' = w\<lparr>buddy_head := Some h'\<rparr>;
       (case rt of
          None \<Rightarrow> Some (w', -1)
        | Some off \<Rightarrow>
            if (word_of_nat off :: u64) mod page_size \<noteq> 0 then None
            else Some (w', get_slm_addr w (word_of_nat off)))
     }"

definition get_slm_range_size :: "slm_state \<Rightarrow> u64 \<Rightarrow> u64 option" where
  "get_slm_range_size w addr =
     do { h \<leftarrow> buddy_head w; Some (size_or_none (buddy_size h (unat (get_slm_offset w addr)))) }"

definition get_task_id_from_slm_lba_info :: "slm_state \<Rightarrow> u64 \<Rightarrow> u32 option" where
  "get_task_id_from_slm_lba_info w addr =
     do {
       r \<leftarrow> fetch w addr;
       Some (case r of None \<Rightarrow> TASK_ID_NONE | Some (q, i) \<Rightarrow> info_task_id i)
     }"

section \<open>Reserving and releasing pages\<close>

text \<open>The loop that points \<open>n\<close> pages from \<open>s\<close> on at one descriptor.\<close>

definition set_pages :: "slm_state \<Rightarrow> nat \<Rightarrow> nat \<Rightarrow> nat option \<Rightarrow> slm_state option" where
  "set_pages w s n v =
     (if n = 0 then Some w
      else if s + n \<le> page_count w
      then Some (w\<lparr>page_info := (\<lambda>i. if s \<le> i \<and> i < s + n then v else page_info w i)\<rparr>)
      else None)"

definition pages_for :: "u64 \<Rightarrow> nat" where
  "pages_for len = unat (DIVIDE_UP len page_size)"

definition reserve_slm_memory :: "slm_state \<Rightarrow> u64 \<Rightarrow> u64 \<Rightarrow> nat \<Rightarrow> slm_state option" where
  "reserve_slm_memory w start_addr len p =
     do {
       w1 \<leftarrow> set_pages w (page_of w start_addr) (pages_for len) (Some p);
       i \<leftarrow> infos w1 p;
       Some (put w1 p (i\<lparr>ht_head := 0, ht_tail := 0, ht_producer_done := False, ht_pending := []\<rparr>))
     }"

definition set_slm_ready_for_csd :: "slm_state \<Rightarrow> u64 \<Rightarrow> u64 \<Rightarrow> nat \<Rightarrow> slm_state option" where
  "set_slm_ready_for_csd w start_addr len p =
     do {
       w1 \<leftarrow> set_pages w (page_of w start_addr) (pages_for len) (Some p);
       i \<leftarrow> infos w1 p;
       Some (put w1 p (i\<lparr>ht_head := len, ht_tail := 0, ht_producer_done := True, ht_pending := []\<rparr>))
     }"

fun release_pages :: "slm_state \<Rightarrow> nat \<Rightarrow> nat \<Rightarrow> u32 \<Rightarrow> slm_state option" where
  "release_pages w s 0 tid = Some w"
| "release_pages w s (Suc n) tid =
     (if s \<ge> page_count w then None
      else
        (case page_info w s of
           None \<Rightarrow> release_pages w (Suc s) n tid
         | Some q \<Rightarrow>
             do {
               i \<leftarrow> infos w q;
               release_pages (if info_task_id i = tid then w\<lparr>page_info := (page_info w)(s := None)\<rparr> else w) (Suc s) n tid
             }))"

text \<open>The final \<open>vfree\<close> accepts NULL.\<close>

definition release_slm_memory :: "slm_state \<Rightarrow> u64 \<Rightarrow> u64 \<Rightarrow> nat option \<Rightarrow> u32 \<Rightarrow> slm_state option" where
  "release_slm_memory w start_addr len p tid =
     do {
       w1 \<leftarrow> release_pages w (page_of w start_addr) (pages_for len) tid;
       Some (case p of None \<Rightarrow> w1 | Some q \<Rightarrow> w1\<lparr>infos := (infos w1)(q := None)\<rparr>)
     }"

text \<open>\<open>demand_read_size\<close> is not initialised by the code: \<open>junk\<close>.\<close>

definition alloc_slm_lba_info ::
  "slm_state \<Rightarrow> u64 \<Rightarrow> u64 \<Rightarrow> u32 \<Rightarrow> source_range_entry list option \<Rightarrow> nat \<Rightarrow> u64 \<Rightarrow> slm_state \<times> nat" where
  "alloc_slm_lba_info w start_addr len task_id sre nentry junk =
     (let i = \<lparr>info_start_addr = start_addr, info_len = len, info_nentry = nentry, info_sre = sre,
               demand_read_offset = -1, demand_read_size = junk, request_done = True, random_access = False,
               info_task_id = task_id, next_addr = 0, is_output = False, final_offset = -1, final_leftovers = 0,
               stream_access = False, is_circular = False, logical_total_size = len, load_complete = False,
               compute_logical_offset = 0, output_is_circular = False, host_consumed_logical_offset = 0,
               output_logical_total_size = 0, extent_mapped = False, extent_next_free_page = 0, extents = [],
               demand_read_slm_target = 0, use_head_tail = False, ht_head = 0, ht_tail = 0,
               ht_producer_done = False, ht_pending = []\<rparr>
      in (w\<lparr>infos := (infos w)(next_info w \<mapsto> i), next_info := Suc (next_info w)\<rparr>, next_info w))"

text \<open>
  Detaching the load task of a descriptor that is about to be freed: a task that is still being
  scheduled, or already free, is a bug.
\<close>

definition detach_load_task :: "slm_state \<Rightarrow> slm_lba_info \<Rightarrow> slm_state option" where
  "detach_load_task w i =
     (let tid = info_task_id i; k = TASK_POOL_INDEX tid; t = slm_tasks w k
      in if tid \<noteq> TASK_ID_NONE \<and> TASK_GEN_VALID tid t \<and> program_idx t = COPY_TO_SLM_PROGRAM_INDEX
            \<and> task_slm_lba_info t \<noteq> None
         then if task_step t = CCSD_TASK_SCHEDULE \<or> task_step t = CCSD_TASK_FREE then None
              else Some (w\<lparr>slm_tasks := (slm_tasks w)(k := t\<lparr>task_step := CCSD_TASK_END, task_slm_lba_info := None\<rparr>)\<rparr>)
         else Some w)"

partial_function (option) free_slm_pages :: "slm_state \<Rightarrow> nat \<Rightarrow> nat \<Rightarrow> slm_state option" where
  "free_slm_pages w start_offset end_offset =
     (if start_offset \<ge> end_offset then Some w
      else if start_offset \<ge> page_count w then None
      else
        (case page_info w start_offset of
           None \<Rightarrow> free_slm_pages w (Suc start_offset) end_offset
         | Some q \<Rightarrow>
             do {
               i \<leftarrow> infos w q;
               w1 \<leftarrow> detach_load_task w i;
               let info_end = min (start_offset + pages_for (info_len i)) end_offset;
               w2 \<leftarrow> set_pages (w1\<lparr>infos := (infos w1)(q := None)\<rparr>) start_offset (info_end - start_offset) None;
               free_slm_pages w2 info_end end_offset
             }))"

definition free_slm_lba_info :: "slm_state \<Rightarrow> u64 \<Rightarrow> u64 \<Rightarrow> slm_state option" where
  "free_slm_lba_info w slm_off slm_size =
     (let start_offset = unat (slm_off div page_size)
      in free_slm_pages w start_offset (start_offset + pages_for slm_size))"

definition free_slm_range :: "slm_state \<Rightarrow> u64 \<Rightarrow> slm_state option" where
  "free_slm_range w addr =
     do {
       h \<leftarrow> buddy_head w;
       let off = get_slm_offset w addr;
       w1 \<leftarrow> free_slm_lba_info w off (size_or_none (buddy_act_size h (unat off)));
       let (h', rt) = buddy_free h (unat off);
       if rt \<noteq> 0 then None else Some (w1\<lparr>buddy_head := Some h'\<rparr>)
     }"

section \<open>Probes and notifications\<close>

definition check_slm_data_ready :: "slm_state \<Rightarrow> u64 \<Rightarrow> u64 \<Rightarrow> (slm_state \<times> bool) option" where
  "check_slm_data_ready w start_addr len =
     do {
       r \<leftarrow> fetch w start_addr;
       Some (case r of
               None \<Rightarrow> (w, False)
             | Some (q, i) \<Rightarrow> (let (i', b) = check_ready_stream i start_addr len in (put w q i', b)))
     }"

definition finalized_at :: "slm_state \<Rightarrow> u64 \<Rightarrow> slm_lba_info option \<Rightarrow> bool" where
  "finalized_at w start_addr infop =
     (case infop of
        None \<Rightarrow> False
      | Some i \<Rightarrow> is_output i \<and> final_offset i \<noteq> -1 \<and> get_slm_offset w start_addr div page_size > final_offset i)"

definition check_slm_output_data_finalized :: "slm_state \<Rightarrow> u64 \<Rightarrow> bool option" where
  "check_slm_output_data_finalized w start_addr =
     map_option (\<lambda>r. finalized_at w start_addr (map_option snd r)) (fetch w start_addr)"

definition check_slm_output_data_finalized_info :: "slm_state \<Rightarrow> u64 \<Rightarrow> slm_lba_info option \<Rightarrow> bool" where
  "check_slm_output_data_finalized_info w start_addr infop = finalized_at w start_addr infop"

definition get_slm_last_page_leftover :: "slm_state \<Rightarrow> u64 \<Rightarrow> u64 option" where
  "get_slm_last_page_leftover w start_addr =
     do {
       r \<leftarrow> fetch w start_addr;
       (case r of
          None \<Rightarrow> Some 0
        | Some (q, i) \<Rightarrow>
            if is_output i \<and> final_offset i \<noteq> -1 then
              (if get_slm_offset w start_addr div page_size = final_offset i then Some (final_leftovers i) else None)
            else Some 0)
     }"

text \<open>The new value of \<open>*cmd_len\<close> and the answer.\<close>

definition check_output_linear :: "slm_lba_info \<Rightarrow> u64 \<Rightarrow> u64 \<Rightarrow> u64 \<times> bool" where
  "check_output_linear i rel_start len =
     (let produced = output_logical_total_size i;
          rel_end = rel_start + len;
          below = (\<lambda>e. (e - 1) div page_size < DIVIDE_UP (ht_head i) page_size)
      in if ht_producer_done i then
           (if rel_start \<ge> produced then (0, True)
            else if rel_end > produced then (produced - rel_start, below produced)
            else (len, below rel_end))
         else (len, below rel_end))"

definition check_output_ring :: "slm_lba_info \<Rightarrow> u64 \<Rightarrow> u64 \<times> bool" where
  "check_output_ring i len =
     (let start = host_consumed_logical_offset i;
          total = output_logical_total_size i
      in if total > 0 \<and> start \<ge> total then (0, True)
         else
           (let len' = (if total > 0 \<and> total - start < len then total - start else len)
            in (len', start + len' \<le> ht_head i)))"

definition check_output_slm_data_ready :: "slm_state \<Rightarrow> u64 \<Rightarrow> u64 \<Rightarrow> (u64 \<times> bool) option" where
  "check_output_slm_data_ready w start_addr cmd_len =
     do {
       r \<leftarrow> fetch w start_addr;
       Some (case r of
               None \<Rightarrow> (0, False)
             | Some (q, i) \<Rightarrow>
                 if use_head_tail i \<and> \<not> output_is_circular i
                 then check_output_linear i (start_addr - info_start_addr i) cmd_len
                 else if is_output i \<and> output_is_circular i then check_output_ring i cmd_len
                 else (0, False))
     }"

definition streamed :: "slm_lba_info \<Rightarrow> bool" where
  "streamed i \<longleftrightarrow> use_head_tail i \<and> \<not> extent_mapped i \<and> \<not> is_circular i \<and> \<not> output_is_circular i"

definition notify_slm_data_ready :: "slm_state \<Rightarrow> u64 \<Rightarrow> u64 \<Rightarrow> slm_state option" where
  "notify_slm_data_ready w start_addr len =
     do {
       r \<leftarrow> fetch w start_addr;
       (case r of
          None \<Rightarrow> Some w
        | Some (q, i) \<Rightarrow>
            if streamed i \<and> \<not> ht_producer_done i
            then map_option (put w q)
                   (ht_advance_head i (start_addr - info_start_addr i) (start_addr - info_start_addr i + len))
            else Some w)
     }"

definition notify_misaligned_slm_data_ready :: "slm_state \<Rightarrow> u64 \<Rightarrow> u64 \<Rightarrow> slm_state option" where
  "notify_misaligned_slm_data_ready w start_addr len =
     do {
       r \<leftarrow> fetch w start_addr;
       (case r of
          None \<Rightarrow> Some w
        | Some (q, i) \<Rightarrow>
            if streamed i \<and> \<not> ht_producer_done i
            then map_option (put w q)
                   (ht_advance_head i (start_addr - info_start_addr i) (start_addr - info_start_addr i + len))
            else Some w)
     }"

definition notify_if_slm_data_ready :: "slm_state \<Rightarrow> u64 \<Rightarrow> u64 \<Rightarrow> slm_state option" where
  "notify_if_slm_data_ready w start_addr len =
     do {
       r \<leftarrow> fetch w start_addr;
       Some (case r of
               None \<Rightarrow> w
             | Some (q, i) \<Rightarrow>
                 if streamed i then put w q (ht_advance_head_page i (start_addr - info_start_addr i + len)) else w)
     }"

definition notify_compute_ready :: "slm_state \<Rightarrow> u64 \<Rightarrow> slm_state option" where
  "notify_compute_ready w start_addr =
     do {
       r \<leftarrow> fetch w start_addr;
       Some (case r of
               None \<Rightarrow> w
             | Some (q, i) \<Rightarrow>
                 if use_head_tail i
                 then put w q (ht_set_tail i (ALIGNED_DOWN32 (start_addr - info_start_addr i) SLM_PAGE_SIZE + page_size))
                 else w)
     }"

text \<open>Only reads the descriptor.\<close>

definition notify_compute_ready_circular :: "slm_state \<Rightarrow> u64 \<Rightarrow> slm_state option" where
  "notify_compute_ready_circular w start_addr = map_option (\<lambda>_. w) (fetch w start_addr)"

definition notify_output_consumed :: "slm_state \<Rightarrow> u64 \<Rightarrow> u64 \<Rightarrow> slm_state option" where
  "notify_output_consumed w start_addr len =
     do {
       r \<leftarrow> fetch w start_addr;
       Some (case r of
               None \<Rightarrow> w
             | Some (q, i) \<Rightarrow>
                 if output_is_circular i
                 then (let n = host_consumed_logical_offset i + len
                       in put w q (ht_set_tail (i\<lparr>host_consumed_logical_offset := n\<rparr>) n))
                 else w)
     }"

definition update_circular_compute_offset :: "slm_state \<Rightarrow> u64 \<Rightarrow> u64 \<Rightarrow> slm_state option" where
  "update_circular_compute_offset w start_addr logical_offset =
     do {
       r \<leftarrow> fetch w start_addr;
       (case r of
          None \<Rightarrow> None
        | Some (q, i) \<Rightarrow>
            Some (if is_circular i
                  then if use_head_tail i then put w q (ht_set_tail i logical_offset)
                       else put w q (i\<lparr>compute_logical_offset := logical_offset\<rparr>)
                  else w))
     }"

definition get_latest_compute_ready :: "slm_state \<Rightarrow> u64 \<Rightarrow> u64 option" where
  "get_latest_compute_ready w start_addr =
     do {
       r \<leftarrow> fetch w start_addr;
       let start_offset = get_slm_offset w start_addr div page_size;
       (case r of
          None \<Rightarrow> None
        | Some (q, i) \<Rightarrow> Some (if use_head_tail i then start_offset + ht_tail i div page_size else start_offset))
     }"

definition finalize_slm_data_ready :: "slm_state \<Rightarrow> u64 \<Rightarrow> u64 \<Rightarrow> slm_state option" where
  "finalize_slm_data_ready w start_addr output_len =
     do {
       r \<leftarrow> fetch w start_addr;
       let remain = output_len - (output_len div page_size) * page_size;
       Some (case r of
               None \<Rightarrow> w
             | Some (q, i) \<Rightarrow>
                 (let i1 = i\<lparr>final_offset := get_slm_offset w start_addr div page_size, final_leftovers := remain\<rparr>
                  in if use_head_tail i
                     then (let i2 = i1\<lparr>output_logical_total_size := output_len, ht_producer_done := True\<rparr>;
                               head_bytes = (output_len div page_size + 1) * page_size
                           in put w q (if head_bytes > ht_head i2 then i2\<lparr>ht_head := head_bytes\<rparr> else i2))
                     else put w q i1))
     }"

section \<open>Demand reads\<close>

definition wake_load_task :: "slm_state \<Rightarrow> u32 \<Rightarrow> slm_state" where
  "wake_load_task w tid =
     (let k = TASK_POOL_INDEX tid
      in w\<lparr>slm_tasks := (slm_tasks w)(k := (slm_tasks w k)\<lparr>task_step := CCSD_TASK_SCHEDULE\<rparr>)\<rparr>)"

definition ht_demand_alloc_extent :: "slm_state \<Rightarrow> nat \<Rightarrow> slm_lba_info \<Rightarrow> u64 \<Rightarrow> u64 \<Rightarrow> slm_state" where
  "ht_demand_alloc_extent w q i addr sz =
     (let read_offset = addr - info_start_addr i;
          aligned_offset = ALIGNED_DOWN32 read_offset SLM_PAGE_SIZE;
          aligned_size = ALIGNED_UP32 (sz + (read_offset - aligned_offset)) SLM_PAGE_SIZE
      in if demand_read_offset i \<noteq> -1 then put w q i
         else if extent_scan (extents i) aligned_offset aligned_size \<noteq> None then put w q i
         else if length (extents i) \<ge> MAX_EXTENT_ENTRIES then put w q i
         else put (wake_load_task w (info_task_id i)) q
                (i\<lparr>extents := extents i @ [\<lparr>file_offset = aligned_offset, file_size = aligned_size,
                                             slm_offset = aligned_offset, ready = False\<rparr>],
                   random_access := True, request_done := False, demand_read_size := aligned_size,
                   demand_read_slm_target := info_start_addr i + aligned_offset,
                   demand_read_offset := aligned_offset\<rparr>))"

definition scattered :: "slm_lba_info \<Rightarrow> u64 \<Rightarrow> bool" where
  "scattered i read_offset =
     (let read_page = read_offset div page_size; next_page = next_addr i div page_size
      in \<not> (read_page = next_page \<or> read_page = next_page + 1))"

text \<open>The tail of \<open>slm_request_demand_read\<close>, for a region with neither readiness mechanism.\<close>

definition request_plain_demand :: "slm_state \<Rightarrow> nat \<Rightarrow> slm_lba_info \<Rightarrow> u64 \<Rightarrow> u64 \<Rightarrow> slm_state" where
  "request_plain_demand w q i addr sz =
     (let read_offset = addr - info_start_addr i;
          down = ALIGNED_DOWN32 read_offset SLM_PAGE_SIZE;
          demand = (\<lambda>i. put (wake_load_task w (info_task_id i)) q
                      (i\<lparr>request_done := False, demand_read_size := sz + (read_offset - down), demand_read_offset := down\<rparr>))
      in if demand_read_offset i = -1 \<and> \<not> is_output i then
           (if scattered i read_offset \<and> \<not> is_circular i then demand (i\<lparr>random_access := True\<rparr>)
            else if read_offset \<noteq> 0 then
              (if \<not> random_access i then put w q (i\<lparr>stream_access := True\<rparr>) else demand i)
            else w)
         else w)"

definition request_stream_demand :: "slm_state \<Rightarrow> nat \<Rightarrow> slm_lba_info \<Rightarrow> u64 \<Rightarrow> u64 \<Rightarrow> slm_state" where
  "request_stream_demand w q i addr sz =
     (let read_offset = addr - info_start_addr i
      in if is_circular i then
           (if demand_read_offset i = -1 \<and> \<not> is_output i \<and> read_offset \<noteq> 0 \<and> \<not> random_access i
            then put w q (i\<lparr>stream_access := True\<rparr>) else w)
         else if demand_read_offset i = -1 \<and> \<not> is_output i then
           (if scattered i read_offset
            then ht_demand_alloc_extent w q (i\<lparr>extent_mapped := True, random_access := True, use_head_tail := False\<rparr>) addr sz
            else if read_offset \<noteq> 0 \<and> \<not> random_access i then put w q (i\<lparr>stream_access := True\<rparr>)
            else w)
         else w)"

definition slm_request_demand_read :: "slm_state \<Rightarrow> u64 \<Rightarrow> u64 \<Rightarrow> slm_state option" where
  "slm_request_demand_read w addr sz =
     do {
       r \<leftarrow> fetch w addr;
       Some (case r of
               None \<Rightarrow> w
             | Some (q, i) \<Rightarrow>
                 if stream_access i then w
                 else if extent_mapped i then ht_demand_alloc_extent w q i addr sz
                 else if use_head_tail i then request_stream_demand w q i addr sz
                 else request_plain_demand w q i addr sz)
     }"

text \<open>
  The packed variant for compound reads: blocks go to the next free pages of the buffer. A load task in
  the wrong step is a bug.
\<close>

definition packed_next_extent :: "slm_state \<Rightarrow> nat \<Rightarrow> slm_lba_info \<Rightarrow> u64 \<Rightarrow> u64 \<Rightarrow> slm_state option" where
  "packed_next_extent w q i read_offset sz =
     (let aligned_offset = ALIGNED_DOWN32 read_offset SLM_PAGE_SIZE;
          aligned_size = ALIGNED_UP32 (sz + (read_offset - aligned_offset)) SLM_PAGE_SIZE;
          pages_needed = aligned_size div page_size;
          slm_page_offset = extent_next_free_page i
      in if extent_scan (extents i) aligned_offset aligned_size \<noteq> None then Some w
         else if length (extents i) < MAX_EXTENT_ENTRIES \<and> extent_next_free_page i + pages_needed \<le> MAGIC_READ_BUFFER_PAGES
         then if task_step (slm_tasks w (TASK_POOL_INDEX (info_task_id i))) = CCSD_TASK_SCHEDULE then None
              else Some (put (wake_load_task w (info_task_id i)) q
                (i\<lparr>extents := extents i @ [\<lparr>file_offset = aligned_offset, file_size = aligned_size,
                                             slm_offset = slm_page_offset * page_size, ready = False\<rparr>],
                   extent_next_free_page := extent_next_free_page i + pages_needed,
                   demand_read_size := aligned_size,
                   demand_read_slm_target := info_start_addr i + slm_page_offset * page_size,
                   request_done := False, random_access := True, demand_read_offset := aligned_offset\<rparr>))
         else Some w)"

definition packed_first_extent :: "slm_state \<Rightarrow> nat \<Rightarrow> slm_lba_info \<Rightarrow> u64 \<Rightarrow> u64 \<Rightarrow> slm_state option" where
  "packed_first_extent w q i read_offset sz =
     (let i1 = i\<lparr>extent_mapped := True, extents := [], extent_next_free_page := DIVIDE_UP MIN_IO_REQUEST_SIZE page_size\<rparr>;
          aligned_offset = ALIGNED_DOWN32 read_offset SLM_PAGE_SIZE;
          dsize = sz + (read_offset - aligned_offset);
          aligned_size = ALIGNED_UP32 dsize SLM_PAGE_SIZE;
          pages_needed = aligned_size div page_size;
          i2 = i1\<lparr>random_access := True, request_done := False, demand_read_size := dsize,
                  demand_read_slm_target := info_start_addr i + extent_next_free_page i1 * page_size,
                  demand_read_offset := aligned_offset\<rparr>;
          i3 = (if length (extents i2) < MAX_EXTENT_ENTRIES \<and> extent_next_free_page i2 + pages_needed \<le> MAGIC_READ_BUFFER_PAGES
                then i2\<lparr>extents := extents i2 @ [\<lparr>file_offset = aligned_offset, file_size = aligned_size,
                                                  slm_offset = extent_next_free_page i2 * page_size, ready = False\<rparr>],
                        extent_next_free_page := extent_next_free_page i2 + pages_needed\<rparr>
                else i2)
      in if task_step (slm_tasks w (TASK_POOL_INDEX (info_task_id i))) \<noteq> CCSD_TASK_SCHEDULE then None
         else Some (put (wake_load_task w (info_task_id i)) q i3))"

definition slm_request_demand_read_info :: "slm_state \<Rightarrow> u64 \<Rightarrow> u64 \<Rightarrow> nat option \<Rightarrow> slm_state option" where
  "slm_request_demand_read_info w addr sz p =
     (case p of
        None \<Rightarrow> Some w
      | Some q \<Rightarrow>
          do {
            i \<leftarrow> infos w q;
            let read_offset = addr - info_start_addr i;
            if \<not> (demand_read_offset i = -1 \<and> \<not> is_output i) then Some w
            else if extent_mapped i then packed_next_extent w q i read_offset sz
            else if scattered i read_offset \<and> \<not> is_circular i then packed_first_extent w q i read_offset sz
            else if read_offset \<noteq> 0 then
              (if \<not> random_access i then Some (put w q (i\<lparr>stream_access := True\<rparr>))
               else (let down = ALIGNED_DOWN32 read_offset SLM_PAGE_SIZE
                     in Some (put (wake_load_task w (info_task_id i)) q
                          (i\<lparr>request_done := False, demand_read_offset := down,
                             demand_read_size := sz + (read_offset - down)\<rparr>))))
            else Some w
          })"

definition slm_detect_sequential :: "slm_state \<Rightarrow> u64 \<Rightarrow> slm_state option" where
  "slm_detect_sequential w addr =
     do {
       r \<leftarrow> fetch w addr;
       Some (case r of
               None \<Rightarrow> w
             | Some (q, i) \<Rightarrow>
                 if demand_read_offset i = -1
                 then put w q (i\<lparr>demand_read_offset := ALIGNED_DOWN32 (addr - info_start_addr i) SLM_PAGE_SIZE,
                                 request_done := False, random_access := False\<rparr>)
                 else w)
     }"

definition slm_get_demand_read_offset :: "slm_state \<Rightarrow> u64 \<Rightarrow> u64 option" where
  "slm_get_demand_read_offset w addr =
     do {
       r \<leftarrow> fetch w addr;
       Some (case r of None \<Rightarrow> -1 | Some (q, i) \<Rightarrow> if \<not> request_done i then demand_read_offset i else -1)
     }"

definition complete_demand :: "slm_lba_info \<Rightarrow> slm_lba_info" where
  "complete_demand i =
     (if \<not> is_output i \<and> demand_read_offset i \<noteq> -1
      then (if extent_mapped i then i\<lparr>extents := extent_set_ready (extents i) (demand_read_offset i)\<rparr> else i)
             \<lparr>demand_read_offset := -1\<rparr>
      else i)"

definition complete_slm_demand_read :: "slm_state \<Rightarrow> u64 \<Rightarrow> slm_state option" where
  "complete_slm_demand_read w addr =
     do {
       r \<leftarrow> fetch w addr;
       Some (case r of None \<Rightarrow> w | Some (q, i) \<Rightarrow> put w q (complete_demand i))
     }"

definition notify_slm_demand_read_requested :: "slm_state \<Rightarrow> u64 \<Rightarrow> slm_state option" where
  "notify_slm_demand_read_requested w addr =
     do {
       r \<leftarrow> fetch w addr;
       (case r of None \<Rightarrow> None | Some (q, i) \<Rightarrow> Some (put w q (i\<lparr>request_done := True\<rparr>)))
     }"

definition get_io_task_from_slm_addr :: "slm_state \<Rightarrow> u64 \<Rightarrow> u32 option" where
  "get_io_task_from_slm_addr w addr =
     do {
       r \<leftarrow> fetch w addr;
       Some (case r of None \<Rightarrow> TASK_ID_NONE | Some (q, i) \<Rightarrow> if \<not> is_output i then info_task_id i else TASK_ID_NONE)
     }"

definition get_continuous_size :: "slm_state \<Rightarrow> u64 \<Rightarrow> u64 \<Rightarrow> u64 option" where
  "get_continuous_size w addr len =
     do {
       r \<leftarrow> fetch w addr;
       Some (case r of
               None \<Rightarrow> 0
             | Some (q, i) \<Rightarrow>
                 if use_head_tail i then
                   (let rel_page = (addr - info_start_addr i) div page_size;
                        ready_pages = ALIGNED_DOWN32 (ht_head i) SLM_PAGE_SIZE div page_size;
                        left = ready_pages - rel_page
                    in if rel_page \<ge> ready_pages then 0
                       else (if left > len div page_size then len div page_size else left) * page_size)
                 else 0)
     }"

section \<open>Freeing a range leaves no stale descriptor\<close>

definition info_page :: "slm_state \<Rightarrow> slm_lba_info \<Rightarrow> nat" where
  "info_page w i = page_of w (info_start_addr i)"

text \<open>Every back pointer leads to a live descriptor that spans the page.\<close>

definition pages_live :: "slm_state \<Rightarrow> bool" where
  "pages_live w \<longleftrightarrow> (\<forall>k q. page_info w k = Some q \<longrightarrow>
     (\<exists>i. infos w q = Some i \<and> info_page w i \<le> k \<and> k < info_page w i + pages_for (info_len i)))"

text \<open>No descriptor has pages both inside and outside of a page range.\<close>

definition pages_closed :: "slm_state \<Rightarrow> nat \<Rightarrow> nat \<Rightarrow> bool" where
  "pages_closed w s e \<longleftrightarrow> (\<forall>k q k'. s \<le> k \<and> k < e \<and> page_info w k = Some q \<and> page_info w k' = Some q \<longrightarrow> s \<le> k' \<and> k' < e)"

text \<open>The load task of every descriptor in the range has been parked.\<close>

definition parked :: "slm_state \<Rightarrow> slm_lba_info \<Rightarrow> bool" where
  "parked w i \<longleftrightarrow> detach_load_task w i \<noteq> None"

definition pages_parked :: "slm_state \<Rightarrow> nat \<Rightarrow> nat \<Rightarrow> bool" where
  "pages_parked w s e \<longleftrightarrow> (\<forall>k q i. s \<le> k \<and> k < e \<and> page_info w k = Some q \<and> infos w q = Some i \<longrightarrow> parked w i)"

lemma detach_load_task_frame:
  assumes "detach_load_task w i = Some w'"
  shows "page_info w' = page_info w \<and> infos w' = infos w \<and> slm_start_addr w' = slm_start_addr w
    \<and> buddy_head w' = buddy_head w \<and> page_count w' = page_count w \<and> next_info w' = next_info w"
  using assms by (auto simp: detach_load_task_def Let_def split: if_splits)

lemma parked_iff:
  "parked w i \<longleftrightarrow> (let t = slm_tasks w (TASK_POOL_INDEX (info_task_id i))
     in TASK_GEN_VALID (info_task_id i) t \<and> program_idx t = COPY_TO_SLM_PROGRAM_INDEX \<and> task_slm_lba_info t \<noteq> None
        \<longrightarrow> task_step t \<noteq> CCSD_TASK_SCHEDULE \<and> task_step t \<noteq> CCSD_TASK_FREE)"
  by (simp add: parked_def detach_load_task_def Let_def TASK_GEN_VALID_def)

lemma detach_tasks:
  assumes "detach_load_task w i = Some w'"
  shows "slm_tasks w' k = slm_tasks w k \<or> task_slm_lba_info (slm_tasks w' k) = None"
  using assms by (simp add: detach_load_task_def Let_def split: if_splits) auto

lemma detach_keeps_parked:
  assumes "detach_load_task w i = Some w'" and "parked w j"
  shows "parked w' j"
  using detach_tasks [OF assms(1), of "TASK_POOL_INDEX (info_task_id j)"] assms(2)
  unfolding parked_iff Let_def by metis

lemma detach_depends: "slm_tasks w' = slm_tasks w \<Longrightarrow> parked w' j = parked w j"
  by (simp add: parked_def detach_load_task_def Let_def)

text \<open>The outcome: the range is cleared, the rest of the map and its descriptors are as before.\<close>

definition pages_freed :: "slm_state \<Rightarrow> nat \<Rightarrow> nat \<Rightarrow> slm_state \<Rightarrow> bool" where
  "pages_freed w s e w' \<longleftrightarrow> pages_live w'
     \<and> (\<forall>k. page_info w' k = (if s \<le> k \<and> k < e then None else page_info w k))
     \<and> (\<forall>k q. page_info w' k = Some q \<longrightarrow> infos w' q = infos w q)
     \<and> slm_start_addr w' = slm_start_addr w \<and> buddy_head w' = buddy_head w \<and> page_count w' = page_count w
     \<and> next_info w' = next_info w"

text \<open>One descriptor of the range is freed and its pages from \<open>s\<close> on are cleared.\<close>

definition drop_region :: "slm_state \<Rightarrow> nat \<Rightarrow> nat \<Rightarrow> nat \<Rightarrow> slm_state" where
  "drop_region w q s ie =
     w\<lparr>infos := (infos w)(q := None), page_info := (\<lambda>k. if s \<le> k \<and> k < ie then None else page_info w k)\<rparr>"

lemma drop_region_pages: "page_info (drop_region w q s ie) k = (if s \<le> k \<and> k < ie then None else page_info w k)"
  and drop_region_infos: "infos (drop_region w q s ie) = (infos w)(q := None)"
  and drop_region_frame: "slm_start_addr (drop_region w q s ie) = slm_start_addr w"
    "buddy_head (drop_region w q s ie) = buddy_head w" "page_count (drop_region w q s ie) = page_count w"
    "next_info (drop_region w q s ie) = next_info w" "slm_tasks (drop_region w q s ie) = slm_tasks w"
  by (simp_all add: drop_region_def)

lemma drop_region_gone:
  assumes live: "pages_live w" and closed: "pages_closed w s e" and q: "page_info w s = Some q" "s < e"
    and i: "infos w q = Some i"
  shows "page_info (drop_region w q s (min (s + pages_for (info_len i)) e)) k \<noteq> Some q"
proof
  let ?ie = "min (s + pages_for (info_len i)) e"
  assume "page_info (drop_region w q s ?ie) k = Some q"
  then have k: "page_info w k = Some q" "\<not> (s \<le> k \<and> k < ?ie)" by (auto simp: drop_region_pages split: if_splits)
  then have "s \<le> k \<and> k < e" using closed q unfolding pages_closed_def by blast
  moreover have "info_page w i \<le> s" "k < info_page w i + pages_for (info_len i)"
    using live q(1) k(1) i unfolding pages_live_def by fastforce+
  ultimately show False using k(2) by auto
qed

lemma drop_region_ok:
  assumes live: "pages_live w" and closed: "pages_closed w s e" and parked: "pages_parked w s e"
    and q: "page_info w s = Some q" "s < e" and i: "infos w q = Some i"
  defines "ie \<equiv> min (s + pages_for (info_len i)) e"
  shows "pages_live (drop_region w q s ie)" "pages_closed (drop_region w q s ie) ie e" "pages_parked (drop_region w q s ie) ie e"
proof -
  let ?w = "drop_region w q s ie"
  have s: "s \<le> ie" using q(2) by (simp add: ie_def)
  have ref: "page_info w k = Some r \<and> \<not> (s \<le> k \<and> k < ie) \<and> infos ?w r = infos w r" if "page_info ?w k = Some r" for k r
    using that drop_region_gone [OF live closed q i, of k] by (auto simp: drop_region_pages drop_region_infos ie_def split: if_splits)
  have "info_page ?w = info_page w"
    by (simp add: fun_eq_iff info_page_def page_of_def get_slm_offset_def drop_region_frame)
  then show "pages_live ?w" using ref live unfolding pages_live_def by metis
  show "pages_closed ?w ie e" unfolding pages_closed_def
  proof (intro allI impI)
    fix k r k' assume a: "ie \<le> k \<and> k < e \<and> page_info ?w k = Some r \<and> page_info ?w k' = Some r"
    then have "page_info w k = Some r" "page_info w k' = Some r" "s \<le> k" "k < e" using ref s by auto
    then have "s \<le> k' \<and> k' < e" using closed unfolding pages_closed_def by blast
    then show "ie \<le> k' \<and> k' < e" using ref [of k' r] a by auto
  qed
  show "pages_parked ?w ie e" unfolding pages_parked_def
  proof (intro allI impI)
    fix k r j assume a: "ie \<le> k \<and> k < e \<and> page_info ?w k = Some r \<and> infos ?w r = Some j"
    then have "page_info w k = Some r" "infos w r = Some j" "s \<le> k" "k < e" using ref s by auto
    then have "parked w j" using parked unfolding pages_parked_def by blast
    then show "parked ?w j" using detach_depends [of ?w w] by (simp add: drop_region_frame)
  qed
qed

lemma detach_keeps_pages:
  assumes "detach_load_task w i = Some w'"
  shows "pages_live w \<Longrightarrow> pages_live w'" "pages_closed w s e \<Longrightarrow> pages_closed w' s e" "pages_parked w s e \<Longrightarrow> pages_parked w' s e"
proof -
  note f = detach_load_task_frame [OF assms]
  have "info_page w' = info_page w" by (simp add: fun_eq_iff info_page_def page_of_def get_slm_offset_def f)
  then have "pages_live w' = pages_live w" by (simp add: pages_live_def f)
  moreover have "pages_closed w' s e = pages_closed w s e" by (simp add: pages_closed_def f)
  ultimately show "pages_live w \<Longrightarrow> pages_live w'" "pages_closed w s e \<Longrightarrow> pages_closed w' s e" by blast+
  assume p: "pages_parked w s e"
  show "pages_parked w' s e" unfolding pages_parked_def
  proof (intro allI impI)
    fix k q j assume "s \<le> k \<and> k < e \<and> page_info w' k = Some q \<and> infos w' q = Some j"
    then have "parked w j" using p f unfolding pages_parked_def by metis
    then show "parked w' j" by (rule detach_keeps_parked [OF assms])
  qed
qed

lemma pages_freed_trans:
  assumes "pages_freed (drop_region w q s ie) ie e w'" and "\<And>k. page_info (drop_region w q s ie) k \<noteq> Some q"
    and "s \<le> ie" "ie \<le> e"
  shows "pages_freed w s e w'"
proof -
  note f = assms(1) [unfolded pages_freed_def drop_region_frame]
  have p: "page_info w' k = (if s \<le> k \<and> k < e then None else page_info w k)" for k
    using f assms(3,4) by (auto simp: drop_region_pages)
  have "infos w' r = infos w r" if k: "page_info w' k = Some r" for k r
  proof -
    have "page_info (drop_region w q s ie) k = Some r" using k f by (metis option.distinct(1))
    then have "r \<noteq> q" using assms(2) by auto
    moreover have "infos w' r = infos (drop_region w q s ie) r" using k f by blast
    ultimately show ?thesis by (simp add: drop_region_infos)
  qed
  with f p show ?thesis unfolding pages_freed_def by blast
qed

lemma free_slm_pages_clean:
  "pages_live w \<Longrightarrow> pages_closed w s e \<Longrightarrow> pages_parked w s e \<Longrightarrow> e \<le> page_count w \<Longrightarrow>
     \<exists>w'. free_slm_pages w s e = Some w' \<and> pages_freed w s e w'"
proof (induction "e - s" arbitrary: w s rule: less_induct)
  case less
  show ?case
  proof (cases "s \<ge> e")
    case True
    then show ?thesis using less.prems by (auto simp: free_slm_pages.simps [of w s e] pages_freed_def)
  next
    case False
    then have lt: "s < e" "s < page_count w" using less.prems by simp_all
    show ?thesis
    proof (cases "page_info w s")
      case None
      have c: "pages_closed w (Suc s) e" unfolding pages_closed_def
      proof (intro allI impI)
        fix k q k' assume a: "Suc s \<le> k \<and> k < e \<and> page_info w k = Some q \<and> page_info w k' = Some q"
        then have "s \<le> k" "k < e" by simp_all
        then have "s \<le> k' \<and> k' < e" using less.prems(2) a unfolding pages_closed_def by blast
        moreover have "k' \<noteq> s" using a None by auto
        ultimately show "Suc s \<le> k' \<and> k' < e" by simp
      qed
      have "pages_parked w (Suc s) e" using less.prems(3) unfolding pages_parked_def by (meson Suc_leD)
      then obtain w' where w': "free_slm_pages w (Suc s) e = Some w'" "pages_freed w (Suc s) e w'"
        using less.hyps [of "Suc s" w] less.prems(1,4) lt c by (metis Suc_diff_Suc lessI)
      have "(if Suc s \<le> k \<and> k < e then None else page_info w k) = (if s \<le> k \<and> k < e then None else page_info w k)" for k
        using None by (auto simp: Suc_le_eq le_less)
      then show ?thesis using w' None lt by (simp add: free_slm_pages.simps [of w s e] pages_freed_def)
    next
      case (Some q)
      obtain i where i: "infos w q = Some i" "info_page w i \<le> s" "s < info_page w i + pages_for (info_len i)"
        using less.prems(1) Some by (auto simp: pages_live_def)
      have "parked w i" using less.prems(3) Some i(1) lt unfolding pages_parked_def by (meson le_refl)
      then obtain w1 where w1: "detach_load_task w i = Some w1" by (auto simp: parked_def)
      note f1 = detach_load_task_frame [OF w1]
      note k1 = detach_keeps_pages(1) [OF w1 less.prems(1)] detach_keeps_pages(2) [OF w1 less.prems(2)]
        detach_keeps_pages(3) [OF w1 less.prems(3)]
      have q1: "page_info w1 s = Some q" "infos w1 q = Some i" using f1 Some i by simp_all
      define ie where "ie = min (s + pages_for (info_len i)) e"
      have ie: "s < ie" "ie \<le> e" using i lt by (auto simp: ie_def)
      note d = drop_region_ok [OF k1 q1(1) lt(1) q1(2), folded ie_def]
      have "e - ie < e - s" "e \<le> page_count (drop_region w1 q s ie)" using ie less.prems(4) f1 by (auto simp: drop_region_frame)
      from less.hyps [OF this(1) d this(2)] obtain w' where w':
        "free_slm_pages (drop_region w1 q s ie) ie e = Some w'" "pages_freed (drop_region w1 q s ie) ie e w'" by blast
      have "set_pages (w1\<lparr>infos := (infos w1)(q := None)\<rparr>) s (ie - s) None = Some (drop_region w1 q s ie)"
        using ie less.prems(4) f1 by (auto simp: set_pages_def drop_region_def cong: if_cong)
      then have "free_slm_pages w s e = Some w'"
        using Some i w1 w'(1) lt by (simp add: free_slm_pages.simps [of w s e] ie_def)
      moreover have "pages_freed w1 s e w'"
        using pages_freed_trans [OF w'(2)] drop_region_gone [OF k1(1,2) q1(1) lt(1) q1(2), folded ie_def] ie by simp
      ultimately show ?thesis using f1 by (simp add: pages_freed_def cong: if_cong)
    qed
  qed
qed

section \<open>Regions live in allocated blocks\<close>

text \<open>
  The state of the manager is consistent when the pool is well formed and covered by the page
  map, and all pages that point at one descriptor lie in one page-aligned block.
\<close>

definition block_pages :: "nat \<Rightarrow> nat" where
  "block_pages n = (n + 4095) div 4096"

definition owner_block :: "slm_state \<Rightarrow> node_t \<Rightarrow> nat \<Rightarrow> nat \<times> nat \<times> nat \<Rightarrow> bool" where
  "owner_block w h q = (\<lambda>(b, s, a). (b, s, a) \<in> allocs h \<and> b mod 4096 = 0
     \<and> (\<forall>k. page_info w k = Some q \<longrightarrow> b div 4096 \<le> k \<and> k < b div 4096 + block_pages a))"

definition slm_ok :: "slm_state \<Rightarrow> node_t \<Rightarrow> bool" where
  "slm_ok w h \<longleftrightarrow> buddy_head w = Some h \<and> wf_node h \<and> nidx h = 0 \<and> nsize h = page_count w * 4096
     \<and> nsize h + 4096 \<le> 2 ^ 64 \<and> pages_live w
     \<and> (\<forall>k q. page_info w k = Some q \<longrightarrow> (\<exists>blk. owner_block w h q blk))"

lemma buddy_act_size_block:
  assumes "wf_node h" and "nidx h = 0" and "(b, s, a) \<in> allocs h"
  shows "\<exists>m. buddy_act_size h b = Some m \<and> a \<le> m \<and> m \<le> s"
  using assms allocs_within [OF assms(1,3)] buddy_size_rec_cover [OF assms(1,3), of b]
  by (cases h) (auto simp: buddy_act_size_def)

lemma unat_of_nat64: "n < 2 ^ 64 \<Longrightarrow> unat (word_of_nat n :: u64) = n"
  by (simp add: unsigned_of_nat take_bit_nat_eq_self_iff)

lemma pages_for_of_nat: "n + 4095 < 2 ^ 64 \<Longrightarrow> pages_for (word_of_nat n) = block_pages n"
  using divide_up_page [of "word_of_nat n"] by (simp add: pages_for_def block_pages_def unat_of_nat64)

lemma block_pages_mono: "a \<le> m \<Longrightarrow> block_pages a \<le> block_pages m"
  by (simp add: block_pages_def div_le_mono)

lemma page_in_block:
  assumes "b mod 4096 = 0" and "b div 4096 \<le> k" and "k < b div 4096 + block_pages n"
  shows "b \<le> k * 4096 \<and> k * 4096 < b + n"
proof -
  obtain c where b: "b = c * 4096" using assms(1) by (metis dvd_def mod_0_imp_dvd mult.commute)
  have "k - c < (n + 4095) div 4096" using assms b by (simp add: block_pages_def)
  then have "Suc (k - c) * 4096 \<le> n + 4095" by (metis Suc_leI less_eq_div_iff_mult_less_eq zero_less_numeral)
  then show ?thesis using assms b by (simp add: diff_mult_distrib)
qed

lemma same_block:
  assumes wf: "wf_node h" and x: "(b, s, a) \<in> allocs h" "b mod 4096 = 0" "b div 4096 \<le> k" "k < b div 4096 + block_pages s"
    and y: "(c, t, d) \<in> allocs h" "c mod 4096 = 0" "c div 4096 \<le> k" "k < c div 4096 + block_pages d"
  shows "(c, t, d) = (b, s, a)"
  using page_in_block [OF x(2-)] page_in_block [OF y(2-)] allocs_disjoint [OF wf x(1) y(1)] allocs_within [OF wf y(1)]
  by auto

lemma block_closed:
  assumes ok: "slm_ok w h" and x: "(b, s, a) \<in> allocs h" "b mod 4096 = 0" and m: "a \<le> m" "m \<le> s"
  shows "pages_closed w (b div 4096) (b div 4096 + block_pages m)"
  unfolding pages_closed_def
proof (intro allI impI)
  fix k q k' assume a: "b div 4096 \<le> k \<and> k < b div 4096 + block_pages m \<and> page_info w k = Some q \<and> page_info w k' = Some q"
  obtain c t d where o: "owner_block w h q (c, t, d)" using ok a unfolding slm_ok_def by (metis prod_cases3)
  have "(c, t, d) = (b, s, a)"
    using same_block [of h b s a k c t d] ok o x a block_pages_mono [OF m(2)] by (auto simp: owner_block_def slm_ok_def)
  then show "b div 4096 \<le> k' \<and> k' < b div 4096 + block_pages m"
    using o a block_pages_mono [OF m(1)] by (auto simp: owner_block_def intro: less_le_trans)
qed

lemma free_slm_range_ok:
  assumes ok: "slm_ok w h" and x: "(b, s, a) \<in> allocs h" "b mod 4096 = 0"
    and parked: "pages_parked w (b div 4096) (b div 4096 + block_pages s)"
  shows "\<exists>w' h' m. free_slm_range w (get_slm_addr w (word_of_nat b)) = Some w' \<and> slm_ok w' h'
     \<and> allocs h' = allocs h - {(b, s, a)} \<and> a \<le> m \<and> m \<le> s
     \<and> (\<forall>k. page_info w' k = (if b div 4096 \<le> k \<and> k < b div 4096 + block_pages m then None else page_info w k))
     \<and> (\<forall>k q. page_info w' k = Some q \<longrightarrow> infos w' q = infos w q)"
proof -
  have h: "buddy_head w = Some h" "wf_node h" "nidx h = 0" "nsize h = page_count w * 4096" "nsize h + 4096 \<le> 2 ^ 64" "pages_live w"
    using ok by (auto simp: slm_ok_def)
  have in_pool: "b + s \<le> nsize h" "0 < a" "a \<le> s" using allocs_within [OF h(2) x(1)] h(3) by auto
  obtain m where m: "buddy_act_size h b = Some m" "a \<le> m" "m \<le> s" using buddy_act_size_block [OF h(2,3) x(1)] by blast
  let ?p = "b div 4096" and ?e = "b div 4096 + block_pages m"
  have b: "unat (word_of_nat b :: u64) = b" "unat (word_of_nat b div page_size) = ?p"
    using in_pool h(5) by (simp_all add: unat_of_nat64 unat_div page_size_eq)
  have pf: "pages_for (word_of_nat m) = block_pages m" by (rule pages_for_of_nat) (use in_pool h(5) m in linarith)
  have "?e \<le> page_count w"
  proof -
    have "b + s \<le> page_count w * 4096" using in_pool h(4) by simp
    then have "(b + m + 4095) div 4096 < Suc (page_count w)" using m(3) by (intro less_mult_imp_div_less) simp
    moreover have "(b + m + 4095) div 4096 = ?e" using x(2) by (auto simp: block_pages_def mod_0_imp_dvd dvd_def)
    ultimately show ?thesis by simp
  qed
  moreover have "pages_parked w ?p ?e" using parked block_pages_mono [OF m(3)] unfolding pages_parked_def
    by (meson add_left_mono less_le_trans)
  ultimately obtain w1 where w1: "free_slm_pages w ?p ?e = Some w1" "pages_freed w ?p ?e w1"
    using free_slm_pages_clean [OF h(6) block_closed [OF ok x m(2,3)]] by blast
  obtain h' where h': "buddy_free h b = (h', 0)" "wf_node h'" "nidx h' = nidx h" "nsize h' = nsize h" "allocs h' = allocs h - {(b, s, a)}"
    using buddy_free_rec_present [OF h(2) x(1)] by (auto simp: buddy_free_def)
  define w' where "w' = w1\<lparr>buddy_head := Some h'\<rparr>"
  have run: "free_slm_range w (get_slm_addr w (word_of_nat b)) = Some w'"
    using h(1) m(1) b w1(1) h'(1) pf
    by (simp add: free_slm_range_def free_slm_lba_info_def get_slm_offset_def get_slm_addr_def size_or_none_def w'_def)
  note f = w1(2) [unfolded pages_freed_def]
  have "pages_live w' = pages_live w1"
    by (simp add: w'_def pages_live_def info_page_def page_of_def get_slm_offset_def)
  then have live: "pages_live w'" using f by blast
  have "\<exists>blk. owner_block w' h' q blk" if k: "page_info w' k = Some q" for k q
  proof -
    have k0: "page_info w k = Some q" "\<not> (?p \<le> k \<and> k < ?e)" using k f by (auto simp: w'_def split: if_splits)
    obtain c t d where o: "owner_block w h q (c, t, d)" using ok k0(1) unfolding slm_ok_def by (metis prod_cases3)
    have "(c, t, d) \<noteq> (b, s, a)"
      using o k0 block_pages_mono [OF m(2)] by (auto simp: owner_block_def)
    then show ?thesis using o h'(5) f by (intro exI [of _ "(c, t, d)"]) (auto simp: owner_block_def w'_def split: if_splits)
  qed
  then have "slm_ok w' h'" using h h' f live by (simp add: slm_ok_def w'_def)
  then show ?thesis using run h'(5) m f by (intro exI [of _ w'] exI [of _ h'] exI [of _ m]) (simp add: w'_def)
qed

section \<open>Aligned blocks\<close>

lemma pow2_blocks:
  "wf_node n \<Longrightarrow> nsize n = 2 ^ m \<Longrightarrow> nidx n mod 2 ^ m = 0 \<Longrightarrow> (i, s, a) \<in> allocs n \<Longrightarrow>
     \<exists>j. s = 2 ^ j \<and> i mod 2 ^ j = 0"
proof (induction n arbitrary: m)
  case (SPLIT k t l r)
  obtain m' where m: "m = Suc m'"
    using SPLIT.prems wf_node_pos [of l] by (cases m) auto
  have half: "t div 2 = 2 ^ m'" using SPLIT.prems(2) m by simp
  have "2 ^ m dvd k" using SPLIT.prems(3) by (simp add: mod_0_imp_dvd)
  then have k: "k mod 2 ^ m' = 0" using dvd_trans [OF le_imp_power_dvd [of m' m "2::nat"]] m by simp
  have l: "wf_node l" "nsize l = 2 ^ m'" "nidx l mod 2 ^ m' = 0" and r: "wf_node r" "nsize r = 2 ^ m'" "nidx r mod 2 ^ m' = 0"
    using SPLIT.prems(1) half k by auto
  show ?case using SPLIT.IH(1) [OF l] SPLIT.IH(2) [OF r] SPLIT.prems(4) by auto
qed auto

lemma pow2_page_aligned:
  fixes s i :: nat
  assumes "s = 2 ^ j" "i mod 2 ^ j = 0" "s > 2048"
  shows "i mod 4096 = 0"
proof -
  have "j \<ge> 12"
  proof (rule ccontr)
    assume "\<not> j \<ge> 12"
    then have "(2::nat) ^ j \<le> 2 ^ 11" by (intro power_increasing) auto
    then show False using assms by simp
  qed
  then have "(2::nat) ^ 12 dvd 2 ^ j" by (rule le_imp_power_dvd)
  then have "(4096::nat) dvd 2 ^ j" by simp
  then have "4096 dvd i" using assms(2) dvd_trans mod_0_imp_dvd by blast
  then show ?thesis by simp
qed

section \<open>Properties\<close>

text \<open>A pool of 16 pages at address \<open>0x10000\<close> with one block of 20000 bytes, loaded by descriptor 7.\<close>

definition sample_slm :: slm_state where
  "sample_slm = \<lparr>slm_start_addr = 65536, buddy_head = Some (SPLIT 0 65536 (ALLOC 0 32768 20000) (FREE 32768 32768)),
     page_count = 16, page_info = (\<lambda>k. if k < 5 then Some 7 else None),
     infos = (\<lambda>_. None)(7 \<mapsto> fresh_info\<lparr>info_start_addr := 65536, info_len := 20000, info_task_id := -1\<rparr>),
     next_info = 8, slm_tasks = sample_tasks\<rparr>"

abbreviation sample_pool :: node_t where
  "sample_pool \<equiv> SPLIT 0 65536 (ALLOC 0 32768 20000) (FREE 32768 32768)"

lemma sample_slm_ok: "slm_ok sample_slm sample_pool"
proof -
  have "pages_live sample_slm"
    by (auto simp: pages_live_def sample_slm_def info_page_def page_of_def get_slm_offset_def pages_for_def DIVIDE_UP_def page_size_eq split: if_splits)
  moreover have "owner_block sample_slm sample_pool q (0, 32768, 20000)" if "page_info sample_slm k = Some q" for k q
    using that by (auto simp: owner_block_def sample_slm_def block_pages_def split: if_splits)
  moreover have "buddy_head sample_slm = Some sample_pool" "page_count sample_slm = 16" by (simp_all add: sample_slm_def)
  ultimately show ?thesis unfolding slm_ok_def by (intro conjI allI impI) (blast | simp)+
qed

lemma sample_slm_parked: "pages_parked sample_slm 0 8"
  by (auto simp: pages_parked_def parked_def detach_load_task_def sample_slm_def TASK_GEN_VALID_def TASK_ID_NONE_def Let_def)

text \<open>
  C19. Freeing an allocated, page-aligned range whose load tasks are parked succeeds: the block goes back
  to the pool, every page of the range loses its descriptor, every other page keeps its descriptor
  unchanged, and no page points at a freed descriptor.
\<close>

theorem free_slm_range_correct:
  assumes "slm_ok w h" and "(b, s, a) \<in> allocs h" and "b mod 4096 = 0"
    and "pages_parked w (b div 4096) (b div 4096 + block_pages s)"
  shows "\<exists>w' h' m. free_slm_range w (get_slm_addr w (word_of_nat b)) = Some w' \<and> slm_ok w' h'
     \<and> allocs h' = allocs h - {(b, s, a)} \<and> a \<le> m \<and> m \<le> s
     \<and> (\<forall>k. page_info w' k = (if b div 4096 \<le> k \<and> k < b div 4096 + block_pages m then None else page_info w k))
     \<and> (\<forall>k q. page_info w' k = Some q \<longrightarrow> infos w' q = infos w q)"
  using free_slm_range_ok [OF assms] .

theorem free_slm_range_correct_witness:
  "\<exists>w' h'. free_slm_range sample_slm (get_slm_addr sample_slm 0) = Some w' \<and> slm_ok w' h' \<and> allocs h' = {}"
  using free_slm_range_correct [OF sample_slm_ok, of 0 32768 20000] sample_slm_parked
  by (auto simp: block_pages_def)

text \<open>
  C20. On a pool whose size is a power of two, a request for more than half a page never trips the
  alignment check: it gets a page-aligned block of the pool that no earlier block overlaps, and it is
  refused, with \<open>-1\<close> and nothing changed, only when every free block is smaller than the request.
\<close>

theorem alloc_slm_range_aligned:
  assumes ok: "slm_ok w h" and pow: "nsize h = 2 ^ m" and sz: "2048 < unat sz"
  shows "alloc_slm_range w sz = Some (w, -1) \<and> (\<forall>(b, s)\<in>frees h. s < unat sz) \<or>
     (\<exists>w' h' b s. alloc_slm_range w sz = Some (w', get_slm_addr w (word_of_nat b)) \<and> slm_ok w' h'
        \<and> b mod 4096 = 0 \<and> unat sz \<le> s \<and> b + s \<le> nsize h \<and> allocs h' = insert (b, s, unat sz) (allocs h)
        \<and> (\<forall>(c, t, d)\<in>allocs h. c + t \<le> b \<or> b + s \<le> c))"
proof -
  have h: "buddy_head w = Some h" "wf_node h" "nidx h = 0" "nsize h + 4096 \<le> 2 ^ 64" using ok by (auto simp: slm_ok_def)
  have "0 < unat sz" using sz by simp
  from alloc_result_ex [OF this h(2)] obtain h' rt where
    r: "buddy_alloc_rec h (unat sz) = Some (h', rt)" "alloc_result h (unat sz) h' rt" by blast
  show ?thesis
  proof (cases rt)
    case None
    then have "alloc_slm_range w sz = Some (w, -1)" "\<forall>(b, s)\<in>frees h. s < unat sz"
      using r h by (simp_all add: alloc_slm_range_def buddy_alloc_def alloc_result_def)
    then show ?thesis by blast
  next
    case (Some b)
    then obtain s where s: "wf_node h'" "nidx h' = nidx h" "nsize h' = nsize h" "unat sz \<le> s" "(b, s, unat sz) \<notin> allocs h"
      "allocs h' = insert (b, s, unat sz) (allocs h)" using r(2) by (auto simp: alloc_result_def)
    have m: "(b, s, unat sz) \<in> allocs h'" using s by simp
    have al: "b mod 4096 = 0"
      using pow2_blocks [of h' m b s "unat sz"] s m pow h(3) sz pow2_page_aligned [of s _ b] by fastforce
    have bs: "b + s \<le> nsize h" using allocs_within [OF s(1) m] s(2,3) h(3) by simp
    have d: "c + t \<le> b \<or> b + s \<le> c" if "(c, t, d) \<in> allocs h" for c t d
      using allocs_disjoint [OF s(1) m, of c t d] that s by auto
    define w' where "w' = w\<lparr>buddy_head := Some h'\<rparr>"
    have "(word_of_nat b :: u64) mod page_size = 0"
      using al bs h(4) by (simp add: page_size_eq word_unat_eq_iff unat_mod unat_of_nat64)
    then have run: "alloc_slm_range w sz = Some (w', get_slm_addr w (word_of_nat b))"
      using r Some h by (simp add: alloc_slm_range_def buddy_alloc_def w'_def)
    have "pages_live w' = pages_live w"
      by (simp add: w'_def pages_live_def info_page_def page_of_def get_slm_offset_def)
    moreover have "owner_block w' h' q blk" if "owner_block w h q blk" for q blk
      using that s by (auto simp: owner_block_def w'_def)
    moreover have "page_info w' = page_info w" "page_count w' = page_count w" "buddy_head w' = Some h'" by (simp_all add: w'_def)
    ultimately have "slm_ok w' h'" using ok s(1-3) unfolding slm_ok_def by metis
    moreover have "\<forall>(c, t, d)\<in>allocs h. c + t \<le> b \<or> b + s \<le> c" using d by auto
    ultimately show ?thesis using run al bs s(4,6)
      by (intro disjI2 exI [of _ w'] exI [of _ h'] exI [of _ b] exI [of _ s] conjI)
  qed
qed

theorem alloc_slm_range_aligned_witness:
  "\<exists>w' h' b s. alloc_slm_range sample_slm 4096 = Some (w', get_slm_addr sample_slm (word_of_nat b)) \<and> slm_ok w' h'
     \<and> b mod 4096 = 0 \<and> 4096 \<le> s \<and> b + s \<le> nsize sample_pool \<and> allocs h' = insert (b, s, 4096) (allocs sample_pool)
     \<and> (\<forall>(c, t, d)\<in>allocs sample_pool. c + t \<le> b \<or> b + s \<le> c)"
proof -
  have "\<not> (\<forall>(b, s)\<in>frees sample_pool. s < unat (4096 :: u64))" by simp
  moreover have "2048 < unat (4096 :: u64)" "nsize sample_pool = 2 ^ 16" by simp_all
  ultimately show ?thesis using alloc_slm_range_aligned [OF sample_slm_ok, of 16 4096] by simp
qed

text \<open>
  C29. The range check of the memory commands accepts every address that no allocated block contains,
  whatever the length: the failure value of the size lookup is the largest \<open>size_t\<close>.
\<close>

theorem check_allocated_accepts_unallocated:
  assumes "slm_ok w h" and "\<forall>(b, s, a)\<in>allocs h. \<not> (b \<le> unat (get_slm_offset w addr) \<and> unat (get_slm_offset w addr) < b + s)"
  shows "check_allocated_slm_range w addr sz = Some True"
proof -
  have "buddy_size_rec h (unat (get_slm_offset w addr)) = None" using assms(2) buddy_size_rec_None by simp
  then have "buddy_act_size h (unat (get_slm_offset w addr)) = None"
    using assms(1) by (cases h) (auto simp: buddy_act_size_def slm_ok_def split: option.splits if_splits)
  then show ?thesis using assms(1) by (simp add: check_allocated_slm_range_def slm_ok_def size_or_none_def)
qed

theorem check_allocated_accepts_unallocated_witness:
  "check_allocated_slm_range sample_slm 0x1f000 1000000 = Some True"
  using check_allocated_accepts_unallocated [OF sample_slm_ok, of "0x1f000" 1000000]
  by (simp add: get_slm_offset_def sample_slm_def)

section \<open>Demand reads\<close>

lemma aligned_up32_unat:
  assumes "unat v + 4095 < 2 ^ 32"
  shows "unat (ALIGNED_UP32 v SLM_PAGE_SIZE) = (unat v + 4095) div 4096 * 4096"
proof -
  have "ALIGNED_UP32 v SLM_PAGE_SIZE = ALIGNED_DOWN32 (4095 + v) SLM_PAGE_SIZE"
    by (simp add: ALIGNED_UP32_def ALIGNED_DOWN32_def SLM_PAGE_SIZE_def)
  moreover have "unat (4095 + v) = unat v + 4095" using assms unat_add_no_wrap [of 4095 v] by simp
  ultimately show ?thesis using assms by (simp add: aligned_down32_unat)
qed

text \<open>The page-rounded extent of a probe contains the probe.\<close>

lemma rounded_extent_covers:
  fixes rel sz :: u64
  assumes "unat rel + unat sz + 8192 < 2 ^ 32"
  defines "off \<equiv> ALIGNED_DOWN32 rel SLM_PAGE_SIZE"
  defines "len \<equiv> ALIGNED_UP32 (sz + (rel - off)) SLM_PAGE_SIZE"
  shows "extent_covers \<lparr>file_offset = off, file_size = len, slm_offset = x, ready = r\<rparr> rel sz"
    and "extent_covers \<lparr>file_offset = off, file_size = len, slm_offset = x, ready = r\<rparr> off len"
    and "off \<noteq> -1"
proof -
  have o: "unat off = unat rel div 4096 * 4096" using assms(1) by (simp add: off_def aligned_down32_unat)
  have le: "unat off \<le> unat rel" unfolding o by (rule div_times_less_eq_dividend)
  have lt: "unat rel < unat off + 4096" unfolding o by (metis add.commute div_mod_decomp mod_less_divisor nat_add_left_cancel_less zero_less_numeral)
  have d: "unat (rel - off) = unat rel - unat off" using le by (simp add: word_le_nat_alt)
  have s: "unat (sz + (rel - off)) = unat sz + (unat rel - unat off)"
    using assms(1) d unat_add_no_wrap [of sz "rel - off"] by simp
  have "unat len = (unat sz + (unat rel - unat off) + 4095) div 4096 * 4096"
    unfolding len_def using aligned_up32_unat [of "sz + (rel - off)"] s assms(1) lt by simp
  moreover have "n \<le> (n + 4095) div 4096 * 4096" "(n + 4095) div 4096 * 4096 \<le> n + 4095" for n :: nat by linarith+
  ultimately have l: "unat sz + (unat rel - unat off) \<le> unat len" "unat len \<le> unat sz + (unat rel - unat off) + 4095" by simp_all
  have ol: "unat (off + len) = unat off + unat len" using unat_add_no_wrap [of off len] l le assms(1) by simp
  have rs: "unat (rel + sz) = unat rel + unat sz" using unat_add_no_wrap [of rel sz] assms(1) by simp
  show "extent_covers \<lparr>file_offset = off, file_size = len, slm_offset = x, ready = r\<rparr> rel sz"
    using le l ol rs by (simp add: extent_covers_def word_le_nat_alt)
  show "extent_covers \<lparr>file_offset = off, file_size = len, slm_offset = x, ready = r\<rparr> off len"
    by (simp add: extent_covers_def)
  have "unat off < 2 ^ 32" using le assms(1) by simp
  then show "off \<noteq> -1" by (auto simp: unsigned_minus_1_eq_mask mask_eq_exp_minus_1)
qed

lemma extent_scan_append: "extent_scan (es @ fs) o' l = (case extent_scan es o' l of None \<Rightarrow> extent_scan fs o' l | Some e \<Rightarrow> Some e)"
  by (induction es) auto

lemma extent_set_ready_absent: "\<forall>d\<in>set es. file_offset d \<noteq> off \<Longrightarrow> extent_set_ready (es @ fs) off = es @ extent_set_ready fs off"
  by (induction es) auto

lemma extent_set_ready_present: "\<exists>d\<in>set es. file_offset d = off \<Longrightarrow> extent_set_ready (es @ fs) off = extent_set_ready es off @ fs"
  by (induction es) auto

lemma extent_scan_set_ready: "extent_scan (extent_set_ready es off) o' l = None \<longleftrightarrow> extent_scan es o' l = None"
  by (induction es) (auto simp: extent_covers_def)

text \<open>The descriptor after a demand for a probe that no extent covers.\<close>

definition after_demand :: "slm_lba_info \<Rightarrow> u64 \<Rightarrow> u64 \<Rightarrow> slm_lba_info" where
  "after_demand i addr sz =
     (let rel = addr - info_start_addr i; off = ALIGNED_DOWN32 rel SLM_PAGE_SIZE;
          len = ALIGNED_UP32 (sz + (rel - off)) SLM_PAGE_SIZE
      in i\<lparr>extents := extents i @ [\<lparr>file_offset = off, file_size = len, slm_offset = off, ready = False\<rparr>],
           random_access := True, request_done := False, demand_read_size := len,
           demand_read_slm_target := info_start_addr i + off, demand_read_offset := off\<rparr>)"

definition demand_possible :: "slm_lba_info \<Rightarrow> u64 \<Rightarrow> u64 \<Rightarrow> bool" where
  "demand_possible i addr sz \<longleftrightarrow>
     (let rel = addr - info_start_addr i; off = ALIGNED_DOWN32 rel SLM_PAGE_SIZE;
          len = ALIGNED_UP32 (sz + (rel - off)) SLM_PAGE_SIZE
      in extent_mapped i \<and> \<not> is_output i \<and> demand_read_offset i = -1 \<and> length (extents i) < MAX_EXTENT_ENTRIES
         \<and> extent_scan (extents i) off len = None \<and> extent_scan (extents i) rel sz = None
         \<and> unat rel + unat sz + 8192 < 2 ^ 32)"

lemma demand_alloc_eq:
  "demand_possible i addr sz \<Longrightarrow>
     ht_demand_alloc_extent w q i addr sz = put (wake_load_task w (info_task_id i)) q (after_demand i addr sz)"
  by (simp add: ht_demand_alloc_extent_def demand_possible_def after_demand_def Let_def)

lemma complete_after_demand:
  assumes "demand_possible i addr sz"
  shows "complete_demand (after_demand i addr sz) =
    (after_demand i addr sz)\<lparr>extents := extent_set_ready (extents (after_demand i addr sz)) (ALIGNED_DOWN32 (addr - info_start_addr i) SLM_PAGE_SIZE),
       demand_read_offset := -1\<rparr>"
  using assms rounded_extent_covers(3) [of "addr - info_start_addr i" sz]
  by (simp add: complete_demand_def after_demand_def demand_possible_def Let_def)

text \<open>
  C21. A demand read makes progress: when a scattered probe of an extent-mapped region is covered by no
  extent and no extent starts at its page, then the demand allocates one, and once its
  transfer completes the probe is ready.
\<close>

theorem demand_completes_ready:
  assumes "demand_possible i addr sz"
    and "\<forall>d\<in>set (extents i). file_offset d \<noteq> ALIGNED_DOWN32 (addr - info_start_addr i) SLM_PAGE_SIZE"
  shows "\<exists>i'. infos (ht_demand_alloc_extent w q i addr sz) q = Some i'
     \<and> snd (check_ready_stream (complete_demand i') addr sz)"
proof -
  let ?rel = "addr - info_start_addr i"
  define off where "off = ALIGNED_DOWN32 ?rel SLM_PAGE_SIZE"
  define len where "len = ALIGNED_UP32 (sz + (?rel - off)) SLM_PAGE_SIZE"
  define e where "e = \<lparr>file_offset = off, file_size = len, slm_offset = off, ready = True\<rparr>"
  have p: "extent_mapped i" "extent_scan (extents i) ?rel sz = None" "unat ?rel + unat sz + 8192 < 2 ^ 32"
    using assms(1) by (auto simp: demand_possible_def Let_def)
  have cov: "extent_covers e ?rel sz" unfolding e_def off_def len_def by (rule rounded_extent_covers(1) [OF p(3)])
  let ?i = "complete_demand (after_demand i addr sz)"
  have "extents ?i = extents i @ [e]"
    using complete_after_demand [OF assms(1)] assms(2)
    by (simp add: after_demand_def Let_def extent_set_ready_absent e_def off_def len_def)
  then have "extent_scan (extents ?i) ?rel sz = Some e" using p(2) cov by (simp add: extent_scan_append)
  moreover have "extent_mapped ?i" "info_start_addr ?i = info_start_addr i"
    using complete_after_demand [OF assms(1)] p(1) by (simp_all add: after_demand_def Let_def)
  ultimately have "snd (check_ready_stream ?i addr sz)"
    by (simp add: check_ready_stream_def extent_ready_def e_def Let_def)
  then show ?thesis using demand_alloc_eq [OF assms(1)] by (simp add: put_def)
qed

text \<open>
  C28. When an extent that starts at the page of the probe already exists (an earlier, shorter demand of the same
  page), the completion marks that one again instead of the new one: the probe stays
  unready, no demand is outstanding, and asking again changes nothing. The consumer waits for ever.
\<close>

theorem same_page_demand_stuck:
  assumes "demand_possible i addr sz"
    and "\<exists>d\<in>set (extents i). file_offset d = ALIGNED_DOWN32 (addr - info_start_addr i) SLM_PAGE_SIZE"
  shows "\<exists>i'. infos (ht_demand_alloc_extent w q i addr sz) q = Some i'
     \<and> check_ready_stream (complete_demand i') addr sz = (complete_demand i', False)
     \<and> demand_read_offset (complete_demand i') = -1
     \<and> ht_demand_alloc_extent w2 q (complete_demand i') addr sz = put w2 q (complete_demand i')"
proof -
  let ?rel = "addr - info_start_addr i"
  define off where "off = ALIGNED_DOWN32 ?rel SLM_PAGE_SIZE"
  define len where "len = ALIGNED_UP32 (sz + (?rel - off)) SLM_PAGE_SIZE"
  define e where "e = \<lparr>file_offset = off, file_size = len, slm_offset = off, ready = False\<rparr>"
  have p: "extent_mapped i" "extent_scan (extents i) ?rel sz = None" "extent_scan (extents i) off len = None"
    "unat ?rel + unat sz + 8192 < 2 ^ 32"
    using assms(1) by (auto simp: demand_possible_def Let_def off_def len_def)
  have cov: "extent_covers e ?rel sz" "extent_covers e off len"
    unfolding e_def off_def len_def by (rule rounded_extent_covers(1,2) [OF p(4)])+
  let ?i = "complete_demand (after_demand i addr sz)"
  have x: "extents ?i = extent_set_ready (extents i) off @ [e]"
    using complete_after_demand [OF assms(1)] assms(2)
    by (simp add: after_demand_def Let_def extent_set_ready_present e_def off_def len_def)
  have m: "extent_mapped ?i" "info_start_addr ?i = info_start_addr i" "demand_read_offset ?i = -1"
    using complete_after_demand [OF assms(1)] p(1) by (simp_all add: after_demand_def Let_def)
  have "extent_scan (extent_set_ready (extents i) off) ?rel sz = None" "extent_scan (extent_set_ready (extents i) off) off len = None"
    using p(2,3) by (simp_all add: extent_scan_set_ready)
  then have "extent_scan (extents ?i) ?rel sz = Some e" "extent_scan (extents ?i) off len = Some e"
    using cov x by (simp_all add: extent_scan_append)
  then have "check_ready_stream ?i addr sz = (?i, False)" "ht_demand_alloc_extent w2 q ?i addr sz = put w2 q ?i"
    using m by (simp_all add: check_ready_stream_def extent_ready_def ht_demand_alloc_extent_def e_def Let_def off_def len_def)
  then show ?thesis using demand_alloc_eq [OF assms(1)] m by (simp add: put_def)
qed

definition demand_info :: slm_lba_info where
  "demand_info = fresh_info\<lparr>extent_mapped := True, use_head_tail := False,
     extents := [\<lparr>file_offset = 8192, file_size = 4096, slm_offset = 8192, ready = True\<rparr>]\<rparr>"

lemma demand_info_possible: "demand_possible demand_info 20480 100" "demand_possible demand_info 8192 8192"
  by (simp_all add: demand_possible_def demand_info_def fresh_info_def extent_covers_def ALIGNED_DOWN32_def
    ALIGNED_UP32_def SLM_PAGE_SIZE_def MAX_EXTENT_ENTRIES_def)

theorem demand_completes_ready_witness:
  "\<exists>i'. infos (ht_demand_alloc_extent sample_slm 7 demand_info 20480 100) 7 = Some i'
     \<and> snd (check_ready_stream (complete_demand i') 20480 100)"
  by (rule demand_completes_ready [OF demand_info_possible(1)])
    (simp add: demand_info_def fresh_info_def ALIGNED_DOWN32_def SLM_PAGE_SIZE_def)

theorem same_page_demand_stuck_witness:
  "\<exists>i'. infos (ht_demand_alloc_extent sample_slm 7 demand_info 8192 8192) 7 = Some i'
     \<and> check_ready_stream (complete_demand i') 8192 8192 = (complete_demand i', False)
     \<and> demand_read_offset (complete_demand i') = -1
     \<and> ht_demand_alloc_extent sample_slm 7 (complete_demand i') 8192 8192 = put sample_slm 7 (complete_demand i')"
  by (rule same_page_demand_stuck [OF demand_info_possible(2)])
    (simp add: demand_info_def fresh_info_def ALIGNED_DOWN32_def SLM_PAGE_SIZE_def)

section \<open>Reading the output\<close>

lemma page_div_below:
  assumes "0 < n" "unat n \<le> t" "unat h = (t div 4096 + 1) * 4096" "unat h + 4095 < 2 ^ 64"
  shows "(n - 1) div page_size < DIVIDE_UP h page_size"
proof -
  have "unat (n - 1) = unat n - 1" using assms(1) by (simp add: unat_gt_0 word_le_nat_alt Suc_leI)
  moreover have "(unat n - 1) div 4096 \<le> t div 4096" using assms(2) by (intro div_le_mono) simp
  moreover have "unat ((n - 1) div page_size) = unat (n - 1) div 4096" by (simp add: page_size_eq unat_div)
  ultimately have "unat ((n - 1) div page_size) \<le> t div 4096" by simp
  then show ?thesis using assms(3) by (subst page_below_frontier [OF assms(4)]) simp
qed

text \<open>
  Once the producer of a linear output has finished with \<open>n\<close> bytes, the host can read all of
  it and nothing more: a read at an offset below \<open>n\<close> is ready and clamped to the end of the
  output, a read at or beyond \<open>n\<close> is ready with length 0.
\<close>

lemma finalized_output_readable:
  assumes f: "fetch w end_addr = Some (Some (q, i))" and mode: "use_head_tail i" "\<not> output_is_circular i"
    and n: "unat n + 8192 < 2 ^ 64" and head: "unat (ht_head i) \<le> (unat n div 4096 + 1) * 4096"
    and rel: "unat rel + unat len < 2 ^ 64" "0 < len"
  shows "\<exists>w' i'. finalize_slm_data_ready w end_addr n = Some w' \<and> infos w' q = Some i'
     \<and> check_output_linear i' rel len = (if rel < n then if len \<le> n - rel then len else n - rel else 0, True)"
proof -
  define hb where "hb = (n div page_size + 1) * page_size"
  have u1: "unat (n div page_size + 1) = unat n div 4096 + 1"
    using n unat_add_no_wrap [of "n div page_size" 1] by (simp add: page_size_eq unat_div)
  have le: "(unat n div 4096 + 1) * 4096 \<le> unat n + 4096" by simp
  have hb: "unat hb = (unat n div 4096 + 1) * 4096"
    unfolding hb_def using u1 le n by (simp add: unat_word_ariths page_size_eq)
  define i' where "i' = i\<lparr>final_offset := get_slm_offset w end_addr div page_size, final_leftovers := n - (n div page_size) * page_size,
    output_logical_total_size := n, ht_producer_done := True, ht_head := (if hb > ht_head i then hb else ht_head i)\<rparr>"
  have run: "finalize_slm_data_ready w end_addr n = Some (put w q i')"
    using f mode by (simp add: finalize_slm_data_ready_def i'_def hb_def Let_def)
  have h: "unat (ht_head i') = (unat n div 4096 + 1) * 4096"
    using hb head by (auto simp: i'_def word_less_nat_alt)
  have h2: "unat (ht_head i') + 4095 < 2 ^ 64" using h le n by simp
  have e: "unat (rel + len) = unat rel + unat len" using rel unat_add_no_wrap [of rel len] by simp
  have e0: "0 < rel + len" using e rel(2) by (simp add: word_less_nat_alt)
  have "check_output_linear i' rel len = (if rel < n then if len \<le> n - rel then len else n - rel else 0, True)"
  proof (cases "rel < n")
    case True
    then have d: "unat (n - rel) = unat n - unat rel" by (simp add: less_imp_le)
    have n0: "0 < n" using True by (simp add: word_less_nat_alt)
    have c: "rel + len > n \<longleftrightarrow> \<not> len \<le> n - rel" using e d True by (auto simp: word_less_nat_alt word_le_nat_alt)
    have t: "ht_producer_done i'" "output_logical_total_size i' = n" by (simp_all add: i'_def)
    have nle: "\<not> n \<le> rel" using True by simp
    show ?thesis
    proof (cases "len \<le> n - rel")
      case short: True
      then have "unat (rel + len) \<le> unat n" using c by (simp add: word_less_nat_alt)
      then show ?thesis using True nle t c short page_div_below [OF e0 _ h h2] by (simp add: check_output_linear_def Let_def)
    next
      case long: False
      then show ?thesis using True nle t c page_div_below [OF n0 _ h h2] by (simp add: check_output_linear_def Let_def)
    qed
  next
    case False
    then have "n \<le> rel" by simp
    then show ?thesis using False by (simp add: check_output_linear_def Let_def i'_def)
  qed
  then show ?thesis using run by (simp add: put_def)
qed

text \<open>
  C30. A region that its output fills exactly is never marked finished: the call passes the address one past
  the output, whose page belongs to another region or to none.
\<close>

theorem finalize_full_region_missed:
  assumes live: "pages_live w" and i: "infos w q = Some i"
    and al: "unat (get_slm_offset w (info_start_addr i)) mod 4096 = 0" "unat (info_len i) mod 4096 = 0"
    and b: "unat (get_slm_offset w (info_start_addr i)) + unat (info_len i) + 4096 < 2 ^ 64"
    and run: "finalize_slm_data_ready w (info_start_addr i + info_len i) (info_len i) = Some w'"
  shows "infos w' q = infos w q"
proof -
  let ?a = "info_start_addr i + info_len i"
  have "get_slm_offset w ?a = get_slm_offset w (info_start_addr i) + info_len i" by (simp add: get_slm_offset_def)
  then have "unat (get_slm_offset w ?a) = unat (get_slm_offset w (info_start_addr i)) + unat (info_len i)"
    using unat_add_no_wrap [of "get_slm_offset w (info_start_addr i)" "info_len i"] b by simp
  then have p: "page_of w ?a = info_page w i + unat (info_len i) div 4096"
    using al by (simp add: page_of_def info_page_def unat_div page_size_eq div_plus_div_distrib_dvd_right mod_0_imp_dvd)
  have "pages_for (info_len i) = unat (info_len i) div 4096"
    using al(2) b by (auto simp: pages_for_def divide_up_page mod_0_imp_dvd dvd_def)
  then have nq: "page_info w (page_of w ?a) \<noteq> Some q" using live i p by (fastforce simp: pages_live_def)
  then show ?thesis
    using run by (auto simp: finalize_slm_data_ready_def fetch_def get_slm_lba_info_from_addr_def put_def Let_def
        split: if_splits option.splits Option.bind_splits)
qed

text \<open>The sample region as the output of a compute task.\<close>

definition sample_out :: slm_state where
  "sample_out = sample_slm\<lparr>infos := (infos sample_slm)(7 \<mapsto> fresh_info\<lparr>info_start_addr := 65536, info_len := 20480, info_task_id := -1, is_output := True\<rparr>)\<rparr>"

theorem finalize_full_region_missed_witness:
  "infos (the (finalize_slm_data_ready sample_out (65536 + 20480) 20480)) 7 = infos sample_out 7"
proof -
  define i where "i = fresh_info\<lparr>info_start_addr := 65536, info_len := 20480, info_task_id := -1, is_output := True\<rparr>"
  have "pages_live sample_out"
    by (auto simp: pages_live_def sample_out_def sample_slm_def info_page_def page_of_def get_slm_offset_def pages_for_def
        DIVIDE_UP_def page_size_eq split: if_splits)
  moreover have "infos sample_out 7 = Some i" by (simp add: sample_out_def i_def)
  moreover have "finalize_slm_data_ready sample_out (65536 + 20480) 20480 = Some sample_out"
    by (simp add: finalize_slm_data_ready_def fetch_def get_slm_lba_info_from_addr_def page_of_def get_slm_offset_def
        sample_out_def sample_slm_def page_size_eq)
  moreover have "info_start_addr i = 65536" "info_len i = 20480" "get_slm_offset sample_out 65536 = 0"
    by (simp_all add: i_def get_slm_offset_def sample_out_def sample_slm_def)
  ultimately show ?thesis using finalize_full_region_missed [of sample_out 7 i sample_out] by simp
qed

end
