(* ===== verification/Csd_Ftl.thy ===== *)
theory Csd_Ftl
  imports Conv_Device Slm
begin

text \<open>
  The namespace of the computational SSD, \<open>csd_ftl.c\<close>: commands go to the conventional namespace behind it; host
  reads and writes of the shared memory, and copies from it, first ask whether the output is ready. The
  device's own reads, made while data is loaded into the shared memory, only ask for their completion time.
\<close>

section \<open>Throttling counters\<close>

record throttle =
  enable_throttling :: int
  issue_count_for_internal :: u64
  issue_count_for_external :: u64
  complete_count_for_internal :: u64
  complete_count_for_external :: u64
  refill_token_for_internal :: u64
  refill_token_for_external :: u64
  token_for_internal :: u64
  token_for_external :: u64
  last_io_size :: u64
  lastest_token :: u64

definition init_token :: u64 where "init_token = 2 * 1024 * 1024"

definition reset_tokens :: "throttle \<Rightarrow> throttle" where
  "reset_tokens t = t\<lparr>token_for_external := init_token div 2, refill_token_for_external := init_token div 2,
     token_for_internal := init_token div 2, refill_token_for_internal := init_token div 2,
     issue_count_for_internal := 0, issue_count_for_external := 0, complete_count_for_internal := 0, complete_count_for_external := 0\<rparr>"

definition csd_init_namespace :: "throttle \<Rightarrow> throttle" where
  "csd_init_namespace t = (reset_tokens t)\<lparr>enable_throttling := 0\<rparr>"

definition refill_token :: "throttle \<Rightarrow> throttle" where
  "refill_token t =
     (if token_for_internal t = 0 \<and> token_for_external t = 0
      then t\<lparr>token_for_internal := refill_token_for_internal t, token_for_external := refill_token_for_external t\<rparr> else t)"

definition adjust_throttling :: "throttle \<Rightarrow> throttle" where
  "adjust_throttling t = t\<lparr>complete_count_for_external := 0, issue_count_for_external := 0, complete_count_for_internal := 0, issue_count_for_internal := 0\<rparr>"

definition notify_internal_cmd :: "throttle \<Rightarrow> throttle" where
  "notify_internal_cmd t = t\<lparr>complete_count_for_internal := complete_count_for_internal t + 128 * 1024\<rparr>"

definition csd_notify_io_cmd :: "throttle \<Rightarrow> u64 \<Rightarrow> throttle" where
  "csd_notify_io_cmd t len = t\<lparr>complete_count_for_external := complete_count_for_external t + len, last_io_size := len\<rparr>"

definition notify_start_throttling :: "throttle \<Rightarrow> throttle" where
  "notify_start_throttling t =
     (let t1 = (if enable_throttling t = 0 then reset_tokens t else t) in t1\<lparr>enable_throttling := enable_throttling t + 1\<rparr>)"

definition notify_finish_throttling :: "throttle \<Rightarrow> throttle" where
  "notify_finish_throttling t = (if enable_throttling t > 0 then (reset_tokens t)\<lparr>enable_throttling := enable_throttling t - 1\<rparr> else t)"

text \<open>The submission queues are given by whether they exist and their new and old doorbells.\<close>

definition get_extra_token :: "(bool \<times> int \<times> int) list \<Rightarrow> throttle \<Rightarrow> throttle \<times> bool" where
  "get_extra_token sqs t =
     (if list_all (\<lambda>(present, new_db, old_db). present \<longrightarrow> new_db = old_db) sqs
      then if lastest_token t = -1 then (t\<lparr>lastest_token := token_for_external t\<rparr>, False)
           else if lastest_token t = token_for_external t then (t, True)
           else (t\<lparr>lastest_token := -1\<rparr>, False)
      else (t\<lparr>lastest_token := -1\<rparr>, False))"

section \<open>Commands\<close>

text \<open>
  The command is changed in its queue entry: a read of the shared memory is cut to what has been produced. The
  result is the namespace, the request with the changed command, the result structure and the status.
\<close>

definition csd_proc_nvme_io_cmd ::
  "(nvmev_request \<Rightarrow> u64 \<times> u32) \<Rightarrow> slm_state \<Rightarrow> conv_ns \<Rightarrow> nvmev_request \<Rightarrow> nvmev_result \<Rightarrow> (conv_ns \<times> nvmev_request \<times> nvmev_result \<times> nvmev_io_status) option" where
  "csd_proc_nvme_io_cmd prp w ns req ret =
     (let c = cmd req; op = opcode c;
          forward = (\<lambda>req. do { (ns', ret', st) \<leftarrow> conv_proc_nvme_io_cmd prp ns req ret; Some (ns', req, ret', st) })
      in if op = nvme_cmd_compound_execute_program \<or> op = nvme_cmd_memory_management \<or> op = nvme_cmd_memory_copy
         then Some (ns, req, ret, NVMEV_IO_STATUS_SUCCESS)
         else if op = nvme_cmd_memory_read \<or> op = nvme_cmd_memory_write
         then do {
           (len, ok) \<leftarrow> check_output_slm_data_ready w (get_slm_addr w (sb c)) (ucast (memory_length c));
           if \<not> ok then Some (ns, req, ret, NVMEV_IO_STATUS_DEFERRED)
           else forward (req\<lparr>cmd := c\<lparr>memory_cdw13 := (if ucast (memory_length c) = len then 0 else 1), memory_length := ucast len\<rparr>\<rparr>)
         }
         else if op = nvme_cmd_namespace_copy
         then do {
           (len, ok) \<leftarrow> check_output_slm_data_ready w (get_slm_addr w (sb c)) (memory_copy_length c);
           if \<not> ok then Some (ns, req, ret, NVMEV_IO_STATUS_DEFERRED) else forward (req\<lparr>cmd := c\<lparr>memory_copy_length := len\<rparr>\<rparr>)
         }
         else forward req)"

text \<open>The number of blocks that the latency loop asks for.\<close>

definition latency_blocks :: "u64 \<Rightarrow> nat" where
  "latency_blocks len = (if len < 512 then 1 else unat len div 512 - 1)"

function latency_pieces ::
  "(nvmev_request \<Rightarrow> u64 \<times> u32) \<Rightarrow> slm_state \<Rightarrow> u64 \<Rightarrow> u64 \<Rightarrow> nat \<Rightarrow> nat \<Rightarrow> conv_ns \<Rightarrow> nvmev_result \<Rightarrow> u64 \<times> u64 \<Rightarrow> (conv_ns \<times> nvmev_result) option" where
  "latency_pieces prp w lba start offs rest ns ret best =
     (if rest = 0 then Some (ns, ret\<lparr>nsecs_target := fst best, nsecs_nand_start := snd best\<rparr>)
      else
        (let temp_len = min rest 0xFFFF;
             req = \<lparr>cmd = zero_command\<lparr>slba := lba + of_nat offs, rw_length := of_nat temp_len, opcode := nvme_cmd_read\<rparr>, sq_id = 0xFFFFFFFF, nsecs_start = start\<rparr>
         in do {
              (ns1, _, ret1, st) \<leftarrow> csd_proc_nvme_io_cmd prp w ns req ret;
              if st \<noteq> NVMEV_IO_STATUS_SUCCESS then Some (ns1, ret1\<lparr>nsecs_target := -1\<rparr>)
              else latency_pieces prp w lba start (offs + (temp_len + 1)) (rest - temp_len) ns1 ret1
                     (max (fst best) (nsecs_target ret1), max (snd best) (nsecs_nand_start ret1))
            }))"
  by pat_completeness auto
termination
  by (relation "measure (\<lambda>(p, w, a, t, o', r, ns, ret, b). r)") auto

declare latency_pieces.simps [simp del]

definition csd_get_target_latency :: "(nvmev_request \<Rightarrow> u64 \<times> u32) \<Rightarrow> slm_state \<Rightarrow> conv_ns \<Rightarrow> u64 \<Rightarrow> u64 \<Rightarrow> u64 \<Rightarrow> (conv_ns \<times> nvmev_result) option" where
  "csd_get_target_latency prp w ns lba len start =
     latency_pieces prp w lba start 0 (latency_blocks len) ns \<lparr>res_status = NVME_SC_SUCCESS, nsecs_nand_start = 0, nsecs_target = start\<rparr> (0, 0)"

text \<open>The other fields of the command are not initialised: \<open>junk\<close>.\<close>

definition csd_get_seq_lpn :: "(nvmev_request \<Rightarrow> u64 \<times> u32) \<Rightarrow> nvme_command \<Rightarrow> slm_state \<Rightarrow> conv_ns \<Rightarrow> u64 \<Rightarrow> u64 \<Rightarrow> (conv_ns \<times> u64) option" where
  "csd_get_seq_lpn prp junk w ns start_lba max_size =
     do {
       (ns', _, ret, _) \<leftarrow> csd_proc_nvme_io_cmd prp w ns
         \<lparr>cmd = junk\<lparr>slba := start_lba, rw_length := ucast (max_size div 512 - 1), opcode := nvme_test\<rparr>, sq_id = 0xFFFFFFFF, nsecs_start = 0\<rparr>
         \<lparr>res_status = NVME_SC_SUCCESS, nsecs_nand_start = 0, nsecs_target = 0\<rparr>;
       Some (ns', nsecs_target ret)
     }"


section \<open>The device behind it\<close>

text \<open>
  The namespace is again a device of logical pages, whatever the shared memory looks like when a command arrives:
  a command comes with the state of the shared memory at that moment.
\<close>

definition csd_exec ::
  "(nvmev_request \<Rightarrow> u64 \<times> u32) \<Rightarrow> slm_state \<times> nvmev_request \<times> nvmev_result \<Rightarrow> conv_ns \<Rightarrow> (conv_ns \<times> nvmev_io_status) option" where
  "csd_exec prp = (\<lambda>(w, req, ret) ns. map_option (\<lambda>(ns', _, _, st). (ns', st)) (csd_proc_nvme_io_cmd prp w ns req ret))"

text \<open>The request that reaches the conventional namespace: a copy is cut to the output that exists.\<close>

definition handed_on :: "slm_state \<Rightarrow> nvmev_request \<Rightarrow> nvmev_request" where
  "handed_on w req =
     (if opcode (cmd req) = nvme_cmd_namespace_copy
      then case check_output_slm_data_ready w (get_slm_addr w (sb (cmd req))) (memory_copy_length (cmd req)) of
             Some (len, True) \<Rightarrow> req\<lparr>cmd := (cmd req)\<lparr>memory_copy_length := len\<rparr>\<rparr>
           | _ \<Rightarrow> req
      else req)"

definition csd_accepted :: "(nvmev_request \<Rightarrow> u64 \<times> u32) \<Rightarrow> ssdparams \<Rightarrow> nat \<Rightarrow> nat \<Rightarrow> slm_state \<times> nvmev_request \<times> nvmev_result \<Rightarrow> bool" where
  "csd_accepted prp spp parts L = (\<lambda>(w, req, ret). cmd_accepted prp spp parts L (handed_on w req, ret))"

definition csd_pages :: "(nvmev_request \<Rightarrow> u64 \<times> u32) \<Rightarrow> ssdparams \<Rightarrow> slm_state \<times> nvmev_request \<times> nvmev_result \<Rightarrow> nat set list" where
  "csd_pages prp spp = (\<lambda>(w, req, ret). cmd_pages prp spp (handed_on w req, ret))"

text \<open>A command is answered without touching the namespace, or it is handed on; only transfers change in another way, and they write no page.\<close>

lemma csd_proc_cases:
  assumes "csd_proc_nvme_io_cmd prp w ns req ret = Some (ns', req', ret', st)"
  shows "(ns' = ns \<and> (st = NVMEV_IO_STATUS_SUCCESS \<longrightarrow> cmd_writes prp (handed_on w req, ret) = []))
     \<or> (conv_proc_nvme_io_cmd prp ns req' ret = Some (ns', ret', st) \<and> cmd_writes prp (req', ret) = cmd_writes prp (handed_on w req, ret))"
proof -
  let ?op = "opcode (cmd req)"
  consider (own) "?op \<in> {nvme_cmd_compound_execute_program, nvme_cmd_memory_management, nvme_cmd_memory_copy}"
    | (mem) "?op \<in> {nvme_cmd_memory_read, nvme_cmd_memory_write}" | (copy) "?op = nvme_cmd_namespace_copy"
    | (other) "?op \<notin> {nvme_cmd_compound_execute_program, nvme_cmd_memory_management, nvme_cmd_memory_copy, nvme_cmd_memory_read, nvme_cmd_memory_write, nvme_cmd_namespace_copy}" by blast
  then show ?thesis
  proof cases
    case own
    then have "cmd_writes prp (handed_on w req, ret) = []" by (auto simp: cmd_writes_def handed_on_def opcode_defs)
    then show ?thesis using assms own by (auto simp: csd_proc_nvme_io_cmd_def Let_def)
  next
    case mem
    then have n: "?op \<noteq> nvme_cmd_compound_execute_program" "?op \<noteq> nvme_cmd_memory_management" "?op \<noteq> nvme_cmd_memory_copy" "?op \<noteq> nvme_cmd_namespace_copy" "?op \<noteq> nvme_cmd_write"
      by (auto simp: opcode_defs)
    then have "handed_on w req = req" "cmd_writes prp (req, ret) = []" by (simp_all add: handed_on_def cmd_writes_def)
    then show ?thesis using assms mem n by (auto simp: csd_proc_nvme_io_cmd_def Let_def cmd_writes_def split: if_splits Option.bind_splits)
  next
    case copy
    then have n: "?op \<noteq> nvme_cmd_compound_execute_program" "?op \<noteq> nvme_cmd_memory_management" "?op \<noteq> nvme_cmd_memory_copy" "?op \<noteq> nvme_cmd_memory_read" "?op \<noteq> nvme_cmd_memory_write"
      by (auto simp: opcode_defs)
    show ?thesis using assms copy n by (auto simp: csd_proc_nvme_io_cmd_def Let_def handed_on_def split: if_splits Option.bind_splits bool.splits)
  next
    case other
    then show ?thesis using assms by (auto simp: csd_proc_nvme_io_cmd_def handed_on_def Let_def split: Option.bind_splits)
  qed
qed

lemma csd_exec_step:
  assumes inv: "dev_inv spp parts L ns" and acc: "csd_accepted prp spp parts L c" and e: "csd_exec prp c ns = Some (ns', st)"
  shows "dev_inv spp parts L ns' \<and> (\<exists>k. ranges_done (length (csd_pages prp spp c)) st k \<and> written ns' = written ns \<union> \<Union> (set (take k (csd_pages prp spp c))))"
proof -
  obtain w req ret where c: "c = (w, req, ret)" by (cases c)
  obtain req' ret' where p: "csd_proc_nvme_io_cmd prp w ns req ret = Some (ns', req', ret', st)" using e by (auto simp: csd_exec_def c)
  from csd_proc_cases [OF p] show ?thesis
  proof
    assume a: "ns' = ns \<and> (st = NVMEV_IO_STATUS_SUCCESS \<longrightarrow> cmd_writes prp (handed_on w req, ret) = [])"
    then have "ranges_done (length (csd_pages prp spp c)) st 0" by (cases st) (simp_all add: c csd_pages_def cmd_pages_def)
    then show ?thesis using inv a by (auto intro!: exI [of _ 0])
  next
    assume *: "conv_proc_nvme_io_cmd prp ns req' ret = Some (ns', ret', st) \<and> cmd_writes prp (req', ret) = cmd_writes prp (handed_on w req, ret)"
    then have "exec_cmd prp (req', ret) ns = Some (ns', st)" by (simp add: exec_cmd_def)
    then show ?thesis using exec_cmd_step [OF inv, of prp "(req', ret)" ns' st] acc *
      by (simp add: c csd_accepted_def csd_pages_def cmd_accepted_def cmd_pages_def)
  qed
qed

interpretation csd_dev: logical_device "dev_inv spp parts L" written "csd_exec prp" "csd_accepted prp spp parts L" "csd_pages prp spp"
  for spp parts L prp
  by unfold_locales (use csd_exec_step in blast)+

text \<open>
  C1. From initialisation on, after any sequence of commands to the computational namespace that is carried out (reads,
  writes, flushes, transfers to and from the shared memory, compute commands, and copies in both directions, whatever
  the shared memory looks like when each arrives), the logical pages that hold data are exactly those that the
  writes put there: a write or a copy to the namespace that succeeds has written all its ranges, one that fails or is
  deferred only the ranges before the one it stopped at (a plain write: none), and every other command nothing,
  whatever garbage was collected on the way; the invariant of the conventional namespace behind it holds. The written
  ranges end within the first \<open>L\<close> pages of a partition, which leaves four lines and a page of spare space, or beyond
  its last page.
\<close>

theorem csd_namespace_refines:
  assumes "ssd_init_params c (unat sz) parts = Some spp" and "params_ok spp" and "0 < parts" and "0 < secs_per_pg spp"
    and "L \<le> tt_pgs spp" and "L < (blks_per_pl spp - 4) * pgs_per_line spp"
    and "list_all (csd_accepted prp spp parts L) cs"
  shows "\<exists>ns0. conv_init_namespace c parts junk mem dj pj clk sz = Some ns0 \<and>
     (\<forall>ns sts. run_cmds (csd_exec prp) cs ns0 = Some (ns, sts) \<longrightarrow> spec_run (csd_pages prp spp) cs sts (written ns) \<and> dev_inv spp parts L ns)"
proof -
  obtain ns0 where ns0: "conv_init_namespace c parts junk mem dj pj clk sz = Some ns0" "dev_inv spp parts L ns0" "written ns0 = {}"
    using conv_init_namespace_ok [OF assms(1-6)] by blast
  then show ?thesis using csd_dev.run_refines [OF ns0(2) assms(7)] by auto
qed

theorem csd_namespace_refines_witness:
  "\<forall>junk mem dj pj clk prp w ret. \<exists>ns0 ns. conv_init_namespace samsung_970pro 4 junk mem dj pj clk (2 ^ 36) = Some ns0
     \<and> run_cmds (csd_exec prp) [(w, write0, ret)] ns0 = Some (ns, [NVMEV_IO_STATUS_SUCCESS]) \<and> written ns = {0}"
proof (intro allI)
  fix junk mem dj pj clk prp w ret
  let ?L = "3919909 :: nat"
  obtain ns0 ns where n: "conv_init_namespace samsung_970pro 4 junk mem dj pj clk (2 ^ 36) = Some ns0"
      "run_cmds (exec_cmd prp) [(write0, ret)] ns0 = Some (ns, [NVMEV_IO_STATUS_SUCCESS])" using write0_runs by blast
  have "csd_proc_nvme_io_cmd prp w ns0 write0 ret = map_option (\<lambda>(ns', ret', st). (ns', write0, ret', st)) (conv_proc_nvme_io_cmd prp ns0 write0 ret)"
    by (cases "conv_proc_nvme_io_cmd prp ns0 write0 ret") (auto simp: csd_proc_nvme_io_cmd_def write0_def zero_command_def opcode_defs)
  then have "csd_exec prp (w, write0, ret) ns0 = exec_cmd prp (write0, ret) ns0"
    by (cases "conv_proc_nvme_io_cmd prp ns0 write0 ret") (auto simp: csd_exec_def exec_cmd_def)
  then have r: "run_cmds (csd_exec prp) [(w, write0, ret)] ns0 = Some (ns, [NVMEV_IO_STATUS_SUCCESS])" using n(2) by simp
  have wr: "cmd_writes prp (handed_on w write0, ret) = [cmd write0]"
    by (simp add: cmd_writes_def handed_on_def write0_def zero_command_def nvme_cmd_write_def nvme_cmd_namespace_copy_def)
  have acc: "list_all (csd_accepted prp spp_64G 4 ?L) [(w, write0, ret)]"
    using write0_pages(2) by (simp add: csd_accepted_def cmd_accepted_def wr in_space_def)
  have "spec_run (csd_pages prp spp_64G) [(w, write0, ret)] [NVMEV_IO_STATUS_SUCCESS] (written ns)"
    using csd_namespace_refines [OF spp_64G(1,2) _ _ _ _ acc, of junk mem dj pj clk] n(1) r by (auto simp: spp_64G)
  then have "written ns = {0}" using write0_pages by (simp add: csd_pages_def cmd_pages_def wr write_pages_def)
  then show "\<exists>ns0 ns. conv_init_namespace samsung_970pro 4 junk mem dj pj clk (2 ^ 36) = Some ns0
     \<and> run_cmds (csd_exec prp) [(w, write0, ret)] ns0 = Some (ns, [NVMEV_IO_STATUS_SUCCESS]) \<and> written ns = {0}" using n(1) r by blast
qed

section \<open>Completion times of internal reads\<close>

text \<open>A read that the device makes goes straight to the conventional namespace.\<close>

lemma csd_proc_read:
  assumes "opcode (cmd req) = nvme_cmd_read"
  shows "csd_proc_nvme_io_cmd prp w ns req ret = map_option (\<lambda>(ns', ret', st). (ns', req, ret', st)) (conv_read ns req ret)"
  using assms by (cases "conv_read ns req ret") (auto simp: csd_proc_nvme_io_cmd_def conv_proc_nvme_io_cmd_def opcode_defs)

lemma latency_pieces_timing:
  assumes "latency_pieces prp w lba start offs r ns ret best = Some (ns', ret')"
  shows "ns_timing_only ns ns'"
  using assms
proof (induction prp w lba start offs r ns ret best rule: latency_pieces.induct)
  case (1 prp w lba start offs r ns ret best)
  show ?case
  proof (cases "r = 0")
    case True
    then show ?thesis using 1(2) by (simp add: latency_pieces.simps)
  next
    case False
    let ?len = "min r 0xFFFF"
    let ?req = "\<lparr>cmd = zero_command\<lparr>slba := lba + of_nat offs, rw_length := of_nat ?len, opcode := nvme_cmd_read\<rparr>, sq_id = 0xFFFFFFFF, nsecs_start = start\<rparr>"
    obtain ns1 ret1 st where one: "conv_read ns ?req ret = Some (ns1, ret1, st)"
      and rest: "(if st \<noteq> NVMEV_IO_STATUS_SUCCESS then Some (ns1, ret1\<lparr>nsecs_target := -1\<rparr>)
         else latency_pieces prp w lba start (offs + (?len + 1)) (r - ?len) ns1 ret1 (max (fst best) (nsecs_target ret1), max (snd best) (nsecs_nand_start ret1))) = Some (ns', ret')"
      using 1(2) False csd_proc_read [of ?req prp w ns ret]
      by (simp add: latency_pieces.simps [of prp w lba start offs r] Let_def split: Option.bind_splits prod.splits) blast
    have c: "csd_proc_nvme_io_cmd prp w ns ?req ret = Some (ns1, ?req, ret1, st)" using one csd_proc_read [of ?req prp w ns ret] by simp
    have t1: "ns_timing_only ns ns1" using one conv_read_timing by blast
    show ?thesis
    proof (cases "st = NVMEV_IO_STATUS_SUCCESS")
      case True
      then have "ns_timing_only ns1 ns'" using 1(1) [OF False refl refl c refl refl refl] rest by simp
      then show ?thesis using t1 ns_timing_only_trans by blast
    qed (use rest t1 in auto)
  qed
qed


definition load_request :: "u64 \<Rightarrow> u64 \<Rightarrow> u64 \<Rightarrow> nvmev_request" where
  "load_request lba len start =
     \<lparr>cmd = zero_command\<lparr>slba := lba, rw_length := of_nat (unat len div 512 - 1), opcode := nvme_cmd_read\<rparr>, sq_id = 0xFFFFFFFF, nsecs_start = start\<rparr>"

definition load_result :: "u64 \<Rightarrow> nvmev_result" where
  "load_result start = \<lparr>res_status = NVME_SC_SUCCESS, nsecs_nand_start = 0, nsecs_target = start\<rparr>"

text \<open>
  C23. The completion time of a load of \<open>len\<close> bytes, from 1 KiB to 32 MiB, is that of one read command for
  \<open>len / 512\<close> blocks at its address, or -1 when the conventional namespace refuses it; the namespace is left with
  the data and the invariants it had, only the timing state moves.
\<close>

theorem csd_latency_is_read:
  assumes "1024 \<le> unat len" and "unat len \<le> 2 ^ 25"
  shows "unat (nr_lba (cmd (load_request lba len start))) = unat len div 512
    \<and> csd_get_target_latency prp w ns lba len start
      = map_option (\<lambda>(ns', ret', st). (ns', if st = NVMEV_IO_STATUS_SUCCESS then ret' else ret'\<lparr>nsecs_target := -1\<rparr>)) (conv_read ns (load_request lba len start) (load_result start))
    \<and> (\<forall>ns' ret'. csd_get_target_latency prp w ns lba len start = Some (ns', ret') \<longrightarrow> ns_timing_only ns ns')"
proof -
  define b where "b = unat len div 512 - 1"
  let ?req = "load_request lba len start"
  have b: "0 < b" "b \<le> 65535" "unat len div 512 = b + 1" using assms(1,2) by (auto simp: b_def)
  have lb: "latency_blocks len = b" using assms(1) by (auto simp: latency_blocks_def b_def word_less_nat_alt)
  have u: "unat (of_nat b :: u16) = b" using b(2) by (simp add: unsigned_of_nat take_bit_nat_eq_self)
  have "unat (ucast (of_nat b :: u16) :: u64) = b" using u b(2) by (simp add: unsigned_ucast_eq take_bit_nat_eq_self)
  then have n: "unat (nr_lba (cmd ?req)) = unat len div 512"
    unfolding load_request_def nr_lba_def b_def [symmetric] b(3) using b(2) by (subst unat_add_lem [THEN iffD1]) simp_all
  have one: "min b 0xFFFF = b" using b(2) by simp
  have m: "r\<lparr>nsecs_target := max 0 (nsecs_target r), nsecs_nand_start := max 0 (nsecs_nand_start r)\<rparr> = r" for r :: nvmev_result by (simp add: max_def)
  have op: "opcode (cmd ?req) = nvme_cmd_read" by (simp add: load_request_def)
  have req: "\<lparr>cmd = zero_command\<lparr>slba := lba + of_nat 0, rw_length := of_nat b, opcode := nvme_cmd_read\<rparr>, sq_id = 0xFFFFFFFF, nsecs_start = start\<rparr> = ?req"
    by (simp add: load_request_def b_def)
  have "csd_get_target_latency prp w ns lba len start
      = map_option (\<lambda>(ns', ret', st). (ns', if st = NVMEV_IO_STATUS_SUCCESS then ret' else ret'\<lparr>nsecs_target := -1\<rparr>)) (conv_read ns ?req (load_result start))"
    unfolding csd_get_target_latency_def lb latency_pieces.simps [of prp w lba start 0 b] one Let_def req load_result_def [symmetric]
    using b(1) csd_proc_read [OF op, of prp w ns "load_result start"] m
    by (cases "conv_read ns ?req (load_result start)") (auto simp: latency_pieces.simps)
  moreover have "\<forall>ns' ret'. csd_get_target_latency prp w ns lba len start = Some (ns', ret') \<longrightarrow> ns_timing_only ns ns'"
    using latency_pieces_timing by (auto simp: csd_get_target_latency_def)
  ultimately show ?thesis using n by blast
qed

theorem csd_latency_is_read_witness:
  "\<forall>prp w ns. csd_get_target_latency prp w ns 8 4096 5000
     = map_option (\<lambda>(ns', ret', st). (ns', if st = NVMEV_IO_STATUS_SUCCESS then ret' else ret'\<lparr>nsecs_target := -1\<rparr>)) (conv_read ns (load_request 8 4096 5000) (load_result 5000))"
  using csd_latency_is_read [of 4096 8 5000] by simp

text \<open>
  C24. A load of a single block is never timed: the block count of the loop is one too low for its test, so for 512
  to 1023 bytes no read is made and the completion time is 0, which lies in the past.
\<close>

theorem csd_latency_one_block:
  assumes "512 \<le> unat len" and "unat len < 1024"
  shows "csd_get_target_latency prp w ns lba len start = Some (ns, \<lparr>res_status = NVME_SC_SUCCESS, nsecs_nand_start = 0, nsecs_target = 0\<rparr>)"
proof -
  have "unat len div 512 = 1" using assms by (intro div_nat_eqI) simp_all
  then have "latency_blocks len = 0" using assms(1) by (simp add: latency_blocks_def word_less_nat_alt)
  then show ?thesis by (simp add: csd_get_target_latency_def latency_pieces.simps)
qed

theorem csd_latency_one_block_witness:
  "\<forall>prp w ns. csd_get_target_latency prp w ns 8 512 5000 = Some (ns, \<lparr>res_status = NVME_SC_SUCCESS, nsecs_nand_start = 0, nsecs_target = 0\<rparr>)"
  using csd_latency_one_block [of 512 _ _ _ 8 5000] by simp


section \<open>Host reads of the output\<close>





end
