(* ===== verification/Csd_Io.thy ===== *)
theory Csd_Io
  imports Csd_Ftl
begin

unbundle bit_operations_syntax

text \<open>
  Loading data into the shared memory, \<open>csd_dispatcher.c\<close>: the table of internal I/O requests
  (\<open>io_req_table\<close>), the passes of the helper thread that issue requests for the load tasks
  (\<open>__request_io\<close>) and complete them (\<open>__reclaim_io_req\<close>), and the pass of a copy thread
  (\<open>slm_work\<close>). A pass runs to its end without interruption.

  The state of the dispatcher collects the shared memory (with the array of tasks), the task lists, the
  request table, the namespace behind it, the throttling counters and the list of postponed frees. The
  tasks are those of \<open>wslm\<close>; the copy in \<open>wtt\<close> is not used. The bytes that are copied are
  not represented.
\<close>

section \<open>Data\<close>

definition MAX_INTERNAL_IO_COUNT :: nat where "MAX_INTERNAL_IO_COUNT = 256"
definition IO_REQUEST_SIZE :: u64 where "IO_REQUEST_SIZE = 8 * 2 * (32 * 1024)"
definition IO_TOKEN_PER_TASK :: int where "IO_TOKEN_PER_TASK = 1"
definition GHOST_PAGE_SIZE :: u64 where "GHOST_PAGE_SIZE = 8 * 1024"

datatype CSD_INTERNAL_IO_REQ_STATUS = CSD_INTERNAL_IO_REQ_FREE | CSD_INTERNAL_IO_REQ_ALLOC | CSD_INTERNAL_IO_REQ_READY
  | CSD_INTERNAL_IO_REQ_WAITING_TIME | CSD_INTERNAL_IO_REQ_DONE | CSD_INTERNAL_IO_REQ_END

record csd_internal_io_req =
  r_nsecs_nand_start :: u64
  r_nsecs_target :: u64
  r_task_id :: u32
  io_req_status :: CSD_INTERNAL_IO_REQ_STATUS
  r_lba :: u64
  r_local_offset :: u64
  buf_addr :: u64
  r_length :: u64
  stream_offset :: u64
  last_io :: bool
  sequential_last_io :: bool
  demand_read :: bool
  r_next :: "nat option"
  r_prev :: "nat option"

record csd_io_req_table =
  io_free_list :: ccsd_list
  slm_list :: "nat \<Rightarrow> ccsd_list"
  slm_turn :: nat
  io_req :: "nat \<Rightarrow> csd_internal_io_req"
  enqueuing_io_size :: u64

definition MAX_DEFERRED_SLM_FREES :: nat where "MAX_DEFERRED_SLM_FREES = 16"

record deferred_slm_free =
  df_active :: bool
  df_input_buf :: u64
  df_load_task_ids :: "u32 list"

record csd_world =
  wslm :: slm_state
  wtt :: ccsd_task_table
  wio :: csd_io_req_table
  wns :: conv_ns
  wthr :: throttle
  wdef :: "nat \<Rightarrow> deferred_slm_free"

text \<open>Access to a task, to the task table, and to a request.\<close>

definition wtask :: "csd_world \<Rightarrow> nat \<Rightarrow> ccsd_task_info" where
  "wtask w k = slm_tasks (wslm w) k"

definition upd_task :: "csd_world \<Rightarrow> nat \<Rightarrow> (ccsd_task_info \<Rightarrow> ccsd_task_info) \<Rightarrow> csd_world" where
  "upd_task w k f = w\<lparr>wslm := (wslm w)\<lparr>slm_tasks := (slm_tasks (wslm w))(k := f (slm_tasks (wslm w) k))\<rparr>\<rparr>"

definition upd_req :: "csd_world \<Rightarrow> nat \<Rightarrow> (csd_internal_io_req \<Rightarrow> csd_internal_io_req) \<Rightarrow> csd_world" where
  "upd_req w r f = w\<lparr>wio := (wio w)\<lparr>io_req := (io_req (wio w))(r := f (io_req (wio w) r))\<rparr>\<rparr>"

definition put_slm :: "csd_world \<Rightarrow> slm_state \<Rightarrow> csd_world" where
  "put_slm w s = w\<lparr>wslm := s\<rparr>"

section \<open>Queues of requests\<close>

text \<open>The scan leaves at the first idle list, before it is recorded in \<open>min_index\<close>.\<close>

fun slm_scan :: "(nat \<Rightarrow> ccsd_list) \<Rightarrow> nat \<Rightarrow> nat \<Rightarrow> nat \<Rightarrow> int \<Rightarrow> nat \<Rightarrow> nat" where
  "slm_scan ls n 0 turn mn min_index = min_index"
| "slm_scan ls n (Suc k) turn mn min_index =
     (if running (ls turn) = 0 then min_index
      else if mn > running (ls turn) then slm_scan ls n k ((turn + 1) mod n) (running (ls turn)) turn
      else slm_scan ls n k ((turn + 1) mod n) mn min_index)"

definition enqueue_slm_work :: "nat \<Rightarrow> csd_io_req_table \<Rightarrow> nat \<Rightarrow> csd_io_req_table option" where
  "enqueue_slm_work n t io_req_id =
     (let min_index = slm_scan (slm_list t) n n (slm_turn t) 0xFFFF (slm_turn t);
          l = slm_list t min_index
      in do {
           (R, l1) \<leftarrow>
             (case lhead l of
                None \<Rightarrow> Some (io_req t, l\<lparr>lhead := Some io_req_id\<rparr>)
              | Some _ \<Rightarrow>
                  (case ltail l of
                     None \<Rightarrow> None
                   | Some ltl \<Rightarrow>
                       (let R1 = (io_req t)(io_req_id := (io_req t io_req_id)\<lparr>r_prev := Some ltl\<rparr>)
                        in Some (R1(ltl := (R1 ltl)\<lparr>r_next := Some io_req_id\<rparr>), l))));
           if n = 0 then None
           else Some (t\<lparr>io_req := R, slm_turn := (slm_turn t + 1) mod n,
             slm_list := (slm_list t)(min_index := l1\<lparr>ltail := Some io_req_id, running := running l1 + 1\<rparr>)\<rparr>)
         })"

definition enqueue_io_req_free_list :: "csd_io_req_table \<Rightarrow> nat \<Rightarrow> nat \<Rightarrow> csd_io_req_table option" where
  "enqueue_io_req_free_list t start endi =
     (let R0 = io_req t;
          R1 = (case r_next (R0 endi) of None \<Rightarrow> R0 | Some x \<Rightarrow> R0(x := (R0 x)\<lparr>r_prev := None\<rparr>));
          R2 = R1(endi := (R1 endi)\<lparr>r_next := None\<rparr>);
          fl = io_free_list t
      in case lhead fl of
           None \<Rightarrow> Some (t\<lparr>io_req := R2(start := (R2 start)\<lparr>r_prev := None\<rparr>), io_free_list := fl\<lparr>lhead := Some start, ltail := Some endi\<rparr>\<rparr>)
         | Some _ \<Rightarrow>
             (case ltail fl of
                None \<Rightarrow> None
              | Some ltl \<Rightarrow>
                  (let R3 = R2(start := (R2 start)\<lparr>r_prev := Some ltl\<rparr>)
                   in Some (t\<lparr>io_req := R3(ltl := (R3 ltl)\<lparr>r_next := Some start\<rparr>), io_free_list := fl\<lparr>ltail := Some endi\<rparr>\<rparr>))))"

definition get_used_io_req_count :: "csd_io_req_table \<Rightarrow> nat" where
  "get_used_io_req_count t = length (filter (\<lambda>i. io_req_status (io_req t i) \<noteq> CSD_INTERNAL_IO_REQ_FREE) [0..<MAX_INTERNAL_IO_COUNT])"

section \<open>The copy thread\<close>

text \<open>The page under a request: outside the map is an access out of bounds.\<close>

definition page_under :: "slm_state \<Rightarrow> u64 \<Rightarrow> nat option option" where
  "page_under s addr = (if page_of s addr < page_count s then Some (page_info s (page_of s addr)) else None)"

definition slm_copy_req :: "csd_world \<Rightarrow> nat \<Rightarrow> csd_world option" where
  "slm_copy_req w r =
     (let io = io_req (wio w) r
      in if io_req_status io \<noteq> CSD_INTERNAL_IO_REQ_READY then Some w
         else do {
           pinfo \<leftarrow> page_under (wslm w) (buf_addr io);
           Some (if pinfo = None \<or> pinfo \<noteq> task_slm_lba_info (wtask w (TASK_POOL_INDEX (r_task_id io)))
                 then upd_req w r (\<lambda>io. io\<lparr>io_req_status := CSD_INTERNAL_IO_REQ_DONE\<rparr>)
                 else upd_req w r (\<lambda>io. io\<lparr>io_req_status := CSD_INTERNAL_IO_REQ_WAITING_TIME\<rparr>))
         })"

partial_function (option) slm_work_from :: "csd_world \<Rightarrow> nat option \<Rightarrow> csd_world option" where
  "slm_work_from w io_req_id =
     (case io_req_id of
        None \<Rightarrow> Some w
      | Some r \<Rightarrow> do { w1 \<leftarrow> slm_copy_req w r; slm_work_from w1 (r_next (io_req (wio w1) r)) })"

text \<open>One pass over the list \<open>turn\<close>.\<close>

definition slm_work :: "csd_world \<Rightarrow> nat \<Rightarrow> csd_world option" where
  "slm_work w turn = slm_work_from w (lhead (slm_list (wio w) turn))"

section \<open>Completing requests\<close>

text \<open>The owner of a completed request has lost the memory it was reading into.\<close>

definition is_orphan_io :: "nat option \<Rightarrow> csd_internal_io_req \<Rightarrow> ccsd_task_info \<Rightarrow> bool" where
  "is_orphan_io pinfo io tk \<longleftrightarrow>
     pinfo \<noteq> task_slm_lba_info tk \<or> pinfo = None \<or> \<not> TASK_GEN_VALID (r_task_id io) tk"

definition ghost_notify :: "slm_state \<Rightarrow> csd_internal_io_req \<Rightarrow> u64 \<Rightarrow> slm_state option" where
  "ghost_notify s io input_buf =
     (let physical_offset = buf_addr io - input_buf
      in if physical_offset < GHOST_PAGE_SIZE
         then notify_slm_data_ready s (input_buf + ucast MAGIC_BUFFER_SIZE + physical_offset)
                (min (GHOST_PAGE_SIZE - physical_offset) (r_length io))
         else Some s)"

text \<open>Publishing the range of a request in the descriptor \<open>q\<close> of its task.\<close>

definition publish_io :: "slm_state \<Rightarrow> nat \<Rightarrow> csd_internal_io_req \<Rightarrow> u64 \<Rightarrow> slm_state option" where
  "publish_io s q io input_buf =
     do {
       i \<leftarrow> infos s q;
       s1 \<leftarrow>
         (if is_circular i \<and> use_head_tail i
          then map_option (put s q) (notify_circular_load_ready i (stream_offset io) (r_length io))
          else if sequential_last_io io then notify_misaligned_slm_data_ready s (buf_addr io) (r_length io)
          else notify_slm_data_ready s (buf_addr io) (r_length io));
       s2 \<leftarrow> (if is_circular i \<and> \<not> use_head_tail i then ghost_notify s1 io input_buf else Some s1);
       if demand_read io \<and> last_io io then complete_slm_demand_read s2 (buf_addr io) else Some s2
     }"

text \<open>A stream load is complete when as many bytes as the stream has have arrived.\<close>

definition mark_load_complete :: "slm_state \<Rightarrow> nat \<Rightarrow> u64 \<Rightarrow> slm_state option" where
  "mark_load_complete s q done_offset =
     do {
       i \<leftarrow> infos s q;
       Some (if is_circular i \<and> done_offset \<ge> logical_total_size i then put s q (i\<lparr>load_complete := True\<rparr>) else s)
     }"

definition complete_io :: "csd_world \<Rightarrow> nat \<Rightarrow> csd_world option" where
  "complete_io w r =
     (let io = io_req (wio w) r; k = TASK_POOL_INDEX (r_task_id io)
      in do {
           pinfo \<leftarrow> page_under (wslm w) (buf_addr io);
           if is_orphan_io pinfo io (wtask w k) then Some w
           else (case pinfo of
             None \<Rightarrow> None
           | Some q \<Rightarrow>
               do {
                 let w1 = (if demand_read io \<and> last_io io \<and> task_step (wtask w k) = CCSD_TASK_SCHEDULE
                           then upd_task w k (\<lambda>t. t\<lparr>task_step := CCSD_TASK_WAIT\<rparr>) else w);
                 s1 \<leftarrow> publish_io (wslm w1) q io (input_buf_addr (wtask w k));
                 let w2 = put_slm w1 s1;
                 w3 \<leftarrow> (if demand_read io then Some w2
                   else do {
                     let w' = upd_task w2 k (\<lambda>t. t\<lparr>done_io_offset := done_io_offset t + r_length io\<rparr>);
                     s2 \<leftarrow> mark_load_complete (wslm w') q (done_io_offset (wtask w' k));
                     Some (put_slm w' s2)
                   });
                 if done_io_offset (wtask w3 k) > requested_io_offset (wtask w3 k) then None
                 else Some (upd_task w3 k (\<lambda>t. t\<lparr>internal_io_count := internal_io_count t - 1\<rparr>))
               })
         })"

text \<open>A request whose time has come is done, and its task has seen its first data.\<close>

definition expire_req :: "u64 \<Rightarrow> csd_world \<Rightarrow> nat \<Rightarrow> csd_world" where
  "expire_req now w r =
     (let io = io_req (wio w) r
      in if io_req_status io = CSD_INTERNAL_IO_REQ_WAITING_TIME \<and> now \<ge> r_nsecs_target io
         then upd_task (upd_req w r (\<lambda>io. io\<lparr>io_req_status := CSD_INTERNAL_IO_REQ_DONE\<rparr>)) (TASK_POOL_INDEX (r_task_id io))
                (\<lambda>t. t\<lparr>is_first_io := False\<rparr>)
         else w)"

definition release_req :: "csd_world \<Rightarrow> nat \<Rightarrow> nat \<Rightarrow> csd_world" where
  "release_req w turn r =
     (let w1 = upd_req w r (\<lambda>io. io\<lparr>io_req_status := CSD_INTERNAL_IO_REQ_FREE\<rparr>); t = wio w1; l = slm_list t turn
      in w1\<lparr>wio := t\<lparr>slm_list := (slm_list t)(turn := l\<lparr>running := running l - 1\<rparr>),
                      enqueuing_io_size := enqueuing_io_size t - r_length (io_req t r)\<rparr>,
            wthr := notify_internal_cmd (wthr w1)\<rparr>)"

text \<open>Walks one list from \<open>cur\<close>; the result has the last request that was released.\<close>

partial_function (option) reclaim_from :: "u64 \<Rightarrow> nat \<Rightarrow> csd_world \<Rightarrow> nat option \<Rightarrow> nat option \<Rightarrow> (csd_world \<times> nat option) option" where
  "reclaim_from now turn w cur last_entry =
     (case cur of
        None \<Rightarrow> Some (w, last_entry)
      | Some r \<Rightarrow>
          (let w1 = expire_req now w r
           in if io_req_status (io_req (wio w1) r) = CSD_INTERNAL_IO_REQ_DONE
              then do {
                w2 \<leftarrow> complete_io w1 r;
                let nxt = r_next (io_req (wio w2) r);
                reclaim_from now turn (release_req w2 turn r) nxt (Some r)
              }
              else Some (w1, last_entry)))"

text \<open>The released requests, the first part of the list, go to the free list.\<close>

definition cut_list :: "csd_io_req_table \<Rightarrow> nat \<Rightarrow> nat \<Rightarrow> nat \<Rightarrow> csd_io_req_table option" where
  "cut_list t turn first_entry last_entry =
     (let R = io_req t; nxt = r_next (R last_entry);
          R1 = (case nxt of None \<Rightarrow> R | Some x \<Rightarrow> R(x := (R x)\<lparr>r_prev := None\<rparr>));
          R2 = R1(last_entry := (R1 last_entry)\<lparr>r_next := None\<rparr>)
      in enqueue_io_req_free_list
           (t\<lparr>io_req := R2, slm_list := (slm_list t)(turn := (slm_list t turn)\<lparr>lhead := nxt\<rparr>)\<rparr>) first_entry last_entry)"

definition reclaim_list :: "u64 \<Rightarrow> csd_world \<Rightarrow> nat \<Rightarrow> csd_world option" where
  "reclaim_list now w turn =
     (let first_entry = lhead (slm_list (wio w) turn)
      in do {
           (w1, last_entry) \<leftarrow> reclaim_from now turn w first_entry None;
           (case (first_entry, last_entry) of
              (Some f, Some e) \<Rightarrow> map_option (\<lambda>t. w1\<lparr>wio := t\<rparr>) (cut_list (wio w1) turn f e)
            | _ \<Rightarrow> Some w1)
         })"

fun reclaim_lists :: "u64 \<Rightarrow> csd_world \<Rightarrow> nat \<Rightarrow> nat \<Rightarrow> csd_world option" where
  "reclaim_lists now w turn 0 = Some w"
| "reclaim_lists now w turn (Suc n) = do { w1 \<leftarrow> reclaim_list now w turn; reclaim_lists now w1 (Suc turn) n }"

partial_function (option) finish_loads_from :: "csd_world \<Rightarrow> nat option \<Rightarrow> csd_world option" where
  "finish_loads_from w cur =
     (case cur of
        None \<Rightarrow> Some w
      | Some k \<Rightarrow>
          (let t = wtask w k;
               w1 = (if task_step t = CCSD_TASK_SCHEDULE \<and> done_io_offset t \<ge> total_size t
                     then upd_task w k (\<lambda>t. t\<lparr>task_step := CCSD_TASK_END\<rparr>) else w)
           in finish_loads_from w1 (t_next (wtask w1 k))))"

definition copy_list_head :: "csd_world \<Rightarrow> nat option" where
  "copy_list_head w = lhead (comp_list (wtt w) (copy_to_slm_list_id (wtt w)))"

definition reclaim_io_req :: "u64 \<Rightarrow> csd_world \<Rightarrow> csd_world option" where
  "reclaim_io_req now w =
     do {
       w1 \<leftarrow> reclaim_lists now w 0 (num_slm_resources (wtt w));
       finish_loads_from w1 (copy_list_head w1)
     }"

section \<open>Issuing requests\<close>

text \<open>Whether the load is not more than one request ahead of the computation.\<close>

definition compute_caught_up :: "csd_world \<Rightarrow> ccsd_task_info \<Rightarrow> slm_lba_info \<Rightarrow> bool option" where
  "compute_caught_up w t i =
     (let request_threshold = IO_REQUEST_SIZE div page_size
      in if is_circular i
         then (let io_page = requested_io_offset t div page_size;
                   compute_page = (if use_head_tail i then ht_tail i div page_size else compute_logical_offset i div page_size)
               in Some (io_page \<le> compute_page + request_threshold + 1))
         else do {
           let current_slm_page = get_slm_offset (wslm w) (input_buf_addr t + requested_io_offset t) div page_size;
           latest_slm_page \<leftarrow> get_latest_compute_ready (wslm w) (input_buf_addr t);
           Some (latest_slm_page + request_threshold \<ge> current_slm_page)
         })"

definition io_rounds :: "csd_world \<Rightarrow> ccsd_task_info \<Rightarrow> slm_lba_info \<Rightarrow> nat option" where
  "io_rounds w t i =
     (if requested_io_offset t = 0 then Some (nat (io_quota t))
      else do {
        caught_up \<leftarrow> compute_caught_up w t i;
        Some (if caught_up \<and> stream_access i then 1 else if random_access i then 1 else 0)
      })"

definition sres :: "slm_lba_info \<Rightarrow> source_range_entry list" where
  "sres i = (case info_sre i of None \<Rightarrow> [] | Some s \<Rightarrow> take (info_nentry i) s)"

text \<open>The descriptor of a task; a dangling pointer is an access to freed memory.\<close>

definition task_info :: "csd_world \<Rightarrow> nat \<Rightarrow> (nat \<times> slm_lba_info) option" where
  "task_info w k =
     do { q \<leftarrow> task_slm_lba_info (wtask w k); i \<leftarrow> infos (wslm w) q; Some (q, i) }"

text \<open>Where the data goes: a demanded range into its extent, otherwise to its place in the buffer or ring.\<close>

definition io_target :: "slm_lba_info \<Rightarrow> u64 \<Rightarrow> u64 \<Rightarrow> u64 \<Rightarrow> u64 \<Rightarrow> u64" where
  "io_target i input_buf demand_offset issued io_offset =
     (if demand_offset \<noteq> -1 \<and> extent_mapped i then demand_read_slm_target i + issued
      else calculate_circular_buf_addr (Some i) input_buf io_offset)"

text \<open>Taking the request \<open>r\<close> off the free list.\<close>

definition take_io_req :: "csd_io_req_table \<Rightarrow> nat \<Rightarrow> csd_io_req_table option" where
  "take_io_req t r =
     (if io_req_status (io_req t r) \<noteq> CSD_INTERNAL_IO_REQ_FREE then None
      else
        (let R = (io_req t)(r := (io_req t r)\<lparr>io_req_status := CSD_INTERNAL_IO_REQ_ALLOC\<rparr>); nxt = r_next (R r)
         in Some (t\<lparr>io_free_list := (io_free_list t)\<lparr>lhead := nxt\<rparr>,
                    io_req := (case nxt of None \<Rightarrow> R | Some x \<Rightarrow> R(x := (R x)\<lparr>r_prev := None\<rparr>))\<rparr>)))"

text \<open>
  One request is taken, filled in and accounted for. The first request of a demand tells the descriptor that the demand
  has been picked up; \<open>demand\<close> is -1 for a sequential read.
\<close>

definition fill_req ::
  "csd_world \<Rightarrow> nat \<Rightarrow> nat \<Rightarrow> slm_lba_info \<Rightarrow> u64 \<Rightarrow> u64 \<Rightarrow> u64 \<Rightarrow> u64 \<Rightarrow> u64 \<Rightarrow> nvmev_result \<Rightarrow> csd_world option" where
  "fill_req w k r i lba io_offset sz demand issued ret =
     do {
       t1 \<leftarrow> take_io_req (wio w) r;
       let tk = wtask w k;
       let t2 = t1\<lparr>io_req := (io_req t1)(r := (io_req t1 r)\<lparr>r_task_id := generation_id tk,
              buf_addr := io_target i (input_buf_addr tk) demand issued io_offset,
              r_local_offset := calculate_local_offset (sres i) io_offset, r_lba := lba, r_length := sz,
              stream_offset := io_offset, r_prev := None, r_next := None, r_nsecs_nand_start := nsecs_nand_start ret,
              r_nsecs_target := nsecs_target ret, demand_read := (demand \<noteq> -1)\<rparr>),
            enqueuing_io_size := enqueuing_io_size t1 + sz\<rparr>;
       let w2 = upd_task (w\<lparr>wio := t2\<rparr>) k (\<lambda>t. t\<lparr>internal_io_count := internal_io_count t + 1\<rparr>);
       if demand \<noteq> -1
       then if issued = 0
            then map_option (put_slm w2)
                   (notify_slm_demand_read_requested (wslm w2) (if extent_mapped i then input_buf_addr tk else input_buf_addr tk + demand))
            else Some w2
       else Some (upd_task w2 k (\<lambda>t. t\<lparr>requested_io_offset := requested_io_offset t + sz\<rparr>))
     }"

text \<open>The flags of the request and its place in a queue.\<close>

definition queue_req :: "csd_world \<Rightarrow> nat \<Rightarrow> nat \<Rightarrow> slm_lba_info \<Rightarrow> u64 \<Rightarrow> u64 \<Rightarrow> u64 \<Rightarrow> u64 \<Rightarrow> csd_world option" where
  "queue_req w k r i io_offset sz issued target =
     do {
       let logical_total = (if is_circular i then logical_total_size i else total_size (wtask w k));
       l \<leftarrow> (if issued \<ge> target then Some True
              else map_option (\<lambda>n. n = 0) (calculate_io_size (sres i) (io_offset + sz) (target - issued)));
       let w1 = upd_req w r (\<lambda>io. io\<lparr>sequential_last_io := (requested_io_offset (wtask w k) + sz \<ge> logical_total), last_io := l\<rparr>);
       t1 \<leftarrow> enqueue_slm_work (num_slm_resources (wtt w1)) (wio w1) r;
       Some (upd_req (w1\<lparr>wio := t1\<rparr>) r (\<lambda>io. io\<lparr>io_req_status := CSD_INTERNAL_IO_REQ_READY\<rparr>))
     }"

partial_function (option) issue_from ::
  "(nvmev_request \<Rightarrow> u64 \<times> u32) \<Rightarrow> u64 \<Rightarrow> nat \<Rightarrow> u64 \<Rightarrow> u64 \<Rightarrow> csd_world \<Rightarrow> nat \<Rightarrow> u64 \<Rightarrow> u64 \<Rightarrow> u64 \<Rightarrow> csd_world option" where
  "issue_from prp now k demand target w r io_offset io_size issued =
     do {
       (q, i) \<leftarrow> task_info w k;
       lba \<leftarrow> calculate_lba (sres i) io_offset;
       sz0 \<leftarrow> calculate_io_size (sres i) io_offset io_size;
       let sz = calculate_circular_io_size (Some i) io_offset sz0;
       if sz = 0 then Some w
       else do {
         (ns, ret) \<leftarrow> csd_get_target_latency prp (wslm w) (wns w) lba sz now;
         let w0 = w\<lparr>wns := ns\<rparr>;
         if nsecs_target ret = -1 then Some w0
         else do {
           w1 \<leftarrow> fill_req w0 k r i lba io_offset sz demand issued ret;
           let issued' = issued + sz;
           w2 \<leftarrow> queue_req w1 k r i io_offset sz issued' target;
           if issued' < target
           then (case lhead (io_free_list (wio w2)) of
                   None \<Rightarrow> Some w2
                 | Some r' \<Rightarrow> issue_from prp now k demand target w2 r' (io_offset + sz) (target - issued') issued')
           else Some w2
         }
       }
     }"

text \<open>One round of the quota; the flag of the result says that the rounds go on.\<close>

definition request_round :: "(nvmev_request \<Rightarrow> u64 \<times> u32) \<Rightarrow> u64 \<Rightarrow> nat \<Rightarrow> csd_world \<Rightarrow> (csd_world \<times> bool) option" where
  "request_round prp now k w =
     do {
       let t = wtask w k;
       demand \<leftarrow> slm_get_demand_read_offset (wslm w) (input_buf_addr t);
       let remain = (if total_size t < requested_io_offset t then 0 else total_size t - requested_io_offset t);
       if remain = 0 \<and> demand = -1 then Some (upd_task w k (\<lambda>t. t\<lparr>io_quota := 0\<rparr>), False)
       else (case lhead (io_free_list (wio w)) of
         None \<Rightarrow> Some (w, False)
       | Some r \<Rightarrow>
           do {
             let size0 = (if requested_io_offset t = 0 then page_size else IO_REQUEST_SIZE);
             let size1 = max (min size0 remain) MIN_IO_REQUEST_SIZE;
             (q, i) \<leftarrow> task_info w k;
             if demand = -1 \<and> random_access i then Some (w, False)
             else do {
               let io_offset = (if demand \<noteq> -1 then demand else requested_io_offset t);
               let io_size = (if demand \<noteq> -1 then demand_read_size i else size1);
               let target = (if demand = -1 \<and> io_size > remain then remain else io_size);
               w1 \<leftarrow> issue_from prp now k demand target w r io_offset io_size 0;
               Some (upd_task w1 k (\<lambda>t. t\<lparr>io_quota := io_quota t - 1\<rparr>), True)
             }
           })
     }"

fun request_rounds :: "(nvmev_request \<Rightarrow> u64 \<times> u32) \<Rightarrow> u64 \<Rightarrow> nat \<Rightarrow> nat \<Rightarrow> csd_world \<Rightarrow> csd_world option" where
  "request_rounds prp now k 0 w = Some w"
| "request_rounds prp now k (Suc n) w =
     do { (w1, go) \<leftarrow> request_round prp now k w; if go then request_rounds prp now k n w1 else Some w1 }"

text \<open>One load task; the flag is \<open>token_expired\<close>.\<close>

definition request_task :: "(nvmev_request \<Rightarrow> u64 \<times> u32) \<Rightarrow> u64 \<Rightarrow> csd_world \<Rightarrow> bool \<Rightarrow> nat \<Rightarrow> (csd_world \<times> bool) option" where
  "request_task prp now w expired k =
     (let no_quota = upd_task w k (\<lambda>t. t\<lparr>io_quota := 0\<rparr>)
      in if task_step (wtask w k) \<noteq> CCSD_TASK_SCHEDULE then Some (w, expired)
         else (case task_slm_lba_info (wtask w k) of
           None \<Rightarrow> Some (no_quota, expired)
         | Some q \<Rightarrow>
             do {
               i \<leftarrow> infos (wslm w) q;
               pinfo \<leftarrow> page_under (wslm w) (input_buf_addr (wtask w k));
               if pinfo \<noteq> Some q then Some (no_quota, expired)
               else do {
                 let w1 = (if random_access i then upd_task w k (\<lambda>t. t\<lparr>io_quota := 1\<rparr>) else w);
                 if io_quota (wtask w1 k) > 0
                 then do {
                   rounds \<leftarrow> io_rounds w1 (wtask w1 k) i;
                   w2 \<leftarrow> request_rounds prp now k rounds w1;
                   Some (w2, expired \<and> rounds = 0)
                 }
                 else Some (w1, expired)
               }
             }))"

partial_function (option) request_from ::
  "(nvmev_request \<Rightarrow> u64 \<times> u32) \<Rightarrow> u64 \<Rightarrow> csd_world \<Rightarrow> bool \<Rightarrow> nat option \<Rightarrow> (csd_world \<times> bool) option" where
  "request_from prp now w expired cur =
     (case cur of
        None \<Rightarrow> Some (w, expired)
      | Some k \<Rightarrow> do { (w1, expired1) \<leftarrow> request_task prp now w expired k; request_from prp now w1 expired1 (t_next (wtask w1 k)) })"

partial_function (option) refill_from :: "csd_world \<Rightarrow> nat option \<Rightarrow> csd_world option" where
  "refill_from w cur =
     (case cur of
        None \<Rightarrow> Some w
      | Some k \<Rightarrow>
          (let t = wtask w k;
               w1 = (if task_step t = CCSD_TASK_SCHEDULE \<and> total_size t - requested_io_offset t > 0 \<and> \<not> is_first_io t
                     then upd_task w k (\<lambda>t. t\<lparr>io_quota := IO_TOKEN_PER_TASK\<rparr>) else w)
           in refill_from w1 (t_next (wtask w1 k))))"

definition request_io :: "(nvmev_request \<Rightarrow> u64 \<times> u32) \<Rightarrow> u64 \<Rightarrow> csd_world \<Rightarrow> csd_world option" where
  "request_io prp now w =
     do {
       (w1, expired) \<leftarrow> request_from prp now w True (copy_list_head w);
       if expired then refill_from w1 (copy_list_head w1) else Some w1
     }"

end
