(* ===== verification/Csd_Io_Inv.thy ===== *)
theory Csd_Io_Inv
  imports Csd_Io
begin

unbundle bit_operations_syntax

text \<open>
  The passes of the helper and copy threads keep two invariants. \<open>io_ok\<close>: every request of the table
  is in exactly one of the free list and the copy queues, its status fits the place, and
  \<open>enqueuing_io_size\<close> is the sum of the lengths in use. \<open>loads_ok\<close>: what a load task has received
  and what its sequential requests have in flight never exceeds what it has requested. They change neither the
  links nor the identity of a task (\<open>helper_keeps\<close>).
\<close>

section \<open>Every request is in exactly one queue\<close>

fun linked :: "(nat \<Rightarrow> csd_internal_io_req) \<Rightarrow> nat option \<Rightarrow> nat list \<Rightarrow> bool" where
  "linked R h [] \<longleftrightarrow> h = None"
| "linked R h (x # xs) \<longleftrightarrow> h = Some x \<and> linked R (r_next (R x)) xs"

definition queue_rep :: "(nat \<Rightarrow> csd_internal_io_req) \<Rightarrow> ccsd_list \<Rightarrow> nat list \<Rightarrow> bool" where
  "queue_rep R l xs \<longleftrightarrow> linked R (lhead l) xs \<and> (xs \<noteq> [] \<longrightarrow> ltail l = Some (last xs))"

lemma linked_cong: "(\<And>x. x \<in> set xs \<Longrightarrow> r_next (R' x) = r_next (R x)) \<Longrightarrow> linked R' h xs = linked R h xs"
  by (induction xs arbitrary: h) auto

lemma linked_append:
  "linked R h (xs @ ys) \<longleftrightarrow> (if xs = [] then linked R h ys else linked (R(last xs := (R (last xs))\<lparr>r_next := None\<rparr>)) h xs \<and> linked R (r_next (R (last xs))) ys)"
  if "distinct (xs @ ys)"
  using that
proof (induction xs arbitrary: h)
  case (Cons x xs)
  show ?case
  proof (cases "xs = []")
    case False
    then have "x \<noteq> last xs" using Cons.prems last_in_set [OF False] by auto
    then show ?thesis using Cons False by auto
  qed (use Cons.prems in auto)
qed simp

lemma queue_rep_cong:
  "(\<And>x. x \<in> set xs \<Longrightarrow> r_next (R' x) = r_next (R x)) \<Longrightarrow> queue_rep R' l xs = queue_rep R l xs"
  using linked_cong [of xs R' R] by (simp add: queue_rep_def)

text \<open>Linking a non-empty chain behind a queue.\<close>

lemma queue_rep_append:
  assumes q: "queue_rep R l xs" and ys: "linked R (Some y) ys" "ys \<noteq> []" and dist: "distinct (xs @ ys)"
    and l': "lhead l' = (if lhead l = None then Some y else lhead l)" "ltail l' = Some (last ys)"
    and R': "\<And>x. x \<in> set (xs @ ys) \<Longrightarrow> r_next (R' x) = (if xs \<noteq> [] \<and> x = last xs then Some y else r_next (R x))"
  shows "queue_rep R' l' (xs @ ys)"
proof (cases "xs = []")
  case True
  then have "lhead l = None" using q by (simp add: queue_rep_def)
  then show ?thesis using True ys l' linked_cong [of ys R' R] R' by (simp add: queue_rep_def)
next
  case False
  have h: "lhead l \<noteq> None" using q False by (cases xs) (auto simp: queue_rep_def)
  have *: "linked R'' h xs \<Longrightarrow> linked R' h (xs @ ys)"
    if "\<And>x. x \<in> set xs \<Longrightarrow> x \<noteq> last xs \<Longrightarrow> r_next (R' x) = r_next (R'' x)" "r_next (R' (last xs)) = Some y" "linked R' (Some y) ys" "xs \<noteq> []" "distinct xs" for R'' h xs
    using that
  proof (induction xs arbitrary: h)
    case (Cons x xs)
    show ?case
    proof (cases "xs = []")
      case False
      then have "x \<noteq> last xs" using Cons.prems(6) last_in_set [OF False] by auto
      then show ?thesis using Cons False by auto
    qed (use Cons.prems in auto)
  qed simp
  have "last xs \<in> set xs" using False by simp
  moreover have "r_next (R' x) = r_next (R x)" if "x \<in> set ys" for x
    using R' [of x] that dist \<open>last xs \<in> set xs\<close> by (auto simp: disjoint_iff)
  then have "linked R' (Some y) ys" using ys(1) linked_cong [of ys R' R] by blast
  ultimately have "linked R' (lhead l) (xs @ ys)" using * [of xs R "lhead l"] R' q False dist by (simp add: queue_rep_def)
  then show ?thesis using l' h ys(2) by (simp add: queue_rep_def)
qed


definition queued :: "nat \<Rightarrow> (nat \<Rightarrow> nat list) \<Rightarrow> nat list" where
  "queued n S = concat (map S [0..<n])"

text \<open>
  \<open>F\<close> is the free list, \<open>X\<close> the requests being filled in, \<open>S q\<close> the queue \<open>q\<close> of \<open>n\<close>.
\<close>

definition io_inv :: "nat \<Rightarrow> csd_io_req_table \<Rightarrow> nat list \<Rightarrow> nat list \<Rightarrow> (nat \<Rightarrow> nat list) \<Rightarrow> bool" where
  "io_inv n t F X S \<longleftrightarrow>
     queue_rep (io_req t) (io_free_list t) F
   \<and> (\<forall>q<n. queue_rep (io_req t) (slm_list t q) (S q) \<and> running (slm_list t q) = int (length (S q)))
   \<and> distinct (F @ X @ queued n S) \<and> set (F @ X @ queued n S) = {..<MAX_INTERNAL_IO_COUNT}
   \<and> (\<forall>x\<in>set F. io_req_status (io_req t x) = CSD_INTERNAL_IO_REQ_FREE)
   \<and> (\<forall>x\<in>set X. io_req_status (io_req t x) = CSD_INTERNAL_IO_REQ_ALLOC)
   \<and> (\<forall>x\<in>set (queued n S). io_req_status (io_req t x) \<in> {CSD_INTERNAL_IO_REQ_READY, CSD_INTERNAL_IO_REQ_WAITING_TIME, CSD_INTERNAL_IO_REQ_DONE})
   \<and> slm_turn t < n"

text \<open>The bytes of the requests in use.\<close>

definition used_bytes :: "csd_io_req_table \<Rightarrow> u64" where
  "used_bytes t = (\<Sum>x | x < MAX_INTERNAL_IO_COUNT \<and> io_req_status (io_req t x) \<noteq> CSD_INTERNAL_IO_REQ_FREE. r_length (io_req t x))"

lemma queued_set: "set (queued n S) = (\<Union>q<n. set (S q))"
  by (auto simp: queued_def)

lemma queued_upd_set: "q < n \<Longrightarrow> set (queued n (S(q := ys))) = set ys \<union> (\<Union>p\<in>{..<n} - {q}. set (S p))"
  by (auto simp: queued_set split: if_splits)

lemma queued_split: "q < n \<Longrightarrow> queued n S = concat (map S [0..<q]) @ S q @ concat (map S [Suc q..<n])"
proof -
  assume "q < n"
  then have "[0..<n] = [0..<q] @ q # [Suc q..<n]" using upt_add_eq_append [of 0 q "n - q"] by (simp add: upt_conv_Cons)
  then show ?thesis unfolding queued_def by simp
qed

lemma queued_upd: "q < n \<Longrightarrow> queued n (S(q := ys)) = concat (map S [0..<q]) @ ys @ concat (map S [Suc q..<n])"
proof -
  assume q: "q < n"
  have a: "map (S(q := ys)) [0..<q] = map S [0..<q]" "map (S(q := ys)) [Suc q..<n] = map S [Suc q..<n]" by auto
  show ?thesis using queued_split [OF q, of "S(q := ys)"] unfolding a by simp
qed

lemma queued_part: "q < n \<Longrightarrow> x \<in> set (S q) \<Longrightarrow> x \<in> set (queued n S)"
  by (auto simp: queued_set)

lemma queued_disjoint:
  assumes d: "distinct (queued n S)" and q: "q < n" "p < n" "p \<noteq> q"
  shows "set (S q) \<inter> set (S p) = {}"
proof -
  define A B where "A = concat (map S [0..<q])" and "B = concat (map S [Suc q..<n])"
  have "set (S q) \<inter> (set A \<union> set B) = {}" using d unfolding queued_split [OF q(1)] A_def [symmetric] B_def [symmetric] by auto
  moreover have "set (S p) \<subseteq> set A \<union> set B" using q by (cases "p < q") (auto simp: A_def B_def)
  ultimately show ?thesis by blast
qed

lemma io_inv_parts:
  assumes "io_inv n t F X S" "q < n"
  shows "distinct (S q)" "set (S q) \<inter> set F = {}" "set (S q) \<inter> set X = {}" "distinct F"
    and "\<And>p. p < n \<Longrightarrow> p \<noteq> q \<Longrightarrow> set (S q) \<inter> set (S p) = {}"
proof -
  have d: "distinct (F @ X @ queued n S)" using assms(1) by (simp add: io_inv_def)
  then show "distinct (S q)" "distinct F" unfolding queued_split [OF assms(2)] by auto
  show "set (S q) \<inter> set F = {}" "set (S q) \<inter> set X = {}" using d queued_part [OF assms(2)] by auto
  show "set (S q) \<inter> set (S p) = {}" if "p < n" "p \<noteq> q" for p using queued_disjoint [OF _ assms(2) that] d by simp
qed

lemma slm_scan_less: "turn < n \<Longrightarrow> mi < n \<Longrightarrow> slm_scan ls n k turn mn mi < n"
  by (induction ls n k turn mn mi rule: slm_scan.induct) auto

lemma io_inv_cong:
  assumes i: "io_inv n t F X S"
    and same: "io_free_list t' = io_free_list t" "slm_list t' = slm_list t" "slm_turn t' = slm_turn t"
    and nxt: "\<And>x. x \<notin> set X \<Longrightarrow> r_next (io_req t' x) = r_next (io_req t x)"
    and st: "\<And>x. x \<in> set F \<union> set X \<Longrightarrow> io_req_status (io_req t' x) = io_req_status (io_req t x)"
      "\<And>x. x \<in> set (queued n S) \<Longrightarrow> io_req_status (io_req t' x) \<in> {CSD_INTERNAL_IO_REQ_READY, CSD_INTERNAL_IO_REQ_WAITING_TIME, CSD_INTERNAL_IO_REQ_DONE}"
  shows "io_inv n t' F X S"
proof -
  have "queue_rep (io_req t') (io_free_list t) F = queue_rep (io_req t) (io_free_list t) F"
    using nxt i by (intro queue_rep_cong) (auto simp: io_inv_def)
  moreover have "queue_rep (io_req t') (slm_list t q) (S q) = queue_rep (io_req t) (slm_list t q) (S q)" if q: "q < n" for q
    using nxt io_inv_parts(3) [OF i q] by (intro queue_rep_cong) auto
  ultimately show ?thesis using i same st by (simp add: io_inv_def)
qed

text \<open>Two records that differ in their links only.\<close>

definition unlinked_req :: "csd_internal_io_req \<Rightarrow> csd_internal_io_req" where
  "unlinked_req io = io\<lparr>r_next := None, r_prev := None\<rparr>"

lemma unlinked_req_simps [simp]:
  "unlinked_req (io\<lparr>r_next := a\<rparr>) = unlinked_req io" "unlinked_req (io\<lparr>r_prev := b\<rparr>) = unlinked_req io"
  by (simp_all add: unlinked_req_def)

lemma unlinked_req_fields:
  assumes "unlinked_req a = unlinked_req b"
  shows "io_req_status a = io_req_status b" "r_length a = r_length b" "r_task_id a = r_task_id b" "demand_read a = demand_read b"
  using assms unfolding unlinked_req_def by (cases a; cases b; simp)+

lemma take_io_req_inv:
  assumes i: "io_inv n t (r # F) [] S"
  shows "\<exists>t'. take_io_req t r = Some t' \<and> io_inv n t' F [r] S \<and> enqueuing_io_size t' = enqueuing_io_size t
    \<and> (\<forall>x. unlinked_req (io_req t' x) = unlinked_req (if x = r then (io_req t r)\<lparr>io_req_status := CSD_INTERNAL_IO_REQ_ALLOC\<rparr> else io_req t x))"
proof -
  define t' where "t' = the (take_io_req t r)"
  have r: "io_req_status (io_req t r) = CSD_INTERNAL_IO_REQ_FREE" using i by (simp add: io_inv_def)
  then have t': "take_io_req t r = Some t'" by (simp add: take_io_req_def t'_def Let_def)
  have un: "unlinked_req (io_req t' x) = unlinked_req (if x = r then (io_req t r)\<lparr>io_req_status := CSD_INTERNAL_IO_REQ_ALLOC\<rparr> else io_req t x)" for x
    using t' r by (auto simp: take_io_req_def Let_def split: option.splits)
  have nx: "r_next (io_req t' x) = r_next (io_req t x)" for x
    using t' r by (auto simp: take_io_req_def Let_def split: option.splits)
  have fr: "slm_list t' = slm_list t" "slm_turn t' = slm_turn t" "enqueuing_io_size t' = enqueuing_io_size t" "io_free_list t' = (io_free_list t)\<lparr>lhead := r_next (io_req t r)\<rparr>"
    using t' r by (auto simp: take_io_req_def Let_def)
  have st: "io_req_status (io_req t' x) = (if x = r then CSD_INTERNAL_IO_REQ_ALLOC else io_req_status (io_req t x))" for x
    using unlinked_req_fields(1) [OF un [of x]] by simp
  have "queue_rep (io_req t') (io_free_list t') F"
    using i nx linked_cong [of F "io_req t'" "io_req t"] by (auto simp: io_inv_def queue_rep_def fr split: if_splits)
  moreover have "queue_rep (io_req t') (slm_list t q) (S q) = queue_rep (io_req t) (slm_list t q) (S q)" for q
    using nx by (intro queue_rep_cong) auto
  ultimately have "io_inv n t' F [r] S" using i by (auto simp: io_inv_def fr st)
  then show ?thesis using t' un fr by blast
qed

text \<open>What queueing does to the table: the queue \<open>q\<close> grows at its end.\<close>

lemma enqueue_slm_work_effect:
  assumes i: "io_inv n t F [r] S"
  shows "\<exists>q t'. q < n \<and> enqueue_slm_work n t r = Some t' \<and> enqueuing_io_size t' = enqueuing_io_size t
    \<and> io_free_list t' = io_free_list t \<and> slm_turn t' < n \<and> (\<forall>x. unlinked_req (io_req t' x) = unlinked_req (io_req t x))
    \<and> (\<forall>x. r_next (io_req t' x) = (if S q \<noteq> [] \<and> x = last (S q) then Some r else r_next (io_req t x)))
    \<and> (\<forall>p. p \<noteq> q \<longrightarrow> slm_list t' p = slm_list t p) \<and> running (slm_list t' q) = running (slm_list t q) + 1
    \<and> lhead (slm_list t' q) = (if lhead (slm_list t q) = None then Some r else lhead (slm_list t q)) \<and> ltail (slm_list t' q) = Some r"
proof -
  define q where "q = slm_scan (slm_list t) n n (slm_turn t) 0xFFFF (slm_turn t)"
  have turn: "slm_turn t < n" using i by (simp add: io_inv_def)
  then have q: "q < n" by (simp add: q_def slm_scan_less)
  let ?l = "slm_list t q"
  have rep: "queue_rep (io_req t) ?l (S q)" using i q by (simp_all add: io_inv_def)
  have tail: "ltail ?l = Some (last (S q))" "lhead ?l \<noteq> None" if "S q \<noteq> []" using rep that by (cases "S q"; auto simp: queue_rep_def)+
  have none: "lhead ?l = None" if "S q = []" using rep that by (simp add: queue_rep_def)
  define t' where "t' = the (enqueue_slm_work n t r)"
  have t': "enqueue_slm_work n t r = Some t'"
    using turn tail none by (cases "S q = []") (auto simp: enqueue_slm_work_def Let_def t'_def simp flip: q_def)
  have rn: "r \<notin> set (S q)" using io_inv_parts(3) [OF i q] by simp
  have "r_next (io_req t' x) = (if S q \<noteq> [] \<and> x = last (S q) then Some r else r_next (io_req t x))" for x
    using t' turn tail none rn by (cases "S q = []") (auto simp: enqueue_slm_work_def Let_def simp flip: q_def)
  moreover have "unlinked_req (io_req t' x) = unlinked_req (io_req t x)" for x
    using t' turn by (auto simp: enqueue_slm_work_def Let_def split: option.splits)
  moreover have "slm_list t' p = slm_list t p" if "p \<noteq> q" for p
    using t' turn that by (auto simp: enqueue_slm_work_def Let_def simp flip: q_def split: option.splits)
  moreover have "lhead (slm_list t' q) = (if lhead ?l = None then Some r else lhead ?l)" "ltail (slm_list t' q) = Some r" "running (slm_list t' q) = running ?l + 1"
    using t' turn by (auto simp: enqueue_slm_work_def Let_def simp flip: q_def split: option.splits)
  moreover have "io_free_list t' = io_free_list t" "enqueuing_io_size t' = enqueuing_io_size t" "slm_turn t' < n"
    using t' turn by (auto simp: enqueue_slm_work_def Let_def split: option.splits)
  ultimately show ?thesis using q t' by blast
qed

lemma distinct_queued_snoc:
  assumes "q < n" and "distinct (F @ [r] @ queued n S)"
  shows "distinct (F @ queued n (S(q := S q @ [r])))" "set (queued n (S(q := S q @ [r]))) = insert r (set (queued n S))"
  using assms unfolding queued_upd [OF assms(1)] queued_split [OF assms(1)] by auto

lemma enqueue_slm_work_inv:
  assumes i: "io_inv n t F [r] S" and r: "r_next (io_req t r) = None"
  shows "\<exists>q t'. q < n \<and> enqueue_slm_work n t r = Some t' \<and> enqueuing_io_size t' = enqueuing_io_size t
    \<and> (\<forall>x. unlinked_req (io_req t' x) = unlinked_req (io_req t x))
    \<and> io_inv n (t'\<lparr>io_req := (io_req t')(r := (io_req t' r)\<lparr>io_req_status := CSD_INTERNAL_IO_REQ_READY\<rparr>)\<rparr>) F [] (S(q := S q @ [r]))"
proof -
  obtain q t' where q: "q < n" and t': "enqueue_slm_work n t r = Some t'" "enqueuing_io_size t' = enqueuing_io_size t"
      "io_free_list t' = io_free_list t" "slm_turn t' < n"
    and un: "\<forall>x. unlinked_req (io_req t' x) = unlinked_req (io_req t x)"
    and nx: "\<And>x. r_next (io_req t' x) = (if S q \<noteq> [] \<and> x = last (S q) then Some r else r_next (io_req t x))"
    and sl: "\<And>p. p \<noteq> q \<Longrightarrow> slm_list t' p = slm_list t p"
    and l': "running (slm_list t' q) = running (slm_list t q) + 1"
      "lhead (slm_list t' q) = (if lhead (slm_list t q) = None then Some r else lhead (slm_list t q))" "ltail (slm_list t' q) = Some r"
    using enqueue_slm_work_effect [OF i] by metis
  let ?t = "t'\<lparr>io_req := (io_req t')(r := (io_req t' r)\<lparr>io_req_status := CSD_INTERNAL_IO_REQ_READY\<rparr>)\<rparr>"
  have rn: "r \<notin> set (S q)" using io_inv_parts(3) [OF i q] by simp
  have rep: "queue_rep (io_req t) (slm_list t q) (S q)" using i q by (simp add: io_inv_def)
  have new: "queue_rep (io_req ?t) (slm_list t' q) (S q @ [r])"
    by (rule queue_rep_append [OF rep, of r "[r]"]) (use r nx l' rn io_inv_parts(1) [OF i q] in auto)
  have same: "r_next (io_req ?t x) = r_next (io_req t x)" if "x \<notin> set (S q)" for x
    using nx [of x] that by auto
  have F: "queue_rep (io_req ?t) (io_free_list t) F = queue_rep (io_req t) (io_free_list t) F"
    by (rule queue_rep_cong, rule same) (use io_inv_parts(2) [OF i q] in blast)
  have S: "queue_rep (io_req ?t) (slm_list t p) (S p) = queue_rep (io_req t) (slm_list t p) (S p)" if "p < n" "p \<noteq> q" for p
    by (rule queue_rep_cong, rule same) (use io_inv_parts(5) [OF i q that] in blast)
  have st: "io_req_status (io_req ?t x) = (if x = r then CSD_INTERNAL_IO_REQ_READY else io_req_status (io_req t x))" for x
    using unlinked_req_fields(1) [OF un [rule_format, of x]] by simp
  have d: "distinct (F @ [r] @ queued n S)" "set (F @ [r] @ queued n S) = {..<MAX_INTERNAL_IO_COUNT}" using i by (simp_all add: io_inv_def)
  note dq = distinct_queued_snoc [OF q d(1)]
  have iq: "\<forall>x\<in>set (queued n S). io_req_status (io_req t x) \<in> {CSD_INTERNAL_IO_REQ_READY, CSD_INTERNAL_IO_REQ_WAITING_TIME, CSD_INTERNAL_IO_REQ_DONE}"
    using i unfolding io_inv_def by blast
  have rF: "r \<notin> set F" "r \<notin> set (queued n S)" using d(1) by auto
  let ?S = "S(q := S q @ [r])"
  have "queue_rep (io_req ?t) (slm_list ?t p) (?S p) \<and> running (slm_list ?t p) = int (length (?S p))" if "p < n" for p
    using new S [OF that] sl [of p] l'(1) i that by (cases "p = q") (simp_all add: io_inv_def)
  moreover have "set (F @ queued n ?S) = {..<MAX_INTERNAL_IO_COUNT}" using d(2) dq(2) by auto
  moreover have "queue_rep (io_req ?t) (io_free_list ?t) F" using F i t'(3) by (simp add: io_inv_def)
  moreover have "io_req_status (io_req ?t x) = CSD_INTERNAL_IO_REQ_FREE" if "x \<in> set F" for x using st [of x] rF(1) i that by (auto simp: io_inv_def)
  moreover have "io_req_status (io_req ?t x) \<in> {CSD_INTERNAL_IO_REQ_READY, CSD_INTERNAL_IO_REQ_WAITING_TIME, CSD_INTERNAL_IO_REQ_DONE}" if "x \<in> set (queued n ?S)" for x
    using st [of x] iq that unfolding dq(2) by (cases "x = r") simp_all
  ultimately have "io_inv n ?t F [] ?S" using t'(4) dq(1) unfolding io_inv_def by simp
  then show ?thesis using q t'(1,2) un by blast
qed

text \<open>The table after the requests \<open>P\<close> at the front of a queue have been released, still linked there.\<close>

definition released :: "nat \<Rightarrow> nat list \<Rightarrow> csd_io_req_table \<Rightarrow> csd_io_req_table" where
  "released turn P t = t\<lparr>io_req := (\<lambda>x. if x \<in> set P then (io_req t x)\<lparr>io_req_status := CSD_INTERNAL_IO_REQ_FREE\<rparr> else io_req t x),
     slm_list := (slm_list t)(turn := (slm_list t turn)\<lparr>running := running (slm_list t turn) - int (length P)\<rparr>),
     enqueuing_io_size := enqueuing_io_size t - (\<Sum>x\<leftarrow>P. r_length (io_req t x))\<rparr>"

lemma released_Nil: "released turn [] t = t"
  by (simp add: released_def)

lemma released_Cons:
  "x \<notin> set P \<Longrightarrow> released turn P (released turn [x] t) = released turn (x # P) t"
proof -
  assume x: "x \<notin> set P"
  have "(\<Sum>y\<leftarrow>P. r_length (if y = x then (io_req t y)\<lparr>io_req_status := CSD_INTERNAL_IO_REQ_FREE\<rparr> else io_req t y)) = (\<Sum>y\<leftarrow>P. r_length (io_req t y))"
    using x by (intro arg_cong [of _ _ sum_list] map_cong) auto
  then show ?thesis by (intro csd_io_req_table.equality) (simp_all add: released_def fun_eq_iff algebra_simps del: map_eq_conv)
qed

lemma released_next: "r_next (io_req (released turn P t) x) = r_next (io_req t x)"
  by (simp add: released_def)

lemma upd_task_frame [simp]:
  "wio (upd_task w k f) = wio w" "wtt (upd_task w k f) = wtt w" "wns (upd_task w k f) = wns w" "wdef (upd_task w k f) = wdef w" "wthr (upd_task w k f) = wthr w"
  by (simp_all add: upd_task_def)

lemma put_slm_frame [simp]:
  "wio (put_slm w s) = wio w" "wtt (put_slm w s) = wtt w" "wns (put_slm w s) = wns w" "wdef (put_slm w s) = wdef w" "wthr (put_slm w s) = wthr w" "wslm (put_slm w s) = s"
  by (simp_all add: put_slm_def)

lemma upd_req_frame [simp]:
  "wslm (upd_req w r f) = wslm w" "wtt (upd_req w r f) = wtt w" "wns (upd_req w r f) = wns w" "wdef (upd_req w r f) = wdef w" "wthr (upd_req w r f) = wthr w" "wtask (upd_req w r f) k = wtask w k"
  by (simp_all add: upd_req_def wtask_def)

lemma complete_io_frame:
  assumes "complete_io w r = Some w'"
  shows "wio w' = wio w \<and> wtt w' = wtt w \<and> wns w' = wns w \<and> wdef w' = wdef w"
  using assms by (auto simp: complete_io_def Let_def split: if_splits option.splits Option.bind_splits)

lemma release_expired:
  assumes "wio w2 = wio (expire_req now w r)"
  shows "wio (release_req w2 turn r) = released turn [r] (wio w)"
  using assms by (auto simp: release_req_def expire_req_def released_def upd_req_def Let_def fun_eq_iff)

lemma expire_idle:
  assumes "io_req_status (io_req (wio (expire_req now w r)) r) \<noteq> CSD_INTERNAL_IO_REQ_DONE"
  shows "expire_req now w r = w"
  using assms by (auto simp: expire_req_def upd_req_def Let_def split: if_splits)

lemma expire_next: "r_next (io_req (wio (expire_req now w r)) x) = r_next (io_req (wio w) x)"
  by (auto simp: expire_req_def upd_req_def Let_def)

text \<open>A request that the helper may complete: its copy was cancelled, or its time has come.\<close>

definition ripe :: "u64 \<Rightarrow> csd_io_req_table \<Rightarrow> nat \<Rightarrow> bool" where
  "ripe now t x \<longleftrightarrow> io_req_status (io_req t x) = CSD_INTERNAL_IO_REQ_DONE
     \<or> io_req_status (io_req t x) = CSD_INTERNAL_IO_REQ_WAITING_TIME \<and> r_nsecs_target (io_req t x) \<le> now"

lemma expire_ripe: "io_req_status (io_req (wio (expire_req now w x)) x) = CSD_INTERNAL_IO_REQ_DONE \<longleftrightarrow> ripe now (wio w) x"
  by (auto simp: expire_req_def upd_req_def ripe_def Let_def)

lemma released_ripe: "y \<noteq> x \<Longrightarrow> ripe now (released turn [x] t) y = ripe now t y"
  by (simp add: released_def ripe_def)

lemma reclaim_from_effect:
  assumes "reclaim_from now turn w cur le = Some (w', le')" and "linked (io_req (wio w)) cur Q" and "distinct Q"
  shows "\<exists>P Q'. Q = P @ Q' \<and> le' = (if P = [] then le else Some (last P)) \<and> wio w' = released turn P (wio w)
    \<and> (\<forall>x\<in>set P. ripe now (wio w) x) \<and> (Q' \<noteq> [] \<longrightarrow> \<not> ripe now (wio w) (hd Q'))"
  using assms
proof (induction Q arbitrary: w cur le)
  case Nil
  then show ?case by (simp add: reclaim_from.simps [of now turn w cur] released_Nil)
next
  case (Cons x Q)
  have cur: "cur = Some x" using Cons.prems(2) by simp
  let ?w1 = "expire_req now w x"
  show ?case
  proof (cases "ripe now (wio w) x")
    case False
    then have n: "io_req_status (io_req (wio ?w1) x) \<noteq> CSD_INTERNAL_IO_REQ_DONE" using expire_ripe by simp
    then have "w' = w" "le' = le" using Cons.prems(1) expire_idle [OF n] by (simp_all add: reclaim_from.simps [of now turn w "Some x"] cur Let_def)
    then show ?thesis using False by (intro exI [of _ "[]"] exI [of _ "x # Q"]) (simp add: released_Nil)
  next
    case True
    then have d: "io_req_status (io_req (wio ?w1) x) = CSD_INTERNAL_IO_REQ_DONE" using expire_ripe by simp
    then obtain w2 where w2: "complete_io ?w1 x = Some w2"
      and rec: "reclaim_from now turn (release_req w2 turn x) (r_next (io_req (wio w2) x)) (Some x) = Some (w', le')"
      using Cons.prems(1) by (auto simp: reclaim_from.simps [of now turn w "Some x"] cur Let_def split: Option.bind_splits)
    have io2: "wio w2 = wio ?w1" using complete_io_frame [OF w2] by simp
    note io3 = release_expired [OF io2, of turn]
    have "linked (io_req (wio (release_req w2 turn x))) (r_next (io_req (wio w2) x)) Q"
      using Cons.prems(2) linked_cong [of Q "io_req (released turn [x] (wio w))" "io_req (wio w)"] released_next
      unfolding io3 by (simp add: io2 expire_next)
    from Cons.IH [OF rec this] Cons.prems(3) obtain P Q' where P: "Q = P @ Q'" "le' = (if P = [] then Some x else Some (last P))"
        "wio w' = released turn P (released turn [x] (wio w))"
      and r: "\<forall>y\<in>set P. ripe now (released turn [x] (wio w)) y" "Q' \<noteq> [] \<longrightarrow> \<not> ripe now (released turn [x] (wio w)) (hd Q')" unfolding io3 by auto
    have xP: "x \<notin> set P" "Q' \<noteq> [] \<Longrightarrow> hd Q' \<noteq> x" using Cons.prems(3) P(1) by (auto dest: hd_in_set)
    have "ripe now (wio w) y" if "y \<in> set P" for y using r(1) xP(1) released_ripe [of y x now turn "wio w"] that by auto
    moreover have "\<not> ripe now (wio w) (hd Q')" if "Q' \<noteq> []" using r(2) xP(2) released_ripe [of "hd Q'" x now turn "wio w"] that by auto
    ultimately have "\<forall>y\<in>set (x # P). ripe now (wio w) y" "Q' \<noteq> [] \<longrightarrow> \<not> ripe now (wio w) (hd Q')" using True by auto
    then show ?thesis using P xP(1) released_Cons by (intro exI [of _ "x # P"] exI [of _ Q']) auto
  qed
qed

text \<open>Moving the front of a queue to the end of the free list.\<close>

lemma cut_list_effect:
  assumes F: "queue_rep (io_req t) (io_free_list t) F" and P: "P \<noteq> []" "set P \<inter> set F = {}"
  shows "\<exists>t'. cut_list t turn (hd P) (last P) = Some t' \<and> enqueuing_io_size t' = enqueuing_io_size t \<and> slm_turn t' = slm_turn t
    \<and> (\<forall>x. unlinked_req (io_req t' x) = unlinked_req (io_req t x))
    \<and> (\<forall>x. r_next (io_req t' x) = (if F \<noteq> [] \<and> x = last F then Some (hd P) else if x = last P then None else r_next (io_req t x)))
    \<and> slm_list t' = (slm_list t)(turn := (slm_list t turn)\<lparr>lhead := r_next (io_req t (last P))\<rparr>)
    \<and> lhead (io_free_list t') = (if lhead (io_free_list t) = None then Some (hd P) else lhead (io_free_list t)) \<and> ltail (io_free_list t') = Some (last P)"
proof -
  have tail: "ltail (io_free_list t) = Some (last F)" "lhead (io_free_list t) \<noteq> None" if "F \<noteq> []" using F that by (cases F; auto simp: queue_rep_def)+
  have none: "lhead (io_free_list t) = None" if "F = []" using F that by (simp add: queue_rep_def)
  define t' where "t' = the (cut_list t turn (hd P) (last P))"
  have t': "cut_list t turn (hd P) (last P) = Some t'"
    using tail none by (cases "F = []") (auto simp: cut_list_def enqueue_io_req_free_list_def Let_def t'_def)
  have un: "unlinked_req (io_req t' x) = unlinked_req (io_req t x)" for x
    using t' by (auto simp: cut_list_def enqueue_io_req_free_list_def Let_def split: option.splits)
  have "F \<noteq> [] \<Longrightarrow> last F \<noteq> last P \<and> last F \<noteq> hd P" using P by (metis IntI empty_iff hd_in_set last_in_set)
  then have "r_next (io_req t' x) = (if F \<noteq> [] \<and> x = last F then Some (hd P) else if x = last P then None else r_next (io_req t x))" for x
    using t' tail none by (cases "F = []") (auto simp: cut_list_def enqueue_io_req_free_list_def Let_def split: option.splits)
  moreover have "slm_list t' = (slm_list t)(turn := (slm_list t turn)\<lparr>lhead := r_next (io_req t (last P))\<rparr>)" "enqueuing_io_size t' = enqueuing_io_size t"
      "slm_turn t' = slm_turn t" "ltail (io_free_list t') = Some (last P)"
      "lhead (io_free_list t') = (if lhead (io_free_list t) = None then Some (hd P) else lhead (io_free_list t))"
    using t' by (auto simp: cut_list_def enqueue_io_req_free_list_def Let_def split: option.splits)
  ultimately show ?thesis using t' un by blast
qed


lemma linked_suffix: "linked R h (P @ Q) \<Longrightarrow> P \<noteq> [] \<Longrightarrow> linked R (r_next (R (last P))) Q"
  by (induction P arbitrary: h) auto

lemma linked_prefix:
  assumes "linked R h (P @ Q)" "P \<noteq> []" "distinct P" "\<And>x. x \<in> set P \<Longrightarrow> r_next (R' x) = (if x = last P then None else r_next (R x))"
  shows "linked R' h P"
  using assms
proof (induction P arbitrary: h)
  case (Cons x P)
  show ?case
  proof (cases "P = []")
    case False
    then have "x \<noteq> last P" using Cons.prems(3) last_in_set [OF False] by auto
    then show ?thesis using Cons False by auto
  qed (use Cons.prems in auto)
qed simp

lemma distinct_queued_cut:
  assumes "q < n" "S q = P @ Q" "distinct (F @ queued n S)"
  shows "distinct ((F @ P) @ queued n (S(q := Q)))" "set ((F @ P) @ queued n (S(q := Q))) = set (F @ queued n S)" "set (queued n (S(q := Q))) \<subseteq> set (queued n S) - set P"
  using assms(3) unfolding queued_upd [OF assms(1)] queued_split [OF assms(1)] assms(2) by auto

text \<open>The two queues after the cut.\<close>

lemma cut_reps:
  assumes F: "queue_rep R fl F" "distinct F" and q: "queue_rep R l (P @ Q)" "P \<noteq> []" "distinct (P @ Q)" "set (P @ Q) \<inter> set F = {}"
    and fl': "lhead fl' = (if lhead fl = None then Some (hd P) else lhead fl)" "ltail fl' = Some (last P)"
    and l': "lhead l' = r_next (R (last P))" "ltail l' = ltail l"
    and nx: "\<And>x. r_next (R' x) = (if F \<noteq> [] \<and> x = last F then Some (hd P) else if x = last P then None else r_next (R x))"
  shows "queue_rep R' fl' (F @ P)" "queue_rep R' l' Q"
proof -
  have lF: "F \<noteq> [] \<Longrightarrow> last F \<in> set F" and lP: "last P \<in> set P" using q(2) by auto
  define R1 where "R1 = (\<lambda>x. if x = last P then (R x)\<lparr>r_next := None\<rparr> else R x)"
  have "linked R1 (lhead l) P" by (rule linked_prefix [of R _ P Q]) (use q in \<open>auto simp: queue_rep_def R1_def\<close>)
  moreover have "lhead l = Some (hd P)" using q(1,2) by (cases P) (auto simp: queue_rep_def)
  moreover have "queue_rep R1 fl F = queue_rep R fl F" using lP q(4) by (intro queue_rep_cong) (auto simp: R1_def)
  ultimately show "queue_rep R' fl' (F @ P)"
    by (intro queue_rep_append [of R1 fl F "hd P"]) (use F q fl' nx lF lP in \<open>auto simp: R1_def\<close>)
  have "linked R (r_next (R (last P))) Q" using linked_suffix [of R "lhead l" P Q] q(1,2) by (simp add: queue_rep_def)
  moreover have "linked R' (r_next (R (last P))) Q = linked R (r_next (R (last P))) Q"
    using nx lF lP q(3,4) by (intro linked_cong) (auto simp: disjoint_iff)
  ultimately show "queue_rep R' l' Q" using l' q(1) by (auto simp: queue_rep_def)
qed

lemma cut_list_inv:
  assumes i: "io_inv n t F [] S" and q: "q < n" and PQ: "S q = P @ Q" "P \<noteq> []"
  shows "\<exists>t'. cut_list (released q P t) q (hd P) (last P) = Some t' \<and> io_inv n t' (F @ P) [] (S(q := Q))
    \<and> enqueuing_io_size t' = enqueuing_io_size (released q P t)
    \<and> (\<forall>x. unlinked_req (io_req t' x) = unlinked_req (io_req (released q P t) x))"
proof -
  let ?t = "released q P t"
  have d: "distinct (F @ queued n S)" "set (F @ queued n S) = {..<MAX_INTERNAL_IO_COUNT}" and turn: "slm_turn t < n" using i by (simp_all add: io_inv_def)
  note dc = distinct_queued_cut [OF q PQ(1) d(1)]
  have dP: "distinct (P @ Q)" "set (P @ Q) \<inter> set F = {}" "distinct F" using io_inv_parts [OF i q] PQ(1) by auto
  have F: "queue_rep (io_req t) (io_free_list t) F" and repq: "queue_rep (io_req t) (slm_list t q) (P @ Q)" "running (slm_list t q) = int (length (P @ Q))"
    using i q PQ by (auto simp: io_inv_def)
  have F': "queue_rep (io_req ?t) (io_free_list ?t) F" using F queue_rep_cong [of F "io_req ?t" "io_req t"] by (simp add: released_def)
  obtain t' where t': "cut_list ?t q (hd P) (last P) = Some t'" "enqueuing_io_size t' = enqueuing_io_size ?t" "slm_turn t' = slm_turn ?t"
    and un: "\<And>x. unlinked_req (io_req t' x) = unlinked_req (io_req ?t x)"
    and nx: "\<And>x. r_next (io_req t' x) = (if F \<noteq> [] \<and> x = last F then Some (hd P) else if x = last P then None else r_next (io_req t x))"
    and sl: "slm_list t' = (slm_list ?t)(q := (slm_list ?t q)\<lparr>lhead := r_next (io_req t (last P))\<rparr>)"
    and fl: "lhead (io_free_list t') = (if lhead (io_free_list ?t) = None then Some (hd P) else lhead (io_free_list ?t))" "ltail (io_free_list t') = Some (last P)"
    using cut_list_effect [OF F' PQ(2), of q] dP(2) unfolding released_next by fastforce
  have pre: "lhead (slm_list t' q) = r_next (io_req t (last P))" "ltail (slm_list t' q) = ltail (slm_list t q)"
      "lhead (io_free_list t') = (if lhead (io_free_list t) = None then Some (hd P) else lhead (io_free_list t))"
    using sl fl by (simp_all add: released_def)
  note reps = cut_reps [OF F dP(3) repq(1) PQ(2) dP(1,2) pre(3) fl(2) pre(1,2) nx]
  have lF: "F \<noteq> [] \<Longrightarrow> last F \<in> set F" and lP: "last P \<in> set (S q)" using PQ by auto
  have "queue_rep (io_req t') (slm_list t p) (S p) = queue_rep (io_req t) (slm_list t p) (S p)" if "p < n" "p \<noteq> q" for p
    using nx lF lP io_inv_parts(2) [OF i that(1)] io_inv_parts(5) [OF i q that] by (intro queue_rep_cong) auto
  then have S': "queue_rep (io_req t') (slm_list t' p) ((S(q := Q)) p) \<and> running (slm_list t' p) = int (length ((S(q := Q)) p))" if "p < n" for p
    using reps(2) i sl repq(2) that by (cases "p = q") (simp_all add: io_inv_def released_def)
  have st: "io_req_status (io_req t' x) = (if x \<in> set P then CSD_INTERNAL_IO_REQ_FREE else io_req_status (io_req t x))" for x
    using unlinked_req_fields(1) [OF un [of x]] by (simp add: released_def)
  have iq: "\<forall>x\<in>set (queued n S). io_req_status (io_req t x) \<in> {CSD_INTERNAL_IO_REQ_READY, CSD_INTERNAL_IO_REQ_WAITING_TIME, CSD_INTERNAL_IO_REQ_DONE}"
    and iF: "\<forall>x\<in>set F. io_req_status (io_req t x) = CSD_INTERNAL_IO_REQ_FREE" using i unfolding io_inv_def by blast+
  have "io_req_status (io_req t' x) = CSD_INTERNAL_IO_REQ_FREE" if "x \<in> set (F @ P)" for x using st [of x] iF that by auto
  moreover have "io_req_status (io_req t' x) \<in> {CSD_INTERNAL_IO_REQ_READY, CSD_INTERNAL_IO_REQ_WAITING_TIME, CSD_INTERNAL_IO_REQ_DONE}" if "x \<in> set (queued n (S(q := Q)))" for x
    using st [of x] iq dc(3) that by auto
  moreover have "slm_turn t' < n" using t'(3) turn by (simp add: released_def)
  ultimately have "io_inv n t' (F @ P) [] (S(q := Q))" using reps(1) S' dc(1,2) d(2) unfolding io_inv_def by simp
  then show ?thesis using t'(1,2) un by blast
qed

section \<open>Bytes in flight\<close>

text \<open>A sum over the requests in use that satisfy \<open>P\<close>.\<close>

definition in_use :: "csd_io_req_table \<Rightarrow> nat set" where
  "in_use t = {x. x < MAX_INTERNAL_IO_COUNT \<and> io_req_status (io_req t x) \<noteq> CSD_INTERNAL_IO_REQ_FREE}"

lemma finite_in_use [simp]: "finite (in_use t)"
  by (simp add: in_use_def)

lemma used_bytes_in_use: "used_bytes t = (\<Sum>x\<in>in_use t. r_length (io_req t x))"
  by (simp add: used_bytes_def in_use_def)

lemma io_inv_in_use:
  assumes "io_inv n t F X S"
  shows "in_use t = set X \<union> set (queued n S)"
proof -
  have d: "set F \<inter> (set X \<union> set (queued n S)) = {}" "set F \<union> (set X \<union> set (queued n S)) = {..<MAX_INTERNAL_IO_COUNT}"
    using assms by (auto simp: io_inv_def)
  have st: "io_req_status (io_req t x) = CSD_INTERNAL_IO_REQ_FREE \<longleftrightarrow> x \<notin> set X \<union> set (queued n S)" if "x < MAX_INTERNAL_IO_COUNT" for x
  proof -
    have "x \<in> set F \<or> x \<in> set X \<union> set (queued n S)" using that d(2) by blast
    moreover have "\<forall>x\<in>set F. io_req_status (io_req t x) = CSD_INTERNAL_IO_REQ_FREE" "\<forall>x\<in>set X. io_req_status (io_req t x) = CSD_INTERNAL_IO_REQ_ALLOC"
      "\<forall>x\<in>set (queued n S). io_req_status (io_req t x) \<in> {CSD_INTERNAL_IO_REQ_READY, CSD_INTERNAL_IO_REQ_WAITING_TIME, CSD_INTERNAL_IO_REQ_DONE}"
      using assms unfolding io_inv_def by blast+
    ultimately show ?thesis using d(1) by fastforce
  qed
  then show ?thesis unfolding in_use_def using d(2) by auto
qed

lemma used_bytes_released:
  assumes "distinct P" and "set P \<subseteq> in_use t"
  shows "used_bytes (released q P t) = used_bytes t - (\<Sum>x\<leftarrow>P. r_length (io_req t x))"
proof -
  have "in_use (released q P t) = in_use t - set P" by (auto simp: in_use_def released_def)
  then have "used_bytes (released q P t) = (\<Sum>x\<in>in_use t - set P. r_length (io_req t x))"
    unfolding used_bytes_in_use by (intro sum.cong) (auto simp: released_def)
  also have "\<dots> = used_bytes t - (\<Sum>x\<in>set P. r_length (io_req t x))" using assms(2) by (simp add: sum_diff used_bytes_in_use)
  finally show ?thesis using assms(1) by (simp add: sum_list_distinct_conv_sum_set)
qed

text \<open>Links do not matter for the bytes.\<close>

lemma used_bytes_unlinked:
  assumes "\<And>x. unlinked_req (io_req t' x) = unlinked_req (io_req t x)"
  shows "used_bytes t' = used_bytes t" "in_use t' = in_use t"
  using unlinked_req_fields [OF assms] by (simp_all add: used_bytes_def in_use_def)

text \<open>The request table between two passes.\<close>

definition io_ok :: "csd_world \<Rightarrow> bool" where
  "io_ok w \<longleftrightarrow> (\<exists>F S. io_inv (num_slm_resources (wtt w)) (wio w) F [] S) \<and> enqueuing_io_size (wio w) = used_bytes (wio w)"

lemma io_ok_same: "wio w' = wio w \<Longrightarrow> wtt w' = wtt w \<Longrightarrow> io_ok w \<Longrightarrow> io_ok w'"
  by (simp add: io_ok_def)

subsection \<open>The copy thread\<close>

lemma slm_copy_req_ok:
  assumes "slm_copy_req w r = Some w'" and "io_ok w"
  shows "io_ok w' \<and> wtt w' = wtt w \<and> wslm w' = wslm w"
proof (cases "io_req_status (io_req (wio w) r) = CSD_INTERNAL_IO_REQ_READY \<and> w' \<noteq> w")
  case True
  obtain st where st: "st \<in> {CSD_INTERNAL_IO_REQ_WAITING_TIME, CSD_INTERNAL_IO_REQ_DONE}" and w': "w' = upd_req w r (\<lambda>io. io\<lparr>io_req_status := st\<rparr>)"
    using assms(1) True by (auto simp: slm_copy_req_def Let_def split: Option.bind_splits if_splits)
  obtain F S where i: "io_inv (num_slm_resources (wtt w)) (wio w) F [] S" using assms(2) by (auto simp: io_ok_def)
  have rF: "r \<notin> set F" using i True by (auto simp: io_inv_def)
  have iq: "\<forall>x\<in>set (queued (num_slm_resources (wtt w)) S). io_req_status (io_req (wio w) x) \<in> {CSD_INTERNAL_IO_REQ_READY, CSD_INTERNAL_IO_REQ_WAITING_TIME, CSD_INTERNAL_IO_REQ_DONE}"
    using i unfolding io_inv_def by blast
  have "io_inv (num_slm_resources (wtt w')) (wio w') F [] S" unfolding w'
    by (rule io_inv_cong, simp only: upd_req_frame, rule i) (use rF st iq in \<open>auto simp: upd_req_def\<close>)
  moreover have "used_bytes (wio w') = used_bytes (wio w)"
    unfolding used_bytes_in_use by (rule sum.cong) (use st True in \<open>auto simp: w' upd_req_def in_use_def\<close>)
  ultimately show ?thesis using assms(2) by (auto simp: io_ok_def w' upd_req_def)
next
  case False
  then have "w' = w" using assms(1) by (auto simp: slm_copy_req_def Let_def)
  then show ?thesis using assms(2) by simp
qed

lemma slm_work_from_ok: "slm_work_from w cur = Some w' \<Longrightarrow> io_ok w \<longrightarrow> io_ok w' \<and> wtt w' = wtt w \<and> wslm w' = wslm w"
proof (erule slm_work_from.raw_induct [rotated])
  fix f w cur w'
  assume IH: "\<And>w cur w'. f w cur = Some w' \<Longrightarrow> io_ok w \<longrightarrow> io_ok w' \<and> wtt w' = wtt w \<and> wslm w' = wslm w"
    and b: "(case cur of None \<Rightarrow> Some w | Some r \<Rightarrow> do { w1 \<leftarrow> slm_copy_req w r; f w1 (r_next (io_req (wio w1) r)) }) = Some w'"
  show "io_ok w \<longrightarrow> io_ok w' \<and> wtt w' = wtt w \<and> wslm w' = wslm w"
  proof (cases cur)
    case (Some r)
    then obtain w1 where "slm_copy_req w r = Some w1" "f w1 (r_next (io_req (wio w1) r)) = Some w'" using b by (auto split: Option.bind_splits)
    then show ?thesis using slm_copy_req_ok IH by metis
  qed (use b in simp)
qed


subsection \<open>Completion\<close>

lemma put_tasks [simp]: "slm_tasks (put s q i) = slm_tasks s"
  by (simp add: put_def)

lemma notify_tasks:
  "notify_slm_data_ready s a l = Some s' \<Longrightarrow> slm_tasks s' = slm_tasks s"
  "notify_misaligned_slm_data_ready s a l = Some s' \<Longrightarrow> slm_tasks s' = slm_tasks s"
  "complete_slm_demand_read s a = Some s' \<Longrightarrow> slm_tasks s' = slm_tasks s"
  "notify_slm_demand_read_requested s a = Some s' \<Longrightarrow> slm_tasks s' = slm_tasks s"
  "ghost_notify s io b = Some s' \<Longrightarrow> slm_tasks s' = slm_tasks s"
  "mark_load_complete s q dn = Some s' \<Longrightarrow> slm_tasks s' = slm_tasks s"
  by (auto simp: notify_slm_data_ready_def notify_misaligned_slm_data_ready_def complete_slm_demand_read_def notify_slm_demand_read_requested_def
      ghost_notify_def mark_load_complete_def Let_def split: option.splits Option.bind_splits if_splits)

lemma publish_io_tasks:
  assumes "publish_io s q io b = Some s'"
  shows "slm_tasks s' = slm_tasks s"
proof -
  obtain i s1 s2 where "(if is_circular i \<and> use_head_tail i
          then map_option (put s q) (notify_circular_load_ready i (stream_offset io) (r_length io))
          else if sequential_last_io io then notify_misaligned_slm_data_ready s (buf_addr io) (r_length io)
          else notify_slm_data_ready s (buf_addr io) (r_length io)) = Some s1"
      "(if is_circular i \<and> \<not> use_head_tail i then ghost_notify s1 io b else Some s1) = Some s2"
      "(if demand_read io \<and> last_io io then complete_slm_demand_read s2 (buf_addr io) else Some s2) = Some s'"
    using assms by (auto simp: publish_io_def split: Option.bind_splits)
  then have "slm_tasks s1 = slm_tasks s" "slm_tasks s2 = slm_tasks s1" "slm_tasks s' = slm_tasks s2"
    using notify_tasks by (auto split: if_splits)
  then show ?thesis by simp
qed

lemma wtask_simps [simp]:
  "wtask (upd_task w k f) j = (if j = k then f (wtask w k) else wtask w j)" "wtask (put_slm w s) j = slm_tasks s j"
  by (simp_all add: wtask_def upd_task_def)

text \<open>What the passes of the helper thread keep of a task, and how a step may change.\<close>

definition same_identity :: "ccsd_task_info \<Rightarrow> ccsd_task_info \<Rightarrow> bool" where
  "same_identity t t' \<longleftrightarrow> generation_id t' = generation_id t \<and> t_next t' = t_next t \<and> t_prev t' = t_prev t \<and> total_size t' = total_size t
     \<and> program_idx t' = program_idx t \<and> task_slm_lba_info t' = task_slm_lba_info t
     \<and> (task_step t' = task_step t \<or> task_step t = CCSD_TASK_SCHEDULE \<and> task_step t' \<in> {CCSD_TASK_WAIT, CCSD_TASK_END})"

lemma same_identity_refl [simp]: "same_identity t t"
  by (simp add: same_identity_def)

lemma same_identity_trans: "same_identity a b \<Longrightarrow> same_identity b c \<Longrightarrow> same_identity a c"
  by (auto simp: same_identity_def)

lemma complete_io_tasks:
  assumes c: "complete_io w r = Some w'"
  defines "io \<equiv> io_req (wio w) r"
  defines "k \<equiv> TASK_POOL_INDEX (r_task_id io)"
  shows "(\<forall>j. same_identity (wtask w j) (wtask w' j) \<and> requested_io_offset (wtask w' j) = requested_io_offset (wtask w j))
    \<and> (\<forall>j. done_io_offset (wtask w' j) = done_io_offset (wtask w j)
        \<or> j = k \<and> \<not> demand_read io \<and> TASK_GEN_VALID (r_task_id io) (wtask w k) \<and> done_io_offset (wtask w' j) = done_io_offset (wtask w j) + r_length io)"
proof -
  obtain pinfo where p: "page_under (wslm w) (buf_addr io) = Some pinfo" using c by (auto simp: complete_io_def Let_def io_def split: Option.bind_splits)
  show ?thesis
  proof (cases "is_orphan_io pinfo io (wtask w k)")
    case True
    then have "w' = w" using c p by (simp add: complete_io_def Let_def io_def k_def)
    then show ?thesis by simp
  next
    case False
    then obtain q where q: "pinfo = Some q" and v: "TASK_GEN_VALID (r_task_id io) (wtask w k)" by (auto simp: is_orphan_io_def)
    define b where "b \<longleftrightarrow> demand_read io \<and> last_io io \<and> task_step (wtask w k) = CCSD_TASK_SCHEDULE"
    define w1 where "w1 = (if b then upd_task w k (\<lambda>t. t\<lparr>task_step := CCSD_TASK_WAIT\<rparr>) else w)"
    obtain s1 w3 where s1: "publish_io (wslm w1) q io (input_buf_addr (wtask w k)) = Some s1"
      and w3: "(if demand_read io then Some (put_slm w1 s1)
           else do {
             let w' = upd_task (put_slm w1 s1) k (\<lambda>t. t\<lparr>done_io_offset := done_io_offset t + r_length io\<rparr>);
             s2 \<leftarrow> mark_load_complete (wslm w') q (done_io_offset (wtask w' k));
             Some (put_slm w' s2)
           }) = Some w3"
      and w': "w' = upd_task w3 k (\<lambda>t. t\<lparr>internal_io_count := internal_io_count t - 1\<rparr>)"
      using c p False q unfolding complete_io_def io_def [symmetric] k_def [symmetric] Let_def b_def [symmetric] w1_def [symmetric]
      by (auto split: Option.bind_splits if_split_asm)
    have t1: "slm_tasks s1 j = wtask w1 j" for j using publish_io_tasks [OF s1] by (simp add: wtask_def)
    have w1: "wtask w1 j = (if j = k \<and> b then (wtask w k)\<lparr>task_step := CCSD_TASK_WAIT\<rparr> else wtask w j)" "b \<Longrightarrow> task_step (wtask w k) = CCSD_TASK_SCHEDULE" for j
      by (auto simp: w1_def b_def)
    have "wtask w3 j = (if demand_read io \<or> j \<noteq> k then wtask w1 j else (wtask w1 k)\<lparr>done_io_offset := done_io_offset (wtask w1 k) + r_length io\<rparr>)" for j
      using w3 notify_tasks(6) t1 by (auto simp: Let_def wtask_def [symmetric] split: if_splits Option.bind_splits)
    then show ?thesis using w' v w1 by (auto simp: same_identity_def)
  qed
qed


subsection \<open>Requested, received and in flight\<close>

text \<open>The bytes that sequential requests of the task with identifier \<open>g\<close> have in flight.\<close>

definition inflight :: "csd_io_req_table \<Rightarrow> u32 \<Rightarrow> nat" where
  "inflight t g = (\<Sum>x | x \<in> in_use t \<and> \<not> demand_read (io_req t x) \<and> r_task_id (io_req t x) = g. unat (r_length (io_req t x)))"

definition load_ok :: "csd_io_req_table \<Rightarrow> nat \<Rightarrow> ccsd_task_info \<Rightarrow> bool" where
  "load_ok io k t \<longleftrightarrow> unat (done_io_offset t) \<le> unat (requested_io_offset t)
   \<and> unat (requested_io_offset t) \<le> unat (total_size t) + 2 ^ 20 \<and> unat (total_size t) \<le> 2 ^ 62
   \<and> (generation_id t \<noteq> TASK_ID_NONE \<longrightarrow>
        TASK_POOL_INDEX (generation_id t) = k \<and> unat (done_io_offset t) + inflight io (generation_id t) \<le> unat (requested_io_offset t))"

definition loads_ok :: "csd_world \<Rightarrow> bool" where
  "loads_ok w \<longleftrightarrow> (\<forall>k<MAX_TASK_COUNT. load_ok (wio w) k (wtask w k))"

lemma inflight_unlinked:
  assumes "\<And>x. unlinked_req (io_req t' x) = unlinked_req (io_req t x)"
  shows "inflight t' g = inflight t g"
  using unlinked_req_fields [OF assms] used_bytes_unlinked(2) [OF assms] by (simp add: inflight_def)

lemma inflight_released:
  assumes "x \<in> in_use t"
  shows "inflight t g = inflight (released q [x] t) g + (if \<not> demand_read (io_req t x) \<and> r_task_id (io_req t x) = g then unat (r_length (io_req t x)) else 0)"
proof -
  define A where "A = {y. y \<in> in_use t \<and> \<not> demand_read (io_req t y) \<and> r_task_id (io_req t y) = g}"
  have A: "finite A" using finite_in_use [of t] by (simp add: A_def)
  have "{y. y \<in> in_use (released q [x] t) \<and> \<not> demand_read (io_req (released q [x] t) y) \<and> r_task_id (io_req (released q [x] t) y) = g} = A - {x}"
    by (auto simp: A_def in_use_def released_def split: if_splits)
  then have "inflight (released q [x] t) g = (\<Sum>y\<in>A - {x}. unat (r_length (io_req t y)))"
    unfolding inflight_def by (auto simp: released_def intro!: sum.cong)
  moreover have "inflight t g = (\<Sum>y\<in>A. unat (r_length (io_req t y)))" by (simp add: inflight_def A_def)
  ultimately show ?thesis using A assms by (cases "x \<in> A") (auto simp: sum.remove A_def)
qed

lemma expire_tasks: "same_identity (wtask w j) (wtask (expire_req now w r) j)" "done_io_offset (wtask (expire_req now w r) j) = done_io_offset (wtask w j)"
  "requested_io_offset (wtask (expire_req now w r) j) = requested_io_offset (wtask w j)"
  by (auto simp: expire_req_def Let_def same_identity_def)

lemma expire_req_fields:
  "r_task_id (io_req (wio (expire_req now w r)) x) = r_task_id (io_req (wio w) x)"
  "demand_read (io_req (wio (expire_req now w r)) x) = demand_read (io_req (wio w) x)"
  "r_length (io_req (wio (expire_req now w r)) x) = r_length (io_req (wio w) x)"
  by (auto simp: expire_req_def upd_req_def Let_def)

lemma release_tasks [simp]: "wtask (release_req w turn r) j = wtask w j"
  by (simp add: release_req_def upd_req_def wtask_def Let_def)

lemma reclaim_step_loads:
  assumes l: "loads_ok w" and x: "x \<in> in_use (wio w)" and c: "complete_io (expire_req now w x) x = Some w2"
  shows "loads_ok (release_req w2 turn x)"
  unfolding loads_ok_def
proof (intro allI impI)
  fix j assume j: "j < MAX_TASK_COUNT"
  let ?io = "io_req (wio w) x"
  have io3: "wio (release_req w2 turn x) = released turn [x] (wio w)"
    by (rule release_expired) (use complete_io_frame [OF c] in simp)
  have id: "same_identity (wtask w j) (wtask w2 j)" "requested_io_offset (wtask w2 j) = requested_io_offset (wtask w j)"
    using complete_io_tasks [OF c] expire_tasks [where w = w and j = j and now = now and r = x] same_identity_trans by metis+
  have dn: "done_io_offset (wtask w2 j) = done_io_offset (wtask w j)
      \<or> j = TASK_POOL_INDEX (r_task_id ?io) \<and> \<not> demand_read ?io \<and> r_task_id ?io \<noteq> TASK_ID_NONE \<and> generation_id (wtask w j) = r_task_id ?io \<and> done_io_offset (wtask w2 j) = done_io_offset (wtask w j) + r_length ?io"
  proof -
    have g: "generation_id (wtask (expire_req now w x) j) = generation_id (wtask w j)" using expire_tasks(1) [of w j now x] by (simp add: same_identity_def)
    show ?thesis using conjunct2 [OF complete_io_tasks [OF c], rule_format, of j] g by (auto simp: expire_req_fields TASK_GEN_VALID_def expire_tasks(2))
  qed
  have lj: "load_ok (wio w) j (wtask w j)" using l j by (simp add: loads_ok_def)
  note fl = inflight_released [OF x, of "generation_id (wtask w j)" turn]
  show "load_ok (wio (release_req w2 turn x)) j (wtask (release_req w2 turn x) j)" unfolding io3 release_tasks
  proof (cases "done_io_offset (wtask w2 j) = done_io_offset (wtask w j)")
    case True
    then show "load_ok (released turn [x] (wio w)) j (wtask w2 j)" using lj id fl by (auto simp: load_ok_def same_identity_def split: if_splits)
  next
    case False
    then have d: "\<not> demand_read ?io" "r_task_id ?io \<noteq> TASK_ID_NONE" "generation_id (wtask w j) = r_task_id ?io" "done_io_offset (wtask w2 j) = done_io_offset (wtask w j) + r_length ?io" using dn by auto
    have "unat (done_io_offset (wtask w j) + r_length ?io) \<le> unat (done_io_offset (wtask w j)) + unat (r_length ?io)" by (simp add: unat_word_ariths)
    then show "load_ok (released turn [x] (wio w)) j (wtask w2 j)" using lj id fl d by (auto simp: load_ok_def same_identity_def)
  qed
qed


text \<open>What the helper thread leaves alone.\<close>

definition helper_keeps :: "csd_world \<Rightarrow> csd_world \<Rightarrow> bool" where
  "helper_keeps w w' \<longleftrightarrow> wtt w' = wtt w \<and> wdef w' = wdef w \<and> (\<forall>j. same_identity (wtask w j) (wtask w' j))"

lemma helper_keeps_refl [simp]: "helper_keeps w w"
  by (simp add: helper_keeps_def)

lemma helper_keeps_trans: "helper_keeps a b \<Longrightarrow> helper_keeps b c \<Longrightarrow> helper_keeps a c"
  unfolding helper_keeps_def by (metis same_identity_trans)

lemma expire_keeps: "helper_keeps w (expire_req now w r)"
  using expire_tasks(1) [of w _ now r] by (auto simp: helper_keeps_def expire_req_def Let_def)

lemma complete_keeps: "complete_io w r = Some w' \<Longrightarrow> helper_keeps w w'"
  using complete_io_frame complete_io_tasks by (simp add: helper_keeps_def)

lemma release_keeps: "helper_keeps w (release_req w turn r)"
  by (simp add: helper_keeps_def) (simp add: release_req_def Let_def)

lemma reclaim_from_loads:
  assumes "reclaim_from now turn w cur le = Some (w', le')" and "linked (io_req (wio w)) cur Q" and "distinct Q"
    and "set Q \<subseteq> in_use (wio w)" and "loads_ok w"
  shows "loads_ok w' \<and> helper_keeps w w'"
  using assms
proof (induction Q arbitrary: w cur le)
  case Nil
  then show ?case by (simp add: reclaim_from.simps [of now turn w None])
next
  case (Cons x Q)
  have cur: "cur = Some x" using Cons.prems(2) by simp
  let ?w1 = "expire_req now w x"
  show ?case
  proof (cases "io_req_status (io_req (wio ?w1) x) = CSD_INTERNAL_IO_REQ_DONE")
    case False
    then show ?thesis using Cons.prems(1,5) expire_idle [OF False] by (simp add: reclaim_from.simps [of now turn w "Some x"] cur Let_def)
  next
    case True
    then obtain w2 where w2: "complete_io ?w1 x = Some w2"
      and rec: "reclaim_from now turn (release_req w2 turn x) (r_next (io_req (wio w2) x)) (Some x) = Some (w', le')"
      using Cons.prems(1) by (auto simp: reclaim_from.simps [of now turn w "Some x"] cur Let_def split: Option.bind_splits)
    have io2: "wio w2 = wio ?w1" using complete_io_frame [OF w2] by simp
    note io3 = release_expired [OF io2, of turn]
    have "linked (io_req (wio (release_req w2 turn x))) (r_next (io_req (wio w2) x)) Q"
      using Cons.prems(2) linked_cong [of Q "io_req (released turn [x] (wio w))" "io_req (wio w)"] released_next
      unfolding io3 by (simp add: io2 expire_next)
    moreover have "set Q \<subseteq> in_use (wio (release_req w2 turn x))" using Cons.prems(3,4) unfolding io3 by (auto simp: in_use_def released_def)
    moreover have "loads_ok (release_req w2 turn x)" using reclaim_step_loads [OF Cons.prems(5) _ w2] Cons.prems(4) by simp
    ultimately have "loads_ok w' \<and> helper_keeps (release_req w2 turn x) w'" using Cons.IH [OF rec] Cons.prems(3) by simp
    moreover have "helper_keeps w (release_req w2 turn x)"
      using helper_keeps_trans [OF helper_keeps_trans [OF expire_keeps complete_keeps [OF w2]] release_keeps] .
    ultimately show ?thesis using helper_keeps_trans by blast
  qed
qed

lemma loads_ok_unlinked:
  assumes "\<And>x. unlinked_req (io_req (wio w') x) = unlinked_req (io_req (wio w) x)" and "\<And>j. wtask w' j = wtask w j"
  shows "loads_ok w' = loads_ok w"
  using inflight_unlinked [OF assms(1)] assms(2) by (simp add: loads_ok_def load_ok_def)

lemma reclaim_list_effect:
  assumes i: "io_inv n (wio w) F [] S" and turn: "turn < n" and r: "reclaim_list now w turn = Some w'"
  shows "\<exists>P Q w1 le. reclaim_from now turn w (lhead (slm_list (wio w) turn)) None = Some (w1, le) \<and> S turn = P @ Q \<and> wio w1 = released turn P (wio w)
    \<and> (\<forall>x\<in>set P. ripe now (wio w) x) \<and> (Q \<noteq> [] \<longrightarrow> \<not> ripe now (wio w) (hd Q)) \<and> w' = w1\<lparr>wio := wio w'\<rparr>
    \<and> io_inv n (wio w') (F @ P) [] (S(turn := Q)) \<and> enqueuing_io_size (wio w') = enqueuing_io_size (released turn P (wio w))
    \<and> (\<forall>x. unlinked_req (io_req (wio w') x) = unlinked_req (io_req (released turn P (wio w)) x))"
proof -
  let ?t = "wio w"
  have q: "linked (io_req ?t) (lhead (slm_list ?t turn)) (S turn)" using i turn by (simp add: io_inv_def queue_rep_def)
  have dist: "distinct (S turn)" using io_inv_parts(1) [OF i turn] .
  obtain w1 le where f: "reclaim_from now turn w (lhead (slm_list ?t turn)) None = Some (w1, le)"
    and w': "(case (lhead (slm_list ?t turn), le) of (Some f, Some e) \<Rightarrow> map_option (\<lambda>t. w1\<lparr>wio := t\<rparr>) (cut_list (wio w1) turn f e) | _ \<Rightarrow> Some w1) = Some w'"
    using r by (auto simp: reclaim_list_def Let_def split: Option.bind_splits)
  obtain P Q where P: "S turn = P @ Q" "le = (if P = [] then None else Some (last P))" "wio w1 = released turn P ?t"
    and ripe: "\<forall>x\<in>set P. ripe now ?t x" "Q \<noteq> [] \<longrightarrow> \<not> ripe now ?t (hd Q)"
    using reclaim_from_effect [OF f q dist] by blast
  show ?thesis
  proof (cases "P = []")
    case True
    then have "w' = w1" using w' P(2) by (simp split: option.splits)
    then show ?thesis using f P ripe i True by (intro exI [of _ P] exI [of _ Q] exI [of _ w1] exI [of _ le]) (simp add: released_Nil fun_upd_idem)
  next
    case False
    have h: "lhead (slm_list ?t turn) = Some (hd P)" using q P(1) False by (cases P) auto
    obtain t' where t': "cut_list (released turn P ?t) turn (hd P) (last P) = Some t'" "io_inv n t' (F @ P) [] (S(turn := Q))"
        "enqueuing_io_size t' = enqueuing_io_size (released turn P ?t)" "\<forall>x. unlinked_req (io_req t' x) = unlinked_req (io_req (released turn P ?t) x)"
      using cut_list_inv [OF i turn P(1) False] by blast
    have "w' = w1\<lparr>wio := t'\<rparr>" using w' h P(2,3) False t'(1) by simp
    then show ?thesis using f P ripe t' by (intro exI [of _ P] exI [of _ Q] exI [of _ w1] exI [of _ le]) simp
  qed
qed

lemma reclaim_list_ok:
  assumes r: "reclaim_list now w turn = Some w'" and ok: "io_ok w" "loads_ok w" and turn: "turn < num_slm_resources (wtt w)"
  shows "io_ok w' \<and> loads_ok w' \<and> helper_keeps w w'"
proof -
  let ?n = "num_slm_resources (wtt w)" and ?t = "wio w"
  obtain F S where i: "io_inv ?n ?t F [] S" and sz: "enqueuing_io_size ?t = used_bytes ?t" using ok(1) by (auto simp: io_ok_def)
  have q: "linked (io_req ?t) (lhead (slm_list ?t turn)) (S turn)" using i turn by (simp add: io_inv_def queue_rep_def)
  have dist: "distinct (S turn)" using io_inv_parts(1) [OF i turn] .
  have use: "set (S turn) \<subseteq> in_use ?t" using io_inv_in_use [OF i] queued_part [OF turn] by auto
  obtain P Q w1 le where f: "reclaim_from now turn w (lhead (slm_list ?t turn)) None = Some (w1, le)" and P: "S turn = P @ Q" "wio w1 = released turn P ?t"
    and w': "w' = w1\<lparr>wio := wio w'\<rparr>" "io_inv ?n (wio w') (F @ P) [] (S(turn := Q))" "enqueuing_io_size (wio w') = enqueuing_io_size (released turn P ?t)"
    and u: "\<And>x. unlinked_req (io_req (wio w') x) = unlinked_req (io_req (released turn P ?t) x)"
    using reclaim_list_effect [OF i turn r] by blast
  have l1: "loads_ok w1" "helper_keeps w w1" using reclaim_from_loads [OF f q dist use ok(2)] by auto
  have same: "wtt w' = wtt w1" "wdef w' = wdef w1" "wtask w' j = wtask w1 j" for j by (subst w'(1), simp add: wtask_def)+
  have "distinct P" "set P \<subseteq> in_use ?t" using dist use P(1) by auto
  from used_bytes_released [OF this, of turn] have "enqueuing_io_size (wio w') = used_bytes (wio w')"
    using w'(3) used_bytes_unlinked(1) [OF u] sz by (simp add: released_def)
  then have "io_ok w'" using w'(2) l1(2) same(1) by (auto simp: io_ok_def helper_keeps_def)
  moreover have "loads_ok w' = loads_ok w1" by (rule loads_ok_unlinked) (simp_all add: u P(2) same)
  ultimately show ?thesis using l1 same by (simp add: helper_keeps_def)
qed

lemma reclaim_lists_ok:
  "reclaim_lists now w turn n = Some w' \<Longrightarrow> io_ok w \<Longrightarrow> loads_ok w \<Longrightarrow> turn + n \<le> num_slm_resources (wtt w) \<Longrightarrow> io_ok w' \<and> loads_ok w' \<and> helper_keeps w w'"
proof (induction now w turn n rule: reclaim_lists.induct)
  case (2 now w turn n)
  then obtain w1 where w1: "reclaim_list now w turn = Some w1" "reclaim_lists now w1 (Suc turn) n = Some w'" by (auto split: Option.bind_splits)
  have k: "io_ok w1 \<and> loads_ok w1 \<and> helper_keeps w w1" using reclaim_list_ok [OF w1(1) 2(3,4)] 2(5) by simp
  then have "io_ok w' \<and> loads_ok w' \<and> helper_keeps w1 w'" using 2(1) [OF w1] 2(5) by (simp add: helper_keeps_def)
  then show ?case using k helper_keeps_trans by blast
qed simp

text \<open>A change of a task that keeps its identity, its offsets and the requests.\<close>

lemma upd_task_ok:
  assumes "same_identity (wtask w k) (f (wtask w k))" "done_io_offset (f (wtask w k)) = done_io_offset (wtask w k)"
    "requested_io_offset (f (wtask w k)) = requested_io_offset (wtask w k)"
  shows "io_ok w \<Longrightarrow> io_ok (upd_task w k f)" "loads_ok w \<Longrightarrow> loads_ok (upd_task w k f)" "helper_keeps w (upd_task w k f)"
  using assms by (auto simp: io_ok_def loads_ok_def load_ok_def helper_keeps_def same_identity_def)

definition keeps_ok :: "csd_world \<Rightarrow> csd_world \<Rightarrow> bool" where
  "keeps_ok w w' \<longleftrightarrow> (io_ok w \<and> loads_ok w \<longrightarrow> io_ok w' \<and> loads_ok w' \<and> helper_keeps w w')"

lemma keeps_ok_refl [simp]: "keeps_ok w w"
  by (simp add: keeps_ok_def)

lemma keeps_ok_trans: "keeps_ok a b \<Longrightarrow> keeps_ok b c \<Longrightarrow> keeps_ok a c"
  unfolding keeps_ok_def using helper_keeps_trans by blast

lemma upd_task_keeps_ok:
  assumes "same_identity (wtask w k) (f (wtask w k))" "done_io_offset (f (wtask w k)) = done_io_offset (wtask w k)"
    "requested_io_offset (f (wtask w k)) = requested_io_offset (wtask w k)"
  shows "keeps_ok w (upd_task w k f)"
  using upd_task_ok [of w k f] assms by (simp add: keeps_ok_def)

lemma finish_loads_keeps: "finish_loads_from w cur = Some w' \<Longrightarrow> keeps_ok w w'"
proof (erule finish_loads_from.raw_induct [rotated])
  fix f w cur w'
  assume IH: "\<And>w cur w'. f w cur = Some w' \<Longrightarrow> keeps_ok w w'"
    and b: "(case cur of None \<Rightarrow> Some w
      | Some k \<Rightarrow>
          (let t = wtask w k;
               w1 = (if task_step t = CCSD_TASK_SCHEDULE \<and> done_io_offset t \<ge> total_size t
                     then upd_task w k (\<lambda>t. t\<lparr>task_step := CCSD_TASK_END\<rparr>) else w)
           in f w1 (t_next (wtask w1 k)))) = Some w'"
  show "keeps_ok w w'"
  proof (cases cur)
    case (Some k)
    define w1 where "w1 = (if task_step (wtask w k) = CCSD_TASK_SCHEDULE \<and> done_io_offset (wtask w k) \<ge> total_size (wtask w k)
                     then upd_task w k (\<lambda>t. t\<lparr>task_step := CCSD_TASK_END\<rparr>) else w)"
    have "keeps_ok w w1" unfolding w1_def by (auto intro!: upd_task_keeps_ok simp: same_identity_def)
    moreover have "keeps_ok w1 w'" using b Some by (intro IH) (simp add: Let_def w1_def)
    ultimately show ?thesis by (rule keeps_ok_trans)
  qed (use b in simp)
qed

lemma reclaim_io_req_keeps: "reclaim_io_req now w = Some w' \<Longrightarrow> keeps_ok w w'"
proof -
  assume "reclaim_io_req now w = Some w'"
  then obtain w1 where w1: "reclaim_lists now w 0 (num_slm_resources (wtt w)) = Some w1" "finish_loads_from w1 (copy_list_head w1) = Some w'"
    by (auto simp: reclaim_io_req_def split: Option.bind_splits)
  have "keeps_ok w w1" using reclaim_lists_ok [OF w1(1)] by (simp add: keeps_ok_def)
  then show ?thesis using finish_loads_keeps [OF w1(2)] by (rule keeps_ok_trans)
qed

subsection \<open>Issuing\<close>

lemma sre_find_Some: "sre_find es off = (Some e, l) \<Longrightarrow> l < ucast (nByte e)"
  by (induction es off rule: sre_find.induct) (auto split: if_splits)

lemma calculate_io_size_le:
  assumes "calculate_io_size sre off io = Some sz" and "unat io \<le> 2 ^ 19"
  shows "unat sz \<le> 2 ^ 19 + 511"
proof -
  define a where "a = (if io mod 512 \<noteq> 0 then (io + 512 - 1) AND NOT (512 - 1) else io)"
  have "unat (io + 512 - 1) \<le> unat io + 511" by (simp add: unat_word_ariths)
  moreover have "(io + 512 - 1) AND NOT (512 - 1) \<le> io + 512 - 1" by (rule word_and_le2)
  ultimately have a: "unat a \<le> 2 ^ 19 + 511" using assms(2) by (auto simp: a_def word_le_nat_alt)
  consider (whole) "sz = a" | (first) e :: source_range_entry where "\<not> a < ucast (nByte e)" "sz = ucast (nByte e)" | (none) "sz = 0"
    | (cut) e :: source_range_entry and l where "l < ucast (nByte e)" "l + a > ucast (nByte e)" "sz = ucast (nByte e) - l"
  proof (cases "off = 0")
    case True
    then obtain e es where "sre = e # es" using assms(1) by (cases sre) (auto simp: calculate_io_size_def)
    then have "sz = (if a < ucast (nByte e) then a else ucast (nByte e))"
      using assms(1) True unfolding calculate_io_size_def Let_def a_def [symmetric] by simp
    then show thesis using whole first [of e] by (cases "a < ucast (nByte e)") auto
  next
    case False
    obtain f l where f: "sre_find sre off = (f, l)" by fastforce
    show thesis
    proof (cases f)
      case None
      then show thesis using assms(1) False f none unfolding calculate_io_size_def Let_def by simp
    next
      case (Some e)
      have "sz = (if l + a > ucast (nByte e) then ucast (nByte e) - l else a)"
        using assms(1) False f Some unfolding calculate_io_size_def Let_def a_def [symmetric] by simp
      then show thesis using whole cut [of l e] sre_find_Some [of sre off e l] f Some by (cases "l + a > ucast (nByte e)") auto
    qed
  qed
  then show ?thesis
  proof cases
    case (cut e l)
    have "unat (ucast (nByte e) :: u64) \<le> unat (nByte e)" by (simp add: unsigned_ucast_eq take_bit_nat_less_eq_self)
    then have "unat l < 2 ^ 32" using cut(1) unsigned_less [of "nByte e", where ?'a = nat] by (simp add: word_less_nat_alt)
    then have "unat (l + a) = unat l + unat a" using a by (subst unat_add_lem [THEN iffD1]) simp_all
    moreover have "unat sz = unat (ucast (nByte e) :: u64) - unat l" using cut by (simp add: unat_sub word_le_nat_alt word_less_nat_alt)
    ultimately show ?thesis using cut(2) a by (simp add: word_less_nat_alt)
  qed (use a in \<open>auto simp: word_less_nat_alt\<close>)
qed

lemma circular_io_size_le: "unat (calculate_circular_io_size (Some i) off sz) \<le> unat sz"
  by (auto simp: calculate_circular_io_size_def Let_def word_less_nat_alt)

lemma inflight_insert:
  assumes r: "r < MAX_INTERNAL_IO_COUNT" "r \<notin> in_use t" and use: "in_use t' = insert r (in_use t)"
    and same: "\<And>x. x \<noteq> r \<Longrightarrow> unlinked_req (io_req t' x) = unlinked_req (io_req t x)"
  shows "inflight t' g = inflight t g + (if \<not> demand_read (io_req t' r) \<and> r_task_id (io_req t' r) = g then unat (r_length (io_req t' r)) else 0)"
    and "used_bytes t' = used_bytes t + r_length (io_req t' r)"
proof -
  define A where "A = {y. y \<in> in_use t \<and> \<not> demand_read (io_req t y) \<and> r_task_id (io_req t y) = g}"
  let ?c = "\<not> demand_read (io_req t' r) \<and> r_task_id (io_req t' r) = g"
  have A: "finite A" "r \<notin> A" using finite_in_use [of t] r(2) by (simp_all add: A_def)
  have s: "r_length (io_req t' x) = r_length (io_req t x)" "r_task_id (io_req t' x) = r_task_id (io_req t x)" "demand_read (io_req t' x) = demand_read (io_req t x)" if "x \<in> in_use t" for x
    using unlinked_req_fields [OF same, of x] that r(2) by auto
  have "{y. y \<in> in_use t' \<and> \<not> demand_read (io_req t' y) \<and> r_task_id (io_req t' y) = g} = (if ?c then insert r A else A)"
    using s r(2) by (auto simp: A_def use)
  then have "inflight t' g = (\<Sum>y\<in>(if ?c then insert r A else A). unat (r_length (io_req t' y)))" by (simp add: inflight_def)
  also have "\<dots> = (\<Sum>y\<in>A. unat (r_length (io_req t' y))) + (if ?c then unat (r_length (io_req t' r)) else 0)" using A by simp
  also have "(\<Sum>y\<in>A. unat (r_length (io_req t' y))) = inflight t g" unfolding inflight_def A_def using s by (intro sum.cong) auto
  finally show "inflight t' g = inflight t g + (if ?c then unat (r_length (io_req t' r)) else 0)" .
  have "used_bytes t' = (\<Sum>x\<in>insert r (in_use t). r_length (io_req t' x))" by (simp add: used_bytes_in_use use)
  also have "\<dots> = r_length (io_req t' r) + (\<Sum>x\<in>in_use t. r_length (io_req t' x))" using r(2) by simp
  also have "(\<Sum>x\<in>in_use t. r_length (io_req t' x)) = used_bytes t" unfolding used_bytes_in_use using s by (intro sum.cong) auto
  finally show "used_bytes t' = used_bytes t + r_length (io_req t' r)" by simp
qed


lemma fill_req_effect:
  assumes f: "fill_req w k r i lba off sz demand issued ret = Some w1" and inv: "io_inv n (wio w) (r # F) [] S"
  shows "io_inv n (wio w1) F [r] S \<and> r_next (io_req (wio w1) r) = None \<and> enqueuing_io_size (wio w1) = enqueuing_io_size (wio w) + sz
    \<and> (\<forall>x. x \<noteq> r \<longrightarrow> unlinked_req (io_req (wio w1) x) = unlinked_req (io_req (wio w) x))
    \<and> r_length (io_req (wio w1) r) = sz \<and> r_task_id (io_req (wio w1) r) = generation_id (wtask w k) \<and> demand_read (io_req (wio w1) r) = (demand \<noteq> -1)
    \<and> wtt w1 = wtt w \<and> wdef w1 = wdef w
    \<and> (\<forall>j. same_identity (wtask w j) (wtask w1 j) \<and> done_io_offset (wtask w1 j) = done_io_offset (wtask w j)
         \<and> requested_io_offset (wtask w1 j) = (if j = k \<and> demand = -1 then requested_io_offset (wtask w j) + sz else requested_io_offset (wtask w j)))"
proof -
  obtain t1 where t1: "take_io_req (wio w) r = Some t1" "io_inv n t1 F [r] S" "enqueuing_io_size t1 = enqueuing_io_size (wio w)"
    and un: "\<And>x. x \<noteq> r \<Longrightarrow> unlinked_req (io_req t1 x) = unlinked_req (io_req (wio w) x)"
    using take_io_req_inv [OF inv] by auto
  define io where "io = (io_req t1 r)\<lparr>r_task_id := generation_id (wtask w k),
              buf_addr := io_target i (input_buf_addr (wtask w k)) demand issued off,
              r_local_offset := calculate_local_offset (sres i) off, r_lba := lba, r_length := sz,
              stream_offset := off, r_prev := None, r_next := None, r_nsecs_nand_start := nsecs_nand_start ret,
              r_nsecs_target := nsecs_target ret, demand_read := (demand \<noteq> -1)\<rparr>"
  define t2 where "t2 = t1\<lparr>io_req := (io_req t1)(r := io), enqueuing_io_size := enqueuing_io_size t1 + sz\<rparr>"
  define w2 where "w2 = upd_task (w\<lparr>wio := t2\<rparr>) k (\<lambda>t. t\<lparr>internal_io_count := internal_io_count t + 1\<rparr>)"
  have w1: "(if demand \<noteq> -1
       then if issued = 0
            then map_option (put_slm w2)
                   (notify_slm_demand_read_requested (wslm w2) (if extent_mapped i then input_buf_addr (wtask w k) else input_buf_addr (wtask w k) + demand))
            else Some w2
       else Some (upd_task w2 k (\<lambda>t. t\<lparr>requested_io_offset := requested_io_offset t + sz\<rparr>))) = Some w1"
    using f unfolding fill_req_def t1(1) Option.bind.bind_lunit Let_def io_def [symmetric] t2_def [symmetric] w2_def [symmetric] .
  have fr: "wio w1 = t2" "wtt w1 = wtt w" "wdef w1 = wdef w" using w1 by (auto simp: w2_def split: if_splits)
  have "io_inv n t2 F [r] S"
    by (rule io_inv_cong [OF t1(2)]) (use t1(2) in \<open>auto simp: t2_def io_def io_inv_def\<close>)
  moreover have "wtask w2 j = (if j = k then (wtask w k)\<lparr>internal_io_count := internal_io_count (wtask w k) + 1\<rparr> else wtask w j)" for j
    by (simp add: w2_def) (simp add: wtask_def)
  then have "same_identity (wtask w j) (wtask w1 j) \<and> done_io_offset (wtask w1 j) = done_io_offset (wtask w j)
      \<and> requested_io_offset (wtask w1 j) = (if j = k \<and> demand = -1 then requested_io_offset (wtask w j) + sz else requested_io_offset (wtask w j))" for j
    using w1 notify_tasks(4) by (auto simp: same_identity_def wtask_def [symmetric] split: if_splits)
  ultimately show ?thesis using fr t1(3) un by (auto simp: t2_def io_def)
qed

lemma queue_req_effect:
  assumes q: "queue_req w k r i off sz issued target = Some w'" and inv: "io_inv n (wio w) F [r] S" "r_next (io_req (wio w) r) = None"
    and n: "n = num_slm_resources (wtt w)"
  shows "\<exists>S'. io_inv n (wio w') F [] S' \<and> enqueuing_io_size (wio w') = enqueuing_io_size (wio w)
    \<and> (\<forall>x. x \<noteq> r \<longrightarrow> unlinked_req (io_req (wio w') x) = unlinked_req (io_req (wio w) x))
    \<and> r_length (io_req (wio w') r) = r_length (io_req (wio w) r) \<and> r_task_id (io_req (wio w') r) = r_task_id (io_req (wio w) r)
    \<and> demand_read (io_req (wio w') r) = demand_read (io_req (wio w) r) \<and> wslm w' = wslm w \<and> wtt w' = wtt w \<and> wdef w' = wdef w"
proof -
  obtain l sl t1 where t1: "enqueue_slm_work n (wio (upd_req w r (\<lambda>io. io\<lparr>sequential_last_io := sl, last_io := l\<rparr>))) r = Some t1"
    and w': "w' = upd_req ((upd_req w r (\<lambda>io. io\<lparr>sequential_last_io := sl, last_io := l\<rparr>))\<lparr>wio := t1\<rparr>) r (\<lambda>io. io\<lparr>io_req_status := CSD_INTERNAL_IO_REQ_READY\<rparr>)"
    using q n by (auto simp: queue_req_def Let_def split: Option.bind_splits)
  let ?t = "wio (upd_req w r (\<lambda>io. io\<lparr>sequential_last_io := sl, last_io := l\<rparr>))"
  have "io_inv n ?t F [r] S" by (rule io_inv_cong [OF inv(1)]) (use inv(1) in \<open>auto simp: upd_req_def io_inv_def\<close>)
  moreover have "r_next (io_req ?t r) = None" using inv(2) by (simp add: upd_req_def)
  ultimately obtain q where e: "enqueuing_io_size t1 = enqueuing_io_size ?t" "\<And>x. unlinked_req (io_req t1 x) = unlinked_req (io_req ?t x)"
    "io_inv n (t1\<lparr>io_req := (io_req t1)(r := (io_req t1 r)\<lparr>io_req_status := CSD_INTERNAL_IO_REQ_READY\<rparr>)\<rparr>) F [] (S(q := S q @ [r]))"
    using enqueue_slm_work_inv [of n ?t F r S] t1 by auto
  have "wio w' = t1\<lparr>io_req := (io_req t1)(r := (io_req t1 r)\<lparr>io_req_status := CSD_INTERNAL_IO_REQ_READY\<rparr>)\<rparr>" by (simp add: w' upd_req_def)
  moreover have "wslm w' = wslm w \<and> wtt w' = wtt w \<and> wdef w' = wdef w" by (simp add: w' upd_req_def)
  ultimately show ?thesis using e(1,3) e(2) unlinked_req_fields [OF e(2) [of r]] by (auto simp: upd_req_def)
qed


lemma load_ok_issue:
  assumes l: "load_ok t j tj" "load_ok t k tk" and jk: "j = k \<Longrightarrow> tj = tk" and id: "same_identity tj tj'" "done_io_offset tj' = done_io_offset tj"
    and req: "requested_io_offset tj' = (if j = k \<and> demand = -1 then requested_io_offset tj + sz else requested_io_offset tj)"
    and fl: "inflight t' (generation_id tj) = inflight t (generation_id tj) + (if demand = -1 \<and> generation_id tk = generation_id tj then unat sz else 0)"
    and room: "demand = -1 \<longrightarrow> unat (requested_io_offset tk) + unat sz \<le> unat (total_size tk) + 2 ^ 20"
  shows "load_ok t' j tj'"
proof -
  have g: "generation_id tk = generation_id tj \<longleftrightarrow> j = k" if n: "generation_id tj \<noteq> TASK_ID_NONE"
  proof
    assume e: "generation_id tk = generation_id tj"
    have "TASK_POOL_INDEX (generation_id tj) = j" using l(1) n by (simp add: load_ok_def)
    moreover have "TASK_POOL_INDEX (generation_id tk) = k" using l(2) n e by (simp add: load_ok_def)
    ultimately show "j = k" using e by simp
  qed (use jk in simp)
  show ?thesis
  proof (cases "j = k \<and> demand = -1")
    case True
    then have "unat (requested_io_offset tj + sz) = unat (requested_io_offset tj) + unat sz"
      using room l(1) jk by (subst unat_add_lem [THEN iffD1]) (auto simp: load_ok_def)
    then show ?thesis using True l(1) id req fl room g jk by (auto simp: load_ok_def same_identity_def)
  next
    case False
    then show ?thesis using l(1) id req fl g by (auto simp: load_ok_def same_identity_def)
  qed
qed

text \<open>One request: both invariants hold again when there is room for a sequential one.\<close>

lemma issue_one_ok:
  assumes ok: "io_ok w" "loads_ok w" and r: "lhead (io_free_list (wio w)) = Some r" and k: "k < MAX_TASK_COUNT"
    and f: "fill_req w k r i lba off sz demand issued ret = Some w1" and q: "queue_req w1 k r i off sz issued' target = Some w2"
    and room: "demand = -1 \<longrightarrow> unat (requested_io_offset (wtask w k)) + unat sz \<le> unat (total_size (wtask w k)) + 2 ^ 20"
  shows "io_ok w2 \<and> loads_ok w2 \<and> helper_keeps w w2
    \<and> requested_io_offset (wtask w2 k) = (if demand = -1 then requested_io_offset (wtask w k) + sz else requested_io_offset (wtask w k))"
proof -
  let ?n = "num_slm_resources (wtt w)"
  obtain F' S where inv': "io_inv ?n (wio w) F' [] S" and sz: "enqueuing_io_size (wio w) = used_bytes (wio w)" using ok(1) by (auto simp: io_ok_def)
  then obtain F where inv: "io_inv ?n (wio w) (r # F) [] S" using r by (cases F') (auto simp: io_inv_def queue_rep_def)
  note e1 = fill_req_effect [OF f inv]
  have e1': "io_inv ?n (wio w1) F [r] S" "r_next (io_req (wio w1) r) = None" "wtt w1 = wtt w" "wdef w1 = wdef w" "r_length (io_req (wio w1) r) = sz"
      "r_task_id (io_req (wio w1) r) = generation_id (wtask w k)" "demand_read (io_req (wio w1) r) = (demand \<noteq> -1)" using e1 by blast+
  obtain S' where e2: "io_inv ?n (wio w2) F [] S'" "enqueuing_io_size (wio w2) = enqueuing_io_size (wio w1)"
      "\<And>x. x \<noteq> r \<Longrightarrow> unlinked_req (io_req (wio w2) x) = unlinked_req (io_req (wio w1) x)"
      "r_length (io_req (wio w2) r) = sz" "r_task_id (io_req (wio w2) r) = generation_id (wtask w k)" "demand_read (io_req (wio w2) r) = (demand \<noteq> -1)"
      "wslm w2 = wslm w1" "wtt w2 = wtt w" "wdef w2 = wdef w"
    using queue_req_effect [OF q e1'(1,2)] e1'(3-7) by auto
  have un: "unlinked_req (io_req (wio w2) x) = unlinked_req (io_req (wio w) x)" if "x \<noteq> r" for x using e1 e2(3) [OF that] that by simp
  have rr: "r < MAX_INTERNAL_IO_COUNT" "r \<notin> in_use (wio w)" using inv by (auto simp: io_inv_def in_use_def)
  have "set (F @ queued ?n S') = {..<MAX_INTERNAL_IO_COUNT}" "r \<notin> set F" using e2(1) inv by (auto simp: io_inv_def)
  then have "r \<in> in_use (wio w2)" using rr(1) io_inv_in_use [OF e2(1)] by auto
  then have use: "in_use (wio w2) = insert r (in_use (wio w))" using unlinked_req_fields(1) [OF un] by (auto simp: in_use_def) metis+
  note fl = inflight_insert [OF rr use un]
  have "io_ok w2" using e2(1,2,4,8) e1 sz fl(2) by (auto simp: io_ok_def)
  moreover have tk: "same_identity (wtask w j) (wtask w2 j)" "done_io_offset (wtask w2 j) = done_io_offset (wtask w j)"
      "requested_io_offset (wtask w2 j) = (if j = k \<and> demand = -1 then requested_io_offset (wtask w j) + sz else requested_io_offset (wtask w j))" for j
  proof -
    have e: "wtask w2 j = wtask w1 j" by (simp add: wtask_def e2(7))
    have h: "\<forall>j. same_identity (wtask w j) (wtask w1 j) \<and> done_io_offset (wtask w1 j) = done_io_offset (wtask w j)
         \<and> requested_io_offset (wtask w1 j) = (if j = k \<and> demand = -1 then requested_io_offset (wtask w j) + sz else requested_io_offset (wtask w j))"
      using e1 by blast
    show "same_identity (wtask w j) (wtask w2 j)" "done_io_offset (wtask w2 j) = done_io_offset (wtask w j)"
      "requested_io_offset (wtask w2 j) = (if j = k \<and> demand = -1 then requested_io_offset (wtask w j) + sz else requested_io_offset (wtask w j))"
      unfolding e using h by blast+
  qed
  moreover have "load_ok (wio w2) j (wtask w2 j)" if j: "j < MAX_TASK_COUNT" for j
    by (rule load_ok_issue [of "wio w" j "wtask w j" k "wtask w k" _ demand sz]) (use ok(2) j k tk [of j] fl(1) room in \<open>auto simp: loads_ok_def e2(4,5,6)\<close>)
  ultimately show ?thesis using e2(8,9) by (simp add: loads_ok_def helper_keeps_def)
qed

text \<open>
  The loop over one round: for a sequential read what has been requested stays within the task.
\<close>

definition round_fits :: "csd_world \<Rightarrow> nat \<Rightarrow> u64 \<Rightarrow> u64 \<Rightarrow> u64 \<Rightarrow> u64 \<Rightarrow> bool" where
  "round_fits w k demand target io_size issued \<longleftrightarrow> (demand = -1 \<longrightarrow>
     unat (requested_io_offset (wtask w k)) + unat target \<le> unat (total_size (wtask w k)) + unat issued
     \<and> unat issued \<le> unat target \<and> unat target \<le> 2 ^ 19 \<and> unat io_size \<le> 2 ^ 19)"

lemma ns_keeps_ok: "keeps_ok w (w\<lparr>wns := ns\<rparr>)"
  by (simp add: keeps_ok_def io_ok_def loads_ok_def helper_keeps_def wtask_def)

lemma issue_one_round:
  assumes f: "fill_req w k r i lba off sz demand issued ret = Some w1" and q: "queue_req w1 k r i off sz (issued + sz) target = Some w2"
    and ok: "io_ok w" "loads_ok w" and r: "lhead (io_free_list (wio w)) = Some r" and k: "k < MAX_TASK_COUNT"
    and fits: "round_fits w k demand target io_size issued" and sz: "demand = -1 \<longrightarrow> unat sz \<le> 2 ^ 19 + 511"
  shows "io_ok w2 \<and> loads_ok w2 \<and> helper_keeps w w2 \<and> (issued + sz < target \<longrightarrow> round_fits w2 k demand target (target - (issued + sz)) (issued + sz))"
proof -
  have "demand = -1 \<longrightarrow> unat (requested_io_offset (wtask w k)) + unat sz \<le> unat (total_size (wtask w k)) + 2 ^ 20"
    using fits sz by (auto simp: round_fits_def)
  note o = issue_one_ok [OF ok r k f q this]
  have "round_fits w2 k demand target (target - (issued + sz)) (issued + sz)" if lt: "issued + sz < target"
    unfolding round_fits_def
  proof
    assume d: "demand = -1"
    have u: "unat (issued + sz) = unat issued + unat sz" using fits sz d by (subst unat_add_lem [THEN iffD1]) (auto simp: round_fits_def)
    have t: "unat (target - (issued + sz)) \<le> unat target" using lt by (simp add: unat_sub word_le_nat_alt word_less_nat_alt)
    have t': "unat (target - (issued + sz)) \<le> 2 ^ 19" using fits d by (intro order_trans [OF t]) (simp add: round_fits_def)
    have "unat (requested_io_offset (wtask w k) + sz) \<le> unat (requested_io_offset (wtask w k)) + unat sz" by (simp add: unat_word_ariths)
    moreover have "total_size (wtask w2 k) = total_size (wtask w k)" using o by (simp add: helper_keeps_def same_identity_def)
    ultimately show "unat (requested_io_offset (wtask w2 k)) + unat target \<le> unat (total_size (wtask w2 k)) + unat (issued + sz)
      \<and> unat (issued + sz) \<le> unat target \<and> unat target \<le> 2 ^ 19 \<and> unat (target - (issued + sz)) \<le> 2 ^ 19"
      using o fits d u lt by (intro conjI t') (auto simp: round_fits_def word_less_nat_alt)
  qed
  then show ?thesis using o by blast
qed

lemma issue_from_keeps:
  "issue_from prp now k demand target w r off io_size issued = Some w' \<Longrightarrow>
     k < MAX_TASK_COUNT \<longrightarrow> lhead (io_free_list (wio w)) = Some r \<longrightarrow> round_fits w k demand target io_size issued \<longrightarrow> keeps_ok w w'"
proof (erule issue_from.raw_induct [rotated])
  fix f prp now k demand target w r off io_size issued w'
  assume IH: "\<And>prp now k demand target w r off io_size issued w'. f prp now k demand target w r off io_size issued = Some w' \<Longrightarrow>
      k < MAX_TASK_COUNT \<longrightarrow> lhead (io_free_list (wio w)) = Some r \<longrightarrow> round_fits w k demand target io_size issued \<longrightarrow> keeps_ok w w'"
    and b: "do {
       (q, i) \<leftarrow> task_info w k;
       lba \<leftarrow> calculate_lba (sres i) off;
       sz0 \<leftarrow> calculate_io_size (sres i) off io_size;
       let sz = calculate_circular_io_size (Some i) off sz0;
       if sz = 0 then Some w
       else do {
         (ns, ret) \<leftarrow> csd_get_target_latency prp (wslm w) (wns w) lba sz now;
         let w0 = w\<lparr>wns := ns\<rparr>;
         if nsecs_target ret = -1 then Some w0
         else do {
           w1 \<leftarrow> fill_req w0 k r i lba off sz demand issued ret;
           let issued' = issued + sz;
           w2 \<leftarrow> queue_req w1 k r i off sz issued' target;
           if issued' < target
           then (case lhead (io_free_list (wio w2)) of
                   None \<Rightarrow> Some w2
                 | Some r' \<Rightarrow> f prp now k demand target w2 r' (off + sz) (target - issued') issued')
           else Some w2
         }
       }
     } = Some w'"
  show "k < MAX_TASK_COUNT \<longrightarrow> lhead (io_free_list (wio w)) = Some r \<longrightarrow> round_fits w k demand target io_size issued \<longrightarrow> keeps_ok w w'"
  proof (intro impI)
    assume k: "k < MAX_TASK_COUNT" and r: "lhead (io_free_list (wio w)) = Some r" and fits: "round_fits w k demand target io_size issued"
    obtain i lba sz0 where sz0: "calculate_io_size (sres i) off io_size = Some sz0"
      and rest: "(let sz = calculate_circular_io_size (Some i) off sz0 in
       if sz = 0 then Some w
       else do {
         (ns, ret) \<leftarrow> csd_get_target_latency prp (wslm w) (wns w) lba sz now;
         let w0 = w\<lparr>wns := ns\<rparr>;
         if nsecs_target ret = -1 then Some w0
         else do {
           w1 \<leftarrow> fill_req w0 k r i lba off sz demand issued ret;
           let issued' = issued + sz;
           w2 \<leftarrow> queue_req w1 k r i off sz issued' target;
           if issued' < target
           then (case lhead (io_free_list (wio w2)) of
                   None \<Rightarrow> Some w2
                 | Some r' \<Rightarrow> f prp now k demand target w2 r' (off + sz) (target - issued') issued')
           else Some w2
         }
       }) = Some w'"
      using b by (auto simp: Option.bind_eq_Some_conv simp del: Let_def)
    define sz where "sz = calculate_circular_io_size (Some i) off sz0"
    have sz: "demand = -1 \<longrightarrow> unat sz \<le> 2 ^ 19 + 511"
      using calculate_io_size_le [OF sz0] circular_io_size_le [of i off sz0] fits by (auto simp: sz_def round_fits_def)
    show "keeps_ok w w'"
    proof (cases "sz = 0")
      case False
      then obtain ns ret where rest2: "(let w0 = w\<lparr>wns := ns\<rparr> in
         if nsecs_target ret = -1 then Some w0
         else do {
           w1 \<leftarrow> fill_req w0 k r i lba off sz demand issued ret;
           let issued' = issued + sz;
           w2 \<leftarrow> queue_req w1 k r i off sz issued' target;
           if issued' < target
           then (case lhead (io_free_list (wio w2)) of
                   None \<Rightarrow> Some w2
                 | Some r' \<Rightarrow> f prp now k demand target w2 r' (off + sz) (target - issued') issued')
           else Some w2
         }) = Some w'"
        using rest unfolding sz_def [symmetric] Let_def by (auto simp: Option.bind_eq_Some_conv)
      define w0 where "w0 = w\<lparr>wns := ns\<rparr>"
      have k0: "keeps_ok w w0" "wio w0 = wio w" "round_fits w0 k demand target io_size issued"
        using ns_keeps_ok fits by (simp_all add: w0_def round_fits_def wtask_def)
      have "keeps_ok w0 w'"
      proof (cases "nsecs_target ret = -1")
        case False
        then obtain w1 w2 where w1: "fill_req w0 k r i lba off sz demand issued ret = Some w1" and w2: "queue_req w1 k r i off sz (issued + sz) target = Some w2"
          and w': "(if issued + sz < target then (case lhead (io_free_list (wio w2)) of None \<Rightarrow> Some w2
                 | Some r' \<Rightarrow> f prp now k demand target w2 r' (off + sz) (target - (issued + sz)) (issued + sz)) else Some w2) = Some w'"
          using rest2 unfolding w0_def [symmetric] Let_def by (auto simp: Option.bind_eq_Some_conv)
        note o = issue_one_round [OF w1 w2 _ _ _ k k0(3) sz]
        have "keeps_ok w0 w2" using o r k0(2) by (simp add: keeps_ok_def)
        moreover have "keeps_ok w2 w'" if "io_ok w0" "loads_ok w0"
          using w' IH [of prp now k demand target w2 _ "off + sz"] o [OF that] r k0(2) k by (auto split: if_splits option.splits)
        ultimately show ?thesis unfolding keeps_ok_def using helper_keeps_trans by blast
      qed (use rest2 in \<open>simp add: w0_def\<close>)
      then show ?thesis using k0(1) keeps_ok_trans by blast
    qed (use rest in \<open>simp add: sz_def\<close>)
  qed
qed

lemma first_round_fits:
  assumes t: "t = wtask w k" and rem: "remain = (if total_size t < requested_io_offset t then 0 else total_size t - requested_io_offset t)"
    and io: "demand = -1 \<longrightarrow> io_size = max (min size0 remain) MIN_IO_REQUEST_SIZE" "size0 \<le> IO_REQUEST_SIZE"
    and target: "target = (if demand = -1 \<and> io_size > remain then remain else io_size)" and nz: "\<not> (remain = 0 \<and> demand = -1)"
  shows "round_fits w k demand target io_size 0"
  unfolding round_fits_def
proof
  assume d: "demand = -1"
  have le: "requested_io_offset t \<le> total_size t" "remain = total_size t - requested_io_offset t" using nz rem d by (auto split: if_splits)
  have "io_size \<le> 2 ^ 19" using io d by (auto simp: max_def min_def MIN_IO_REQUEST_SIZE_def IO_REQUEST_SIZE_def split: if_splits intro: order_trans)
  then have io19: "unat io_size \<le> 2 ^ 19" by (simp add: word_le_nat_alt)
  have "target \<le> remain" "target \<le> io_size" using target d by (auto simp: not_less)
  then have "unat target \<le> unat (total_size t) - unat (requested_io_offset t)" "unat target \<le> unat io_size"
    using le by (simp_all add: word_le_nat_alt unat_sub)
  then show "unat (requested_io_offset (wtask w k)) + unat target \<le> unat (total_size (wtask w k)) + unat (0 :: u64)
     \<and> unat (0 :: u64) \<le> unat target \<and> unat target \<le> 2 ^ 19 \<and> unat io_size \<le> 2 ^ 19"
    using le(1) io19 by (simp add: word_le_nat_alt flip: t)
qed

lemma request_round_keeps:
  assumes r: "request_round prp now k w = Some (w', go)" and k: "k < MAX_TASK_COUNT"
  shows "keeps_ok w w'"
proof -
  define t where "t = wtask w k"
  define remain where "remain = (if total_size t < requested_io_offset t then 0 else total_size t - requested_io_offset t)"
  obtain demand where b: "(if remain = 0 \<and> demand = -1 then Some (upd_task w k (\<lambda>t. t\<lparr>io_quota := 0\<rparr>), False)
       else (case lhead (io_free_list (wio w)) of
         None \<Rightarrow> Some (w, False)
       | Some r \<Rightarrow>
           do {
             let size0 = (if requested_io_offset t = 0 then page_size else IO_REQUEST_SIZE);
             let size1 = max (min size0 remain) MIN_IO_REQUEST_SIZE;
             (q, i) \<leftarrow> task_info w k;
             if demand = -1 \<and> random_access i then Some (w, False)
             else do {
               let io_offset = (if demand \<noteq> -1 then demand else requested_io_offset t);
               let io_size = (if demand \<noteq> -1 then demand_read_size i else size1);
               let target = (if demand = -1 \<and> io_size > remain then remain else io_size);
               w1 \<leftarrow> issue_from prp now k demand target w r io_offset io_size 0;
               Some (upd_task w1 k (\<lambda>t. t\<lparr>io_quota := io_quota t - 1\<rparr>), True)
             }
           })) = Some (w', go)"
    using r unfolding request_round_def t_def [symmetric] Let_def remain_def [symmetric] by (auto simp: Option.bind_eq_Some_conv)
  show ?thesis
  proof (cases "remain = 0 \<and> demand = -1")
    case True
    then have "w' = upd_task w k (\<lambda>t. t\<lparr>io_quota := 0\<rparr>)" using b by simp
    then show ?thesis by (auto intro!: upd_task_keeps_ok simp: same_identity_def)
  next
    case nz: False
    define size0 where "size0 = (if requested_io_offset t = 0 then page_size else IO_REQUEST_SIZE)"
    have s0: "size0 \<le> IO_REQUEST_SIZE" by (simp add: size0_def IO_REQUEST_SIZE_def page_size_eq)
    consider "w' = w" | r and i :: slm_lba_info and io_size target io_offset w1 where "lhead (io_free_list (wio w)) = Some r"
        "io_size = (if demand \<noteq> -1 then demand_read_size i else max (min size0 remain) MIN_IO_REQUEST_SIZE)"
        "target = (if demand = -1 \<and> io_size > remain then remain else io_size)"
        "issue_from prp now k demand target w r io_offset io_size 0 = Some w1" "w' = upd_task w1 k (\<lambda>t. t\<lparr>io_quota := io_quota t - 1\<rparr>)"
      using b nz unfolding size0_def [symmetric] by (auto simp: Option.bind_eq_Some_conv Let_def split: option.splits if_split_asm)
    then show ?thesis
    proof cases
      case (2 r i io_size target io_offset w1)
      have "round_fits w k demand target io_size 0"
        by (rule first_round_fits [OF t_def remain_def _ s0 2(3) nz]) (use 2(2) in simp)
      then have "keeps_ok w w1" using issue_from_keeps [OF 2(4)] k 2(1) by blast
      moreover have "keeps_ok w1 w'" unfolding 2(5) by (auto intro!: upd_task_keeps_ok simp: same_identity_def)
      ultimately show ?thesis by (rule keeps_ok_trans)
    qed simp
  qed
qed

lemma request_rounds_keeps: "request_rounds prp now k n w = Some w' \<Longrightarrow> k < MAX_TASK_COUNT \<Longrightarrow> keeps_ok w w'"
proof (induction prp now k n w rule: request_rounds.induct)
  case (2 prp now k n w)
  then obtain w1 go where w1: "request_round prp now k w = Some (w1, go)" "(if go then request_rounds prp now k n w1 else Some w1) = Some w'"
    by (auto simp: Option.bind_eq_Some_conv)
  have "keeps_ok w1 w'" using 2(1) [OF w1(1) refl] w1(2) 2(3) by (auto split: if_splits)
  then show ?case using request_round_keeps [OF w1(1) 2(3)] keeps_ok_trans by blast
qed simp

lemma request_task_keeps:
  assumes r: "request_task prp now w expired k = Some (w', e)" and k: "k < MAX_TASK_COUNT"
  shows "keeps_ok w w'"
proof -
  have q: "keeps_ok w (upd_task w k (\<lambda>t. t\<lparr>io_quota := v\<rparr>))" for v by (auto intro!: upd_task_keeps_ok simp: same_identity_def)
  consider "w' = w" | v where "w' = upd_task w k (\<lambda>t. t\<lparr>io_quota := v\<rparr>)"
    | w1 n where "w1 = w \<or> w1 = upd_task w k (\<lambda>t. t\<lparr>io_quota := 1\<rparr>)" "request_rounds prp now k n w1 = Some w'"
    using r by (auto simp: request_task_def Let_def Option.bind_eq_Some_conv split: if_split_asm option.splits)
  then show ?thesis
  proof cases
    case (3 w1 n)
    then have "keeps_ok w w1" using q by auto
    then show ?thesis using request_rounds_keeps [OF 3(2) k] keeps_ok_trans by blast
  qed (use q in simp_all)
qed


text \<open>The passes walk along the links of the tasks.\<close>

fun twalk :: "task_array \<Rightarrow> nat option \<Rightarrow> nat list \<Rightarrow> bool" where
  "twalk T h [] \<longleftrightarrow> h = None"
| "twalk T h (x # xs) \<longleftrightarrow> h = Some x \<and> twalk T (t_next (T x)) xs"

lemma chain_twalk: "chain T p xs None \<Longrightarrow> twalk T (first_of xs None) xs"
  by (induction xs arbitrary: p) (auto split: list.splits)

lemma list_rep_twalk: "list_rep T l xs \<Longrightarrow> twalk T (lhead l) xs"
  using chain_twalk by (auto simp: list_rep_def)

lemma twalk_cong: "(\<And>x. t_next (T' x) = t_next (T x)) \<Longrightarrow> twalk T' h xs = twalk T h xs"
  by (induction xs arbitrary: h) auto

lemma helper_keeps_twalk: "helper_keeps w w' \<Longrightarrow> twalk (wtask w') h xs = twalk (wtask w) h xs"
  by (rule twalk_cong) (simp add: helper_keeps_def same_identity_def)

lemma request_from_ok:
  assumes "request_from prp now w expired cur = Some (w', e)" "twalk (wtask w) cur xs" "set xs \<subseteq> {..<MAX_TASK_COUNT}" "io_ok w" "loads_ok w"
  shows "io_ok w' \<and> loads_ok w' \<and> helper_keeps w w'"
  using assms
proof (induction xs arbitrary: w cur expired)
  case Nil
  then show ?case by (simp add: request_from.simps [of prp now w expired None])
next
  case (Cons x xs)
  have cur: "cur = Some x" using Cons.prems(2) by simp
  obtain w1 e1 where w1: "request_task prp now w expired x = Some (w1, e1)" "request_from prp now w1 e1 (t_next (wtask w1 x)) = Some (w', e)"
    using Cons.prems(1) by (auto simp: request_from.simps [of prp now w expired "Some x"] cur Option.bind_eq_Some_conv)
  have k: "io_ok w1" "loads_ok w1" "helper_keeps w w1" using request_task_keeps [OF w1(1)] Cons.prems(3-5) by (auto simp: keeps_ok_def)
  have "twalk (wtask w1) (t_next (wtask w1 x)) xs"
    using Cons.prems(2) k(3) helper_keeps_twalk [OF k(3)] by (simp add: helper_keeps_def same_identity_def)
  then show ?case using Cons.IH [OF w1(2)] Cons.prems(3) k helper_keeps_trans by auto
qed

lemma refill_keeps: "refill_from w cur = Some w' \<Longrightarrow> keeps_ok w w'"
proof (erule refill_from.raw_induct [rotated])
  fix f w cur w'
  assume IH: "\<And>w cur w'. f w cur = Some w' \<Longrightarrow> keeps_ok w w'"
    and b: "(case cur of None \<Rightarrow> Some w
      | Some k \<Rightarrow>
          (let t = wtask w k;
               w1 = (if task_step t = CCSD_TASK_SCHEDULE \<and> total_size t - requested_io_offset t > 0 \<and> \<not> is_first_io t
                     then upd_task w k (\<lambda>t. t\<lparr>io_quota := IO_TOKEN_PER_TASK\<rparr>) else w)
           in f w1 (t_next (wtask w1 k)))) = Some w'"
  show "keeps_ok w w'"
  proof (cases cur)
    case (Some k)
    define w1 where "w1 = (if task_step (wtask w k) = CCSD_TASK_SCHEDULE \<and> total_size (wtask w k) - requested_io_offset (wtask w k) > 0 \<and> \<not> is_first_io (wtask w k)
                     then upd_task w k (\<lambda>t. t\<lparr>io_quota := IO_TOKEN_PER_TASK\<rparr>) else w)"
    have "keeps_ok w w1" unfolding w1_def by (auto intro!: upd_task_keeps_ok simp: same_identity_def)
    moreover have "keeps_ok w1 w'" using b Some by (intro IH) (simp add: Let_def w1_def)
    ultimately show ?thesis by (rule keeps_ok_trans)
  qed (use b in simp)
qed

lemma request_io_ok:
  assumes r: "request_io prp now w = Some w'" and xs: "twalk (wtask w) (copy_list_head w) xs" "set xs \<subseteq> {..<MAX_TASK_COUNT}" and ok: "io_ok w" "loads_ok w"
  shows "io_ok w' \<and> loads_ok w' \<and> helper_keeps w w'"
proof -
  obtain w1 e where w1: "request_from prp now w True (copy_list_head w) = Some (w1, e)" "(if e then refill_from w1 (copy_list_head w1) else Some w1) = Some w'"
    using r by (auto simp: request_io_def Option.bind_eq_Some_conv)
  note k = request_from_ok [OF w1(1) xs ok]
  have "keeps_ok w1 w'" using w1(2) refill_keeps by (auto split: if_splits)
  then show ?thesis using k helper_keeps_trans by (auto simp: keeps_ok_def)
qed

end
