(* ===== verification/Csd_Dispatch.thy ===== *)
theory Csd_Dispatch
  imports Csd_Io
begin

unbundle bit_operations_syntax

text \<open>
  The dispatcher thread of the computational device, \<open>csd_dispatcher.c\<close>: it turns commands into tasks
  (\<open>__do_perform_memory_management\<close>, \<open>__do_perform_dispatch\<close>, \<open>__do_perform_magic_read\<close>), collects tasks that have
  ended (\<open>__reclaim_task\<close>), completes them, and carries out postponed frees. What the host puts into its
  memory, read by \<open>__copy_prp_data\<close>, is an argument; allocations of kernel memory succeed.
\<close>

section \<open>Data\<close>

definition nvme_admin_load_program :: u8 where "nvme_admin_load_program = 0x45"
definition nvme_cmd_magic_compaction :: u8 where "nvme_cmd_magic_compaction = 0x47"
definition nvme_cmd_magic_read :: u8 where "nvme_cmd_magic_read = 0x48"

definition nvme_memory_range_create :: u8 where "nvme_memory_range_create = 0"
definition nvme_memory_range_delete :: u8 where "nvme_memory_range_delete = 1"

definition NVME_SCT_GENERIC_CMD_STATUS :: u32 where "NVME_SCT_GENERIC_CMD_STATUS = 0"
definition NVME_SCT_CMD_SPECIFIC_STATUS :: u32 where "NVME_SCT_CMD_SPECIFIC_STATUS = 1"
definition NVME_SC_MAX_MEM_RANGE_EXCEEDED :: u32 where "NVME_SC_MAX_MEM_RANGE_EXCEEDED = 0x91"

definition COMPRESSION_INDEX :: u32 where "COMPRESSION_INDEX = 0x201"
definition ROCKSDB_MAGIC_COMPACTION_PROGRAM_INDEX :: u32 where "ROCKSDB_MAGIC_COMPACTION_PROGRAM_INDEX = 0x308"
definition ROCKSDB_MAGIC_CRC_PROGRAM_INDEX :: u32 where "ROCKSDB_MAGIC_CRC_PROGRAM_INDEX = 0x309"
definition ROCKSDB_MAGIC_READ_PROGRAM_INDEX :: u32 where "ROCKSDB_MAGIC_READ_PROGRAM_INDEX = 0x30A"

text \<open>The fields of \<open>struct nvme_command_csd\<close> that the dispatcher reads.\<close>

record csd_command =
  c_opcode :: u8
  mm_sel :: u8
  mm_numr :: u32
  c_cdw12 :: u32
  c_cdw13 :: u32
  c_cdw14 :: u32
  c_pind :: u16
  mc_length :: u64
  mc_sdaddr :: u64
  mc_format :: u16

record ccsd_parameter =
  input_slm :: u64
  output_slm :: u64
  p_nByte :: u64
  p_param_size :: u32
  p_param :: "nat \<Rightarrow> u32"

definition MAX_MAGIC_READ_FILES :: nat where "MAX_MAGIC_READ_FILES = 4"

text \<open>
  The blocks of parameters of the compound commands are lists of 128 words; the two files of a compaction are
  numbered 0 and 1.
\<close>

record ccsd_magic_read_parameter =
  mr_param :: "u32 list"
  mr_num_files :: u32
  mr_sre_count :: "nat \<Rightarrow> u32"
  mr_file_size :: "nat \<Rightarrow> u64"
  mr_sre :: "nat \<Rightarrow> nat \<Rightarrow> source_range_entry"

record ccsd_magic_parameter =
  mc_param :: "u32 list"
  mc_sre_count :: "nat \<Rightarrow> u32"
  mc_file_size :: "nat \<Rightarrow> u64"
  mc_sre :: "nat \<Rightarrow> nat \<Rightarrow> source_range_entry"

text \<open>The host memory that a command points to, and what uninitialised fields hold.\<close>

record host_data =
  hd_param :: ccsd_parameter
  hd_sre :: "nat \<Rightarrow> source_range_entry"
  hd_magic_read :: ccsd_magic_read_parameter
  hd_magic :: ccsd_magic_parameter
  hd_junk :: u64

definition IS_CSD_PROCESS :: "u8 \<Rightarrow> bool" where
  "IS_CSD_PROCESS op \<longleftrightarrow> op \<in> {nvme_cmd_memory_management, nvme_cmd_memory_copy, nvme_cmd_execute_program,
     nvme_admin_load_program, nvme_cmd_magic_compaction, nvme_cmd_magic_read}"

section \<open>The task table\<close>

definition wtable :: "csd_world \<Rightarrow> ccsd_task_table" where
  "wtable w = (wtt w)\<lparr>task := slm_tasks (wslm w)\<rparr>"

definition put_table :: "csd_world \<Rightarrow> ccsd_task_table \<Rightarrow> csd_world" where
  "put_table w t = w\<lparr>wtt := t, wslm := (wslm w)\<lparr>slm_tasks := task t\<rparr>\<rparr>"

definition alloc_task :: "csd_world \<Rightarrow> (csd_world \<times> u32) option" where
  "alloc_task w = map_option (\<lambda>(t, g). (put_table w t, g)) (allocate_new_task (wtable w))"

definition free_task :: "csd_world \<Rightarrow> nat \<Rightarrow> csd_world option" where
  "free_task w k =
     map_option (\<lambda>(T, l). put_table w ((wtable w)\<lparr>task := T, free_list := l\<rparr>))
       (enqueue_task (task (wtable w)) (free_list (wtable w)) k)"

definition enqueue_work :: "csd_world \<Rightarrow> nat \<Rightarrow> nat \<Rightarrow> csd_world option" where
  "enqueue_work w k core = map_option (put_table w) (enqueue_compute_work (wtable w) k core)"

text \<open>The first idle core, otherwise the next in turn.\<close>

definition pick_core :: "csd_world \<Rightarrow> (csd_world \<times> nat) option" where
  "pick_core w =
     (case find_idle_compute_core (wtt w) of
        Some c \<Rightarrow> Some (w, c)
      | None \<Rightarrow>
          if num_cpu_resources (wtt w) = 0 then None
          else Some (w\<lparr>wtt := (wtt w)\<lparr>compute_turn := (compute_turn (wtt w) + 1) mod num_cpu_resources (wtt w)\<rparr>\<rparr>, compute_turn (wtt w)))"

text \<open>The tables as \<open>NVMEV_CSD_PROC_INIT\<close> sets them up over zeroed memory.\<close>

definition init_task :: "ccsd_task_info \<Rightarrow> nat \<Rightarrow> ccsd_task_info" where
  "init_task z i = z\<lparr>task_step := CCSD_TASK_FREE, t_next := (if i = MAX_TASK_COUNT - 1 then None else Some (i + 1)),
     t_prev := (if i = 0 then None else Some (i - 1)), task_slm_lba_info := None, generation_id := TASK_ID_NONE\<rparr>"

definition init_task_table :: "ccsd_task_info \<Rightarrow> nat \<Rightarrow> nat \<Rightarrow> ccsd_task_table" where
  "init_task_table z nr_csd_cpu nr_slm_cpu =
     \<lparr>task = init_task z, free_list = \<lparr>lhead = Some 0, ltail = Some (MAX_TASK_COUNT - 1), running = int MAX_TASK_COUNT\<rparr>,
      done_list = \<lparr>lhead = None, ltail = None, running = 0\<rparr>, comp_list = (\<lambda>_. \<lparr>lhead = None, ltail = None, running = 0\<rparr>),
      copy_to_slm_list_id = nr_csd_cpu, num_slm_resources = nr_slm_cpu, num_cpu_resources = nr_csd_cpu, compute_turn = 0,
      next_generation = 1\<rparr>"

definition init_io_req :: "csd_internal_io_req \<Rightarrow> nat \<Rightarrow> csd_internal_io_req" where
  "init_io_req z i = z\<lparr>io_req_status := CSD_INTERNAL_IO_REQ_FREE, r_next := (if i = MAX_INTERNAL_IO_COUNT - 1 then None else Some (i + 1)),
     r_prev := (if i = 0 then None else Some (i - 1)), demand_read := False, last_io := False\<rparr>"

definition init_io_req_table :: "csd_internal_io_req \<Rightarrow> csd_io_req_table" where
  "init_io_req_table z =
     \<lparr>io_free_list = \<lparr>lhead = Some 0, ltail = Some (MAX_INTERNAL_IO_COUNT - 1), running = 0\<rparr>,
      slm_list = (\<lambda>_. \<lparr>lhead = None, ltail = None, running = 0\<rparr>), slm_turn = 0, io_req = init_io_req z, enqueuing_io_size = 0\<rparr>"

definition zero_io_req :: csd_internal_io_req where
  "zero_io_req = \<lparr>r_nsecs_nand_start = 0, r_nsecs_target = 0, r_task_id = 0, io_req_status = CSD_INTERNAL_IO_REQ_FREE, r_lba = 0,
     r_local_offset = 0, buf_addr = 0, r_length = 0, stream_offset = 0, last_io = False, sequential_last_io = False, demand_read = False,
     r_next = None, r_prev = None\<rparr>"

definition csd_proc_init :: "nat \<Rightarrow> nat \<Rightarrow> u64 \<Rightarrow> u64 \<Rightarrow> bool \<Rightarrow> bool \<Rightarrow> conv_ns \<Rightarrow> throttle \<Rightarrow> csd_world option" where
  "csd_proc_init nr_csd_cpu nr_slm_cpu slm_mapped slm_size vmalloc_ok kzalloc_ok ns thr =
     do {
       s \<leftarrow> init_slm_memory slm_mapped slm_size vmalloc_ok kzalloc_ok (init_task idle_task);
       Some \<lparr>wslm = s, wtt = init_task_table idle_task nr_csd_cpu nr_slm_cpu, wio = init_io_req_table zero_io_req, wns = ns, wthr = thr,
             wdef = (\<lambda>_. \<lparr>df_active = False, df_input_buf = 0, df_load_task_ids = []\<rparr>)\<rparr>
     }"

section \<open>Memory management\<close>

text \<open>The load tasks of the pages from \<open>p\<close> on are parked before their memory is freed.\<close>

definition park_task :: "csd_world \<Rightarrow> u32 \<Rightarrow> csd_world" where
  "park_task w tid =
     (let k = TASK_POOL_INDEX tid; t = wtask w k
      in if tid \<noteq> TASK_ID_NONE \<and> TASK_GEN_VALID tid t \<and> program_idx t = COPY_TO_SLM_PROGRAM_INDEX \<and> task_step t = CCSD_TASK_SCHEDULE
         then upd_task w k (\<lambda>t. t\<lparr>task_step := CCSD_TASK_WAIT\<rparr>) else w)"

fun park_pages :: "csd_world \<Rightarrow> nat \<Rightarrow> nat \<Rightarrow> csd_world option" where
  "park_pages w p 0 = Some w"
| "park_pages w p (Suc n) =
     (if p \<ge> page_count (wslm w) then None
      else
        (case page_info (wslm w) p of
           None \<Rightarrow> park_pages w (Suc p) n
         | Some q \<Rightarrow> do { i \<leftarrow> infos (wslm w) q; park_pages (park_task w (info_task_id i)) (Suc p) n }))"

text \<open>The result has the status (when it is set), the address for the host, and whether the command succeeded.\<close>

definition do_perform_memory_management ::
  "csd_world \<Rightarrow> csd_command \<Rightarrow> (csd_world \<times> u32 option \<times> u64 \<times> bool) option" where
  "do_perform_memory_management w c =
     (let arg = push_bit 32 (ucast (c_cdw13 c)) OR ucast (c_cdw12 c)
      in if mm_numr c \<noteq> 1 then None
         else if mm_sel c = nvme_memory_range_create
         then do {
           (s, slm_offset) \<leftarrow> alloc_slm_range (wslm w) arg;
           if slm_offset = -1
           then Some (put_slm w s, Some (push_bit 8 NVME_SCT_CMD_SPECIFIC_STATUS OR NVME_SC_MAX_MEM_RANGE_EXCEEDED), 0, False)
           else Some (put_slm w s, None, get_slm_offset s slm_offset, True)
         }
         else if mm_sel c = nvme_memory_range_delete
         then do {
           let addr = get_slm_addr (wslm w) arg;
           region_size \<leftarrow> get_slm_range_size (wslm w) addr;
           w1 \<leftarrow> park_pages w (page_of (wslm w) addr) (unat (region_size div page_size));
           s \<leftarrow> free_slm_range (wslm w1) addr;
           Some (put_slm w1 s, None, 0, True)
         }
         else Some (w, None, 0, True))"

section \<open>Creating tasks\<close>

text \<open>\<open>memcpy(task->params, param, n)\<close> for \<open>n\<close> bytes of little-endian words.\<close>

definition old_word :: "u32 list \<Rightarrow> nat \<Rightarrow> u32" where
  "old_word ps j = (if j < length ps then ps ! j else 0)"

definition copy_params :: "u32 list \<Rightarrow> (nat \<Rightarrow> u32) \<Rightarrow> nat \<Rightarrow> u32 list option" where
  "copy_params ps new n =
     (if n > 512 then None
      else Some (map (\<lambda>j. if 4 * j + 4 \<le> n then new j
                       else if 4 * j < n then (new j AND mask (8 * (n - 4 * j))) OR (old_word ps j AND NOT (mask (8 * (n - 4 * j))))
                       else old_word ps j) [0..<128]))"

text \<open>The fields that every command sets in its task.\<close>

definition schedule_task :: "csd_command \<Rightarrow> u32 \<Rightarrow> u64 \<Rightarrow> u64 \<Rightarrow> u64 \<Rightarrow> u64 \<Rightarrow> u64 \<Rightarrow> u32 \<Rightarrow> ccsd_task_info \<Rightarrow> ccsd_task_info" where
  "schedule_task c proc tsize requested dn input_buf output_buf program t =
     t\<lparr>host_id := sint (c_cdw14 c), task_step := CCSD_TASK_SCHEDULE, proc_idx := proc, invalid := False, total_size := tsize,
       requested_io_offset := requested, done_io_offset := dn, input_buf_addr := input_buf, output_buf_addr := output_buf,
       program_idx := program, task_result := 0, task_status := push_bit 8 NVME_SCT_GENERIC_CMD_STATUS OR NVME_SC_SUCCESS,
       processed_offset := 0, task_opcode := ucast (c_opcode c), internal_io_count := 0, t_prev := None, t_next := None\<rparr>"

text \<open>A descriptor is allocated, filled in by \<open>f\<close> and its pages are reserved.\<close>

definition new_region ::
  "csd_world \<Rightarrow> u64 \<Rightarrow> u64 \<Rightarrow> u32 \<Rightarrow> source_range_entry list option \<Rightarrow> nat \<Rightarrow> u64 \<Rightarrow> (slm_lba_info \<Rightarrow> slm_lba_info) \<Rightarrow> (csd_world \<times> nat) option" where
  "new_region w addr len tid sre nentry junk f =
     (let (s, q) = alloc_slm_lba_info (wslm w) addr len tid sre nentry junk
      in do {
           i \<leftarrow> infos s q;
           s1 \<leftarrow> reserve_slm_memory (put s q (f i)) addr len q;
           Some (put_slm w s1, q)
         })"

definition magic_program :: "u32 \<Rightarrow> bool" where
  "magic_program p \<longleftrightarrow> p \<in> {ROCKSDB_MAGIC_COMPACTION_PROGRAM_INDEX, ROCKSDB_MAGIC_CRC_PROGRAM_INDEX, ROCKSDB_MAGIC_READ_PROGRAM_INDEX}"

text \<open>An input of \<open>0xFFFFFFFF\<close> bytes or more is only logged: the task stays allocated and in no list.\<close>

definition dispatch_execute :: "csd_world \<Rightarrow> u32 \<Rightarrow> csd_command \<Rightarrow> u32 \<Rightarrow> host_data \<Rightarrow> (csd_world \<times> bool) option" where
  "dispatch_execute w gen_id c proc h =
     (let k = TASK_POOL_INDEX gen_id; param = hd_param h; tsize = p_nByte param; program = (ucast (c_pind c) :: u32);
          input_buf = get_slm_addr (wslm w) (input_slm param); output_buf = get_slm_addr (wslm w) (output_slm param)
      in if tsize \<ge> 0xFFFFFFFF then Some (w, True)
         else do {
           range \<leftarrow> get_slm_range_size (wslm w) output_buf;
           (w1, q) \<leftarrow> new_region w output_buf (if tsize < range then tsize else range) gen_id None 0 (hd_junk h)
                        (\<lambda>i. i\<lparr>is_output := True, use_head_tail := (use_head_tail i \<or> \<not> magic_program program)\<rparr>);
           ps \<leftarrow> (if p_param_size param \<noteq> 0 then copy_params (params (wtask w1 k)) (p_param param) (unat (p_param_size param)) else Some (params (wtask w1 k)));
           let w2 = upd_task w1 k (\<lambda>t. (schedule_task c proc tsize tsize tsize input_buf output_buf program t)
                \<lparr>task_slm_lba_info := Some q, param_size := ucast (p_param_size param), params := ps\<rparr>);
           (w3, core) \<leftarrow> pick_core w2;
           w4 \<leftarrow> enqueue_work w3 k core;
           Some (w4, True)
         })"

definition dispatch_copy :: "csd_world \<Rightarrow> u32 \<Rightarrow> csd_command \<Rightarrow> u32 \<Rightarrow> host_data \<Rightarrow> (csd_world \<times> bool) option" where
  "dispatch_copy w gen_id c proc h =
     (let k = TASK_POOL_INDEX gen_id; nentry = unat (mc_format c); tsize = mc_length c; buf = get_slm_addr (wslm w) (mc_sdaddr c)
      in do {
           io_task_id \<leftarrow> get_io_task_from_slm_addr (wslm w) buf;
           if io_task_id \<noteq> TASK_ID_NONE then None
           else do {
             (w1, q) \<leftarrow> new_region w buf tsize gen_id (Some (map (hd_sre h) [0..<nentry])) nentry (hd_junk h) (\<lambda>i. i\<lparr>use_head_tail := True\<rparr>);
             let w2 = upd_task w1 k (\<lambda>t. (schedule_task c proc tsize 0 0 buf buf COPY_TO_SLM_PROGRAM_INDEX t)
                  \<lparr>task_slm_lba_info := Some q, param_size := 0, is_first_io := True, io_quota := 1\<rparr>);
             w3 \<leftarrow> enqueue_work w2 k (copy_to_slm_list_id (wtt w2));
             Some (w3, True)
           }
         })"

definition do_perform_dispatch :: "csd_world \<Rightarrow> csd_command \<Rightarrow> u32 \<Rightarrow> host_data \<Rightarrow> (csd_world \<times> bool) option" where
  "do_perform_dispatch w c proc h =
     do {
       (w1, gen_id) \<leftarrow> alloc_task w;
       if gen_id = TASK_ID_NONE then None
       else if c_opcode c = nvme_cmd_execute_program then dispatch_execute w1 gen_id c proc h
       else if c_opcode c = nvme_cmd_memory_copy then dispatch_copy w1 gen_id c proc h
       else None
     }"

section \<open>Compound commands\<close>

text \<open>Fields of a parameter block by their byte offset in \<open>struct magic_params\<close> or \<open>struct rocksdb_magic_crc_params\<close>.\<close>

definition get_u64 :: "u32 list \<Rightarrow> nat \<Rightarrow> u64" where
  "get_u64 ps off = ucast (old_word ps (off div 4)) OR push_bit 32 (ucast (old_word ps (off div 4 + 1)))"

definition put_word :: "nat \<Rightarrow> u32 \<Rightarrow> u32 list \<Rightarrow> u32 list" where
  "put_word j v ps = (ps @ replicate (Suc j - length ps) 0)[j := v]"

definition set_u32 :: "nat \<Rightarrow> u32 \<Rightarrow> u32 list \<Rightarrow> u32 list" where
  "set_u32 off v ps = put_word (off div 4) v ps"

definition set_u64 :: "nat \<Rightarrow> u64 \<Rightarrow> u32 list \<Rightarrow> u32 list" where
  "set_u64 off v ps = put_word (off div 4 + 1) (ucast (drop_bit 32 v)) (put_word (off div 4) (ucast v) ps)"

text \<open>What is written to a block is read back, and nothing else changes; the size of a full block stays.\<close>

lemma old_word_put_word [simp]: "old_word (put_word j v ps) i = (if i = j then v else old_word ps i)"
  by (auto simp: old_word_def put_word_def nth_append nth_list_update)

lemma length_put_word [simp]: "length (put_word j v ps) = max (length ps) (Suc j)"
  by (simp add: put_word_def)

lemma get_set_u64: "get_u64 (set_u64 off v ps) off = v"
proof -
  have "ucast (ucast v :: u32) OR push_bit 32 (ucast (ucast (drop_bit 32 v) :: u32)) = v"
    by (rule bit_word_eqI) (auto simp: bit_simps)
  then show ?thesis by (simp add: get_u64_def set_u64_def)
qed

definition magic_params_size :: nat where "magic_params_size = 424"

text \<open>Several tasks at once; the flag says that there were enough.\<close>

fun alloc_tasks :: "csd_world \<Rightarrow> nat \<Rightarrow> u32 list \<Rightarrow> (csd_world \<times> u32 list \<times> bool) option" where
  "alloc_tasks w 0 ids = Some (w, ids, True)"
| "alloc_tasks w (Suc n) ids =
     do { (w1, g) \<leftarrow> alloc_task w; if g = TASK_ID_NONE then Some (w1, ids, False) else alloc_tasks w1 n (ids @ [g]) }"

fun free_tasks :: "csd_world \<Rightarrow> u32 list \<Rightarrow> csd_world option" where
  "free_tasks w [] = Some w"
| "free_tasks w (g # gs) = do { w1 \<leftarrow> free_task w (TASK_POOL_INDEX g); free_tasks w1 gs }"

text \<open>Buffers in the order of the requests, -1 for one that could not be had; the others are given back on failure.\<close>

fun alloc_bufs :: "csd_world \<Rightarrow> u64 list \<Rightarrow> u64 list \<Rightarrow> (csd_world \<times> u64 list) option" where
  "alloc_bufs w [] bufs = Some (w, bufs)"
| "alloc_bufs w (n # ns) bufs = do { (s, b) \<leftarrow> alloc_slm_range (wslm w) n; alloc_bufs (put_slm w s) ns (bufs @ [b]) }"

fun free_bufs :: "csd_world \<Rightarrow> u64 list \<Rightarrow> csd_world option" where
  "free_bufs w [] = Some w"
| "free_bufs w (b # bs) =
     (if b = -1 then free_bufs w bs else do { s \<leftarrow> free_slm_range (wslm w) b; free_bufs (put_slm w s) bs })"

text \<open>
  Source ranges of a file; more than the block has room for are read beyond it. The count is signed in a compound
  read and unsigned in a compaction.
\<close>

definition file_sres :: "nat \<Rightarrow> u32 \<Rightarrow> (nat \<Rightarrow> source_range_entry) \<Rightarrow> source_range_entry list option option" where
  "file_sres cap n f = (if sint n \<le> 0 then Some None else if unat n > cap then None else Some (Some (map f [0..<unat n])))"

definition compaction_sres :: "u32 \<Rightarrow> (nat \<Rightarrow> source_range_entry) \<Rightarrow> source_range_entry list option option" where
  "compaction_sres n f = (if n = 0 then Some None else if unat n > 100 then None else Some (Some (map f [0..<unat n])))"

definition out_of_memory :: u32 where
  "out_of_memory = push_bit 8 NVME_SCT_CMD_SPECIFIC_STATUS OR NVME_SC_MAX_MEM_RANGE_EXCEEDED"

definition per_file_slm_size :: u64 where
  "per_file_slm_size = (MAGIC_READ_BUFFER_PAGES div of_nat MAX_MAGIC_READ_FILES) * page_size"

text \<open>The load task of file \<open>i\<close> of a compound read.\<close>

definition start_read_load :: "csd_world \<Rightarrow> csd_command \<Rightarrow> u32 \<Rightarrow> host_data \<Rightarrow> u64 \<Rightarrow> nat \<Rightarrow> u32 \<Rightarrow> csd_world option" where
  "start_read_load w c proc h input_buf i tid =
     (let p = hd_magic_read h; k = TASK_POOL_INDEX tid; buf = input_buf + of_nat i * per_file_slm_size
      in do {
           sre \<leftarrow> file_sres 25 (mr_sre_count p i) (mr_sre p i);
           (w1, q) \<leftarrow> new_region w buf per_file_slm_size tid sre (unat (mr_sre_count p i)) (hd_junk h) (\<lambda>i. i\<lparr>use_head_tail := True\<rparr>);
           let w2 = upd_task w1 k (\<lambda>t. (schedule_task c proc (mr_file_size p i) 0 0 buf buf COPY_TO_SLM_PROGRAM_INDEX t)
                \<lparr>task_slm_lba_info := Some q, param_size := 0, is_first_io := True, io_quota := 1, origin_program_idx := ROCKSDB_MAGIC_READ_PROGRAM_INDEX\<rparr>);
           enqueue_work w2 k (copy_to_slm_list_id (wtt w2))
         })"

fun start_read_loads :: "csd_world \<Rightarrow> csd_command \<Rightarrow> u32 \<Rightarrow> host_data \<Rightarrow> u64 \<Rightarrow> nat \<Rightarrow> u32 list \<Rightarrow> csd_world option" where
  "start_read_loads w c proc h input_buf i [] = Some w"
| "start_read_loads w c proc h input_buf i (tid # tids) =
     do { w1 \<leftarrow> start_read_load w c proc h input_buf i tid; start_read_loads w1 c proc h input_buf (Suc i) tids }"

definition read_params_block :: "ccsd_magic_read_parameter \<Rightarrow> nat \<Rightarrow> u64 \<Rightarrow> u64 \<Rightarrow> u32 list \<Rightarrow> u32 list" where
  "read_params_block p n input_buf output_buf ids =
     (let ps0 = set_u32 420 (of_nat n) (set_u32 400 (of_nat n) (set_u64 328 16384 (set_u64 320 output_buf (set_u64 312 input_buf (mr_param p)))));
          ps1 = fold (\<lambda>i. set_u64 (336 + 8 * i) (of_nat i * per_file_slm_size) \<circ> set_u64 (368 + 8 * i) (mr_file_size p i) \<circ> set_u64 (128 + 8 * i) (of_nat i * per_file_slm_size)) [0..<n] ps0
      in fold (\<lambda>i. set_u32 (404 + 4 * i) (ids ! i)) [0..<n] ps1)"

text \<open>The task that runs the program of a compound read over the buffers.\<close>

definition start_read_compute :: "csd_world \<Rightarrow> csd_command \<Rightarrow> u32 \<Rightarrow> host_data \<Rightarrow> u64 \<Rightarrow> u64 \<Rightarrow> u32 \<Rightarrow> u32 list \<Rightarrow> csd_world option" where
  "start_read_compute w c proc h input_buf output_buf tid ids =
     (let p = hd_magic_read h; k = TASK_POOL_INDEX tid
      in do {
           (w1, q) \<leftarrow> new_region w output_buf 16384 TASK_ID_NONE None 0 (hd_junk h) (\<lambda>i. i\<lparr>is_output := True, use_head_tail := True\<rparr>);
           ps \<leftarrow> copy_params (params (wtask w1 k)) (old_word (read_params_block p (length ids) input_buf output_buf ids)) magic_params_size;
           let w2 = upd_task w1 k (\<lambda>t. (schedule_task c proc (\<Sum>i\<leftarrow>[0..<length ids]. mr_file_size p i) 0 0 input_buf output_buf ROCKSDB_MAGIC_READ_PROGRAM_INDEX t)
                \<lparr>task_slm_lba_info := Some q, params := ps, param_size := of_nat magic_params_size\<rparr>);
           (w3, core) \<leftarrow> pick_core w2;
           enqueue_work w3 k core
         })"

text \<open>The result has the status (when it is set) and whether the command succeeded.\<close>

definition do_perform_magic_read :: "csd_world \<Rightarrow> csd_command \<Rightarrow> u32 \<Rightarrow> host_data \<Rightarrow> (csd_world \<times> u32 option \<times> bool) option" where
  "do_perform_magic_read w c proc h =
     (let num_files = sint (mr_num_files (hd_magic_read h)); n = nat num_files
      in if num_files < 1 \<or> num_files > int MAX_MAGIC_READ_FILES then Some (w, None, False)
         else do {
           (w1, ids, enough) \<leftarrow> alloc_tasks w (Suc n) [];
           if \<not> enough then map_option (\<lambda>w2. (w2, None, False)) (free_tasks w1 ids)
           else if \<not> list_all (\<lambda>i. file_sres 25 (mr_sre_count (hd_magic_read h) i) (mr_sre (hd_magic_read h) i) \<noteq> None) [0..<n] then None
           else do {
             (w2, bufs) \<leftarrow> alloc_bufs w1 [per_file_slm_size * of_nat n, 16384] [];
             if -1 \<in> set bufs
             then do { w3 \<leftarrow> free_tasks w2 ids; w4 \<leftarrow> free_bufs w3 bufs; Some (w4, Some out_of_memory, False) }
             else do {
               w3 \<leftarrow> start_read_loads w2 c proc h (bufs ! 0) 0 (tl ids);
               w4 \<leftarrow> start_read_compute w3 c proc h (bufs ! 0) (bufs ! 1) (hd ids) (tl ids);
               Some (w4, None, True)
             }
           }
         })"

text \<open>
  Compaction: two loads into rings, the compaction program, and one or two programs in a chain behind it that
  compute checksums. The rings are one buffer with a copy of its first pages behind it.
\<close>

definition circular_buf_size :: u64 where "circular_buf_size = ucast MAGIC_BUFFER_SIZE + GHOST_PAGE_SIZE"
definition FRONT_METADATA_SIZE :: u64 where "FRONT_METADATA_SIZE = 16 * 1024"

definition crc_flag :: "ccsd_magic_parameter \<Rightarrow> bool" where
  "crc_flag p \<longleftrightarrow> old_word (mc_param p) 21 AND 0xFF \<noteq> 0"

definition crc_cores :: "ccsd_magic_parameter \<Rightarrow> nat" where
  "crc_cores p = (if sint (old_word (mc_param p) 22) < 1 then 1 else if sint (old_word (mc_param p) 22) > 2 then 2 else nat (sint (old_word (mc_param p) 22)))"

definition total_input_size :: "ccsd_magic_parameter \<Rightarrow> u64 option" where
  "total_input_size p =
     (let sstable_size = get_u64 (mc_param p) 64
      in if sstable_size = 0 then None else Some (((mc_file_size p 0 + mc_file_size p 1) div sstable_size + 2) * sstable_size))"

text \<open>An input ring, an output ring, and an output ring that the next program of the chain reads.\<close>

definition input_ring :: "u64 \<Rightarrow> slm_lba_info \<Rightarrow> slm_lba_info" where
  "input_ring n i = i\<lparr>is_circular := True, logical_total_size := n, load_complete := False, use_head_tail := True\<rparr>"

definition output_ring :: "slm_lba_info \<Rightarrow> slm_lba_info" where
  "output_ring i = i\<lparr>is_output := True, output_is_circular := True, host_consumed_logical_offset := 0, output_logical_total_size := 0, use_head_tail := True\<rparr>"

text \<open>The load of file \<open>i\<close>; its quota and first-read flag are those of the last task in the slot.\<close>

definition start_ring_load :: "csd_world \<Rightarrow> csd_command \<Rightarrow> u32 \<Rightarrow> ccsd_magic_parameter \<Rightarrow> nat \<Rightarrow> u64 \<Rightarrow> u32 \<Rightarrow> csd_world option" where
  "start_ring_load w c proc p i buf tid =
     (let k = TASK_POOL_INDEX tid;
          w1 = upd_task w k (\<lambda>t. (schedule_task c proc (mc_file_size p i) 0 0 buf buf COPY_TO_SLM_PROGRAM_INDEX t)
                 \<lparr>param_size := 0, origin_program_idx := ROCKSDB_MAGIC_COMPACTION_PROGRAM_INDEX\<rparr>)
      in enqueue_work w1 k (copy_to_slm_list_id (wtt w1)))"

definition start_compaction :: "csd_world \<Rightarrow> csd_command \<Rightarrow> u32 \<Rightarrow> ccsd_magic_parameter \<Rightarrow> u64 \<Rightarrow> u64 \<Rightarrow> u64 \<Rightarrow> u64 \<Rightarrow> u32 \<Rightarrow> csd_world option" where
  "start_compaction w c proc p first second out meta tid =
     (let k = TASK_POOL_INDEX tid;
          ps = set_u64 8 meta (set_u64 0 out (set_u64 48 second (set_u64 32 first (mc_param p))));
          ps' = set_u32 84 ((old_word ps 21 AND NOT 0xFF) OR (if crc_flag p then 0 else 1)) ps
      in do {
           qs \<leftarrow> copy_params (params (wtask w k)) (old_word ps') magic_params_size;
           let w1 = upd_task w k (\<lambda>t. (schedule_task c proc (mc_file_size p 0 + mc_file_size p 1) 0 0 first out ROCKSDB_MAGIC_COMPACTION_PROGRAM_INDEX t)
                \<lparr>params := qs, param_size := of_nat magic_params_size\<rparr>);
           (w2, core) \<leftarrow> pick_core w1;
           enqueue_work w2 k core
         })"

text \<open>A checksum program that reads the ring \<open>q\<close> at \<open>input\<close> and writes to \<open>out\<close>.\<close>

definition start_crc :: "csd_world \<Rightarrow> csd_command \<Rightarrow> u32 \<Rightarrow> ccsd_magic_parameter \<Rightarrow> u64 \<Rightarrow> nat option \<Rightarrow> u64 \<Rightarrow> u64 \<Rightarrow> nat \<Rightarrow> u32 \<Rightarrow> csd_world option" where
  "start_crc w c proc p tsize q input out core_id tid =
     (let k = TASK_POOL_INDEX tid;
          block = (\<lambda>ps. set_u32 52 (of_nat core_id) (set_u32 48 (of_nat (crc_cores p)) (set_u64 8 (get_u64 (mc_param p) 72) (set_u64 0 (get_u64 (mc_param p) 64)
             (set_u64 40 tsize (set_u64 32 circular_buf_size (set_u64 24 out (set_u64 16 input ps))))))));
          w1 = upd_task w k (\<lambda>t. (schedule_task c proc tsize 0 0 input out ROCKSDB_MAGIC_CRC_PROGRAM_INDEX t)
             \<lparr>task_slm_lba_info := q, params := block (params t), param_size := 56\<rparr>)
      in do { (w2, core) \<leftarrow> pick_core w1; enqueue_work w2 k core })"

definition meta_region :: "csd_world \<Rightarrow> u64 \<Rightarrow> u64 \<Rightarrow> csd_world option" where
  "meta_region w meta junk =
     (if meta = -1 then Some w
      else map_option fst (new_region w meta FRONT_METADATA_SIZE TASK_ID_NONE None 0 junk (\<lambda>i. i\<lparr>is_output := True, use_head_tail := True\<rparr>)))"

text \<open>
  The buffers, in the order in which they are allocated: the two inputs, the output of the compaction, with two
  checksum programs the ring between them, with any the final output, and the metadata.
\<close>

definition compaction_bufs :: "ccsd_magic_parameter \<Rightarrow> u64 list" where
  "compaction_bufs p = replicate (if crc_flag p then 3 + crc_cores p else 3) circular_buf_size @ [FRONT_METADATA_SIZE]"

definition start_crc_chain ::
  "csd_world \<Rightarrow> csd_command \<Rightarrow> u32 \<Rightarrow> ccsd_magic_parameter \<Rightarrow> u64 \<Rightarrow> u64 \<Rightarrow> u64 list \<Rightarrow> nat option \<Rightarrow> u32 list \<Rightarrow> csd_world option" where
  "start_crc_chain w c proc p junk tsize bufs q1 ids =
     (let inter = bufs ! 2; final = bufs ! (2 + crc_cores p)
      in if crc_cores p = 2
         then do {
           (w1, q2) \<leftarrow> new_region w (bufs ! 3) circular_buf_size (ids ! 3) None 0 junk (input_ring tsize \<circ> output_ring);
           w2 \<leftarrow> start_crc w1 c proc p tsize q1 inter (bufs ! 3) 0 (ids ! 3);
           (w3, q3) \<leftarrow> new_region w2 final circular_buf_size (ids ! 4) None 0 junk output_ring;
           start_crc w3 c proc p tsize (Some q2) (bufs ! 3) final 1 (ids ! 4)
         }
         else do {
           (w1, q2) \<leftarrow> new_region w final circular_buf_size (ids ! 3) None 0 junk output_ring;
           start_crc w1 c proc p tsize q1 inter final 0 (ids ! 3)
         })"

definition set_region :: "csd_world \<Rightarrow> u32 \<Rightarrow> nat \<Rightarrow> csd_world" where
  "set_region w tid q = upd_task w (TASK_POOL_INDEX tid) (\<lambda>t. t\<lparr>task_slm_lba_info := Some q\<rparr>)"

text \<open>With all tasks and buffers at hand: task 0 is the compaction, tasks 1 and 2 are the loads.\<close>

definition start_magic_compaction ::
  "csd_world \<Rightarrow> csd_command \<Rightarrow> u32 \<Rightarrow> host_data \<Rightarrow> u64 \<Rightarrow> source_range_entry list option \<Rightarrow> source_range_entry list option \<Rightarrow> u32 list \<Rightarrow> u64 list \<Rightarrow> csd_world option" where
  "start_magic_compaction w c proc h tsize sre1 sre2 ids bufs =
     (let p = hd_magic h; junk = hd_junk h
      in do {
           (w1, q2) \<leftarrow> new_region w (bufs ! 0) circular_buf_size (ids ! 1) sre1 (unat (mc_sre_count p 0)) junk (input_ring (mc_file_size p 0));
           (w2, q3) \<leftarrow> new_region (set_region w1 (ids ! 1) q2) (bufs ! 1) circular_buf_size (ids ! 2) sre2 (unat (mc_sre_count p 1)) junk (input_ring (mc_file_size p 1));
           (w3, q1) \<leftarrow> new_region (set_region w2 (ids ! 2) q3) (bufs ! 2) circular_buf_size (ids ! 0) None 0 junk
                         (if crc_flag p then input_ring tsize \<circ> output_ring else output_ring);
           let w4 = set_region w3 (ids ! 0) q1;
           w5 \<leftarrow> start_ring_load w4 c proc p 0 (bufs ! 0) (ids ! 1);
           w6 \<leftarrow> start_ring_load w5 c proc p 1 (bufs ! 1) (ids ! 2);
           w7 \<leftarrow> start_compaction w6 c proc p (bufs ! 0) (bufs ! 1) (bufs ! 2) (last bufs) (ids ! 0);
           if crc_flag p then start_crc_chain w7 c proc p junk tsize bufs (Some q1) ids else Some w7
         })"

definition do_perform_magic_compaction :: "csd_world \<Rightarrow> csd_command \<Rightarrow> u32 \<Rightarrow> host_data \<Rightarrow> (csd_world \<times> u32 option \<times> bool) option" where
  "do_perform_magic_compaction w c proc h =
     (let p = hd_magic h
      in do {
           tsize \<leftarrow> total_input_size p;
           (w1, ids, enough) \<leftarrow> alloc_tasks w (if crc_flag p then 3 + crc_cores p else 3) [];
           if \<not> enough then map_option (\<lambda>w2. (w2, None, False)) (free_tasks w1 ids)
           else do {
             sre1 \<leftarrow> compaction_sres (mc_sre_count p 0) (mc_sre p 0);
             sre2 \<leftarrow> compaction_sres (mc_sre_count p 1) (mc_sre p 1);
             (w2, bufs) \<leftarrow> alloc_bufs w1 (compaction_bufs p) [];
             w3 \<leftarrow> meta_region w2 (last bufs) (hd_junk h);
             if -1 \<in> set bufs
             then do { w4 \<leftarrow> free_tasks w3 ids; w5 \<leftarrow> free_bufs w4 bufs; Some (w5, Some out_of_memory, False) }
             else do { w4 \<leftarrow> start_magic_compaction w3 c proc h tsize sre1 sre2 ids bufs; Some (w4, None, True) }
           }
         })"

section \<open>Ended tasks\<close>

text \<open>The first run of ended tasks in a list: its first and last task and its length.\<close>

partial_function (option) end_run :: "task_array \<Rightarrow> nat option \<Rightarrow> (nat \<times> nat \<times> nat) option \<Rightarrow> (nat \<times> nat \<times> nat) option option" where
  "end_run T cur run =
     (case cur of
        None \<Rightarrow> Some run
      | Some k \<Rightarrow>
          if task_step (T k) = CCSD_TASK_END
          then end_run T (t_next (T k)) (Some (case run of None \<Rightarrow> (k, k, 1) | Some (f, l, n) \<Rightarrow> (f, k, Suc n)))
          else (case run of None \<Rightarrow> end_run T (t_next (T k)) None | Some r \<Rightarrow> Some (Some r)))"

definition reclaim_comp_list :: "csd_world \<Rightarrow> nat \<Rightarrow> csd_world option" where
  "reclaim_comp_list w turn =
     (let tt = wtable w; l = comp_list tt turn
      in do {
           run \<leftarrow> end_run (task tt) (lhead l) None;
           (case run of
              None \<Rightarrow> Some w
            | Some (f, e, n) \<Rightarrow>
                (let (T1, l1) = dequeue_task_multi (task tt) l f e n
                 in map_option (\<lambda>(T2, dl). put_table w (tt\<lparr>task := T2, comp_list := (comp_list tt)(turn := l1), done_list := dl\<rparr>))
                      (enqueue_task_multi T1 (done_list tt) f e n)))
         })"

fun reclaim_comp_lists :: "csd_world \<Rightarrow> nat \<Rightarrow> nat \<Rightarrow> csd_world option" where
  "reclaim_comp_lists w turn 0 = Some w"
| "reclaim_comp_lists w turn (Suc n) = do { w1 \<leftarrow> reclaim_comp_list w turn; reclaim_comp_lists w1 (Suc turn) n }"

definition reclaim_task :: "csd_world \<Rightarrow> csd_world option" where
  "reclaim_task w = reclaim_comp_lists w 0 (num_cpu_resources (wtt w) + 1)"

text \<open>A postponed free is due when the loads it waits for have nothing in flight.\<close>

definition free_due :: "csd_world \<Rightarrow> deferred_slm_free \<Rightarrow> bool" where
  "free_due w df \<longleftrightarrow> df_active df \<and>
     list_all (\<lambda>tid. let t = wtask w (TASK_POOL_INDEX tid) in \<not> TASK_GEN_VALID tid t \<or> internal_io_count t = 0) (df_load_task_ids df)"

fun process_deferred_from :: "csd_world \<Rightarrow> nat \<Rightarrow> nat \<Rightarrow> csd_world option" where
  "process_deferred_from w i 0 = Some w"
| "process_deferred_from w i (Suc n) =
     (if free_due w (wdef w i)
      then do {
        s \<leftarrow> free_slm_range (wslm w) (df_input_buf (wdef w i));
        process_deferred_from (w\<lparr>wslm := s, wdef := (wdef w)(i := (wdef w i)\<lparr>df_active := False\<rparr>)\<rparr>) (Suc i) n
      }
      else process_deferred_from w (Suc i) n)"

definition process_deferred_slm_frees :: "csd_world \<Rightarrow> csd_world option" where
  "process_deferred_slm_frees w = process_deferred_from w 0 MAX_DEFERRED_SLM_FREES"

text \<open>Parks the loads of a compound read that are still scheduled and collects them.\<close>

fun park_loads :: "csd_world \<Rightarrow> u32 list \<Rightarrow> u32 list \<Rightarrow> (csd_world \<times> u32 list) option" where
  "park_loads w [] waiting = Some (w, waiting)"
| "park_loads w (tid # tids) waiting =
     (let k = TASK_POOL_INDEX tid; t = wtask w k
      in if \<not> TASK_GEN_VALID tid t \<or> task_step t \<noteq> CCSD_TASK_SCHEDULE then park_loads w tids waiting
         else if program_idx t \<noteq> COPY_TO_SLM_PROGRAM_INDEX then None
         else park_loads (upd_task w k (\<lambda>t. t\<lparr>task_step := CCSD_TASK_WAIT\<rparr>)) tids (waiting @ [tid]))"

definition finish_magic_read :: "csd_world \<Rightarrow> u32 list \<Rightarrow> csd_world option" where
  "finish_magic_read w ps =
     (let n = nat (sint (old_word ps 105)); input_buf = get_u64 ps 312
      in do {
           (w1, waiting) \<leftarrow> park_loads w (map (\<lambda>j. old_word ps (101 + j)) [0..<n]) [];
           if waiting = [] then map_option (put_slm w1) (free_slm_range (wslm w1) input_buf)
           else (case filter (\<lambda>i. \<not> df_active (wdef w1 i)) [0..<MAX_DEFERRED_SLM_FREES] of
                   [] \<Rightarrow> None
                 | slot # _ \<Rightarrow> Some (w1\<lparr>wdef := (wdef w1)(slot := \<lparr>df_active = True, df_input_buf = input_buf, df_load_task_ids = waiting\<rparr>)\<rparr>))
         })"

text \<open>Whether a completion is sent now; otherwise it was sent when the command was dispatched.\<close>

definition sends_completion :: "ccsd_task_info \<Rightarrow> bool" where
  "sends_completion t \<longleftrightarrow>
     (task_opcode t = ucast nvme_cmd_execute_program \<longrightarrow> program_idx t = COMPRESSION_INDEX)
   \<and> task_opcode t \<notin> {ucast nvme_cmd_memory_copy, ucast nvme_cmd_magic_compaction, ucast nvme_cmd_magic_read} \<and> \<not> magic_program (program_idx t)"

text \<open>The buffers that the program of the task was using are given back.\<close>

definition free_task_buffers :: "csd_world \<Rightarrow> ccsd_task_info \<Rightarrow> csd_world option" where
  "free_task_buffers w t =
     (let ps = params t
      in if program_idx t = ROCKSDB_MAGIC_COMPACTION_PROGRAM_INDEX
         then do {
           s1 \<leftarrow> free_slm_range (wslm w) (get_u64 ps 32);
           s2 \<leftarrow> free_slm_range s1 (get_u64 ps 48);
           Some (put_slm w s2)
         }
         else if program_idx t = ROCKSDB_MAGIC_CRC_PROGRAM_INDEX then map_option (put_slm w) (free_slm_range (wslm w) (get_u64 ps 16))
         else if program_idx t = ROCKSDB_MAGIC_READ_PROGRAM_INDEX then finish_magic_read w ps
         else Some w)"

definition release_task :: "csd_world \<Rightarrow> nat \<Rightarrow> csd_world option" where
  "release_task w k =
     (let w1 = upd_task w k (\<lambda>t. t\<lparr>generation_id := TASK_ID_NONE, task_step := CCSD_TASK_FREE, task_slm_lba_info := None\<rparr>);
          tt = wtable w1; (T, dl) = dequeue_task (task tt) (done_list tt) k
      in free_task (put_table w1 (tt\<lparr>task := T, done_list := dl\<rparr>)) k)"

text \<open>The completions that are sent: the entry of the command, its status and its result.\<close>

partial_function (option) complete_from :: "csd_world \<Rightarrow> nat option \<Rightarrow> (u32 \<times> u32 \<times> u64) list \<Rightarrow> (csd_world \<times> (u32 \<times> u32 \<times> u64) list) option" where
  "complete_from w cur sent =
     (case cur of
        None \<Rightarrow> Some (w, sent)
      | Some k \<Rightarrow>
          (let t = wtask w k
           in do {
                w1 \<leftarrow> free_task_buffers w t;
                let next_task = t_next (wtask w1 k);
                w2 \<leftarrow> release_task w1 k;
                complete_from w2 next_task (if sends_completion t then sent @ [(proc_idx t, task_status t, task_result t)] else sent)
              }))"

definition complete_tasks :: "csd_world \<Rightarrow> (csd_world \<times> (u32 \<times> u32 \<times> u64) list) option" where
  "complete_tasks w = complete_from w (lhead (done_list (wtt w))) []"

section \<open>The passes of the dispatcher\<close>

text \<open>An entry of the table of commands, as far as the dispatcher uses it.\<close>

record proc_entry =
  pe_command :: csd_command
  pe_host :: host_data
  is_copied :: bool
  is_completed :: bool
  pe_status :: u32
  pe_next :: "nat option"

text \<open>One command; the result has its status, whether a completion is sent at once, and its result value.\<close>

definition dispatch_command :: "csd_world \<Rightarrow> csd_command \<Rightarrow> u32 \<Rightarrow> host_data \<Rightarrow> (csd_world \<times> u32 \<times> bool \<times> u64) option" where
  "dispatch_command w c proc h =
     (let success = push_bit 8 NVME_SCT_GENERIC_CMD_STATUS OR NVME_SC_SUCCESS; status_of = (\<lambda>s. case s of None \<Rightarrow> success | Some x \<Rightarrow> x); op = c_opcode c
      in if op = nvme_admin_load_program then Some (w, success, True, 0)
         else if op = nvme_cmd_memory_management
         then do { (w1, st, res, ok) \<leftarrow> do_perform_memory_management w c; Some (w1, status_of st, True, res) }
         else if op = nvme_cmd_magic_compaction
         then do { (w1, st, ok) \<leftarrow> do_perform_magic_compaction w c proc h; Some (w1, status_of st, True, -1) }
         else if op = nvme_cmd_magic_read
         then do { (w1, st, ok) \<leftarrow> do_perform_magic_read w c proc h; Some (w1, status_of st, True, -1) }
         else do {
           (w1, ok) \<leftarrow> do_perform_dispatch w c proc h;
           let exec = (op = nvme_cmd_execute_program);
           Some (w1, success, \<not> ok \<or> (exec \<and> ucast (c_pind c) \<noteq> COMPRESSION_INDEX) \<or> op = nvme_cmd_memory_copy, if exec then -1 else 0)
         })"

text \<open>
  The first half of a pass: commands are dispatched in their order, at most as many as there are cores. The list
  has the completions sent: the entry, its status and its result.
\<close>

partial_function (option) dispatch_from ::
  "csd_world \<Rightarrow> (nat \<Rightarrow> proc_entry) \<Rightarrow> nat option \<Rightarrow> nat \<Rightarrow> (nat \<times> u32 \<times> u64) list \<Rightarrow> (csd_world \<times> (nat \<Rightarrow> proc_entry) \<times> (nat \<times> u32 \<times> u64) list) option" where
  "dispatch_from w P cur count sent =
     (case cur of
        None \<Rightarrow> Some (w, P, sent)
      | Some e \<Rightarrow>
          if is_completed (P e) then dispatch_from w P (pe_next (P e)) count sent
          else if count \<ge> num_cpu_resources (wtt w) then Some (w, P, sent)
          else do {
            (w1, P1, count1, sent1) \<leftarrow>
              (if is_copied (P e) then Some (w, P, count, sent)
               else do {
                 (w', st, send, res) \<leftarrow> dispatch_command w (pe_command (P e)) (of_nat e) (pe_host (P e));
                 Some (w', P(e := (P e)\<lparr>is_copied := True, pe_status := st, is_completed := send\<rparr>), Suc count, if send then sent @ [(e, st, res)] else sent)
               });
            w2 \<leftarrow> process_deferred_slm_frees w1;
            w3 \<leftarrow> reclaim_task w2;
            dispatch_from w3 P1 (pe_next (P1 e)) count1 sent1
          })"

text \<open>A whole pass of \<open>nvmev_kthread_ccsd_io\<close>.\<close>

definition ccsd_io_pass ::
  "csd_world \<Rightarrow> (nat \<Rightarrow> proc_entry) \<Rightarrow> nat option \<Rightarrow> (csd_world \<times> (nat \<Rightarrow> proc_entry) \<times> (nat \<times> u32 \<times> u64) list) option" where
  "ccsd_io_pass w P io_seq =
     do {
       (w1, P1, sent) \<leftarrow> dispatch_from w P io_seq 0 [];
       w2 \<leftarrow> reclaim_task w1;
       (w3, done_sent) \<leftarrow> complete_tasks w2;
       w4 \<leftarrow> process_deferred_slm_frees w3;
       Some (w4, fold (\<lambda>(e, st, res) P. P(unat e := (P (unat e))\<lparr>is_completed := True\<rparr>)) done_sent P1, sent @ map (\<lambda>(e, st, res). (unat e, st, res)) done_sent)
     }"

text \<open>Writing a completion into a queue: its entries, head, size and phase.\<close>

record completion =
  cq_result0 :: u32
  cq_result1 :: u32
  cq_sq_head :: u16
  cq_sq_id :: u16
  cq_command_id :: u16
  cq_status :: u16

record completion_queue =
  cq_entries :: "nat \<Rightarrow> completion"
  cq_head :: nat
  cq_queue_size :: nat
  cq_phase :: bool
  interrupt_ready :: bool

definition fill_cq_result :: "completion_queue \<Rightarrow> u16 \<Rightarrow> u16 \<Rightarrow> u16 \<Rightarrow> u32 \<Rightarrow> u64 \<Rightarrow> completion_queue" where
  "fill_cq_result cq sqid sq_entry command_id st res =
     (let e = \<lparr>cq_result0 = ucast (res AND 0xFFFFFFFF), cq_result1 = ucast (drop_bit 32 res), cq_sq_head = sq_entry, cq_sq_id = sqid,
               cq_command_id = command_id, cq_status = ucast ((if cq_phase cq then 1 else 0) OR push_bit 1 st)\<rparr>;
          cq1 = cq\<lparr>cq_entries := (cq_entries cq)(cq_head cq := e), interrupt_ready := True\<rparr>
      in if cq_head cq + 1 = cq_queue_size cq then cq1\<lparr>cq_head := 0, cq_phase := \<not> cq_phase cq\<rparr> else cq1\<lparr>cq_head := cq_head cq + 1\<rparr>)"

end
