(* ===== verification/Csd_Compute.thy ===== *)
theory Csd_Compute
  imports Csd_Dispatch
begin

unbundle bit_operations_syntax

text \<open>
  The compute threads, \<open>compute_work\<close> of \<open>csd_dispatcher.c\<close>, and what the programs that they run do to the shared
  memory. The programs themselves (\<open>csd_user_func.c\<close>) are known by what they return: a pass of the thread is given
  the results of the runs it makes, each with the state of the shared memory when it begins. On the way a
  program makes any of the calls of \<open>slm_call\<close>, with any arguments.
\<close>

section \<open>Program indices\<close>

definition STREAM_TYPE_PROGRAM_INDEX_START :: u32 where "STREAM_TYPE_PROGRAM_INDEX_START = 1"
definition KEY_FINDER_PROGRAM_INDEX :: u32 where "KEY_FINDER_PROGRAM_INDEX = 2"
definition KNN_PROGRAM_INDEX :: u32 where "KNN_PROGRAM_INDEX = 3"
definition GREP_PROGRAM_INDEX :: u32 where "GREP_PROGRAM_INDEX = 4"
definition DECOMPRESSION_INDEX :: u32 where "DECOMPRESSION_INDEX = 6"
definition BITMAP_PROGRAM_INDEX :: u32 where "BITMAP_PROGRAM_INDEX = 8"
definition STATIC_OUTPUT_TYPE_PROGRAM_INDEX_START :: u32 where "STATIC_OUTPUT_TYPE_PROGRAM_INDEX_START = 9"
definition STAT32_PROGRAM_INDEX :: u32 where "STAT32_PROGRAM_INDEX = 10"
definition FILTERED_STAT32_PROGRAM_INDEX :: u32 where "FILTERED_STAT32_PROGRAM_INDEX = 12"
definition STATIC_OUTPUT_TYPE_PROGRAM_INDEX_END :: u32 where "STATIC_OUTPUT_TYPE_PROGRAM_INDEX_END = 13"
definition STREAM_TYPE_PROGRAM_INDEX_END :: u32 where "STREAM_TYPE_PROGRAM_INDEX_END = 14"
definition RANDOM_ACCESS_TYPE_PROGRAM_INDEX_START :: u32 where "RANDOM_ACCESS_TYPE_PROGRAM_INDEX_START = 0x100"
definition ROCKSDB_READ_PROGRAM_INDEX :: u32 where "ROCKSDB_READ_PROGRAM_INDEX = 0x104"
definition RANDOM_ACCESS_TYPE_PROGRAM_INDEX_END :: u32 where "RANDOM_ACCESS_TYPE_PROGRAM_INDEX_END = 0x105"
definition MULTI_STREAM_TYPE_PROGRAM_INDEX_START :: u32 where "MULTI_STREAM_TYPE_PROGRAM_INDEX_START = 0x300"
definition MULTI_STREAM_TYPE_PROGRAM_INDEX_END :: u32 where "MULTI_STREAM_TYPE_PROGRAM_INDEX_END = 0x30B"

lemmas program_index_defs = STREAM_TYPE_PROGRAM_INDEX_START_def KEY_FINDER_PROGRAM_INDEX_def KNN_PROGRAM_INDEX_def GREP_PROGRAM_INDEX_def
  DECOMPRESSION_INDEX_def BITMAP_PROGRAM_INDEX_def STATIC_OUTPUT_TYPE_PROGRAM_INDEX_START_def STAT32_PROGRAM_INDEX_def FILTERED_STAT32_PROGRAM_INDEX_def
  STATIC_OUTPUT_TYPE_PROGRAM_INDEX_END_def STREAM_TYPE_PROGRAM_INDEX_END_def RANDOM_ACCESS_TYPE_PROGRAM_INDEX_START_def ROCKSDB_READ_PROGRAM_INDEX_def
  RANDOM_ACCESS_TYPE_PROGRAM_INDEX_END_def MULTI_STREAM_TYPE_PROGRAM_INDEX_START_def MULTI_STREAM_TYPE_PROGRAM_INDEX_END_def

definition IS_STREAM_TYPE_PROGRAM_INDEX :: "u32 \<Rightarrow> bool" where
  "IS_STREAM_TYPE_PROGRAM_INDEX idx \<longleftrightarrow> idx > STREAM_TYPE_PROGRAM_INDEX_START \<and> idx < STREAM_TYPE_PROGRAM_INDEX_END"

definition IS_STATIC_OUTPUT_TYPE_PROGRAM_INDEX :: "u32 \<Rightarrow> bool" where
  "IS_STATIC_OUTPUT_TYPE_PROGRAM_INDEX idx \<longleftrightarrow> idx > STATIC_OUTPUT_TYPE_PROGRAM_INDEX_START \<and> idx < STATIC_OUTPUT_TYPE_PROGRAM_INDEX_END"

definition IS_RANDOM_ACCESS_PROGRAM_INDEX :: "u32 \<Rightarrow> bool" where
  "IS_RANDOM_ACCESS_PROGRAM_INDEX idx \<longleftrightarrow> idx > RANDOM_ACCESS_TYPE_PROGRAM_INDEX_START \<and> idx < RANDOM_ACCESS_TYPE_PROGRAM_INDEX_END"

definition IS_MULTI_STREAM_PROGRAM_INDEX :: "u32 \<Rightarrow> bool" where
  "IS_MULTI_STREAM_PROGRAM_INDEX idx \<longleftrightarrow> idx > MULTI_STREAM_TYPE_PROGRAM_INDEX_START \<and> idx < MULTI_STREAM_TYPE_PROGRAM_INDEX_END"

definition IS_AUTO_OUTPUT_RECORD_PROGRAM_INDEX :: "u32 \<Rightarrow> bool" where
  "IS_AUTO_OUTPUT_RECORD_PROGRAM_INDEX idx \<longleftrightarrow>
     idx \<in> {KEY_FINDER_PROGRAM_INDEX, STAT32_PROGRAM_INDEX, FILTERED_STAT32_PROGRAM_INDEX, KNN_PROGRAM_INDEX, GREP_PROGRAM_INDEX, BITMAP_PROGRAM_INDEX,
       ROCKSDB_READ_PROGRAM_INDEX}"

section \<open>One visit of a compute thread\<close>

text \<open>A run of a program: the shared memory when it begins, the parameter block it leaves and its result.\<close>

record prog_run =
  pr_slm :: slm_state
  pr_params :: "u32 list"
  pr_temp :: u64

text \<open>The bytes given to the next run; 0 when a program with static output finds no input ready, which ends the visit.\<close>

definition processing_size :: "slm_state \<Rightarrow> ccsd_task_info \<Rightarrow> u64 \<Rightarrow> u64 \<Rightarrow> u64 option" where
  "processing_size s t processed rest_size =
     (let idx = program_idx t;
          stream = (IS_STREAM_TYPE_PROGRAM_INDEX idx \<and> \<not> IS_AUTO_OUTPUT_RECORD_PROGRAM_INDEX idx);
          n = (if idx = DECOMPRESSION_INDEX then rest_size else if stream then min rest_size IO_REQUEST_SIZE else rest_size)
      in if \<not> IS_STATIC_OUTPUT_TYPE_PROGRAM_INDEX idx \<or> \<not> stream then Some n
         else do {
           c \<leftarrow> get_continuous_size s (input_buf_addr t + processed) (min rest_size (1024 * 1024 * 4));
           Some (min c rest_size)
         })"

text \<open>
  The loop over the runs of one visit: the new \<open>processed_offset\<close>, what is left, the result and the parameter block. The
  field \<open>finish\<close> is the first word of the block. A visit that is not over yet has no value.
\<close>

fun compute_loop :: "ccsd_task_info \<Rightarrow> prog_run list \<Rightarrow> u64 \<Rightarrow> u64 \<Rightarrow> u64 \<Rightarrow> u32 list \<Rightarrow> (u64 \<times> u64 \<times> u64 \<times> u32 list) option" where
  "compute_loop t [] processed rest_size res ps = (if rest_size = 0 then Some (processed, rest_size, res, ps) else None)"
| "compute_loop t (r # rs) processed rest_size res ps =
     (if rest_size = 0 then Some (processed, rest_size, res, ps)
      else do {
        n \<leftarrow> processing_size (pr_slm r) t processed rest_size;
        if n = 0 then Some (processed, rest_size, res, ps)
        else
          (let n' = (if sint (old_word (pr_params r) 0) > 0 then rest_size else n); processed' = processed + n'; rest_size' = rest_size - n';
               res' = (if IS_STATIC_OUTPUT_TYPE_PROGRAM_INDEX (program_idx t) then pr_temp r else res + pr_temp r)
           in if IS_RANDOM_ACCESS_PROGRAM_INDEX (program_idx t) \<and> (processed' \<noteq> total_size t \<or> rest_size' \<noteq> 0) then None
              else if res' \<ge> page_size then Some (processed', rest_size', res', pr_params r)
              else compute_loop t rs processed' rest_size' res' (pr_params r))
      })"

text \<open>The output of a program that does not publish it itself.\<close>

definition publish_output :: "csd_world \<Rightarrow> ccsd_task_info \<Rightarrow> u64 \<Rightarrow> csd_world option" where
  "publish_output w t res =
     (if IS_AUTO_OUTPUT_RECORD_PROGRAM_INDEX (program_idx t) \<or> IS_MULTI_STREAM_PROGRAM_INDEX (program_idx t) then Some w
      else map_option (put_slm w) (notify_slm_data_ready (wslm w) (output_buf_addr t + task_result t) res))"

text \<open>The end of the output of a task that is done; compound programs end theirs themselves.\<close>

definition end_output :: "csd_world \<Rightarrow> ccsd_task_info \<Rightarrow> u64 \<Rightarrow> csd_world option" where
  "end_output w t total_result =
     (if magic_program (program_idx t) then Some w
      else do {
        s1 \<leftarrow> finalize_slm_data_ready (wslm w) (output_buf_addr t + total_result) total_result;
        s2 \<leftarrow> notify_slm_data_ready s1 (output_buf_addr t + total_result) page_size;
        Some (put_slm w s2)
      })"

definition compute_visit :: "prog_run list \<Rightarrow> csd_world \<Rightarrow> nat \<Rightarrow> csd_world option" where
  "compute_visit rs w k =
     (let t = wtask w k
      in if task_step t \<noteq> CCSD_TASK_SCHEDULE then Some w
         else if program_idx t = COPY_TO_SLM_PROGRAM_INDEX then None
         else do {
           (processed, rest_size, res, ps) \<leftarrow> compute_loop t rs (processed_offset t) (total_size t - processed_offset t) 0 (params t);
           w1 \<leftarrow> publish_output (upd_task w k (\<lambda>t. t\<lparr>processed_offset := processed, params := ps\<rparr>)) t res;
           let total_result = (if IS_STATIC_OUTPUT_TYPE_PROGRAM_INDEX (program_idx t) then res else task_result t + res);
           let w2 = upd_task w1 k (\<lambda>t. t\<lparr>task_result := total_result\<rparr>);
           if rest_size \<noteq> 0 then Some w2
           else map_option (\<lambda>w3. upd_task w3 k (\<lambda>t. t\<lparr>task_step := CCSD_TASK_END\<rparr>)) (end_output w2 t total_result)
         })"

text \<open>A visit accounts for every byte: what it has processed and what is left add up to what it began with, so a task ends when all of its input is processed.\<close>

lemma compute_loop_sum: "compute_loop t rs p n x ps = Some (p', n', x', ps') \<Longrightarrow> p' + n' = p + n"
proof (induction t rs p n x ps rule: compute_loop.induct)
  case (2 t r rs p n x ps)
  then show ?case by (auto simp: Let_def split: if_split_asm Option.bind_split_asm)
qed (simp split: if_split_asm)

lemma compute_visit_ends:
  assumes r: "compute_visit rs w k = Some w'" and t: "task_step (wtask w k) = CCSD_TASK_SCHEDULE"
    and l: "compute_loop (wtask w k) rs (processed_offset (wtask w k)) (total_size (wtask w k) - processed_offset (wtask w k)) 0 (params (wtask w k)) = Some (p, 0, res, ps)"
  shows "p = total_size (wtask w k) \<and> task_step (wtask w' k) = CCSD_TASK_END"
proof -
  have "p = total_size (wtask w k)" using compute_loop_sum [OF l] by simp
  moreover have "task_step (wtask w' k) = CCSD_TASK_END"
    using r t l by (auto simp: compute_visit_def Let_def wtask_def upd_task_def split: if_split_asm Option.bind_split_asm)
  ultimately show ?thesis by simp
qed

section \<open>Calls of the programs\<close>

text \<open>The end of a ring output: \<open>off\<close> is the number of bytes written, \<open>q\<close> the descriptor of the ring at \<open>base\<close>.\<close>

definition circular_output_finalize :: "slm_state \<Rightarrow> nat \<Rightarrow> u64 \<Rightarrow> u64 \<Rightarrow> slm_state option" where
  "circular_output_finalize s q base off =
     do {
       i \<leftarrow> infos s q;
       s1 \<leftarrow> (if use_head_tail i then Some (put s q (i\<lparr>ht_head := off, ht_producer_done := True\<rparr>))
             else if off > 0 then notify_slm_data_ready s (base + push_bit 12 (drop_bit 12 ((off - 1) AND ucast MAGIC_BUFFER_MASK))) page_size
             else Some s);
       j \<leftarrow> infos s1 q;
       Some (put s1 q (j\<lparr>output_logical_total_size := off, load_complete := True, logical_total_size := off\<rparr>))
     }"

datatype slm_call =
    Check_ready u64 u64 | Check_ready_info u64 u64 nat
  | Demand_read u64 u64 | Demand_read_info u64 u64 "nat option"
  | Data_ready u64 u64 | If_data_ready u64 u64 | Compute_ready u64 | Compute_ready_circular u64
  | Output_produced nat u64 | Compute_offset u64 u64 | Finalize u64 u64 | Finalize_ring nat u64 u64

fun run_call :: "slm_call \<Rightarrow> slm_state \<Rightarrow> slm_state option" where
  "run_call (Check_ready a n) s = map_option fst (check_slm_data_ready s a n)"
| "run_call (Check_ready_info a n q) s =
     do { i \<leftarrow> infos s q; Some (case fst (check_slm_data_ready_info a n (Some i)) of None \<Rightarrow> s | Some j \<Rightarrow> put s q j) }"
| "run_call (Demand_read a n) s = slm_request_demand_read s a n"
| "run_call (Demand_read_info a n q) s = slm_request_demand_read_info s a n q"
| "run_call (Data_ready a n) s = notify_slm_data_ready s a n"
| "run_call (If_data_ready a n) s = notify_if_slm_data_ready s a n"
| "run_call (Compute_ready a) s = notify_compute_ready s a"
| "run_call (Compute_ready_circular a) s = notify_compute_ready_circular s a"
| "run_call (Output_produced q n) s = do { i \<leftarrow> infos s q; Some (put s q (notify_circular_output_produced i n)) }"
| "run_call (Compute_offset a n) s = update_circular_compute_offset s a n"
| "run_call (Finalize a n) s = finalize_slm_data_ready s a n"
| "run_call (Finalize_ring q base off) s = circular_output_finalize s q base off"

end
