(* ===== verification/Csd_Lists.thy ===== *)
theory Csd_Lists
  imports Csd_Io_Inv Csd_Compute
begin

text \<open>
  The lists of the dispatcher. \<open>tlists\<close>: every task slot is in exactly one of the free list, the done list and the
  lists of the cores. \<open>dev_inv\<close> adds the invariants of the request table and of the loads. Here are the lemmas for the
  operations that move tasks (allocation, start on a core, return, collection of ended tasks, release) and for those
  that leave every task in its list (\<open>quiet\<close>: parking, freeing and reserving memory, the calls of the programs, which
  may wake any task, and the visits of the compute threads).
\<close>

section \<open>Every task is in one list\<close>

text \<open>
  \<open>fs\<close> is the free list, \<open>X\<close> the tasks a command holds while it is being dispatched, \<open>ds\<close> the done list,
  \<open>cs i\<close> the list of core \<open>i\<close>, the last one for loads, and \<open>L\<close> the slots that have been lost.
\<close>

definition tlists :: "ccsd_task_table \<Rightarrow> nat list \<Rightarrow> nat set \<Rightarrow> nat list \<Rightarrow> (nat \<Rightarrow> nat list) \<Rightarrow> nat set \<Rightarrow> bool" where
  "tlists tt fs X ds cs L \<longleftrightarrow>
     list_rep (task tt) (free_list tt) fs \<and> list_rep (task tt) (done_list tt) ds
   \<and> (\<forall>i<num_cpu_resources tt + 1. list_rep (task tt) (comp_list tt i) (cs i))
   \<and> distinct (fs @ ds @ queued (num_cpu_resources tt + 1) cs) \<and> X \<inter> set (fs @ ds @ queued (num_cpu_resources tt + 1) cs) = {}
   \<and> X \<union> set (fs @ ds @ queued (num_cpu_resources tt + 1) cs) = {..<MAX_TASK_COUNT} - L \<and> L \<subseteq> {..<MAX_TASK_COUNT}
   \<and> (\<forall>x<MAX_TASK_COUNT. x \<notin> L \<longrightarrow> task_step (task tt x) = CCSD_TASK_FREE \<longrightarrow> x \<in> X \<union> set fs)
   \<and> copy_to_slm_list_id tt = num_cpu_resources tt \<and> compute_turn tt < num_cpu_resources tt"

lemma tlists_disjoint:
  assumes "tlists tt fs X ds cs L" and "i < num_cpu_resources tt + 1"
  shows "distinct fs" "distinct ds" "distinct (cs i)" "set fs \<inter> set ds = {}" "set fs \<inter> set (cs i) = {}" "set ds \<inter> set (cs i) = {}"
    "X \<inter> set fs = {}" "X \<inter> set ds = {}" "X \<inter> set (cs i) = {}" "\<And>j. j < num_cpu_resources tt + 1 \<Longrightarrow> j \<noteq> i \<Longrightarrow> set (cs i) \<inter> set (cs j) = {}"
proof -
  let ?n = "num_cpu_resources tt + 1"
  have d: "distinct (fs @ ds @ queued ?n cs)" "X \<inter> set (fs @ ds @ queued ?n cs) = {}" using assms(1) by (simp_all add: tlists_def)
  have q: "set (cs i) \<subseteq> set (queued ?n cs)" using queued_part [OF assms(2), of _ cs] by blast
  show "distinct fs" "distinct ds" "set fs \<inter> set ds = {}" "X \<inter> set fs = {}" "X \<inter> set ds = {}" using d by auto
  show "set fs \<inter> set (cs i) = {}" "set ds \<inter> set (cs i) = {}" "X \<inter> set (cs i) = {}" using d q by auto
  have dq: "distinct (queued ?n cs)" using d by simp
  then show "distinct (cs i)" unfolding queued_split [OF assms(2)] by simp
  show "set (cs i) \<inter> set (cs j) = {}" if "j < ?n" "j \<noteq> i" for j using queued_disjoint [OF dq assms(2) that] .
qed

lemma tlists_bound:
  assumes "tlists tt fs X ds cs L"
  shows "set fs \<subseteq> {..<MAX_TASK_COUNT} - L" "set ds \<subseteq> {..<MAX_TASK_COUNT} - L" "X \<subseteq> {..<MAX_TASK_COUNT} - L"
    "\<And>i. i < num_cpu_resources tt + 1 \<Longrightarrow> set (cs i) \<subseteq> {..<MAX_TASK_COUNT} - L"
proof -
  have u: "X \<union> set (fs @ ds @ queued (num_cpu_resources tt + 1) cs) = {..<MAX_TASK_COUNT} - L" using assms by (simp add: tlists_def)
  show "set fs \<subseteq> {..<MAX_TASK_COUNT} - L" "set ds \<subseteq> {..<MAX_TASK_COUNT} - L" "X \<subseteq> {..<MAX_TASK_COUNT} - L" using u by auto
  show "set (cs i) \<subseteq> {..<MAX_TASK_COUNT} - L" if "i < num_cpu_resources tt + 1" for i using u queued_part [OF that, of _ cs] by fastforce
qed

lemma tlists_reps:
  assumes "tlists tt fs X ds cs L"
  shows "list_rep (task tt) (free_list tt) fs" "list_rep (task tt) (done_list tt) ds"
    "\<And>i. i < num_cpu_resources tt + 1 \<Longrightarrow> list_rep (task tt) (comp_list tt i) (cs i)"
  using assms by (simp_all add: tlists_def)

lemma tlists_free_in:
  "tlists tt fs X ds cs L \<Longrightarrow> x < MAX_TASK_COUNT \<Longrightarrow> x \<notin> L \<Longrightarrow> task_step (task tt x) = CCSD_TASK_FREE \<Longrightarrow> x \<in> X \<union> set fs"
  by (simp add: tlists_def)

text \<open>What keeps the lists: the links, and that no task becomes free.\<close>

definition in_place :: "ccsd_task_info \<Rightarrow> ccsd_task_info \<Rightarrow> bool" where
  "in_place t t' \<longleftrightarrow> t_next t' = t_next t \<and> t_prev t' = t_prev t \<and> (task_step t' = CCSD_TASK_FREE \<longrightarrow> task_step t = CCSD_TASK_FREE)"

lemma same_identity_in_place: "same_identity t t' \<Longrightarrow> in_place t t'"
  by (auto simp: same_identity_def in_place_def)

lemma tlists_in_place:
  assumes l: "tlists tt fs X ds cs L" and e: "\<And>x. in_place (task tt x) (task tt' x)"
    and same: "free_list tt' = free_list tt" "done_list tt' = done_list tt" "comp_list tt' = comp_list tt" "copy_to_slm_list_id tt' = copy_to_slm_list_id tt"
      "num_cpu_resources tt' = num_cpu_resources tt" and turn: "compute_turn tt' < num_cpu_resources tt"
  shows "tlists tt' fs X ds cs L"
proof -
  have r: "list_rep (task tt') k xs = list_rep (task tt) k xs" for k xs using e by (intro list_rep_cong) (auto simp: in_place_def)
  have s: "task_step (task tt' x) = CCSD_TASK_FREE \<Longrightarrow> task_step (task tt x) = CCSD_TASK_FREE" for x using e [of x] by (simp add: in_place_def)
  show ?thesis using l turn s unfolding tlists_def same r by blast
qed

lemma list_rep_other:
  assumes "list_rep T k xs" and "\<And>x. x \<in> set xs \<Longrightarrow> T' x = T x"
  shows "list_rep T' k xs"
  using list_rep_cong [of xs T' T k] assms by simp

text \<open>Taking a task from the free list, giving one back, and handing one to a core.\<close>

lemma tlists_alloc:
  assumes l: "tlists tt (x # xs) X ds cs L" and r: "list_rep (task tt') (free_list tt') xs"
    and s: "\<And>y. task_step (task tt' y) = task_step (task tt y)" and o: "\<And>y. y \<notin> set (x # xs) \<Longrightarrow> task tt' y = task tt y"
    and same: "done_list tt' = done_list tt" "comp_list tt' = comp_list tt" "copy_to_slm_list_id tt' = copy_to_slm_list_id tt"
      "num_cpu_resources tt' = num_cpu_resources tt" "compute_turn tt' = compute_turn tt"
  shows "tlists tt' xs (insert x X) ds cs L"
proof -
  let ?n = "num_cpu_resources tt + 1"
  have c: "list_rep (task tt') (comp_list tt i) (cs i)" if i: "i < ?n" for i
    using tlists_disjoint(5) [OF l i] by (intro list_rep_other [OF tlists_reps(3) [OF l i]] o) blast
  have dl: "list_rep (task tt') (done_list tt) ds"
    using tlists_disjoint(4) [OF l, of 0] by (intro list_rep_other [OF tlists_reps(2) [OF l]] o) auto
  have d: "distinct (xs @ ds @ queued ?n cs)" "insert x X \<inter> set (xs @ ds @ queued ?n cs) = {}"
    "insert x X \<union> set (xs @ ds @ queued ?n cs) = {..<MAX_TASK_COUNT} - L" using l by (auto simp: tlists_def)
  have f: "\<forall>y<MAX_TASK_COUNT. y \<notin> L \<longrightarrow> task_step (task tt' y) = CCSD_TASK_FREE \<longrightarrow> y \<in> insert x X \<union> set xs" using l s by (auto simp: tlists_def)
  show ?thesis unfolding tlists_def same using r c dl d f l by (simp add: tlists_def)
qed

lemma tlists_free:
  assumes l: "tlists tt fs X ds cs L" and k: "k \<in> X" and r: "list_rep (task tt') (free_list tt') (fs @ [k])"
    and s: "\<And>y. task_step (task tt' y) = task_step (task tt y)" and o: "\<And>y. y \<notin> insert k (set fs) \<Longrightarrow> task tt' y = task tt y"
    and same: "done_list tt' = done_list tt" "comp_list tt' = comp_list tt" "copy_to_slm_list_id tt' = copy_to_slm_list_id tt"
      "num_cpu_resources tt' = num_cpu_resources tt" "compute_turn tt' = compute_turn tt"
  shows "tlists tt' (fs @ [k]) (X - {k}) ds cs L"
proof -
  let ?n = "num_cpu_resources tt + 1"
  have c: "list_rep (task tt') (comp_list tt i) (cs i)" if i: "i < ?n" for i
    using k tlists_disjoint(5,9) [OF l i] by (intro list_rep_other [OF tlists_reps(3) [OF l i]] o) blast
  have dl: "list_rep (task tt') (done_list tt) ds"
    using k tlists_disjoint(4,8) [OF l, of 0] by (intro list_rep_other [OF tlists_reps(2) [OF l]] o) auto
  have d: "distinct ((fs @ [k]) @ ds @ queued ?n cs)" "(X - {k}) \<inter> set ((fs @ [k]) @ ds @ queued ?n cs) = {}"
    "(X - {k}) \<union> set ((fs @ [k]) @ ds @ queued ?n cs) = {..<MAX_TASK_COUNT} - L" using l k by (auto simp: tlists_def)
  have f: "\<forall>y<MAX_TASK_COUNT. y \<notin> L \<longrightarrow> task_step (task tt' y) = CCSD_TASK_FREE \<longrightarrow> y \<in> X - {k} \<union> set (fs @ [k])" using l s k by (auto simp: tlists_def)
  show ?thesis unfolding tlists_def same using r c dl d f l by (simp add: tlists_def)
qed

lemma queued_snoc_set: "q < n \<Longrightarrow> set (queued n (cs(q := cs q @ [k]))) = insert k (set (queued n cs))"
  unfolding queued_upd [of q n] queued_split [of q n cs] by auto

lemma tlists_start:
  assumes l: "tlists tt fs X ds cs L" and k: "k \<in> X" and i: "i < num_cpu_resources tt + 1" and r: "list_rep (task tt') (comp_list tt' i) (cs i @ [k])"
    and s: "\<And>y. y \<noteq> k \<Longrightarrow> task_step (task tt' y) = task_step (task tt y)" "task_step (task tt' k) \<noteq> CCSD_TASK_FREE"
    and o: "\<And>y. y \<notin> insert k (set (cs i)) \<Longrightarrow> task tt' y = task tt y"
    and same: "free_list tt' = free_list tt" "done_list tt' = done_list tt" "\<And>j. j \<noteq> i \<Longrightarrow> comp_list tt' j = comp_list tt j" "copy_to_slm_list_id tt' = copy_to_slm_list_id tt"
      "num_cpu_resources tt' = num_cpu_resources tt" "compute_turn tt' = compute_turn tt"
  shows "tlists tt' fs (X - {k}) ds (cs(i := cs i @ [k])) L"
proof -
  let ?n = "num_cpu_resources tt + 1" and ?cs = "cs(i := cs i @ [k])"
  have c: "list_rep (task tt') (comp_list tt' j) (?cs j)" if j: "j < ?n" for j
  proof (cases "j = i")
    case False
    have "list_rep (task tt') (comp_list tt j) (cs j)"
      using k tlists_disjoint(9) [OF l j] tlists_disjoint(10) [OF l j i] False by (intro list_rep_other [OF tlists_reps(3) [OF l j]] o) blast
    then show ?thesis using same(3) False by simp
  qed (use r in simp)
  have fl: "list_rep (task tt') (free_list tt) fs"
    using k tlists_disjoint(5,7) [OF l i] by (intro list_rep_other [OF tlists_reps(1) [OF l]] o) blast
  have dl: "list_rep (task tt') (done_list tt) ds"
    using k tlists_disjoint(6,8) [OF l i] by (intro list_rep_other [OF tlists_reps(2) [OF l]] o) blast
  have k': "k \<notin> set (fs @ ds @ queued ?n cs)" "k < MAX_TASK_COUNT" "k \<notin> L" using l k by (auto simp: tlists_def)
  have "distinct (fs @ ds @ queued ?n cs)" using l by (simp add: tlists_def)
  then have d: "distinct (fs @ ds @ queued ?n ?cs)" using k' i unfolding queued_upd [OF i] queued_split [OF i, of cs] by auto
  have e: "(X - {k}) \<inter> set (fs @ ds @ queued ?n ?cs) = {}" "(X - {k}) \<union> set (fs @ ds @ queued ?n ?cs) = {..<MAX_TASK_COUNT} - L"
    using l k unfolding set_append queued_snoc_set [OF i] by (auto simp: tlists_def)
  have f: "\<forall>y<MAX_TASK_COUNT. y \<notin> L \<longrightarrow> task_step (task tt' y) = CCSD_TASK_FREE \<longrightarrow> y \<in> X - {k} \<union> set fs"
    using tlists_free_in [OF l] s by (metis DiffI Un_iff singletonD)
  show ?thesis unfolding tlists_def same using fl dl c d e f l by (simp add: tlists_def)
qed


text \<open>Ended tasks go from the list of a core to the done list; a completed one goes from there to the free list.\<close>

lemma distinct_move: "distinct (F @ D @ A @ (as @ ys @ bs) @ B) \<Longrightarrow> distinct (F @ (D @ ys) @ A @ (as @ bs) @ B)"
  by (simp add: Int_Un_distrib Int_Un_distrib2 Int_commute)

lemma tlists_done:
  assumes l: "tlists tt fs X ds cs L" and i: "i < num_cpu_resources tt + 1" and cut: "cs i = as @ ys @ bs" "ys \<noteq> []"
    and d: "dequeue_task_multi (task tt) (comp_list tt i) (hd ys) (last ys) (length ys) = (T1, l1)"
  shows "\<exists>T2 dl. enqueue_task_multi T1 (done_list tt) (hd ys) (last ys) (length ys) = Some (T2, dl)
     \<and> tlists (tt\<lparr>task := T2, comp_list := (comp_list tt)(i := l1), done_list := dl\<rparr>) fs X (ds @ ys) (cs(i := as @ bs)) L
     \<and> (\<forall>x. unlinked (T2 x) = unlinked (task tt x))"
proof -
  let ?n = "num_cpu_resources tt + 1" and ?cs = "cs(i := as @ bs)"
  note dj = tlists_disjoint [OF l i]
  have 1: "list_rep T1 l1 (as @ bs)" "chain T1 None ys None" "\<And>x. unlinked (T1 x) = unlinked (task tt x)" "\<And>x. x \<notin> set (cs i) \<Longrightarrow> T1 x = task tt x"
    using dequeue_multi_rep [OF tlists_reps(3) [OF l i, unfolded cut(1)] cut(2) d] cut(1) by auto
  have "list_rep T1 (done_list tt) ds" using dj(6) by (intro list_rep_other [OF tlists_reps(2) [OF l]] 1(4)) blast
  moreover have "set ds \<inter> set ys = {}" "distinct ys" using dj(3,6) cut(1) by auto
  ultimately have "\<exists>T2 dl. enqueue_task_multi T1 (done_list tt) (hd ys) (last ys) (length ys) = Some (T2, dl) \<and> list_rep T2 dl (ds @ ys)
      \<and> (\<forall>x. unlinked (T2 x) = unlinked (T1 x)) \<and> (\<forall>x. x \<notin> set ds \<union> set ys \<longrightarrow> T2 x = T1 x)"
    using cut(2) by (intro enqueue_multi_rep [where p = None and n = None]) (use 1(2) in simp_all)
  then obtain T2 dl where 2: "enqueue_task_multi T1 (done_list tt) (hd ys) (last ys) (length ys) = Some (T2, dl)" "list_rep T2 dl (ds @ ys)"
      "\<And>x. unlinked (T2 x) = unlinked (T1 x)" "\<And>x. x \<notin> set ds \<union> set ys \<Longrightarrow> T2 x = T1 x" by blast
  have o: "T2 x = task tt x" if "x \<notin> set ds" "x \<notin> set (cs i)" for x using that 1(4) 2(4) [of x] cut(1) by simp
  have s: "task_step (T2 x) = task_step (task tt x)" for x using unlinked_fields [of "T2 x" "task tt x"] 1(3) 2(3) by simp
  have c: "list_rep T2 (((comp_list tt)(i := l1)) j) (?cs j)" if j: "j < ?n" for j
  proof (cases "j = i")
    case True
    have "list_rep T2 l1 (as @ bs)" by (rule list_rep_other [OF 1(1)], rule 2(4)) (use dj(3,6) cut(1) in auto)
    then show ?thesis using True by simp
  next
    case False
    have "list_rep T2 (comp_list tt j) (cs j)"
      using tlists_disjoint(6) [OF l j] dj(10) [OF j False] by (intro list_rep_other [OF tlists_reps(3) [OF l j]] o) blast+
    then show ?thesis using False by simp
  qed
  have fl: "list_rep T2 (free_list tt) fs" using dj(4,5) by (intro list_rep_other [OF tlists_reps(1) [OF l]] o) blast+
  have qs: "set (queued ?n cs) = set ys \<union> set (queued ?n ?cs)" unfolding queued_upd [OF i] queued_split [OF i, of cs] cut(1) by auto
  have "distinct (fs @ ds @ queued ?n cs)" using l by (simp add: tlists_def)
  then have dd: "distinct (fs @ (ds @ ys) @ queued ?n ?cs)" unfolding queued_upd [OF i] queued_split [OF i, of cs] cut(1) by (rule distinct_move)
  have "X \<inter> set (fs @ ds @ queued ?n cs) = {}" "X \<union> set (fs @ ds @ queued ?n cs) = {..<MAX_TASK_COUNT} - L" using l by (simp_all add: tlists_def)
  moreover have "set (fs @ (ds @ ys) @ queued ?n ?cs) = set (fs @ ds @ queued ?n cs)" unfolding set_append qs by blast
  ultimately have e: "X \<inter> set (fs @ (ds @ ys) @ queued ?n ?cs) = {}" "X \<union> set (fs @ (ds @ ys) @ queued ?n ?cs) = {..<MAX_TASK_COUNT} - L" by simp_all
  have "tlists (tt\<lparr>task := T2, comp_list := (comp_list tt)(i := l1), done_list := dl\<rparr>) fs X (ds @ ys) ?cs L"
    using fl c 2(2) dd e l s by (simp add: tlists_def)
  then show ?thesis using 2(1,3) 1(3) by auto
qed

lemma tlists_released:
  assumes l: "tlists tt fs X (as @ k # bs) cs L" and r: "list_rep (task tt') (done_list tt') (as @ bs)" "list_rep (task tt') (free_list tt') (fs @ [k])"
    and s: "\<And>y. y \<noteq> k \<Longrightarrow> task_step (task tt' y) = task_step (task tt y)" "task_step (task tt' k) = CCSD_TASK_FREE"
    and o: "\<And>y. y \<notin> set (as @ k # bs @ fs) \<Longrightarrow> task tt' y = task tt y"
    and same: "comp_list tt' = comp_list tt" "copy_to_slm_list_id tt' = copy_to_slm_list_id tt"
      "num_cpu_resources tt' = num_cpu_resources tt" "compute_turn tt' = compute_turn tt"
  shows "tlists tt' (fs @ [k]) X (as @ bs) cs L"
proof -
  let ?n = "num_cpu_resources tt + 1"
  have c: "list_rep (task tt') (comp_list tt i) (cs i)" if i: "i < ?n" for i
    using tlists_disjoint(5,6) [OF l i] by (intro list_rep_other [OF tlists_reps(3) [OF l i]] o) auto
  have d: "distinct ((fs @ [k]) @ (as @ bs) @ queued ?n cs)" "X \<inter> set ((fs @ [k]) @ (as @ bs) @ queued ?n cs) = {}"
    "X \<union> set ((fs @ [k]) @ (as @ bs) @ queued ?n cs) = {..<MAX_TASK_COUNT} - L" using l by (auto simp: tlists_def)
  have f: "y \<in> X \<union> set (fs @ [k])" if "y < MAX_TASK_COUNT" "y \<notin> L" "task_step (task tt' y) = CCSD_TASK_FREE" for y
    using tlists_free_in [OF l that(1,2)] that(3) s by (cases "y = k") auto
  show ?thesis unfolding tlists_def same using r c d f l by (simp add: tlists_def)
qed

section \<open>The invariant of the device\<close>

text \<open>A task that a command holds has an identifier of its own that no request carries yet.\<close>

definition held :: "csd_world \<Rightarrow> nat set \<Rightarrow> bool" where
  "held w X \<longleftrightarrow> (\<forall>x\<in>X. generation_id (wtask w x) \<noteq> TASK_ID_NONE \<and> TASK_POOL_INDEX (generation_id (wtask w x)) = x
     \<and> inflight (wio w) (generation_id (wtask w x)) = 0)"

definition dev_inv :: "csd_world \<Rightarrow> nat set \<Rightarrow> nat set \<Rightarrow> bool" where
  "dev_inv w X L \<longleftrightarrow> (\<exists>fs ds cs. tlists (wtable w) fs X ds cs L) \<and> io_ok w \<and> loads_ok w \<and> held w X"

lemma wtable_simps [simp]:
  "task (wtable w) k = wtask w k" "free_list (wtable w) = free_list (wtt w)" "done_list (wtable w) = done_list (wtt w)"
  "comp_list (wtable w) = comp_list (wtt w)" "copy_to_slm_list_id (wtable w) = copy_to_slm_list_id (wtt w)"
  "num_cpu_resources (wtable w) = num_cpu_resources (wtt w)" "compute_turn (wtable w) = compute_turn (wtt w)"
  "num_slm_resources (wtable w) = num_slm_resources (wtt w)" "next_generation (wtable w) = next_generation (wtt w)"
  by (simp_all add: wtable_def wtask_def)

lemma put_table_simps [simp]:
  "wtt (put_table w t) = t" "wio (put_table w t) = wio w" "wdef (put_table w t) = wdef w" "wtask (put_table w t) k = task t k" "wtable (put_table w t) = t"
  by (simp_all add: put_table_def wtable_def wtask_def)

lemma put_slm_more [simp]: "wtt (put_slm w s) = wtt w" "wio (put_slm w s) = wio w" "wslm (put_slm w s) = s"
  by (simp_all add: put_slm_def)

text \<open>Changes that move no task, free none and leave the accounts of the loads alone.\<close>

definition settled :: "ccsd_task_info \<Rightarrow> ccsd_task_info \<Rightarrow> bool" where
  "settled t t' \<longleftrightarrow> in_place t t' \<and> generation_id t' = generation_id t \<and> total_size t' = total_size t
     \<and> requested_io_offset t' = requested_io_offset t \<and> done_io_offset t' = done_io_offset t"

definition quiet :: "csd_world \<Rightarrow> csd_world \<Rightarrow> bool" where
  "quiet w w' \<longleftrightarrow> wio w' = wio w \<and> (\<exists>T c. wtt w' = (wtt w)\<lparr>task := T, compute_turn := c\<rparr> \<and> (compute_turn (wtt w) < num_cpu_resources (wtt w) \<longrightarrow> c < num_cpu_resources (wtt w)))
     \<and> (\<forall>k. settled (wtask w k) (wtask w' k))"

lemma settled_refl [simp]: "settled t t"
  by (simp add: settled_def in_place_def)

lemma settled_trans: "settled a b \<Longrightarrow> settled b c \<Longrightarrow> settled a c"
  by (simp add: settled_def in_place_def)

lemma quiet_tasks:
  "wio w' = wio w \<Longrightarrow> wtt w' = wtt w \<Longrightarrow> (\<And>k. settled (wtask w k) (wtask w' k)) \<Longrightarrow> quiet w w'"
  unfolding quiet_def by (simp add: exI [of _ "task (wtt w)"] exI [of _ "compute_turn (wtt w)"])

lemma quiet_refl [simp]: "quiet w w"
  by (simp add: quiet_tasks)

lemma quiet_put_table: "quiet w (put_table w (wtable w))"
  unfolding quiet_def by (auto intro!: exI [of _ "slm_tasks (wslm w)"] exI [of _ "compute_turn (wtt w)"]) (simp add: wtable_def)

lemma quiet_trans [trans]:
  assumes "quiet a b" "quiet b c" shows "quiet a c"
proof -
  obtain T t where 1: "wtt b = (wtt a)\<lparr>task := T, compute_turn := t\<rparr>" "compute_turn (wtt a) < num_cpu_resources (wtt a) \<longrightarrow> t < num_cpu_resources (wtt a)"
    using assms(1) by (auto simp: quiet_def)
  obtain U u where 2: "wtt c = (wtt b)\<lparr>task := U, compute_turn := u\<rparr>" "compute_turn (wtt b) < num_cpu_resources (wtt b) \<longrightarrow> u < num_cpu_resources (wtt b)"
    using assms(2) by (auto simp: quiet_def)
  have "wtt c = (wtt a)\<lparr>task := U, compute_turn := u\<rparr>" "compute_turn (wtt a) < num_cpu_resources (wtt a) \<longrightarrow> u < num_cpu_resources (wtt a)"
    using 1 2 by auto
  moreover have "wio c = wio a" "\<And>k. settled (wtask a k) (wtask c k)" using assms settled_trans by (auto simp: quiet_def intro: settled_trans)
  ultimately show ?thesis unfolding quiet_def by blast
qed

lemma quiet_frame:
  assumes "quiet w w'"
  shows "wio w' = wio w" "num_cpu_resources (wtt w') = num_cpu_resources (wtt w)" "num_slm_resources (wtt w') = num_slm_resources (wtt w)"
    "copy_to_slm_list_id (wtt w') = copy_to_slm_list_id (wtt w)" "next_generation (wtt w') = next_generation (wtt w)" "generation_id (wtask w' k) = generation_id (wtask w k)"
  using assms by (auto simp: quiet_def settled_def)

lemma quiet_dev:
  assumes q: "quiet w w'" and i: "dev_inv w X L"
  shows "dev_inv w' X L"
proof -
  obtain fs ds cs where l: "tlists (wtable w) fs X ds cs L" using i by (auto simp: dev_inv_def)
  have s: "settled (wtask w k) (wtask w' k)" for k using q by (simp add: quiet_def)
  have f: "free_list (wtt w') = free_list (wtt w)" "done_list (wtt w') = done_list (wtt w)" "comp_list (wtt w') = comp_list (wtt w)"
    and turn: "compute_turn (wtt w') < num_cpu_resources (wtt w)" using q l by (auto simp: quiet_def tlists_def)
  have "tlists (wtable w') fs X ds cs L"
    by (rule tlists_in_place [OF l]) (use s f turn quiet_frame [OF q] in \<open>simp_all add: settled_def\<close>)
  moreover have "io_ok w'" "loads_ok w'" "held w' X" using i quiet_frame [OF q] s
    by (simp_all add: dev_inv_def io_ok_def loads_ok_def load_ok_def held_def settled_def)
  ultimately show ?thesis by (auto simp: dev_inv_def)
qed

text \<open>No request in flight has one of the next \<open>n\<close> identifiers: the counter has not come around while it waits.\<close>

definition fresh_ids :: "csd_world \<Rightarrow> nat \<Rightarrow> bool" where
  "fresh_ids w n \<longleftrightarrow> (\<forall>r\<in>in_use (wio w). \<forall>j<n. \<forall>i<MAX_TASK_COUNT.
     r_task_id (io_req (wio w) r) \<noteq> make_generation_id (next_generation (wtt w) + of_nat j) i)"

lemma fresh_inflight: "fresh_ids w n \<Longrightarrow> j < n \<Longrightarrow> i < MAX_TASK_COUNT \<Longrightarrow> inflight (wio w) (make_generation_id (next_generation (wtt w) + of_nat j) i) = 0"
  unfolding inflight_def fresh_ids_def by (rule sum.neutral) blast

lemma fresh_quiet: "quiet w w' \<Longrightarrow> fresh_ids w n \<Longrightarrow> fresh_ids w' n"
  by (simp add: fresh_ids_def quiet_frame)

lemma fresh_mono: "fresh_ids w n \<Longrightarrow> m \<le> n \<Longrightarrow> fresh_ids w m"
  by (simp add: fresh_ids_def)

lemma fresh_advance:
  assumes "fresh_ids w n" "m + j \<le> n" "wio w' = wio w" "next_generation (wtt w') = next_generation (wtt w) + of_nat j"
  shows "fresh_ids w' m"
proof -
  have e: "next_generation (wtt w') + of_nat i = next_generation (wtt w) + of_nat (j + i)" for i using assms(4) by (simp add: add.assoc)
  have "r_task_id (io_req (wio w) r) \<noteq> make_generation_id (next_generation (wtt w') + of_nat i) p" if "r \<in> in_use (wio w)" "i < m" "p < MAX_TASK_COUNT" for r i p
  proof -
    have "j + i < n" using that(2) assms(2) by simp
    then show ?thesis using assms(1) that unfolding e fresh_ids_def by blast
  qed
  then show ?thesis unfolding fresh_ids_def assms(3) by blast
qed

lemma unlinked_accounts:
  "unlinked t = unlinked u \<Longrightarrow> total_size t = total_size u \<and> requested_io_offset t = requested_io_offset u \<and> done_io_offset t = done_io_offset u"
  unfolding unlinked_def by (cases t; cases u) simp

text \<open>The invariant after a change of the lists that gives task \<open>k\<close> new contents.\<close>

lemma dev_inv_relinked:
  assumes i: "dev_inv w X L" and l: "tlists (wtable w') fs X' ds cs L" and io: "wio w' = wio w" "num_slm_resources (wtt w') = num_slm_resources (wtt w)"
    and o: "\<And>y. y \<noteq> k \<Longrightarrow> unlinked (wtask w' y) = unlinked (wtask w y)" and k: "k < MAX_TASK_COUNT \<Longrightarrow> load_ok (wio w) k (wtask w' k)"
    and h: "X' \<subseteq> insert k X" "k \<in> X' \<Longrightarrow> held w' {k}"
  shows "dev_inv w' X' L"
proof -
  have "load_ok (wio w) y (wtask w' y)" if y: "y < MAX_TASK_COUNT" for y
  proof (cases "y = k")
    case False
    then show ?thesis using i y unlinked_fields [OF o [OF False]] unlinked_accounts [OF o [OF False]] by (simp add: dev_inv_def loads_ok_def load_ok_def)
  qed (use k y in simp)
  moreover have "held w' X'" unfolding held_def
  proof
    fix x assume x: "x \<in> X'"
    show "generation_id (wtask w' x) \<noteq> TASK_ID_NONE \<and> TASK_POOL_INDEX (generation_id (wtask w' x)) = x \<and> inflight (wio w') (generation_id (wtask w' x)) = 0"
      using i x h io unlinked_fields [OF o, of x] by (cases "x = k") (auto simp: dev_inv_def held_def)
  qed
  ultimately show ?thesis using i l io by (auto simp: dev_inv_def io_ok_def loads_ok_def)
qed


section \<open>Tasks change hands\<close>

lemma alloc_dev:
  assumes i: "dev_inv w X L" and f: "fresh_ids w (n + 2)" and a: "alloc_task w = Some (w1, g)"
  shows "if g = TASK_ID_NONE then dev_inv w1 X L
    else TASK_POOL_INDEX g \<notin> X \<and> dev_inv w1 (insert (TASK_POOL_INDEX g) X) L \<and> fresh_ids w1 n"
proof -
  obtain fs ds cs where l: "tlists (wtable w) fs X ds cs L" using i by (auto simp: dev_inv_def)
  obtain t where t: "allocate_new_task (wtable w) = Some (t, g)" "w1 = put_table w t" using a by (auto simp: alloc_task_def)
  show ?thesis
  proof (cases fs)
    case Nil
    then have "lhead (free_list (wtt w)) = None" using tlists_reps(1) [OF l] by (simp add: list_rep_def)
    then have "g = TASK_ID_NONE" "t = wtable w" using t(1) by (simp_all add: allocate_new_task_def)
    then show ?thesis using quiet_dev [OF quiet_put_table i] t(2) by simp
  next
    case (Cons x xs)
    have x: "x < MAX_TASK_COUNT" "x \<notin> L" "x \<notin> X" using tlists_bound(1) [OF l] tlists_disjoint(7) [OF l, of 0] Cons by auto
    have "lhead (free_list (wtable w)) = Some x" using tlists_reps(1) [OF l, unfolded Cons] by (simp add: list_rep_def)
    then have "task_step (task (wtable w) x) = CCSD_TASK_FREE" using t(1) by (auto simp: allocate_new_task_def Let_def split: if_splits)
    then obtain t' g' j where e: "allocate_new_task (wtable w) = Some (t', g')" "j \<in> {0, 1}" "g' = make_generation_id (next_generation (wtable w) + j) x" "g' \<noteq> TASK_ID_NONE"
        "TASK_POOL_INDEX g' = x" "list_rep (task t') (free_list t') xs"
      and u: "\<And>y. unlinked (task t' y) = unlinked (if y = x then (task (wtable w) y)\<lparr>generation_id := g'\<rparr> else task (wtable w) y)"
      and o: "\<And>y. y \<notin> set (x # xs) \<Longrightarrow> task t' y = task (wtable w) y"
      and t': "t' = (wtable w)\<lparr>task := task t', free_list := free_list t', next_generation := next_generation (wtable w) + j + 1\<rparr>"
      using allocate_effect [OF tlists_reps(1) [OF l, unfolded Cons] x(1)] by blast
    have g: "t' = t" "g' = g" using e(1) t(1) by simp_all
    have s: "task_step (task t' y) = task_step (task (wtable w) y)" for y using unlinked_fields [OF u [of y]] by (simp split: if_splits)
    have same: "done_list t' = done_list (wtable w)" "comp_list t' = comp_list (wtable w)" "copy_to_slm_list_id t' = copy_to_slm_list_id (wtable w)"
        "num_cpu_resources t' = num_cpu_resources (wtable w)" "compute_turn t' = compute_turn (wtable w)" "num_slm_resources t' = num_slm_resources (wtable w)"
        "next_generation t' = next_generation (wtable w) + j + 1" by (subst t', simp)+
    have l': "tlists t' xs (insert x X) ds cs L" by (rule tlists_alloc [OF l [unfolded Cons] e(6) s o same(1-5)])
    have gid: "generation_id (task t' x) = g'" "total_size (task t' x) = total_size (wtask w x)" "requested_io_offset (task t' x) = requested_io_offset (wtask w x)" "done_io_offset (task t' x) = done_io_offset (wtask w x)"
      using unlinked_fields [OF u [of x]] unlinked_accounts [OF u [of x]] by simp_all
    obtain m :: nat where m: "m < 2" "j = of_nat m" using e(2) by (auto intro: that [of 0] that [of 1])
    have inf: "inflight (wio w) g' = 0" using fresh_inflight [OF f, of m x] m x(1) e(3) by simp
    have "dev_inv w1 (insert x X) L"
    proof (rule dev_inv_relinked [OF i])
      show "tlists (wtable w1) xs (insert x X) ds cs L" using l' t(2) g by simp
      show "unlinked (wtask w1 y) = unlinked (wtask w y)" if "y \<noteq> x" for y using u [of y] that t(2) g by simp
      have "load_ok (wio w) x (wtask w x)" using i x(1) by (simp add: dev_inv_def loads_ok_def)
      then show "load_ok (wio w) x (wtask w1 x)" using gid t(2) g e(5) inf by (simp add: load_ok_def)
      show "held w1 {x}" using gid t(2) g e(4,5) inf by (simp add: held_def)
    qed (use t(2) g same in simp_all)
    moreover have "fresh_ids w1 n" by (rule fresh_advance [OF f, where j = "m + 1"]) (use m t(2) g same(7) in simp_all)
    ultimately show ?thesis using e(4,5) x(3) g by simp
  qed
qed


text \<open>A task that a command has filled in goes to a core.\<close>

definition starts :: "ccsd_task_info \<Rightarrow> ccsd_task_info \<Rightarrow> bool" where
  "starts t t' \<longleftrightarrow> task_step t' \<noteq> CCSD_TASK_FREE \<and> generation_id t' = generation_id t \<and> unat (total_size t') \<le> 2 ^ 62
     \<and> unat (done_io_offset t') \<le> unat (requested_io_offset t') \<and> unat (requested_io_offset t') \<le> unat (total_size t')"

lemma start_dev:
  assumes i: "dev_inv w X L" and k: "k \<in> X" and f: "starts (wtask w k) (f (wtask w k))" and core: "core < num_cpu_resources (wtt w) + 1"
    and e: "enqueue_work (upd_task w k f) k core = Some w'"
  shows "dev_inv w' (X - {k}) L"
proof -
  obtain fs ds cs where l: "tlists (wtable w) fs X ds cs L" using i by (auto simp: dev_inv_def)
  let ?u = "upd_task w k f"
  have c: "core < num_cpu_resources (wtable w) + 1" and kx: "k < MAX_TASK_COUNT" "k \<notin> set (cs core)"
    using core k tlists_bound(3) [OF l] tlists_disjoint(9) [OF l] by auto
  have "list_rep (task (wtable ?u)) (comp_list (wtable ?u) core) (cs core)"
    by (rule list_rep_other [where T = "task (wtable w)"]) (use tlists_reps(3) [OF l c] kx(2) in auto)
  from enqueue_rep [OF this kx(2)] obtain T q where 1: "enqueue_task (task (wtable ?u)) (comp_list (wtable ?u) core) k = Some (T, q)" "list_rep T q (cs core @ [k])"
      "\<And>y. unlinked (T y) = unlinked (wtask ?u y)" "\<And>y. y \<notin> insert k (set (cs core)) \<Longrightarrow> T y = wtask ?u y" by auto
  let ?t = "(wtable ?u)\<lparr>task := T, comp_list := (comp_list (wtable ?u))(core := q)\<rparr>"
  have w': "w' = put_table ?u ?t" using e 1(1) by (simp add: enqueue_work_def enqueue_compute_work_def)
  have u: "wtask w' y = T y" for y by (simp add: w')
  have fk: "unlinked (wtask w' k) = unlinked (f (wtask w k))" using 1(3) [of k] u by simp
  note kf = unlinked_fields [OF fk] unlinked_accounts [OF fk]
  have l': "tlists ?t fs (X - {k}) ds (cs(core := cs core @ [k])) L"
  proof (rule tlists_start [OF l k c])
    show "task_step (task ?t y) = task_step (task (wtable w) y)" if "y \<noteq> k" for y using unlinked_fields [OF 1(3) [of y]] that by simp
    show "task_step (task ?t k) \<noteq> CCSD_TASK_FREE" using kf f u by (simp add: starts_def)
    show "task ?t y = task (wtable w) y" if "y \<notin> insert k (set (cs core))" for y using 1(4) [OF that] that by simp
  qed (use 1(2) in simp_all)
  show ?thesis
  proof (rule dev_inv_relinked [OF i, where k = k])
    show "tlists (wtable w') fs (X - {k}) ds (cs(core := cs core @ [k])) L" using l' w' by simp
    show "unlinked (wtask w' y) = unlinked (wtask w y)" if "y \<noteq> k" for y using 1(3) [of y] u that by simp
    have "held w {k}" using i k by (auto simp: dev_inv_def held_def)
    then show "load_ok (wio w) k (wtask w' k)" using kf f by (simp add: load_ok_def starts_def held_def)
  qed (use w' in auto)
qed

lemma free_dev:
  assumes i: "dev_inv w X L" and k: "k \<in> X" and e: "free_task w k = Some w'"
  shows "dev_inv w' (X - {k}) L"
proof -
  obtain fs ds cs where l: "tlists (wtable w) fs X ds cs L" using i by (auto simp: dev_inv_def)
  have kx: "k < MAX_TASK_COUNT" "k \<notin> set fs" using k tlists_bound(3) [OF l] tlists_disjoint(7) [OF l, of 0] by auto
  from enqueue_rep [OF tlists_reps(1) [OF l] kx(2)] obtain T q where 1: "enqueue_task (task (wtable w)) (free_list (wtable w)) k = Some (T, q)" "list_rep T q (fs @ [k])"
      "\<And>y. unlinked (T y) = unlinked (wtask w y)" "\<And>y. y \<notin> insert k (set fs) \<Longrightarrow> T y = wtask w y" by auto
  let ?t = "(wtable w)\<lparr>task := T, free_list := q\<rparr>"
  have w': "w' = put_table w ?t" using e 1(1) by (simp add: free_task_def)
  have l': "tlists ?t (fs @ [k]) (X - {k}) ds cs L"
    by (rule tlists_free [OF l k]) (use 1 unlinked_fields [OF 1(3)] in simp_all)
  show ?thesis
  proof (rule dev_inv_relinked [OF i, where k = k])
    show "tlists (wtable w') (fs @ [k]) (X - {k}) ds cs L" using l' w' by simp
    show "load_ok (wio w) k (wtask w' k)"
      using i kx(1) unlinked_fields [OF 1(3) [of k]] unlinked_accounts [OF 1(3) [of k]] w' by (simp add: dev_inv_def loads_ok_def load_ok_def)
  qed (use w' 1(3) in auto)
qed

section \<open>Ended tasks\<close>

lemma end_run_more:
  "twalk T cur zs \<Longrightarrow> end_run T cur (Some (f, l, n)) = Some run \<Longrightarrow> \<exists>ys bs. zs = ys @ bs \<and> run = Some (f, last (l # ys), n + length ys)"
proof (induction zs arbitrary: cur l n)
  case Nil
  then show ?case by (simp add: end_run.simps [of T None])
next
  case (Cons z zs)
  show ?case
  proof (cases "task_step (T z) = CCSD_TASK_END")
    case True
    then have "end_run T (t_next (T z)) (Some (f, z, Suc n)) = Some run" using Cons.prems by (simp add: end_run.simps [of T "Some z"])
    with Cons.IH [of "t_next (T z)" z "Suc n"] Cons.prems(1) obtain ys bs where "zs = ys @ bs" "run = Some (f, last (z # ys), Suc n + length ys)" by auto
    then show ?thesis by (intro exI [of _ "z # ys"] exI [of _ bs]) simp
  next
    case False
    then have "run = Some (f, l, n)" using Cons.prems by (simp add: end_run.simps [of T "Some z"])
    then show ?thesis by (intro exI [of _ "[]"] exI [of _ "z # zs"]) simp
  qed
qed

lemma end_run_first:
  "twalk T cur zs \<Longrightarrow> end_run T cur None = Some (Some (f, e, n)) \<Longrightarrow>
     \<exists>as ys bs. zs = as @ ys @ bs \<and> ys \<noteq> [] \<and> f = hd ys \<and> e = last ys \<and> n = length ys"
proof (induction zs arbitrary: cur)
  case Nil
  then show ?case by (simp add: end_run.simps [of T None])
next
  case (Cons z zs)
  show ?case
  proof (cases "task_step (T z) = CCSD_TASK_END")
    case True
    then have "end_run T (t_next (T z)) (Some (z, z, 1)) = Some (Some (f, e, n))" using Cons.prems by (simp add: end_run.simps [of T "Some z"])
    with end_run_more [of T "t_next (T z)" zs z z 1 "Some (f, e, n)"] Cons.prems(1) obtain ys bs where "zs = ys @ bs" "(f, e, n) = (z, last (z # ys), 1 + length ys)" by auto
    then show ?thesis by (intro exI [of _ "[]"] exI [of _ "z # ys"] exI [of _ bs]) simp
  next
    case False
    then have "end_run T (t_next (T z)) None = Some (Some (f, e, n))" using Cons.prems by (simp add: end_run.simps [of T "Some z"])
    with Cons.IH [of "t_next (T z)"] Cons.prems(1) obtain as ys bs where "zs = as @ ys @ bs" "ys \<noteq> []" "f = hd ys" "e = last ys" "n = length ys" by auto
    then show ?thesis by (intro exI [of _ "z # as"] exI [of _ ys] exI [of _ bs]) simp
  qed
qed

lemma reclaim_comp_list_dev:
  assumes i: "dev_inv w X L" and turn: "turn < num_cpu_resources (wtt w) + 1" and r: "reclaim_comp_list w turn = Some w'"
  shows "dev_inv w' X L \<and> num_cpu_resources (wtt w') = num_cpu_resources (wtt w)"
proof -
  obtain fs ds cs where l: "tlists (wtable w) fs X ds cs L" using i by (auto simp: dev_inv_def)
  have t: "turn < num_cpu_resources (wtable w) + 1" using turn by simp
  obtain run where run: "end_run (task (wtable w)) (lhead (comp_list (wtable w) turn)) None = Some run"
    using r by (auto simp: reclaim_comp_list_def Let_def Option.bind_eq_Some_conv)
  show ?thesis
  proof (cases run)
    case None
    then show ?thesis using r run i by (simp add: reclaim_comp_list_def Let_def)
  next
    case (Some p)
    obtain f e n where p: "p = (f, e, n)" by (cases p)
    obtain as ys bs where c: "cs turn = as @ ys @ bs" "ys \<noteq> []" "f = hd ys" "e = last ys" "n = length ys"
      using end_run_first [OF list_rep_twalk [OF tlists_reps(3) [OF l t]]] run Some p by blast
    obtain T1 l1 where d: "dequeue_task_multi (task (wtable w)) (comp_list (wtable w) turn) (hd ys) (last ys) (length ys) = (T1, l1)" by fastforce
    obtain T2 dl where m: "enqueue_task_multi T1 (done_list (wtable w)) (hd ys) (last ys) (length ys) = Some (T2, dl)"
        "tlists ((wtable w)\<lparr>task := T2, comp_list := (comp_list (wtable w))(turn := l1), done_list := dl\<rparr>) fs X (ds @ ys) (cs(turn := as @ bs)) L"
        "\<And>x. unlinked (T2 x) = unlinked (task (wtable w) x)" using tlists_done [OF l t c(1,2) d] by blast
    have w': "w' = put_table w ((wtable w)\<lparr>task := T2, comp_list := (comp_list (wtable w))(turn := l1), done_list := dl\<rparr>)"
      using r run Some p c d m(1) by (simp add: reclaim_comp_list_def Let_def)
    have "dev_inv w' X L"
    proof (rule dev_inv_relinked [OF i, where k = MAX_TASK_COUNT])
      show "tlists (wtable w') fs X (ds @ ys) (cs(turn := as @ bs)) L" using m(2) w' by simp
      show "held w' {MAX_TASK_COUNT}" if "MAX_TASK_COUNT \<in> X" using that tlists_bound(3) [OF l] by auto
    qed (use w' m(3) in auto)
    then show ?thesis using w' by simp
  qed
qed

lemma reclaim_comp_lists_dev:
  "reclaim_comp_lists w turn n = Some w' \<Longrightarrow> dev_inv w X L \<Longrightarrow> turn + n \<le> num_cpu_resources (wtt w) + 1 \<Longrightarrow> dev_inv w' X L"
proof (induction w turn n rule: reclaim_comp_lists.induct)
  case (2 w turn n)
  then obtain w1 where w1: "reclaim_comp_list w turn = Some w1" "reclaim_comp_lists w1 (Suc turn) n = Some w'" by (auto simp: Option.bind_eq_Some_conv)
  have "dev_inv w1 X L \<and> num_cpu_resources (wtt w1) = num_cpu_resources (wtt w)" using reclaim_comp_list_dev [OF 2(3) _ w1(1)] 2(4) by simp
  then show ?case using 2(1) [OF w1] 2(4) by simp
qed simp

lemma reclaim_task_dev: "reclaim_task w = Some w' \<Longrightarrow> dev_inv w X L \<Longrightarrow> dev_inv w' X L"
  using reclaim_comp_lists_dev [of w 0 "num_cpu_resources (wtt w) + 1"] by (simp add: reclaim_task_def)

text \<open>The first task of the done list goes back to the free list.\<close>

lemma release_dev:
  assumes i: "dev_inv w X L" and k: "lhead (done_list (wtt w)) = Some k" and r: "release_task w k = Some w'"
  shows "dev_inv w' X L \<and> lhead (done_list (wtt w')) = t_next (wtask w k)"
proof -
  obtain fs ds cs where l: "tlists (wtable w) fs X ds cs L" using i by (auto simp: dev_inv_def)
  obtain bs where ds: "ds = k # bs" using tlists_reps(2) [OF l] k by (cases ds) (auto simp: list_rep_def)
  have nx: "t_next (wtask w k) = first_of bs None" using tlists_reps(2) [OF l] ds by (simp add: list_rep_def)
  let ?g = "\<lambda>t. t\<lparr>generation_id := TASK_ID_NONE, task_step := CCSD_TASK_FREE, task_slm_lba_info := None\<rparr>"
  define u where "u = upd_task w k ?g"
  have ut: "wtask u y = (if y = k then ?g (wtask w k) else wtask w y)" for y by (simp add: u_def)
  have "list_rep (task (wtable u)) (done_list (wtable u)) ([] @ k # bs)"
    using tlists_reps(2) [OF l] ds list_rep_cong [of ds "task (wtable u)" "task (wtable w)"] by (simp add: ut) (simp add: u_def)
  moreover obtain T1 dl where d: "dequeue_task (task (wtable u)) (done_list (wtable u)) k = (T1, dl)" by fastforce
  ultimately have 1: "list_rep T1 dl bs" "\<And>y. unlinked (T1 y) = unlinked (wtask u y)" "\<And>y. y \<notin> set ds \<Longrightarrow> T1 y = wtask u y"
    using dequeue_rep [of "task (wtable u)" "done_list (wtable u)" "[]" k bs T1 dl] ds by auto
  have dj: "set fs \<inter> set ds = {}" "distinct ds" using tlists_disjoint(2,4) [OF l, of 0] by auto
  have "T1 y = wtask w y" if "y \<in> set fs" for y using 1(3) [of y] that dj ut [of y] ds by auto
  then have "list_rep T1 (free_list (wtt w)) fs" using list_rep_other [OF tlists_reps(1) [OF l], of T1] by simp
  moreover have "k \<notin> set fs" using dj ds by auto
  ultimately obtain T fl where 2: "enqueue_task T1 (free_list (wtt w)) k = Some (T, fl)" "list_rep T fl (fs @ [k])"
      "\<And>y. unlinked (T y) = unlinked (T1 y)" "\<And>y. y \<notin> insert k (set fs) \<Longrightarrow> T y = T1 y" using enqueue_rep by blast
  let ?t = "(wtable u)\<lparr>done_list := dl, task := T, free_list := fl\<rparr>"
  have "put_table (put_table a b) c = put_table a c" for a b c by (simp add: put_table_def)
  moreover have "wtt u = wtt w" by (simp add: u_def)
  ultimately have w': "w' = put_table u ?t" using r d 2(1) by (simp add: release_task_def Let_def u_def [symmetric] free_task_def)
  have uk: "unlinked (T y) = unlinked (wtask u y)" for y using 1(2) 2(3) by simp
  note fk = unlinked_fields [OF uk] unlinked_accounts [OF uk]
  have l': "tlists ?t (fs @ [k]) X ([] @ bs) cs L"
  proof (rule tlists_released [where tt = "wtable w"])
    show "tlists (wtable w) fs X ([] @ k # bs) cs L" using l ds by simp
    have "list_rep T dl bs" by (rule list_rep_other [OF 1(1)], rule 2(4)) (use dj ds in auto)
    then show "list_rep (task ?t) (done_list ?t) ([] @ bs)" by simp
    show "task ?t y = task (wtable w) y" if "y \<notin> set ([] @ k # bs @ fs)" for y using 1(3) [of y] 2(4) [of y] ut that ds by simp
  qed (use 2(2) fk ut in \<open>simp_all add: u_def\<close>)
  have "dev_inv w' X L"
  proof (rule dev_inv_relinked [OF i, where k = k])
    show "tlists (wtable w') (fs @ [k]) X bs cs L" using l' w' by simp
    show "unlinked (wtask w' y) = unlinked (wtask w y)" if "y \<noteq> k" for y using uk [of y] ut that w' by simp
    have "load_ok (wio w) k (wtask w k)" if "k < MAX_TASK_COUNT" using i that by (simp add: dev_inv_def loads_ok_def)
    then show "load_ok (wio w) k (wtask w' k)" if "k < MAX_TASK_COUNT" using fk [of k] ut [of k] w' that by (simp add: load_ok_def)
    show "held w' {k}" if "k \<in> X" using that tlists_disjoint(8) [OF l, of 0] ds by auto
  qed (use w' in \<open>auto simp: u_def\<close>)
  then show ?thesis using nx w' 1(1) by (simp add: list_rep_def)
qed


section \<open>Memory of tasks\<close>

text \<open>Freeing memory ends the load that was parked, and moves no task.\<close>

definition settles :: "slm_state \<Rightarrow> slm_state \<Rightarrow> bool" where
  "settles s s' \<longleftrightarrow> (\<forall>k. settled (slm_tasks s k) (slm_tasks s' k))"

lemma settles_same: "slm_tasks s' = slm_tasks s \<Longrightarrow> settles s s'"
  by (simp add: settles_def)

lemma settles_trans: "settles a b \<Longrightarrow> settles b c \<Longrightarrow> settles a c"
  unfolding settles_def using settled_trans by blast

lemma settles_quiet: "settles (wslm w) s \<Longrightarrow> quiet w (put_slm w s)"
  by (rule quiet_tasks) (simp_all add: settles_def wtask_def)

lemma detach_settles: "detach_load_task s i = Some s' \<Longrightarrow> settles s s'"
  by (auto simp: detach_load_task_def Let_def settles_def settled_def in_place_def split: if_splits)

lemma set_pages_tasks: "set_pages s p n v = Some s' \<Longrightarrow> slm_tasks s' = slm_tasks s"
  by (auto simp: set_pages_def split: if_splits)

lemma free_slm_pages_settles: "free_slm_pages s p e = Some s' \<Longrightarrow> settles s s'"
proof (erule free_slm_pages.raw_induct [rotated])
  fix f s p e s'
  assume IH: "\<And>s p e s'. f s p e = Some s' \<Longrightarrow> settles s s'"
    and b: "(if p \<ge> e then Some s else if p \<ge> page_count s then None
      else case page_info s p of None \<Rightarrow> f s (Suc p) e
        | Some q \<Rightarrow> do {
               i \<leftarrow> infos s q;
               w1 \<leftarrow> detach_load_task s i;
               let info_end = min (p + pages_for (info_len i)) e;
               w2 \<leftarrow> set_pages (w1\<lparr>infos := (infos w1)(q := None)\<rparr>) p (info_end - p) None;
               f w2 info_end e
             }) = Some s'"
  show "settles s s'"
  proof (cases "p \<ge> e \<or> page_info s p = None")
    case True
    then show ?thesis using b IH by (auto simp: settles_def split: if_split_asm)
  next
    case False
    then obtain q where q: "page_info s p = Some q" "\<not> p \<ge> e" "\<not> p \<ge> page_count s" using b by (auto split: if_split_asm)
    obtain i w1 w2 where 1: "detach_load_task s i = Some w1" "set_pages (w1\<lparr>infos := (infos w1)(q := None)\<rparr>) p (min (p + pages_for (info_len i)) e - p) None = Some w2"
        "f w2 (min (p + pages_for (info_len i)) e) e = Some s'" using b q by (auto simp: Let_def Option.bind_eq_Some_conv)
    have "settles s w1" "settles w1 w2" "settles w2 s'"
      using detach_settles [OF 1(1)] set_pages_tasks [OF 1(2)] IH [OF 1(3)] by (simp_all add: settles_def)
    then show ?thesis using settles_trans by blast
  qed
qed

lemma free_range_settles: "free_slm_range s a = Some s' \<Longrightarrow> settles s s'"
proof -
  assume "free_slm_range s a = Some s'"
  then obtain s1 x y where "free_slm_pages s x y = Some s1" "slm_tasks s' = slm_tasks s1"
    by (auto simp: free_slm_range_def free_slm_lba_info_def Let_def split: Option.bind_split_asm prod.split_asm if_split_asm)
  then show ?thesis using free_slm_pages_settles by (simp add: settles_def)
qed

lemma alloc_range_settles: "alloc_slm_range s n = Some (s', a) \<Longrightarrow> settles s s'"
  by (rule settles_same) (auto simp: alloc_slm_range_def Let_def split: Option.bind_split_asm option.split_asm if_split_asm)

lemma new_region_quiet: "new_region w a l tid sre n junk f = Some (w', q) \<Longrightarrow> quiet w w'"
proof -
  assume r: "new_region w a l tid sre n junk f = Some (w', q)"
  obtain s q' where s: "alloc_slm_lba_info (wslm w) a l tid sre n junk = (s, q')" by fastforce
  obtain i s1 where 1: "reserve_slm_memory (put s q (f i)) a l q = Some s1" "w' = put_slm w s1"
    using r s by (auto simp: new_region_def Option.bind_eq_Some_conv)
  have "slm_tasks s = slm_tasks (wslm w)" using s by (auto simp: alloc_slm_lba_info_def Let_def)
  moreover have "slm_tasks s1 = slm_tasks s" using 1(1) set_pages_tasks by (fastforce simp: reserve_slm_memory_def Option.bind_eq_Some_conv)
  ultimately show ?thesis using 1(2) settles_quiet settles_same by simp
qed

lemma upd_task_quiet: "settled (wtask w k) (f (wtask w k)) \<Longrightarrow> quiet w (upd_task w k f)"
  by (rule quiet_tasks) simp_all


lemma free_range_quiet: "free_slm_range (wslm w) a = Some s \<Longrightarrow> quiet w (put_slm w s)"
  by (intro settles_quiet free_range_settles)

lemma quiet_deferred: "quiet w (w\<lparr>wdef := x\<rparr>)"
  by (rule quiet_tasks) (simp_all add: wtask_def)

lemma park_settled: "task_step t = CCSD_TASK_SCHEDULE \<Longrightarrow> settled t (t\<lparr>task_step := CCSD_TASK_WAIT\<rparr>)"
  by (simp add: settled_def in_place_def)

lemma park_task_quiet: "quiet w (park_task w tid)"
  by (simp add: park_task_def Let_def upd_task_quiet park_settled)

lemma park_pages_quiet: "park_pages w p n = Some w' \<Longrightarrow> quiet w w'"
proof (induction w p n rule: park_pages.induct)
  case (2 w p n)
  show ?case
  proof (cases "page_info (wslm w) p")
    case None
    then show ?thesis using 2(1) [OF _ None] 2(3) by (simp split: if_splits)
  next
    case (Some q)
    then obtain i where i: "\<not> p \<ge> page_count (wslm w)" "infos (wslm w) q = Some i" "park_pages (park_task w (info_task_id i)) (Suc p) n = Some w'"
      using 2(3) by (auto simp: Option.bind_eq_Some_conv split: if_splits)
    then show ?thesis using 2(2) [OF i(1) Some] quiet_trans [OF park_task_quiet] by blast
  qed
qed simp

lemma memory_management_quiet:
  assumes r: "do_perform_memory_management w c = Some (w', st, res, ok)"
  shows "quiet w w'"
proof -
  define arg :: u64 where "arg = push_bit 32 (ucast (c_cdw13 c)) OR ucast (c_cdw12 c)"
  note d = do_perform_memory_management_def arg_def [symmetric] Let_def
  have n: "\<not> mm_numr c \<noteq> 1" using r by (cases "mm_numr c = 1") (simp_all add: d)
  show ?thesis
  proof (cases "mm_sel c = nvme_memory_range_create")
    case True
    then obtain s off where "alloc_slm_range (wslm w) arg = Some (s, off)" "w' = put_slm w s"
      using r n unfolding d by (auto split: Option.bind_split_asm if_split_asm)
    then show ?thesis using alloc_range_settles settles_quiet by blast
  next
    case False
    show ?thesis
    proof (cases "mm_sel c = nvme_memory_range_delete")
      case True
      then obtain p m w1 s a where "park_pages w p m = Some w1" "free_slm_range (wslm w1) a = Some s" "w' = put_slm w1 s"
        using r n False unfolding d by (auto simp: Option.bind_eq_Some_conv)
      then show ?thesis using quiet_trans [OF park_pages_quiet free_range_quiet] by blast
    qed (use r n False in \<open>simp add: d\<close>)
  qed
qed

lemma alloc_bufs_quiet: "alloc_bufs w ns bs = Some (w', bs') \<Longrightarrow> quiet w w'"
proof (induction w ns bs rule: alloc_bufs.induct)
  case (2 w n ns bs)
  then obtain s b where 1: "alloc_slm_range (wslm w) n = Some (s, b)" "alloc_bufs (put_slm w s) ns (bs @ [b]) = Some (w', bs')"
    by (auto simp: Option.bind_eq_Some_conv)
  then show ?case using 2(1) [OF 1(1) refl 1(2)] quiet_trans [OF settles_quiet [OF alloc_range_settles]] by blast
qed simp

lemma free_bufs_quiet: "free_bufs w bs = Some w' \<Longrightarrow> quiet w w'"
proof (induction w bs rule: free_bufs.induct)
  case (2 w b bs)
  show ?case
  proof (cases "b = -1")
    case False
    then obtain s where "free_slm_range (wslm w) b = Some s" "free_bufs (put_slm w s) bs = Some w'" using 2(3) by (auto simp: Option.bind_eq_Some_conv)
    then show ?thesis using 2(2) [OF False] quiet_trans [OF free_range_quiet] by blast
  qed (use 2 in simp)
qed simp

lemma meta_region_quiet: "meta_region w a j = Some w' \<Longrightarrow> quiet w w'"
  using new_region_quiet by (fastforce simp: meta_region_def split: if_splits)

lemma process_deferred_quiet: "process_deferred_from w i n = Some w' \<Longrightarrow> quiet w w'"
proof (induction w i n rule: process_deferred_from.induct)
  case (2 w i n)
  show ?case
  proof (cases "free_due w (wdef w i)")
    case True
    then obtain s where s: "free_slm_range (wslm w) (df_input_buf (wdef w i)) = Some s"
        "process_deferred_from (w\<lparr>wslm := s, wdef := (wdef w)(i := (wdef w i)\<lparr>df_active := False\<rparr>)\<rparr>) (Suc i) n = Some w'" using 2(3) by (auto simp: Option.bind_eq_Some_conv)
    have "quiet w (w\<lparr>wslm := s, wdef := (wdef w)(i := (wdef w i)\<lparr>df_active := False\<rparr>)\<rparr>)"
      using quiet_trans [OF free_range_quiet [OF s(1)] quiet_deferred] by (simp add: put_slm_def)
    then show ?thesis using 2(1) [OF True s] quiet_trans by blast
  qed (use 2 in simp)
qed simp

lemma park_loads_quiet: "park_loads w tids ws = Some (w', ws') \<Longrightarrow> quiet w w'"
proof (induction w tids ws rule: park_loads.induct)
  case (2 w tid tids ws)
  define k t where "k = TASK_POOL_INDEX tid" and "t = wtask w k"
  show ?case
  proof (cases "\<not> TASK_GEN_VALID tid t \<or> task_step t \<noteq> CCSD_TASK_SCHEDULE")
    case True
    then show ?thesis using 2(1) [OF k_def t_def True] 2(3) by (simp add: Let_def k_def [symmetric] t_def [symmetric])
  next
    case False
    then have p: "\<not> program_idx t \<noteq> COPY_TO_SLM_PROGRAM_INDEX" and r: "park_loads (upd_task w k (\<lambda>t. t\<lparr>task_step := CCSD_TASK_WAIT\<rparr>)) tids (ws @ [tid]) = Some (w', ws')"
      using 2(3) by (simp_all add: Let_def k_def [symmetric] t_def [symmetric] split: if_splits)
    have "quiet w (upd_task w k (\<lambda>t. t\<lparr>task_step := CCSD_TASK_WAIT\<rparr>))" using False by (intro upd_task_quiet park_settled) (simp add: t_def)
    then show ?thesis using 2(2) [OF k_def t_def False p r] quiet_trans by blast
  qed
qed simp

lemma finish_magic_read_quiet:
  assumes r: "finish_magic_read w ps = Some w'"
  shows "quiet w w'"
proof -
  obtain ids w1 ws where 1: "park_loads w ids [] = Some (w1, ws)"
      "(if ws = [] then map_option (put_slm w1) (free_slm_range (wslm w1) (get_u64 ps 312))
        else (case filter (\<lambda>i. \<not> df_active (wdef w1 i)) [0..<MAX_DEFERRED_SLM_FREES] of
                   [] \<Rightarrow> None
                 | slot # _ \<Rightarrow> Some (w1\<lparr>wdef := (wdef w1)(slot := \<lparr>df_active = True, df_input_buf = get_u64 ps 312, df_load_task_ids = ws\<rparr>)\<rparr>))) = Some w'"
    using r unfolding finish_magic_read_def Let_def by (auto simp: Option.bind_eq_Some_conv)
  have "quiet w1 w'" using 1(2) free_range_quiet quiet_deferred by (auto split: if_split_asm list.split_asm)
  then show ?thesis using quiet_trans [OF park_loads_quiet [OF 1(1)]] by blast
qed

lemma free_task_buffers_quiet: "free_task_buffers w t = Some w' \<Longrightarrow> quiet w w'"
proof -
  assume r: "free_task_buffers w t = Some w'"
  show ?thesis
  proof (cases "program_idx t = ROCKSDB_MAGIC_COMPACTION_PROGRAM_INDEX")
    case True
    then obtain s1 s2 a b where "free_slm_range (wslm w) a = Some s1" "free_slm_range s1 b = Some s2" "w' = put_slm w s2"
      using r by (auto simp: free_task_buffers_def Let_def Option.bind_eq_Some_conv)
    then show ?thesis using settles_trans [OF free_range_settles free_range_settles] settles_quiet by blast
  next
    case False
    show ?thesis
    proof (cases "program_idx t = ROCKSDB_MAGIC_CRC_PROGRAM_INDEX")
      case True
      then obtain s a where "free_slm_range (wslm w) a = Some s" "w' = put_slm w s" using r False by (auto simp: free_task_buffers_def Let_def)
      then show ?thesis using free_range_quiet by blast
    next
      case crc: False
      then show ?thesis using r False finish_magic_read_quiet by (cases "program_idx t = ROCKSDB_MAGIC_READ_PROGRAM_INDEX") (simp_all add: free_task_buffers_def Let_def)
    qed
  qed
qed

lemma quiet_done_list:
  assumes "quiet w w'"
  shows "done_list (wtt w') = done_list (wtt w)" "t_next (wtask w' k) = t_next (wtask w k)"
  using assms by (auto simp: quiet_def settled_def in_place_def)

section \<open>The compute threads\<close>

text \<open>A wake marks a task, even one that has been freed, as ready to run; no call of a program does more to the tasks.\<close>

lemma wake_settles: "settles s (put (wake_load_task s tid) q i)"
  by (simp add: settles_def wake_load_task_def Let_def settled_def in_place_def)

lemma demand_extent_settles: "settles s (ht_demand_alloc_extent s q i a n)"
  by (simp add: ht_demand_alloc_extent_def Let_def wake_settles settles_same)

lemma plain_demand_settles: "settles s (request_plain_demand s q i a n)"
  by (simp add: request_plain_demand_def Let_def wake_settles settles_same)

lemma stream_demand_settles: "settles s (request_stream_demand s q i a n)"
  by (simp add: request_stream_demand_def Let_def demand_extent_settles settles_same)

lemma demand_read_settles: "slm_request_demand_read s a n = Some s' \<Longrightarrow> settles s s'"
  by (auto simp: slm_request_demand_read_def demand_extent_settles plain_demand_settles stream_demand_settles settles_same
      split: Option.bind_split_asm option.split_asm if_split_asm)

lemma packed_settles: "packed_next_extent s q i off n = Some s' \<Longrightarrow> settles s s'" "packed_first_extent s q i off n = Some s' \<Longrightarrow> settles s s'"
  by (auto simp: packed_next_extent_def packed_first_extent_def Let_def wake_settles settles_same split: if_split_asm)

lemma demand_read_info_settles: "slm_request_demand_read_info s a n p = Some s' \<Longrightarrow> settles s s'"
  by (auto simp: slm_request_demand_read_info_def Let_def wake_settles settles_same packed_settles split: Option.bind_split_asm option.split_asm if_split_asm)

lemma program_calls_tasks:
  "notify_slm_data_ready s a n = Some s' \<Longrightarrow> slm_tasks s' = slm_tasks s" "notify_if_slm_data_ready s a n = Some s' \<Longrightarrow> slm_tasks s' = slm_tasks s"
  "notify_compute_ready s a = Some s' \<Longrightarrow> slm_tasks s' = slm_tasks s" "notify_compute_ready_circular s a = Some s' \<Longrightarrow> slm_tasks s' = slm_tasks s"
  "update_circular_compute_offset s a n = Some s' \<Longrightarrow> slm_tasks s' = slm_tasks s" "finalize_slm_data_ready s a n = Some s' \<Longrightarrow> slm_tasks s' = slm_tasks s"
  "notify_output_consumed s a n = Some s' \<Longrightarrow> slm_tasks s' = slm_tasks s" "check_slm_data_ready s a n = Some (s', b) \<Longrightarrow> slm_tasks s' = slm_tasks s"
  by (auto simp: notify_slm_data_ready_def notify_if_slm_data_ready_def notify_compute_ready_def notify_compute_ready_circular_def update_circular_compute_offset_def
      finalize_slm_data_ready_def notify_output_consumed_def check_slm_data_ready_def Let_def split: Option.bind_split_asm option.split_asm if_split_asm prod.split_asm)

lemma ring_finalize_tasks: "circular_output_finalize s q b n = Some s' \<Longrightarrow> slm_tasks s' = slm_tasks s"
  by (auto simp: circular_output_finalize_def split: Option.bind_split_asm if_split_asm dest: program_calls_tasks(1))

lemma run_call_settles: "run_call c s = Some s' \<Longrightarrow> settles s s'"
  by (cases c) (auto simp: demand_read_settles demand_read_info_settles settles_same
      dest!: program_calls_tasks ring_finalize_tasks split: Option.bind_split_asm option.split_asm)

lemma publish_output_quiet: "publish_output w t res = Some w' \<Longrightarrow> quiet w w'"
  by (auto simp: publish_output_def split: if_split_asm intro!: settles_quiet settles_same dest: program_calls_tasks(1))

lemma end_output_quiet: "end_output w t res = Some w' \<Longrightarrow> quiet w w'"
  by (auto simp: end_output_def split: if_split_asm Option.bind_split_asm intro!: settles_quiet settles_same dest!: program_calls_tasks(1,6))

lemma compute_visit_quiet:
  assumes r: "compute_visit rs w k = Some w'"
  shows "quiet w w'"
proof (cases "task_step (wtask w k) = CCSD_TASK_SCHEDULE")
  case False
  then show ?thesis using r by (simp add: compute_visit_def Let_def)
next
  case True
  define t where "t = wtask w k"
  obtain p n res ps where l: "compute_loop t rs (processed_offset t) (total_size t - processed_offset t) 0 (params t) = Some (p, n, res, ps)"
    using r True by (auto simp: compute_visit_def Let_def t_def split: if_split_asm Option.bind_split_asm)
  define v where "v = upd_task w k (\<lambda>t. t\<lparr>processed_offset := p, params := ps\<rparr>)"
  define x where "x = (if IS_STATIC_OUTPUT_TYPE_PROGRAM_INDEX (program_idx t) then res else task_result t + res)"
  obtain w1 where 1: "publish_output v t res = Some w1"
    "(if n \<noteq> 0 then Some (upd_task w1 k (\<lambda>t. t\<lparr>task_result := x\<rparr>))
      else map_option (\<lambda>w3. upd_task w3 k (\<lambda>t. t\<lparr>task_step := CCSD_TASK_END\<rparr>)) (end_output (upd_task w1 k (\<lambda>t. t\<lparr>task_result := x\<rparr>)) t x)) = Some w'"
    using r True l unfolding compute_visit_def Let_def t_def [symmetric] v_def x_def by (auto simp: Option.bind_eq_Some_conv split: if_split_asm)
  let ?w2 = "upd_task w1 k (\<lambda>t. t\<lparr>task_result := x\<rparr>)"
  have "quiet w v" unfolding v_def by (rule upd_task_quiet) (simp add: settled_def in_place_def)
  also have "quiet v w1" by (rule publish_output_quiet [OF 1(1)])
  also have "quiet w1 ?w2" by (rule upd_task_quiet) (simp add: settled_def in_place_def)
  finally have q: "quiet w ?w2" .
  show ?thesis
  proof (cases "n = 0")
    case True
    then obtain w3 where 3: "end_output ?w2 t x = Some w3" "w' = upd_task w3 k (\<lambda>t. t\<lparr>task_step := CCSD_TASK_END\<rparr>)" using 1(2) by auto
    have "quiet w3 w'" unfolding 3(2) by (rule upd_task_quiet) (simp add: settled_def in_place_def)
    then show ?thesis using quiet_trans [OF q quiet_trans [OF end_output_quiet [OF 3(1)]]] by blast
  qed (use q 1(2) in simp)
qed

section \<open>Completion of tasks\<close>

lemma complete_from_dev: "complete_from w cur sent = Some (w', sent') \<Longrightarrow> cur = lhead (done_list (wtt w)) \<Longrightarrow> dev_inv w X L \<Longrightarrow> dev_inv w' X L"
proof -
  assume c: "complete_from w cur sent = Some (w', sent')"
  have "\<forall>w' sent'. r = (w', sent') \<longrightarrow> cur = lhead (done_list (wtt w)) \<longrightarrow> dev_inv w X L \<longrightarrow> dev_inv w' X L" if "complete_from w cur sent = Some r" for r
    using that
  proof (rule complete_from.raw_induct [rotated])
    fix f w cur sent r
    assume IH: "\<And>w cur sent r. f w cur sent = Some r \<Longrightarrow> \<forall>w' sent'. r = (w', sent') \<longrightarrow> cur = lhead (done_list (wtt w)) \<longrightarrow> dev_inv w X L \<longrightarrow> dev_inv w' X L"
      and b: "(case cur of None \<Rightarrow> Some (w, sent)
        | Some k \<Rightarrow>
          (let t = wtask w k
           in do {
                w1 \<leftarrow> free_task_buffers w t;
                let next_task = t_next (wtask w1 k);
                w2 \<leftarrow> release_task w1 k;
                f w2 next_task (if sends_completion t then sent @ [(proc_idx t, task_status t, task_result t)] else sent)
              })) = Some r"
    show "\<forall>w' sent'. r = (w', sent') \<longrightarrow> cur = lhead (done_list (wtt w)) \<longrightarrow> dev_inv w X L \<longrightarrow> dev_inv w' X L"
    proof (cases cur)
      case (Some k)
      then obtain w1 w2 s where 1: "free_task_buffers w (wtask w k) = Some w1" "release_task w1 k = Some w2" "f w2 (t_next (wtask w1 k)) s = Some r"
        using b by (auto simp: Let_def Option.bind_eq_Some_conv)
      have q: "quiet w w1" using free_task_buffers_quiet [OF 1(1)] .
      have "dev_inv w2 X L \<and> lhead (done_list (wtt w2)) = t_next (wtask w1 k)" if "cur = lhead (done_list (wtt w))" "dev_inv w X L"
        by (rule release_dev [OF quiet_dev [OF q that(2)] _ 1(2)]) (use that(1) Some quiet_done_list [OF q] in simp)
      then show ?thesis using IH [OF 1(3)] by simp
    qed (use b in auto)
  qed
  with c show "cur = lhead (done_list (wtt w)) \<Longrightarrow> dev_inv w X L \<Longrightarrow> dev_inv w' X L" by blast
qed

end
