(* ===== verification/Csd_Device.thy ===== *)
theory Csd_Device
  imports Csd_Lists
begin

unbundle bit_operations_syntax

text \<open>
  The dispatcher, the helper and the copy threads of the computational device together: each command keeps the
  invariant \<open>dev_inv\<close>, the steps of the device are an inductive relation, and the states reachable from
  start-up have the invariant. At the end, the completion queue.
\<close>

section \<open>Commands\<close>

lemma dev_turn: "dev_inv w X L \<Longrightarrow> compute_turn (wtt w) < num_cpu_resources (wtt w) \<and> copy_to_slm_list_id (wtt w) = num_cpu_resources (wtt w)"
  by (auto simp: dev_inv_def tlists_def)

lemma pick_core_start:
  assumes p: "pick_core (upd_task w k f) = Some (w2, c)" and t: "compute_turn (wtt w) < num_cpu_resources (wtt w)"
  shows "\<exists>w0. quiet w w0 \<and> w2 = upd_task w0 k f \<and> c < num_cpu_resources (wtt w) \<and> wtask w0 k = wtask w k"
proof (cases "find_idle_compute_core (wtt w)")
  case None
  define x where "x = (compute_turn (wtt w) + 1) mod num_cpu_resources (wtt w)"
  have x: "x < num_cpu_resources (wtt w)" using t by (simp add: x_def)
  have c: "upd_task (w\<lparr>wtt := y\<rparr>) k f = (upd_task w k f)\<lparr>wtt := y\<rparr>" for y by (simp add: upd_task_def)
  have w2: "w2 = upd_task (w\<lparr>wtt := (wtt w)\<lparr>compute_turn := x\<rparr>\<rparr>) k f" "c = compute_turn (wtt w)"
    using p None t unfolding c by (auto simp: pick_core_def x_def)
  have "quiet w (w\<lparr>wtt := (wtt w)\<lparr>compute_turn := x\<rparr>\<rparr>)"
    unfolding quiet_def using x by (auto simp: wtask_def intro!: exI [of _ "task (wtt w)"] exI [of _ x])
  then show ?thesis using w2 t by (auto simp: wtask_def)
next
  case (Some i)
  then have "w2 = upd_task w k f" "c = i" using p by (simp_all add: pick_core_def)
  moreover have "i < num_cpu_resources (wtt w)" using Some find_idle_from_Some [of "comp_list (wtt w)" 0 "num_cpu_resources (wtt w)" i] by (simp add: find_idle_compute_core_def)
  ultimately show ?thesis using quiet_refl by blast
qed

lemma start_picked:
  assumes i: "dev_inv w X L" and k: "k \<in> X" and f: "starts (wtask w k) (f (wtask w k))"
    and p: "pick_core (upd_task w k f) = Some (w2, c)" and e: "enqueue_work w2 k c = Some w'"
  shows "dev_inv w' (X - {k}) L"
proof -
  obtain w0 where 0: "quiet w w0" "w2 = upd_task w0 k f" "c < num_cpu_resources (wtt w)" "wtask w0 k = wtask w k"
    using pick_core_start [OF p] dev_turn [OF i] by blast
  show ?thesis by (rule start_dev [OF quiet_dev [OF 0(1) i] k]) (use 0 f e quiet_frame(2) [OF 0(1)] in simp_all)
qed

lemma start_copy:
  assumes i: "dev_inv w X L" and k: "k \<in> X" and f: "starts (wtask w k) (f (wtask w k))"
    and e: "enqueue_work (upd_task w k f) k (copy_to_slm_list_id (wtt (upd_task w k f))) = Some w'"
  shows "dev_inv w' (X - {k}) L"
  by (rule start_dev [OF i k f _ e]) (use dev_turn [OF i] in simp)

lemmas starts_simps = starts_def schedule_task_def

text \<open>A command of which the task is dropped loses its slot.\<close>

lemma lose_dev: "dev_inv w X L \<Longrightarrow> k \<in> X \<Longrightarrow> dev_inv w (X - {k}) (insert k L) \<and> k \<notin> L"
proof -
  assume i: "dev_inv w X L" and k: "k \<in> X"
  obtain fs ds cs where l: "tlists (wtable w) fs X ds cs L" using i by (auto simp: dev_inv_def)
  have kL: "k \<notin> L" "k < MAX_TASK_COUNT" "k \<notin> set fs" using tlists_bound(3) [OF l] tlists_disjoint(7) [OF l, of 0] k by auto
  let ?q = "set (fs @ ds @ queued (num_cpu_resources (wtable w) + 1) cs)"
  have "X \<inter> ?q = {}" "X \<union> ?q = {..<MAX_TASK_COUNT} - L" "L \<subseteq> {..<MAX_TASK_COUNT}" using l by (simp_all add: tlists_def)
  then have "(X - {k}) \<inter> ?q = {}" "(X - {k}) \<union> ?q = {..<MAX_TASK_COUNT} - insert k L" "insert k L \<subseteq> {..<MAX_TASK_COUNT}" using k kL by blast+
  moreover have "x \<in> X - {k} \<union> set fs" if "x < MAX_TASK_COUNT" "x \<notin> insert k L" "task_step (task (wtable w) x) = CCSD_TASK_FREE" for x
    using tlists_free_in [OF l, of x] that by auto
  ultimately have "tlists (wtable w) fs (X - {k}) ds cs (insert k L)" using l unfolding tlists_def by (metis (no_types))
  then show ?thesis using i kL(1) by (auto simp: dev_inv_def held_def)
qed

lemma dispatch_execute_dev:
  assumes i: "dev_inv w X L" and k: "TASK_POOL_INDEX g \<in> X" and r: "dispatch_execute w g c proc h = Some (w', ok)"
  shows "if p_nByte (hd_param h) \<ge> 0xFFFFFFFF then w' = w else dev_inv w' (X - {TASK_POOL_INDEX g}) L"
proof (cases "p_nByte (hd_param h) \<ge> 0xFFFFFFFF")
  case True
  then show ?thesis using r by (simp add: dispatch_execute_def Let_def)
next
  case False
  define k tsize f where "k = TASK_POOL_INDEX g" and "tsize = p_nByte (hd_param h)"
    and "f = (\<lambda>ib ob q ps t. (schedule_task c proc (p_nByte (hd_param h)) (p_nByte (hd_param h)) (p_nByte (hd_param h)) ib ob (ucast (c_pind c)) t)
                \<lparr>task_slm_lba_info := Some q, param_size := ucast (p_param_size (hd_param h)), params := ps\<rparr>)"
  obtain a l jf w1 q ib ob ps w3 core where 1: "new_region w a l g None 0 (hd_junk h) jf = Some (w1, q)"
      "pick_core (upd_task w1 k (f ib ob q ps)) = Some (w3, core)" "enqueue_work w3 k core = Some w'"
    using r False unfolding dispatch_execute_def Let_def k_def f_def by (auto simp: Option.bind_eq_Some_conv)
  have "unat tsize \<le> 2 ^ 62" using False unat_mono [of tsize "0xFFFFFFFF"] by (simp add: tsize_def not_le)
  then have "starts t (f ib ob q ps t)" for t by (simp add: starts_simps f_def tsize_def)
  then have "dev_inv w' (X - {k}) L"
    using start_picked [OF quiet_dev [OF new_region_quiet [OF 1(1)] i] _ _ 1(2,3)] k by (simp add: k_def)
  then show ?thesis using False by (simp add: k_def)
qed

lemma dispatch_copy_dev:
  assumes i: "dev_inv w X L" and k: "TASK_POOL_INDEX g \<in> X" and sz: "unat (mc_length c) \<le> 2 ^ 62" and r: "dispatch_copy w g c proc h = Some (w', ok)"
  shows "dev_inv w' (X - {TASK_POOL_INDEX g}) L"
proof -
  define k f where "k = TASK_POOL_INDEX g" and "f = (\<lambda>b q t. (schedule_task c proc (mc_length c) 0 0 b b COPY_TO_SLM_PROGRAM_INDEX t)
                  \<lparr>task_slm_lba_info := Some q, param_size := 0, is_first_io := True, io_quota := 1\<rparr>)"
  obtain a sre n jf w1 q b where 1: "new_region w a (mc_length c) g sre n (hd_junk h) jf = Some (w1, q)"
      "enqueue_work (upd_task w1 k (f b q)) k (copy_to_slm_list_id (wtt (upd_task w1 k (f b q)))) = Some w'"
    using r unfolding dispatch_copy_def Let_def k_def f_def by (auto simp: Option.bind_eq_Some_conv split: if_split_asm)
  have "starts t (f b q t)" for t using sz by (simp add: starts_simps f_def)
  then show ?thesis using start_copy [OF quiet_dev [OF new_region_quiet [OF 1(1)] i] _ _ 1(2)] k by (simp add: k_def)
qed

definition oversized :: "csd_command \<Rightarrow> host_data \<Rightarrow> bool" where
  "oversized c h \<longleftrightarrow> c_opcode c = nvme_cmd_execute_program \<and> p_nByte (hd_param h) \<ge> 0xFFFFFFFF"

lemma do_perform_dispatch_dev:
  assumes i: "dev_inv w {} L" and f: "fresh_ids w 2" and sz: "unat (mc_length c) \<le> 2 ^ 62" and r: "do_perform_dispatch w c proc h = Some (w', ok)"
  shows "if oversized c h then \<exists>k. k \<notin> L \<and> dev_inv w' {} (insert k L) else dev_inv w' {} L"
proof -
  obtain w1 g where a: "alloc_task w = Some (w1, g)" "g \<noteq> TASK_ID_NONE"
    and b: "(if c_opcode c = nvme_cmd_execute_program then dispatch_execute w1 g c proc h
       else if c_opcode c = nvme_cmd_memory_copy then dispatch_copy w1 g c proc h else None) = Some (w', ok)"
    using r by (auto simp: do_perform_dispatch_def Option.bind_eq_Some_conv split: if_split_asm)
  have i1: "dev_inv w1 {TASK_POOL_INDEX g} L" using alloc_dev [of w "{}" L 0, OF i _ a(1)] f a(2) by (simp add: numeral_2_eq_2)
  show ?thesis
  proof (cases "c_opcode c = nvme_cmd_execute_program")
    case True
    then have e: "dispatch_execute w1 g c proc h = Some (w', ok)" using b by simp
    then show ?thesis using True dispatch_execute_dev [OF i1 _ e] lose_dev [OF i1, of "TASK_POOL_INDEX g"] by (auto simp: oversized_def split: if_splits)
  next
    case False
    then have "c_opcode c = nvme_cmd_memory_copy" "dispatch_copy w1 g c proc h = Some (w', ok)" using b by (auto split: if_split_asm)
    then show ?thesis using dispatch_copy_dev [OF i1 _ sz] False by (auto simp: oversized_def)
  qed
qed


text \<open>Compound commands hold several tasks at once.\<close>

abbreviation slots :: "u32 list \<Rightarrow> nat list" where
  "slots ids \<equiv> map TASK_POOL_INDEX ids"

lemma alloc_tasks_dev:
  "alloc_tasks w n ids = Some (w', ids', enough) \<Longrightarrow> dev_inv w (set (slots ids)) L \<Longrightarrow> distinct (slots ids) \<Longrightarrow> fresh_ids w (2 * n) \<Longrightarrow>
     dev_inv w' (set (slots ids')) L \<and> distinct (slots ids') \<and> (enough \<longrightarrow> length ids' = length ids + n)"
proof (induction w n ids rule: alloc_tasks.induct)
  case (2 w n ids)
  obtain w1 g where a: "alloc_task w = Some (w1, g)" and r: "(if g = TASK_ID_NONE then Some (w1, ids, False) else alloc_tasks w1 n (ids @ [g])) = Some (w', ids', enough)"
    using 2(2) by (auto simp: Option.bind_eq_Some_conv)
  have f: "fresh_ids w (2 * n + 2)" using 2(5) by simp
  show ?case
  proof (cases "g = TASK_ID_NONE")
    case True
    then show ?thesis using alloc_dev [OF 2(3) f a] r 2(4) by auto
  next
    case False
    then have "TASK_POOL_INDEX g \<notin> set (slots ids)" "dev_inv w1 (set (slots (ids @ [g]))) L" "fresh_ids w1 (2 * n)" using alloc_dev [OF 2(3) f a] by auto
    then show ?thesis using 2(1) [OF a refl False] r False 2(4) by simp
  qed
qed simp

lemma free_tasks_dev:
  "free_tasks w ids = Some w' \<Longrightarrow> dev_inv w X L \<Longrightarrow> distinct (slots ids) \<Longrightarrow> set (slots ids) \<subseteq> X \<Longrightarrow> dev_inv w' (X - set (slots ids)) L"
proof (induction w ids arbitrary: X rule: free_tasks.induct)
  case (2 w g gs)
  then obtain w1 where w1: "free_task w (TASK_POOL_INDEX g) = Some w1" "free_tasks w1 gs = Some w'" by (auto simp: Option.bind_eq_Some_conv)
  have "dev_inv w1 (X - {TASK_POOL_INDEX g}) L" using free_dev [OF 2(3) _ w1(1)] 2(5) by simp
  moreover have "distinct (slots gs)" "set (slots gs) \<subseteq> X - {TASK_POOL_INDEX g}" using 2(4,5) by (simp_all add: subset_Diff_insert)
  moreover have "X - {TASK_POOL_INDEX g} - set (slots gs) = X - set (slots (g # gs))" by auto
  ultimately show ?case using 2(1) [OF w1] by metis
qed simp

lemma start_read_load_dev:
  assumes i: "dev_inv w X L" and k: "TASK_POOL_INDEX tid \<in> X" and sz: "unat (mr_file_size (hd_magic_read h) j) \<le> 2 ^ 62"
    and r: "start_read_load w c proc h buf j tid = Some w'"
  shows "dev_inv w' (X - {TASK_POOL_INDEX tid}) L"
proof -
  define k f where "k = TASK_POOL_INDEX tid" and "f = (\<lambda>b q t. (schedule_task c proc (mr_file_size (hd_magic_read h) j) 0 0 b b COPY_TO_SLM_PROGRAM_INDEX t)
                \<lparr>task_slm_lba_info := Some q, param_size := 0, is_first_io := True, io_quota := 1, origin_program_idx := ROCKSDB_MAGIC_READ_PROGRAM_INDEX\<rparr>)"
  obtain a l sre n jf w1 q b where 1: "new_region w a l tid sre n (hd_junk h) jf = Some (w1, q)"
      "enqueue_work (upd_task w1 k (f b q)) k (copy_to_slm_list_id (wtt (upd_task w1 k (f b q)))) = Some w'"
    using r unfolding start_read_load_def Let_def k_def f_def by (auto simp: Option.bind_eq_Some_conv)
  have "starts t (f b q t)" for t using sz by (simp add: starts_simps f_def)
  then show ?thesis using start_copy [OF quiet_dev [OF new_region_quiet [OF 1(1)] i] _ _ 1(2)] k by (simp add: k_def)
qed

lemma start_read_loads_dev:
  "start_read_loads w c proc h buf j tids = Some w' \<Longrightarrow> dev_inv w X L \<Longrightarrow> distinct (slots tids) \<Longrightarrow> set (slots tids) \<subseteq> X \<Longrightarrow>
     (\<And>i. i < j + length tids \<Longrightarrow> unat (mr_file_size (hd_magic_read h) i) \<le> 2 ^ 62) \<Longrightarrow> dev_inv w' (X - set (slots tids)) L"
proof (induction tids arbitrary: w j X)
  case (Cons t ts)
  then obtain w1 where w1: "start_read_load w c proc h buf j t = Some w1" "start_read_loads w1 c proc h buf (Suc j) ts = Some w'" by (auto simp: Option.bind_eq_Some_conv)
  have "dev_inv w1 (X - {TASK_POOL_INDEX t}) L" by (rule start_read_load_dev [OF _ _ _ w1(1)]) (use Cons.prems in auto)
  moreover have "distinct (slots ts)" "set (slots ts) \<subseteq> X - {TASK_POOL_INDEX t}" using Cons.prems(3,4) by (simp_all add: subset_Diff_insert)
  moreover have "unat (mr_file_size (hd_magic_read h) i) \<le> 2 ^ 62" if "i < Suc j + length ts" for i using Cons.prems(5) that by simp
  ultimately have "dev_inv w' (X - {TASK_POOL_INDEX t} - set (slots ts)) L" using Cons.IH [OF w1(2)] by blast
  moreover have "X - {TASK_POOL_INDEX t} - set (slots ts) = X - set (slots (t # ts))" by auto
  ultimately show ?case by simp
qed simp

lemma start_read_compute_dev:
  assumes i: "dev_inv w X L" and k: "TASK_POOL_INDEX tid \<in> X" and sz: "unat (\<Sum>i\<leftarrow>[0..<length ids]. mr_file_size (hd_magic_read h) i) \<le> 2 ^ 62"
    and r: "start_read_compute w c proc h ib ob tid ids = Some w'"
  shows "dev_inv w' (X - {TASK_POOL_INDEX tid}) L"
proof -
  define k f where "k = TASK_POOL_INDEX tid" and "f = (\<lambda>q ps t. (schedule_task c proc (\<Sum>i\<leftarrow>[0..<length ids]. mr_file_size (hd_magic_read h) i) 0 0 ib ob ROCKSDB_MAGIC_READ_PROGRAM_INDEX t)
                \<lparr>task_slm_lba_info := Some q, params := ps, param_size := of_nat magic_params_size\<rparr>)"
  obtain a l jf w1 q ps w3 core where 1: "new_region w a l TASK_ID_NONE None 0 (hd_junk h) jf = Some (w1, q)"
      "pick_core (upd_task w1 k (f q ps)) = Some (w3, core)" "enqueue_work w3 k core = Some w'"
    using r unfolding start_read_compute_def Let_def k_def f_def by (auto simp: Option.bind_eq_Some_conv)
  have "starts t (f q ps t)" for t using sz by (simp add: starts_simps f_def)
  then show ?thesis using start_picked [OF quiet_dev [OF new_region_quiet [OF 1(1)] i] _ _ 1(2,3)] k by (simp add: k_def)
qed


text \<open>The sizes in a command are below 512 PiB, so no sum of them overflows.\<close>

definition sized :: "csd_command \<Rightarrow> host_data \<Rightarrow> bool" where
  "sized c h \<longleftrightarrow> unat (mc_length c) \<le> 2 ^ 59 \<and> list_all (\<lambda>i. unat (mr_file_size (hd_magic_read h) i) \<le> 2 ^ 59) [0..<MAX_MAGIC_READ_FILES]
     \<and> unat (mc_file_size (hd_magic h) 0) \<le> 2 ^ 59 \<and> unat (mc_file_size (hd_magic h) 1) \<le> 2 ^ 59 \<and> unat (get_u64 (mc_param (hd_magic h)) 64) \<le> 2 ^ 59"

lemma unat_add_le: "unat (a + b :: u64) \<le> unat a + unat b"
  by (simp add: unat_word_ariths)

lemma unat_mult_le: "unat (a * b :: u64) \<le> unat a * unat b"
  by (simp add: unat_word_ariths)

lemma unat_sum_list_le: "(\<And>x. x \<in> set xs \<Longrightarrow> unat (f x :: u64) \<le> m) \<Longrightarrow> unat (\<Sum>x\<leftarrow>xs. f x) \<le> length xs * m"
proof (induction xs)
  case (Cons x xs)
  have "unat (\<Sum>x\<leftarrow>x # xs. f x) \<le> unat (f x) + unat (\<Sum>x\<leftarrow>xs. f x)" using unat_add_le by simp
  also have "\<dots> \<le> m + length xs * m" using Cons by (intro add_mono) auto
  finally show ?case by simp
qed simp

lemma sized_files: "sized c h \<Longrightarrow> i < 4 \<Longrightarrow> unat (mr_file_size (hd_magic_read h) i) \<le> 2 ^ 59"
  by (simp add: sized_def list_all_iff MAX_MAGIC_READ_FILES_def)

lemma sized_sum: "sized c h \<Longrightarrow> n \<le> 4 \<Longrightarrow> unat (\<Sum>i\<leftarrow>[0..<n]. mr_file_size (hd_magic_read h) i) \<le> 2 ^ 62"
proof -
  assume "sized c h" "n \<le> 4"
  then have "unat (\<Sum>i\<leftarrow>[0..<n]. mr_file_size (hd_magic_read h) i) \<le> length [0..<n] * 2 ^ 59" by (intro unat_sum_list_le sized_files) auto
  also have "\<dots> \<le> 4 * 2 ^ 59" using \<open>n \<le> 4\<close> by (intro mult_right_mono) auto
  finally show ?thesis by simp
qed

lemma sized_total:
  assumes z: "sized c h" and t: "total_input_size (hd_magic h) = Some n"
  shows "unat n \<le> 2 ^ 62"
proof -
  define s x where "s = get_u64 (mc_param (hd_magic h)) 64" and "x = mc_file_size (hd_magic h) 0 + mc_file_size (hd_magic h) 1"
  have n: "n = (x div s + 2) * s" using t by (simp add: total_input_size_def Let_def s_def x_def split: if_splits)
  have b: "unat x \<le> 2 ^ 60" "unat s \<le> 2 ^ 59" using z unat_add_le [of "mc_file_size (hd_magic h) 0" "mc_file_size (hd_magic h) 1"] by (simp_all add: sized_def s_def x_def)
  have "unat n \<le> unat (x div s + 2) * unat s" using unat_mult_le n by simp
  also have "\<dots> \<le> (unat x div unat s + 2) * unat s" using unat_add_le [of "x div s" 2] by (intro mult_right_mono) (simp_all add: unat_div)
  also have "\<dots> \<le> unat x + 2 * unat s" by (simp add: add_mult_distrib)
  finally show ?thesis using b by simp
qed

lemma read_buffers_dev:
  assumes 2: "dev_inv w2 (set (slots ids)) L" and d: "distinct (slots ids)" and len: "length ids = Suc n" and n: "n \<le> 4" and z: "sized c h"
    and r2: "(if -1 \<in> set bufs then do { w3 \<leftarrow> free_tasks w2 ids; w4 \<leftarrow> free_bufs w3 bufs; Some (w4, Some out_of_memory, False) }
             else do { w3 \<leftarrow> start_read_loads w2 c proc h (bufs ! 0) 0 (tl ids);
               w4 \<leftarrow> start_read_compute w3 c proc h (bufs ! 0) (bufs ! 1) (hd ids) (tl ids); Some (w4, None, True) }) = Some (w', st, ok)"
  shows "dev_inv w' {} L"
proof -
  obtain x xs where ids: "ids = x # xs" "length xs = n" using len by (cases ids) auto
  show ?thesis
  proof (cases "-1 \<in> set bufs")
    case True
    then obtain w3 where "free_tasks w2 ids = Some w3" "free_bufs w3 bufs = Some w'" using r2 by (auto simp: Option.bind_eq_Some_conv)
    then show ?thesis using free_tasks_dev [OF _ 2 d] quiet_dev [OF free_bufs_quiet] by simp
  next
    case False
    then obtain w3 where s: "start_read_loads w2 c proc h (bufs ! 0) 0 xs = Some w3" "start_read_compute w3 c proc h (bufs ! 0) (bufs ! 1) x xs = Some w'"
      using r2 ids by (auto simp: Option.bind_eq_Some_conv)
    have "unat (mr_file_size (hd_magic_read h) i) \<le> 2 ^ 62" if "i < 0 + length xs" for i using sized_files [OF z, of i] that n ids(2) by simp
    then have "dev_inv w3 (set (slots ids) - set (slots xs)) L" by (intro start_read_loads_dev [OF s(1) 2]) (use d ids in auto)
    then have 3: "dev_inv w3 {TASK_POOL_INDEX x} L" using d ids by (simp add: insert_Diff_if)
    show ?thesis using start_read_compute_dev [OF 3 _ _ s(2)] sized_sum [OF z, of "length xs"] n ids(2) by simp
  qed
qed

lemma magic_read_dev:
  assumes i: "dev_inv w {} L" and f: "fresh_ids w 10" and z: "sized c h" and r: "do_perform_magic_read w c proc h = Some (w', st, ok)"
  shows "dev_inv w' {} L"
proof -
  define n where "n = nat (sint (mr_num_files (hd_magic_read h)))"
  show ?thesis
  proof (cases "sint (mr_num_files (hd_magic_read h)) < 1 \<or> sint (mr_num_files (hd_magic_read h)) > int MAX_MAGIC_READ_FILES")
    case True
    then show ?thesis using r i by (simp add: do_perform_magic_read_def Let_def)
  next
    case False
    then have n: "n \<le> 4" by (simp add: n_def MAX_MAGIC_READ_FILES_def nat_le_iff)
    obtain w1 ids enough where a: "alloc_tasks w (Suc n) [] = Some (w1, ids, enough)"
      using r False by (auto simp: do_perform_magic_read_def Let_def n_def Option.bind_eq_Some_conv simp del: alloc_tasks.simps)
    have 1: "dev_inv w1 (set (slots ids)) L" "distinct (slots ids)" "enough \<Longrightarrow> length ids = Suc n"
      using alloc_tasks_dev [OF a] i fresh_mono [OF f, of "2 * Suc n"] n by auto
    show ?thesis
    proof (cases enough)
      case False
      then obtain w2 where "free_tasks w1 ids = Some w2" "w' = w2" using r a \<open>\<not> (_ \<or> _)\<close> by (auto simp: do_perform_magic_read_def Let_def n_def [symmetric] simp del: alloc_tasks.simps)
      then show ?thesis using free_tasks_dev [OF _ 1(1,2)] by simp
    next
      case True
      then obtain w2 bufs where b: "alloc_bufs w1 [per_file_slm_size * of_nat n, 16384] [] = Some (w2, bufs)"
        and r2: "(if -1 \<in> set bufs then do { w3 \<leftarrow> free_tasks w2 ids; w4 \<leftarrow> free_bufs w3 bufs; Some (w4, Some out_of_memory, False) }
             else do { w3 \<leftarrow> start_read_loads w2 c proc h (bufs ! 0) 0 (tl ids);
               w4 \<leftarrow> start_read_compute w3 c proc h (bufs ! 0) (bufs ! 1) (hd ids) (tl ids); Some (w4, None, True) }) = Some (w', st, ok)"
        using r a \<open>\<not> (_ \<or> _)\<close> by (auto simp: do_perform_magic_read_def Let_def n_def [symmetric] Option.bind_eq_Some_conv simp del: alloc_tasks.simps split: if_split_asm)
      show ?thesis by (rule read_buffers_dev [OF quiet_dev [OF alloc_bufs_quiet [OF b] 1(1)] 1(2) _ n z r2]) (use 1(3) True in simp)
    qed
  qed
qed


lemma start_ring_load_dev:
  assumes i: "dev_inv w X L" and k: "TASK_POOL_INDEX tid \<in> X" and sz: "unat (mc_file_size p j) \<le> 2 ^ 62" and r: "start_ring_load w c proc p j buf tid = Some w'"
  shows "dev_inv w' (X - {TASK_POOL_INDEX tid}) L"
  by (rule start_copy [OF i k _ r [unfolded start_ring_load_def Let_def]]) (use sz in \<open>simp add: starts_simps\<close>)

lemma start_compaction_dev:
  assumes i: "dev_inv w X L" and k: "TASK_POOL_INDEX tid \<in> X" and sz: "unat (mc_file_size p 0 + mc_file_size p 1) \<le> 2 ^ 62"
    and r: "start_compaction w c proc p first second out meta tid = Some w'"
  shows "dev_inv w' (X - {TASK_POOL_INDEX tid}) L"
proof -
  define f where "f = (\<lambda>qs t. (schedule_task c proc (mc_file_size p 0 + mc_file_size p 1) 0 0 first out ROCKSDB_MAGIC_COMPACTION_PROGRAM_INDEX t)
                \<lparr>params := qs, param_size := of_nat magic_params_size\<rparr>)"
  obtain qs w2 core where 1: "pick_core (upd_task w (TASK_POOL_INDEX tid) (f qs)) = Some (w2, core)" "enqueue_work w2 (TASK_POOL_INDEX tid) core = Some w'"
    using r unfolding start_compaction_def Let_def f_def by (auto simp: Option.bind_eq_Some_conv)
  show ?thesis by (rule start_picked [OF i k _ 1]) (use sz in \<open>simp add: starts_simps f_def\<close>)
qed

lemma start_crc_dev:
  assumes i: "dev_inv w X L" and k: "TASK_POOL_INDEX tid \<in> X" and sz: "unat tsize \<le> 2 ^ 62" and r: "start_crc w c proc p tsize q input out core_id tid = Some w'"
  shows "dev_inv w' (X - {TASK_POOL_INDEX tid}) L"
proof -
  obtain f w2 core where 1: "pick_core (upd_task w (TASK_POOL_INDEX tid) f) = Some (w2, core)" "enqueue_work w2 (TASK_POOL_INDEX tid) core = Some w'"
      "starts (wtask w (TASK_POOL_INDEX tid)) (f (wtask w (TASK_POOL_INDEX tid)))"
    using r sz unfolding start_crc_def Let_def by (auto simp: Option.bind_eq_Some_conv starts_simps)
  show ?thesis by (rule start_picked [OF i k 1(3,1,2)])
qed

lemma start_crc_chain_dev:
  assumes i: "dev_inv w (set (slots (drop 3 ids))) L" and d: "distinct (slots ids)" and len: "length ids = 3 + crc_cores p" and sz: "unat tsize \<le> 2 ^ 62"
    and r: "start_crc_chain w c proc p junk tsize bufs q1 ids = Some w'"
  shows "dev_inv w' {} L"
proof (cases "crc_cores p = 2")
  case True
  obtain a b where ids: "drop 3 ids = [a, b]" using len True by (cases "drop 3 ids" rule: remdups_adj.cases) (auto dest: arg_cong [of _ _ length])
  then have n: "ids ! 3 = a" "ids ! 4 = b" using len True nth_drop [of 3 ids 0] nth_drop [of 3 ids 1] by auto
  have ab: "TASK_POOL_INDEX a \<noteq> TASK_POOL_INDEX b" using distinct_drop [OF d, of 3] ids by (simp add: drop_map)
  obtain x f w1 q2 w2 y g w3 q3 z u v where 1: "new_region w x circular_buf_size a None 0 junk f = Some (w1, q2)" "start_crc w1 c proc p tsize q1 z u 0 a = Some w2"
      "new_region w2 y circular_buf_size b None 0 junk g = Some (w3, q3)" "start_crc w3 c proc p tsize (Some q2) u v 1 b = Some w'"
    using r True unfolding start_crc_chain_def Let_def n by (auto simp: Option.bind_eq_Some_conv)
  have i1: "dev_inv w1 {TASK_POOL_INDEX a, TASK_POOL_INDEX b} L" using quiet_dev [OF new_region_quiet [OF 1(1)] i] ids by simp
  have "dev_inv w2 {TASK_POOL_INDEX b} L" using start_crc_dev [OF i1 _ sz 1(2)] ab by (simp add: insert_Diff_if)
  then have i3: "dev_inv w3 {TASK_POOL_INDEX b} L" using quiet_dev [OF new_region_quiet [OF 1(3)]] by blast
  show ?thesis using start_crc_dev [OF i3 _ sz 1(4)] by simp
next
  case False
  then have "crc_cores p = 1" by (auto simp: crc_cores_def split: if_splits)
  then obtain a where ids: "drop 3 ids = [a]" using len by (cases "drop 3 ids" rule: remdups_adj.cases) (auto dest: arg_cong [of _ _ length])
  then have n: "ids ! 3 = a" using len nth_drop [of 3 ids 0] by auto
  obtain x f w1 q2 z u where 1: "new_region w x circular_buf_size a None 0 junk f = Some (w1, q2)" "start_crc w1 c proc p tsize q1 z u 0 a = Some w'"
    using r False unfolding start_crc_chain_def Let_def n by (auto simp: Option.bind_eq_Some_conv)
  have i1: "dev_inv w1 {TASK_POOL_INDEX a} L" using quiet_dev [OF new_region_quiet [OF 1(1)] i] ids by simp
  show ?thesis using start_crc_dev [OF i1 _ sz 1(2)] by simp
qed


lemma set_region_quiet: "quiet w (set_region w tid q)"
  unfolding set_region_def by (rule upd_task_quiet) (simp add: settled_def in_place_def)

lemma start_magic_compaction_dev:
  assumes i: "dev_inv w (set (slots ids)) L" and d: "distinct (slots ids)" and len: "length ids = (if crc_flag (hd_magic h) then 3 + crc_cores (hd_magic h) else 3)"
    and z: "sized c h" and t: "unat tsize \<le> 2 ^ 62" and r: "start_magic_compaction w c proc h tsize sre1 sre2 ids bufs = Some w'"
  shows "dev_inv w' {} L"
proof -
  define p where "p = hd_magic h"
  obtain a b e rest where ids: "ids = a # b # e # rest" using len by (cases ids; cases "tl ids"; cases "tl (tl ids)") (auto split: if_splits)
  obtain w1 q2 w2 q3 w3 q1 w5 w6 w7 x1 x2 x3 x4 x5 y1 y2 y3 y4 y5 f1 f2 f3 m where 1: "new_region w x1 circular_buf_size b sre1 y1 (hd_junk h) f1 = Some (w1, q2)"
      "new_region (set_region w1 b q2) x2 circular_buf_size e sre2 y2 (hd_junk h) f2 = Some (w2, q3)"
      "new_region (set_region w2 e q3) x3 circular_buf_size a None 0 (hd_junk h) f3 = Some (w3, q1)"
    and 2: "start_ring_load (set_region w3 a q1) c proc p 0 x4 b = Some w5" "start_ring_load w5 c proc p 1 x5 e = Some w6"
      "start_compaction w6 c proc p y3 y4 y5 m a = Some w7" "(if crc_flag p then start_crc_chain w7 c proc p (hd_junk h) tsize bufs (Some q1) ids else Some w7) = Some w'"
    using r unfolding start_magic_compaction_def Let_def p_def [symmetric] ids by (auto simp: Option.bind_eq_Some_conv)
  have s: "unat (mc_file_size p 0) \<le> 2 ^ 62" "unat (mc_file_size p 1) \<le> 2 ^ 62" "unat (mc_file_size p 0 + mc_file_size p 1) \<le> 2 ^ 62"
    using z unat_add_le [of "mc_file_size p 0" "mc_file_size p 1"] by (simp_all add: sized_def p_def)
  have "quiet w (set_region w3 a q1)"
    using new_region_quiet [OF 1(1)] new_region_quiet [OF 1(2)] new_region_quiet [OF 1(3)] set_region_quiet quiet_trans by meson
  then have 4: "dev_inv (set_region w3 a q1) (set (slots ids)) L" using quiet_dev i by blast
  have 5: "dev_inv w5 (set (slots ids) - {TASK_POOL_INDEX b}) L" by (rule start_ring_load_dev [OF 4 _ s(1) 2(1)]) (simp add: ids)
  have 6: "dev_inv w6 (set (slots ids) - {TASK_POOL_INDEX b} - {TASK_POOL_INDEX e}) L" by (rule start_ring_load_dev [OF 5 _ s(2) 2(2)]) (use d ids in auto)
  have "dev_inv w7 (set (slots ids) - {TASK_POOL_INDEX b} - {TASK_POOL_INDEX e} - {TASK_POOL_INDEX a}) L" by (rule start_compaction_dev [OF 6 _ s(3) 2(3)]) (use d ids in auto)
  moreover have "set (slots ids) - {TASK_POOL_INDEX b} - {TASK_POOL_INDEX e} - {TASK_POOL_INDEX a} = set (slots (drop 3 ids))"
    using d by (simp add: ids numeral_3_eq_3 insert_Diff_if)
  ultimately have 7: "dev_inv w7 (set (slots (drop 3 ids))) L" by simp
  show ?thesis
  proof (cases "crc_flag p")
    case True
    then show ?thesis using start_crc_chain_dev [OF 7 d _ t] len 2(4) by (simp add: p_def)
  next
    case False
    then have "drop 3 ids = []" using len by (simp add: p_def)
    then show ?thesis using 7 2(4) False by simp
  qed
qed

lemma magic_compaction_dev:
  assumes i: "dev_inv w {} L" and f: "fresh_ids w 10" and z: "sized c h" and r: "do_perform_magic_compaction w c proc h = Some (w', st, ok)"
  shows "dev_inv w' {} L"
proof -
  define n where "n = (if crc_flag (hd_magic h) then 3 + crc_cores (hd_magic h) else 3)"
  have n: "n \<le> 5" by (auto simp: n_def crc_cores_def)
  obtain tsize w1 ids enough where t: "total_input_size (hd_magic h) = Some tsize" and a: "alloc_tasks w n [] = Some (w1, ids, enough)"
    using r by (auto simp: do_perform_magic_compaction_def Let_def n_def [symmetric] Option.bind_eq_Some_conv simp del: alloc_tasks.simps)
  note unf = do_perform_magic_compaction_def Let_def n_def [symmetric] t a Option.bind.bind_lunit prod.case
  have 1: "dev_inv w1 (set (slots ids)) L" "distinct (slots ids)" "enough \<Longrightarrow> length ids = n"
    using alloc_tasks_dev [OF a] i fresh_mono [OF f, of "2 * n"] n by auto
  show ?thesis
  proof (cases enough)
    case False
    then have "free_tasks w1 ids = Some w'" using r unfolding unf by auto
    then show ?thesis using free_tasks_dev [OF _ 1(1,2)] by simp
  next
    case True
    then obtain sre1 sre2 w2 bufs w3 where b: "alloc_bufs w1 (compaction_bufs (hd_magic h)) [] = Some (w2, bufs)" "meta_region w2 (last bufs) (hd_junk h) = Some w3"
      and r2: "(if -1 \<in> set bufs then do { w4 \<leftarrow> free_tasks w3 ids; w5 \<leftarrow> free_bufs w4 bufs; Some (w5, Some out_of_memory, False) }
             else do { w4 \<leftarrow> start_magic_compaction w3 c proc h tsize sre1 sre2 ids bufs; Some (w4, None, True) }) = Some (w', st, ok)"
      using r unfolding unf by (auto simp: Option.bind_eq_Some_conv)
    have 3: "dev_inv w3 (set (slots ids)) L" using quiet_dev [OF meta_region_quiet [OF b(2)] quiet_dev [OF alloc_bufs_quiet [OF b(1)] 1(1)]] .
    show ?thesis
    proof (cases "-1 \<in> set bufs")
      case True
      then obtain w4 where "free_tasks w3 ids = Some w4" "free_bufs w4 bufs = Some w'" using r2 by (auto simp: Option.bind_eq_Some_conv)
      then show ?thesis using free_tasks_dev [OF _ 3 1(2)] quiet_dev [OF free_bufs_quiet] by simp
    next
      case False
      then have s: "start_magic_compaction w3 c proc h tsize sre1 sre2 ids bufs = Some w'" using r2 by (auto simp: Option.bind_eq_Some_conv)
      show ?thesis by (rule start_magic_compaction_dev [OF 3 1(2) _ z sized_total [OF z t] s]) (use 1(3) True in \<open>simp add: n_def\<close>)
    qed
  qed
qed

lemma dispatch_command_dev:
  assumes i: "dev_inv w {} L" and f: "fresh_ids w 10" and z: "sized c h" and r: "dispatch_command w c proc h = Some (w', st, send, res)"
  shows "if oversized c h then \<exists>k. k \<notin> L \<and> dev_inv w' {} (insert k L) else dev_inv w' {} L"
proof -
  note op = nvme_cmd_execute_program_def nvme_admin_load_program_def nvme_cmd_memory_management_def nvme_cmd_magic_compaction_def nvme_cmd_magic_read_def
  consider (load) "c_opcode c = nvme_admin_load_program" | (mm) "c_opcode c = nvme_cmd_memory_management" | (comp) "c_opcode c = nvme_cmd_magic_compaction"
    | (rd) "c_opcode c = nvme_cmd_magic_read"
    | (task) "c_opcode c \<noteq> nvme_admin_load_program" "c_opcode c \<noteq> nvme_cmd_memory_management" "c_opcode c \<noteq> nvme_cmd_magic_compaction" "c_opcode c \<noteq> nvme_cmd_magic_read"
    by blast
  then show ?thesis
  proof cases
    case load
    then show ?thesis using r i by (simp add: dispatch_command_def Let_def oversized_def op)
  next
    case mm
    then obtain st' res' ok where "do_perform_memory_management w c = Some (w', st', res', ok)"
      using r by (auto simp: dispatch_command_def Let_def op Option.bind_eq_Some_conv)
    then show ?thesis using quiet_dev [OF memory_management_quiet i] mm by (simp add: oversized_def op)
  next
    case comp
    then obtain st' ok where "do_perform_magic_compaction w c proc h = Some (w', st', ok)"
      using r by (auto simp: dispatch_command_def Let_def op Option.bind_eq_Some_conv)
    then show ?thesis using magic_compaction_dev [OF i f z] comp by (simp add: oversized_def op)
  next
    case rd
    then obtain st' ok where "do_perform_magic_read w c proc h = Some (w', st', ok)"
      using r by (auto simp: dispatch_command_def Let_def op Option.bind_eq_Some_conv)
    then show ?thesis using magic_read_dev [OF i f z] rd by (simp add: oversized_def op)
  next
    case task
    then obtain ok where d: "do_perform_dispatch w c proc h = Some (w', ok)"
      using r by (auto simp: dispatch_command_def Let_def Option.bind_eq_Some_conv)
    have "unat (mc_length c) \<le> 2 ^ 62" using z by (simp add: sized_def)
    then show ?thesis using do_perform_dispatch_dev [OF i fresh_mono [OF f] _ d] by simp
  qed
qed

section \<open>The device\<close>

text \<open>
  Steps are the calls that the threads of the device make, in any order: a command of the dispatcher, the
  collection of ended tasks, their completion, postponed frees, the two passes of the helper, a pass of a copy
  thread, a visit of a compute thread to a task on the list of its core, any call that a running program makes to the
  shared memory, a command of the host to the namespace, and the note that the host has read output. The second component
  counts the commands that have lost their task. A command is dispatched only while no request in flight still carries
  one of the identifiers it is about to give out (\<open>fresh_ids\<close>), and its sizes are at most 512 PiB (\<open>sized\<close>).
\<close>

inductive csd_step :: "(nvmev_request \<Rightarrow> u64 \<times> u32) \<Rightarrow> csd_world \<times> nat \<Rightarrow> csd_world \<times> nat \<Rightarrow> bool" for prp where
  command: "fresh_ids w 10 \<Longrightarrow> sized c h \<Longrightarrow> dispatch_command w c proc h = Some (w', st, send, res) \<Longrightarrow>
    csd_step prp (w, n) (w', if oversized c h then n + 1 else n)"
| collect: "reclaim_task w = Some w' \<Longrightarrow> csd_step prp (w, n) (w', n)"
| complete: "complete_tasks w = Some (w', sent) \<Longrightarrow> csd_step prp (w, n) (w', n)"
| deferred: "process_deferred_slm_frees w = Some w' \<Longrightarrow> csd_step prp (w, n) (w', n)"
| request: "request_io prp now w = Some w' \<Longrightarrow> csd_step prp (w, n) (w', n)"
| reclaim: "reclaim_io_req now w = Some w' \<Longrightarrow> csd_step prp (w, n) (w', n)"
| copy: "slm_work w turn = Some w' \<Longrightarrow> csd_step prp (w, n) (w', n)"
| compute: "i < num_cpu_resources (wtt w) \<Longrightarrow> twalk (wtask w) (lhead (comp_list (wtt w) i)) zs \<Longrightarrow> k \<in> set zs \<Longrightarrow>
    compute_visit rs w k = Some w' \<Longrightarrow> csd_step prp (w, n) (w', n)"
| call: "run_call c (wslm w) = Some s \<Longrightarrow> csd_step prp (w, n) (put_slm w s, n)"
| host: "csd_proc_nvme_io_cmd prp (wslm w) (wns w) req ret = Some (ns, req', ret', st) \<Longrightarrow> csd_step prp (w, n) (w\<lparr>wns := ns\<rparr>, n)"
| consumed: "notify_output_consumed (wslm w) a len = Some s \<Longrightarrow> csd_step prp (w, n) (put_slm w s, n)"

inductive_cases csd_stepE: "csd_step prp (w, n) p"

inductive csd_reachable :: "(nvmev_request \<Rightarrow> u64 \<times> u32) \<Rightarrow> csd_world \<times> nat \<Rightarrow> bool" for prp where
  boot: "csd_proc_init ncsd nslm addr sz vmalloc_ok kzalloc_ok ns thr = Some w \<Longrightarrow> 0 < ncsd \<Longrightarrow> 0 < nslm \<Longrightarrow> csd_reachable prp (w, 0)"
| step: "csd_reachable prp s \<Longrightarrow> csd_step prp s s' \<Longrightarrow> csd_reachable prp s'"

lemma kept_lists:
  assumes i: "dev_inv w {} L" and o: "io_ok w'" "loads_ok w'" and k: "helper_keeps w w'"
  shows "dev_inv w' {} L"
proof -
  obtain fs ds cs where l: "tlists (wtable w) fs {} ds cs L" using i by (auto simp: dev_inv_def)
  have "tlists (wtable w') fs {} ds cs L"
    by (rule tlists_in_place [OF l]) (use k l same_identity_in_place in \<open>auto simp: helper_keeps_def tlists_def\<close>)
  then show ?thesis using o by (auto simp: dev_inv_def held_def)
qed

lemma slm_copy_req_loads:
  assumes "slm_copy_req w r = Some w'" "loads_ok w"
  shows "loads_ok w'"
proof (cases "w' = w")
  case False
  then obtain st where st: "st \<in> {CSD_INTERNAL_IO_REQ_WAITING_TIME, CSD_INTERNAL_IO_REQ_DONE}" and w': "w' = upd_req w r (\<lambda>io. io\<lparr>io_req_status := st\<rparr>)"
      "io_req_status (io_req (wio w) r) = CSD_INTERNAL_IO_REQ_READY"
    using assms(1) by (auto simp: slm_copy_req_def Let_def split: Option.bind_splits if_splits)
  have "inflight (wio w') g = inflight (wio w) g" for g
    unfolding inflight_def by (rule sum.cong) (use st w' in \<open>auto simp: upd_req_def in_use_def\<close>)
  then show ?thesis using assms(2) w' by (simp add: loads_ok_def load_ok_def)
qed (use assms in simp)

lemma slm_work_from_loads: "slm_work_from w cur = Some w' \<Longrightarrow> loads_ok w \<longrightarrow> loads_ok w'"
proof (erule slm_work_from.raw_induct [rotated])
  fix f w cur w'
  assume IH: "\<And>w cur w'. f w cur = Some w' \<Longrightarrow> loads_ok w \<longrightarrow> loads_ok w'"
    and b: "(case cur of None \<Rightarrow> Some w | Some r \<Rightarrow> do { w1 \<leftarrow> slm_copy_req w r; f w1 (r_next (io_req (wio w1) r)) }) = Some w'"
  show "loads_ok w \<longrightarrow> loads_ok w'"
  proof (cases cur)
    case (Some r)
    then obtain w1 where "slm_copy_req w r = Some w1" "f w1 (r_next (io_req (wio w1) r)) = Some w'" using b by (auto split: Option.bind_splits)
    then show ?thesis using slm_copy_req_loads IH by metis
  qed (use b in simp)
qed

lemma slm_work_dev:
  assumes i: "dev_inv w {} L" and r: "slm_work w turn = Some w'"
  shows "dev_inv w' {} L"
proof -
  have s: "io_ok w'" "wtt w' = wtt w" "wslm w' = wslm w" "loads_ok w'"
    using i slm_work_from_ok slm_work_from_loads r by (auto simp: slm_work_def dev_inv_def)
  then have "wtable w' = wtable w" by (simp add: wtable_def)
  then show ?thesis using i s by (simp add: dev_inv_def held_def)
qed

lemma request_io_dev:
  assumes i: "dev_inv w {} L" and r: "request_io prp now w = Some w'"
  shows "dev_inv w' {} L"
proof -
  obtain fs ds cs where l: "tlists (wtable w) fs {} ds cs L" using i by (auto simp: dev_inv_def)
  let ?n = "num_cpu_resources (wtt w)"
  have "list_rep (wtask w) (comp_list (wtt w) ?n) (cs ?n)" using tlists_reps(3) [OF l, of ?n] by (simp add: wtable_def wtask_def [abs_def])
  then have "twalk (wtask w) (copy_list_head w) (cs ?n)" using list_rep_twalk dev_turn [OF i] by (simp add: copy_list_head_def)
  moreover have "set (cs ?n) \<subseteq> {..<MAX_TASK_COUNT}" using tlists_bound(4) [OF l, of ?n] by auto
  ultimately show ?thesis using request_io_ok [OF r] kept_lists [OF i] i by (simp add: dev_inv_def)
qed

lemma csd_step_dev:
  assumes "csd_step prp (w, n) (w', n')" and "dev_inv w {} L" and "card L = n"
  shows "\<exists>L'. dev_inv w' {} L' \<and> card L' = n'"
  using assms(1)
proof (cases rule: csd_step.cases)
  case (command c h proc st send res)
  have "finite L" using assms(2) by (auto simp: dev_inv_def tlists_def intro: finite_subset)
  then have "card (insert k L) = n + 1" if "k \<notin> L" for k using that assms(3) by simp
  then show ?thesis using dispatch_command_dev [OF assms(2) command(2-4)] assms(3) command(1) by (cases "oversized c h") auto
next
  case collect
  then show ?thesis using reclaim_task_dev assms(2,3) by blast
next
  case complete
  then show ?thesis using complete_from_dev assms(2,3) unfolding complete_tasks_def by blast
next
  case deferred
  then show ?thesis using quiet_dev [OF process_deferred_quiet] assms(2,3) unfolding process_deferred_slm_frees_def by blast
next
  case request
  then show ?thesis using request_io_dev assms(2,3) by blast
next
  case (reclaim now)
  have "keeps_ok w w'" "io_ok w" "loads_ok w" using reclaim_io_req_keeps reclaim assms(2) by (auto simp: dev_inv_def)
  then have "dev_inv w' {} L" using kept_lists [OF assms(2)] by (simp add: keeps_ok_def)
  then show ?thesis using assms(3) reclaim by blast
next
  case copy
  then show ?thesis using slm_work_dev assms(2,3) by blast
next
  case compute
  then show ?thesis using quiet_dev [OF compute_visit_quiet] assms(2,3) by blast
next
  case call
  then show ?thesis using quiet_dev [OF settles_quiet [OF run_call_settles]] assms(2,3) by blast
next
  case (host req ret ns)
  have "quiet w (w\<lparr>wns := ns\<rparr>)" by (rule quiet_tasks) (simp_all add: wtask_def)
  then show ?thesis using quiet_dev host assms(2,3) by blast
next
  case consumed
  then show ?thesis using quiet_dev [OF settles_quiet [OF settles_same]] program_calls_tasks(7) assms(2,3) by blast
qed


text \<open>Start-up.\<close>

lemma init_chain: "i \<le> MAX_TASK_COUNT \<Longrightarrow> chain (init_task z) (if i = 0 then None else Some (i - 1)) [i..<MAX_TASK_COUNT] None"
proof (induction "MAX_TASK_COUNT - i" arbitrary: i)
  case (Suc n)
  then have i: "i < MAX_TASK_COUNT" "n = MAX_TASK_COUNT - Suc i" by auto
  have "chain (init_task z) (Some i) [Suc i..<MAX_TASK_COUNT] None" using Suc(1) [of "Suc i"] i by simp
  moreover have "first_of [Suc i..<MAX_TASK_COUNT] None = (if i = MAX_TASK_COUNT - 1 then None else Some (i + 1))"
    using i(1) upt_conv_Cons [of "Suc i" MAX_TASK_COUNT] by (cases "Suc i < MAX_TASK_COUNT") auto
  moreover have "[i..<MAX_TASK_COUNT] = i # [Suc i..<MAX_TASK_COUNT]" using i(1) by (rule upt_conv_Cons)
  ultimately show ?case using i(1) by (simp add: init_task_def)
qed simp

lemma init_linked: "i \<le> MAX_INTERNAL_IO_COUNT \<Longrightarrow> linked (init_io_req z) (if i = MAX_INTERNAL_IO_COUNT then None else Some i) [i..<MAX_INTERNAL_IO_COUNT]"
proof (induction "MAX_INTERNAL_IO_COUNT - i" arbitrary: i)
  case (Suc n)
  then have i: "i < MAX_INTERNAL_IO_COUNT" "n = MAX_INTERNAL_IO_COUNT - Suc i" by auto
  have "linked (init_io_req z) (if Suc i = MAX_INTERNAL_IO_COUNT then None else Some (Suc i)) [Suc i..<MAX_INTERNAL_IO_COUNT]" using Suc(1) [of "Suc i"] i by simp
  moreover have "(i = MAX_INTERNAL_IO_COUNT - 1) = (Suc i = MAX_INTERNAL_IO_COUNT)" using i(1) by auto
  moreover have "[i..<MAX_INTERNAL_IO_COUNT] = i # [Suc i..<MAX_INTERNAL_IO_COUNT]" using i(1) by (rule upt_conv_Cons)
  ultimately show ?case using i(1) by (simp add: init_io_req_def split: if_splits)
qed simp

lemma boot_free_list: "list_rep (init_task z) (free_list (init_task_table z n m)) [0..<MAX_TASK_COUNT]"
proof -
  have "[0..<MAX_TASK_COUNT] = 0 # [Suc 0..<MAX_TASK_COUNT]" "last [0..<MAX_TASK_COUNT] = MAX_TASK_COUNT - 1" using upt_conv_Cons [of 0 MAX_TASK_COUNT] by (simp_all add: MAX_TASK_COUNT_def)
  then have "first_of [0..<MAX_TASK_COUNT] None = Some 0" "last_of [0..<MAX_TASK_COUNT] None = Some (MAX_TASK_COUNT - 1)" by (simp_all add: last_of_def)
  then show ?thesis using init_chain [of 0 z] by (simp add: list_rep_def init_task_table_def)
qed

lemma queued_empty: "queued n (\<lambda>_. []) = []"
  by (simp add: queued_def)

lemma boot_io:
  assumes "0 < n"
  shows "io_inv n (init_io_req_table z) [0..<MAX_INTERNAL_IO_COUNT] [] (\<lambda>_. [])" and "in_use (init_io_req_table z) = {}"
proof -
  have "queue_rep (init_io_req z) \<lparr>lhead = Some 0, ltail = Some (MAX_INTERNAL_IO_COUNT - 1), running = 0\<rparr> [0..<MAX_INTERNAL_IO_COUNT]"
    using init_linked [of 0 z] last_upt [of 0 MAX_INTERNAL_IO_COUNT] by (simp add: queue_rep_def) (simp add: MAX_INTERNAL_IO_COUNT_def)
  then show "io_inv n (init_io_req_table z) [0..<MAX_INTERNAL_IO_COUNT] [] (\<lambda>_. [])"
    using assms by (auto simp: io_inv_def init_io_req_table_def queued_empty queue_rep_def init_io_req_def)
  show "in_use (init_io_req_table z) = {}" by (simp add: in_use_def init_io_req_table_def init_io_req_def)
qed

lemma boot_dev:
  assumes b: "csd_proc_init ncsd nslm addr sz vmalloc_ok kzalloc_ok ns thr = Some w" and n: "0 < ncsd" "0 < nslm"
  shows "tlists (wtable w) [0..<MAX_TASK_COUNT] {} [] (\<lambda>_. []) {} \<and> dev_inv w {} {} \<and> in_use (wio w) = {}"
proof -
  have w: "wtt w = init_task_table idle_task ncsd nslm" "slm_tasks (wslm w) = init_task idle_task" "wio w = init_io_req_table zero_io_req"
    using b by (auto simp: csd_proc_init_def init_slm_memory_def split: if_splits)
  have t: "wtable w = init_task_table idle_task ncsd nslm" using w by (simp add: wtable_def init_task_table_def)
  have e: "list_rep T \<lparr>lhead = None, ltail = None, running = 0\<rparr> []" for T by (simp add: list_rep_def)
  have f: "task_step (init_task idle_task x) = CCSD_TASK_FREE" for x by (simp add: init_task_def)
  have l: "tlists (wtable w) [0..<MAX_TASK_COUNT] {} [] (\<lambda>_. []) {}"
    using boot_free_list [of idle_task ncsd nslm] e f n unfolding t tlists_def by (auto simp: init_task_table_def queued_empty)
  have "io_ok w" using boot_io(1) [OF n(2), of zero_io_req] boot_io(2) [OF n(2), of zero_io_req] w
    by (auto simp: io_ok_def used_bytes_in_use init_task_table_def) (simp add: init_io_req_table_def)
  moreover have "loads_ok w" using w by (simp add: loads_ok_def load_ok_def wtask_def init_task_def idle_task_def)
  ultimately show ?thesis using l w boot_io(2) [OF n(2)] by (auto simp: dev_inv_def held_def)
qed

lemma csd_reachable_dev: "csd_reachable prp (w, n) \<Longrightarrow> \<exists>L. dev_inv w {} L \<and> card L = n"
proof (induction "(w, n)" arbitrary: w n rule: csd_reachable.induct)
  case boot
  then show ?case using boot_dev card.empty by blast
next
  case (step s)
  obtain v m where s: "s = (v, m)" by fastforce
  then obtain L where "dev_inv v {} L" "card L = m" using step(2) by blast
  then show ?case using csd_step_dev step(3) s by blast
qed


section \<open>Properties\<close>

definition oversized_command :: csd_command where
  "oversized_command = \<lparr>c_opcode = nvme_cmd_execute_program, mm_sel = 0, mm_numr = 0, c_cdw12 = 0, c_cdw13 = 0, c_cdw14 = 0, c_pind = 1,
     mc_length = 0, mc_sdaddr = 0, mc_format = 0\<rparr>"

definition oversized_host :: host_data where
  "oversized_host = \<lparr>hd_param = \<lparr>input_slm = 0, output_slm = 0, p_nByte = 0xFFFFFFFF, p_param_size = 0, p_param = (\<lambda>_. 0)\<rparr>,
     hd_sre = (\<lambda>_. \<lparr>sre_nsid = 0, saddr = 0, nByte = 0\<rparr>),
     hd_magic_read = \<lparr>mr_param = [], mr_num_files = 0, mr_sre_count = (\<lambda>_. 0), mr_file_size = (\<lambda>_. 0), mr_sre = (\<lambda>_ _. \<lparr>sre_nsid = 0, saddr = 0, nByte = 0\<rparr>)\<rparr>,
     hd_magic = \<lparr>mc_param = [], mc_sre_count = (\<lambda>_. 0), mc_file_size = (\<lambda>_. 0), mc_sre = (\<lambda>_ _. \<lparr>sre_nsid = 0, saddr = 0, nByte = 0\<rparr>)\<rparr>, hd_junk = 0\<rparr>"

lemma oversized_sample: "oversized oversized_command oversized_host" "sized oversized_command oversized_host"
  by (simp_all add: oversized_def oversized_command_def oversized_host_def sized_def MAX_MAGIC_READ_FILES_def get_u64_def old_word_def list_all_iff)

text \<open>Each oversized command succeeds as long as there is a free task, and takes it away.\<close>

lemma leak_one:
  assumes r: "csd_reachable prp (w, n)" and f: "free_inv (wtable w) (x # xs)" and io: "in_use (wio w) = {}"
  shows "\<exists>w'. csd_reachable prp (w', n + 1) \<and> free_inv (wtable w') xs \<and> in_use (wio w') = {}"
proof -
  have x: "list_rep (task (wtable w)) (free_list (wtable w)) (x # xs)" "x < MAX_TASK_COUNT" "task_step (task (wtable w) x) = CCSD_TASK_FREE"
    using f by (auto simp: free_inv_def)
  obtain t g where a: "allocate_new_task (wtable w) = Some (t, g)" "g \<noteq> TASK_ID_NONE" "list_rep (task t) (free_list t) xs"
    and u: "\<And>y. unlinked (task t y) = unlinked (if y = x then (task (wtable w) y)\<lparr>generation_id := g\<rparr> else task (wtable w) y)"
    using allocate_effect [OF x] by blast
  have "task_step (task t y) = task_step (task (wtable w) y)" for y using unlinked_fields [OF u [of y]] by (simp split: if_splits)
  then have f': "free_inv t xs" using a(3) f by (simp add: free_inv_def)
  have "\<exists>st send res. dispatch_command w oversized_command 0 oversized_host = Some (put_table w t, st, send, res)"
    using a(1,2) by (simp add: dispatch_command_def do_perform_dispatch_def alloc_task_def dispatch_execute_def oversized_command_def oversized_host_def Let_def
        nvme_cmd_execute_program_def nvme_admin_load_program_def nvme_cmd_memory_management_def nvme_cmd_magic_compaction_def nvme_cmd_magic_read_def)
  then obtain st send res where d: "dispatch_command w oversized_command 0 oversized_host = Some (put_table w t, st, send, res)" by blast
  have "fresh_ids w 10" using io by (simp add: fresh_ids_def)
  from csd_step.command [OF this oversized_sample(2) d, of prp n] have "csd_step prp (w, n) (put_table w t, n + 1)" using oversized_sample(1) by simp
  then have "csd_reachable prp (put_table w t, n + 1)" using r csd_reachable.step by blast
  then show ?thesis using f' io by (intro exI [of _ "put_table w t"]) simp
qed

lemma leak_many:
  "csd_reachable prp (w, n) \<Longrightarrow> free_inv (wtable w) (xs @ ys) \<Longrightarrow> in_use (wio w) = {} \<Longrightarrow> \<exists>w'. csd_reachable prp (w', n + length xs) \<and> free_inv (wtable w') ys"
proof (induction xs arbitrary: w n)
  case (Cons x xs)
  then obtain w1 where "csd_reachable prp (w1, n + 1)" "free_inv (wtable w1) (xs @ ys)" "in_use (wio w1) = {}" using leak_one [of prp w n x "xs @ ys"] by auto
  then show ?case using Cons.IH [of w1 "n + 1"] by auto
qed auto

lemma leak_from_boot:
  assumes "n \<le> MAX_TASK_COUNT"
  shows "\<exists>w. csd_reachable prp (w, n)"
proof -
  have "\<exists>w. csd_proc_init 2 1 0 0 True True ns thr = Some w" for ns thr by (simp add: csd_proc_init_def init_slm_memory_def)
  then obtain w where w: "csd_proc_init 2 1 0 0 True True undefined undefined = Some w" by blast
  have b: "tlists (wtable w) [0..<MAX_TASK_COUNT] {} [] (\<lambda>_. []) {}" "in_use (wio w) = {}" using boot_dev [OF w] by simp_all
  have "task_step (wtask w x) = CCSD_TASK_FREE" for x using w by (auto simp: csd_proc_init_def init_slm_memory_def wtask_def init_task_def split: if_splits)
  then have "free_inv (wtable w) ([0..<n] @ [n..<MAX_TASK_COUNT])"
    using tlists_reps(1) [OF b(1)] assms upt_add_eq_append [of 0 n "MAX_TASK_COUNT - n"] by (auto simp: free_inv_def)
  moreover have "csd_reachable prp (w, 0)" using csd_reachable.boot [OF w] by simp
  ultimately show ?thesis using leak_many [of prp w 0 "[0..<n]"] b(2) by auto
qed

lemma pool_index_bound: "TASK_POOL_INDEX g < MAX_TASK_COUNT"
  by (simp add: task_pool_index_mod MAX_TASK_COUNT_def)

lemma inflight_member:
  assumes "x \<in> in_use t" "\<not> demand_read (io_req t x)"
  shows "unat (r_length (io_req t x)) \<le> inflight t (r_task_id (io_req t x))"
  unfolding inflight_def by (rule member_le_sum) (use assms in auto)

lemma load_room:
  assumes l: "loads_ok w" and x: "x \<in> in_use (wio w)" "\<not> demand_read (io_req (wio w) x)"
    and v: "TASK_GEN_VALID (r_task_id (io_req (wio w) x)) (wtask w (TASK_POOL_INDEX (r_task_id (io_req (wio w) x))))"
  shows "done_io_offset (wtask w (TASK_POOL_INDEX (r_task_id (io_req (wio w) x)))) + r_length (io_req (wio w) x)
    \<le> requested_io_offset (wtask w (TASK_POOL_INDEX (r_task_id (io_req (wio w) x))))"
proof -
  define io where "io = io_req (wio w) x"
  define t where "t = wtask w (TASK_POOL_INDEX (r_task_id io))"
  have "generation_id t = r_task_id io" "r_task_id io \<noteq> TASK_ID_NONE" using v by (simp_all add: TASK_GEN_VALID_def t_def io_def)
  then have "unat (done_io_offset t) + inflight (wio w) (r_task_id io) \<le> unat (requested_io_offset t)"
    using l pool_index_bound [of "r_task_id io"] by (auto simp: loads_ok_def load_ok_def t_def)
  moreover have "unat (r_length io) \<le> inflight (wio w) (r_task_id io)" using inflight_member [OF x] by (simp add: io_def)
  ultimately have "unat (done_io_offset t) + unat (r_length io) \<le> unat (requested_io_offset t)" by linarith
  moreover have "unat (done_io_offset t + r_length io) \<le> unat (done_io_offset t) + unat (r_length io)" by (rule unat_add_le)
  ultimately show ?thesis by (simp add: word_le_nat_alt io_def t_def)
qed

text \<open>
  C2. In every state the device can reach, whatever the order of commands, passes of the helper, copy and compute
  threads, calls of the programs to the shared memory (which may wake a load that has been freed), host I/O,
  completions and postponed frees: each of the 128 task slots is in exactly one of the free list, the done list and
  the lists of the cores, except for as many slots as there were execute commands with an oversized input; a task
  that is marked free is in the free list; each of the 256 I/O requests is in exactly one queue, its status fits, and
  \<open>enqueuing_io_size\<close> is the sum of the lengths in use; and what each load has received plus what it has in flight
  never exceeds what it has requested, which is at most one request beyond its size, so that
  completing any sequential request whose task is still its own keeps \<open>done_io_offset\<close> within
  \<open>requested_io_offset\<close> without wrapping around: the \<open>BUG()\<close> of \<open>__reclaim_io_req\<close> for an overrun is not reached. The
  commands have sizes of at most 512 PiB, and none is dispatched while a request in flight carries one of the
  identifiers it would give out (\<open>sized\<close> and \<open>fresh_ids\<close> of the step relation).
\<close>

theorem csd_reachable_inv:
  assumes "csd_reachable prp (w, n)"
  shows "(\<exists>fs ds cs L. tlists (wtable w) fs {} ds cs L \<and> card L = n) \<and> io_ok w \<and> loads_ok w
    \<and> (\<forall>x\<in>in_use (wio w). let io = io_req (wio w) x; t = wtask w (TASK_POOL_INDEX (r_task_id io))
         in demand_read io \<or> \<not> TASK_GEN_VALID (r_task_id io) t \<or> done_io_offset t + r_length io \<le> requested_io_offset t)"
  using csd_reachable_dev [OF assms] load_room by (auto simp: dev_inv_def Let_def)

theorem csd_reachable_inv_witness:
  "\<exists>w fs ds cs L. csd_reachable (\<lambda>_. (0, 0)) (w, 5) \<and> tlists (wtable w) fs {} ds cs L \<and> card L = 5 \<and> io_ok w \<and> loads_ok w"
proof -
  obtain w where w: "csd_reachable (\<lambda>_. (0, 0)) (w, 5)" using leak_from_boot [of 5] by (auto simp: MAX_TASK_COUNT_def)
  show ?thesis using csd_reachable_inv [OF w] w by blast
qed

text \<open>
  C14. An execute command with an input of \<open>0xFFFFFFFF\<close> bytes or more is reported as successful while the task
  it was given stays in no list. After 128 of them no task is left, whatever else the device has done, and the next
  execute or copy command runs into the \<open>BUG()\<close> of the dispatcher.
\<close>

theorem dispatch_exhausted:
  assumes "csd_reachable prp (w, MAX_TASK_COUNT)"
  shows "do_perform_dispatch w c proc h = None"
proof -
  obtain L where L: "dev_inv w {} L" "card L = MAX_TASK_COUNT" using csd_reachable_dev [OF assms] by blast
  obtain fs ds cs where l: "tlists (wtable w) fs {} ds cs L" using L(1) by (auto simp: dev_inv_def)
  have "L \<subseteq> {..<MAX_TASK_COUNT}" using l by (simp add: tlists_def)
  then have "L = {..<MAX_TASK_COUNT}" using L(2) by (intro card_subset_eq) auto
  then have "fs = []" using tlists_bound(1) [OF l] by simp
  then have "lhead (free_list (wtable w)) = None" using tlists_reps(1) [OF l] by (simp add: list_rep_def)
  then show ?thesis by (simp add: do_perform_dispatch_def alloc_task_def allocate_new_task_def)
qed

theorem dispatch_exhausted_witness:
  "\<exists>w. csd_reachable (\<lambda>_. (0, 0)) (w, MAX_TASK_COUNT) \<and> do_perform_dispatch w oversized_command 0 oversized_host = None"
proof -
  obtain w where w: "csd_reachable (\<lambda>_. (0, 0)) (w, MAX_TASK_COUNT)" using leak_from_boot [of MAX_TASK_COUNT] by auto
  show ?thesis using dispatch_exhausted [OF w] w by blast
qed

section \<open>The completion queue\<close>

type_synonym cq_post = "u16 \<times> u16 \<times> u16 \<times> u32 \<times> u64"

definition post_all :: "completion_queue \<Rightarrow> cq_post list \<Rightarrow> completion_queue" where
  "post_all cq ps = fold (\<lambda>(sqid, sq_entry, cid, st, res) cq. fill_cq_result cq sqid sq_entry cid st res) ps cq"

text \<open>The entry of a completion, with the phase it is written in.\<close>

definition posted :: "bool \<Rightarrow> cq_post \<Rightarrow> completion" where
  "posted ph p = (case p of (sqid, sq_entry, cid, st, res) \<Rightarrow>
     \<lparr>cq_result0 = ucast (res AND 0xFFFFFFFF), cq_result1 = ucast (drop_bit 32 res), cq_sq_head = sq_entry, cq_sq_id = sqid,
      cq_command_id = cid, cq_status = ucast ((if ph then 1 else 0) OR push_bit 1 st)\<rparr>)"

lemma post_one:
  assumes "cq_head cq < cq_queue_size cq"
  shows "cq_head (post_all cq [p]) = Suc (cq_head cq) mod cq_queue_size cq" "cq_phase (post_all cq [p]) = (cq_phase cq \<noteq> (Suc (cq_head cq) = cq_queue_size cq))"
    "cq_queue_size (post_all cq [p]) = cq_queue_size cq" "cq_entries (post_all cq [p]) = (cq_entries cq)(cq_head cq := posted (cq_phase cq) p)"
  using assms by (auto simp: post_all_def fill_cq_result_def Let_def posted_def split: prod.splits)

lemma phase_step: "((ph \<noteq> odd x) \<noteq> z) = (ph \<noteq> odd (if z then Suc x else x :: nat))"
  by (cases z; cases ph) simp_all

text \<open>
  C15. Completions written one after the other: the head moves on by their number modulo the size of the queue, the
  phase bit is inverted each time the head wraps around, and as long as there are no more of them than the queue has
  entries, each is found in its place with the phase of its round, so that a host that polls for the phase sees them all.
\<close>

theorem fill_cq_results:
  assumes "cq_head cq < cq_queue_size cq" and "length ps \<le> cq_queue_size cq"
  shows "cq_head (post_all cq ps) = (cq_head cq + length ps) mod cq_queue_size cq
    \<and> cq_phase (post_all cq ps) = (cq_phase cq \<noteq> odd ((cq_head cq + length ps) div cq_queue_size cq))
    \<and> (\<forall>i<length ps. cq_entries (post_all cq ps) ((cq_head cq + i) mod cq_queue_size cq)
         = posted (cq_phase cq \<noteq> odd ((cq_head cq + i) div cq_queue_size cq)) (ps ! i))"
proof -
  let ?h = "cq_head cq" and ?n = "cq_queue_size cq"
  have "cq_head (post_all cq ps) = (?h + length ps) mod ?n \<and> cq_phase (post_all cq ps) = (cq_phase cq \<noteq> odd ((?h + length ps) div ?n)) \<and> cq_queue_size (post_all cq ps) = ?n
    \<and> (\<forall>i<length ps. cq_entries (post_all cq ps) ((?h + i) mod ?n) = posted (cq_phase cq \<noteq> odd ((?h + i) div ?n)) (ps ! i))"
    using assms(2)
  proof (induction ps rule: rev_induct)
    case Nil
    then show ?case using assms(1) by (simp add: post_all_def)
  next
    case (snoc p ps)
    define a where "a = post_all cq ps"
    have a: "cq_head a = (?h + length ps) mod ?n" "cq_phase a = (cq_phase cq \<noteq> odd ((?h + length ps) div ?n))" "cq_queue_size a = ?n"
      and e: "\<And>i. i < length ps \<Longrightarrow> cq_entries a ((?h + i) mod ?n) = posted (cq_phase cq \<noteq> odd ((?h + i) div ?n)) (ps ! i)"
      using snoc unfolding a_def by auto
    have p: "post_all cq (ps @ [p]) = post_all a [p]" by (simp add: post_all_def a_def)
    have lt: "cq_head a < cq_queue_size a" using a assms(1) by simp
    have wrap: "(Suc (cq_head a) = ?n) = (Suc (?h + length ps) mod ?n = 0)" using a(1) assms(1) mod_Suc [of "?h + length ps" ?n] by auto
    have ne: "(?h + i) mod ?n \<noteq> (?h + length ps) mod ?n" if "i < length ps" for i
    proof
      assume "(?h + i) mod ?n = (?h + length ps) mod ?n"
      then have "(?h + length ps) mod ?n = (?h + i) mod ?n" "?h + i \<le> ?h + length ps" using that by simp_all
      then have "?n dvd length ps - i" using mod_eq_dvd_iff_nat [of "?h + i" "?h + length ps" ?n] by simp
      then show False using that snoc.prems by (auto dest!: dvd_imp_le)
    qed
    have "cq_entries (post_all a [p]) ((?h + i) mod ?n) = posted (cq_phase cq \<noteq> odd ((?h + i) div ?n)) ((ps @ [p]) ! i)" if "i < length (ps @ [p])" for i
      using that e ne a post_one(4) [OF lt, of p] by (cases "i = length ps") (auto simp: nth_append)
    moreover have "cq_phase (post_all a [p]) = (cq_phase cq \<noteq> odd (Suc (?h + length ps) div ?n))"
      by (simp only: post_one(2) [OF lt] a(2,3) wrap div_Suc [of "?h + length ps"] phase_step)
    moreover have "cq_head (post_all a [p]) = Suc (?h + length ps) mod ?n" using post_one(1) [OF lt, of p] a(1,3) by (simp add: mod_Suc_eq)
    ultimately show ?case using p post_one(3) [OF lt, of p] a(3) by simp
  qed
  then show ?thesis by blast
qed

theorem fill_cq_results_witness:
  "\<forall>en. let cq = \<lparr>cq_entries = en, cq_head = 2, cq_queue_size = 3, cq_phase = True, interrupt_ready = False\<rparr>; cq' = post_all cq [(1, 7, 9, 0, 5), (1, 8, 10, 0x191, -1)]
    in cq_head cq' = 1 \<and> \<not> cq_phase cq' \<and> cq_entries cq' 2 = posted True (1, 7, 9, 0, 5) \<and> cq_entries cq' 0 = posted False (1, 8, 10, 0x191, -1)"
proof
  fix en
  let ?cq = "\<lparr>cq_entries = en, cq_head = 2, cq_queue_size = 3, cq_phase = True, interrupt_ready = False\<rparr>" and ?ps = "[(1, 7, 9, 0, 5), (1, 8, 10, 0x191, -1)] :: cq_post list"
  have r: "cq_head (post_all ?cq ?ps) = 4 mod 3 \<and> cq_phase (post_all ?cq ?ps) = (True \<noteq> odd (4 div 3 :: nat))
     \<and> (\<forall>i<2. cq_entries (post_all ?cq ?ps) ((2 + i) mod 3) = posted (True \<noteq> odd ((2 + i) div 3)) (?ps ! i))"
    using fill_cq_results [of ?cq ?ps] by simp
  from r have e: "cq_entries (post_all ?cq ?ps) ((2 + i) mod 3) = posted (True \<noteq> odd ((2 + i) div 3)) (?ps ! i)" if "i < 2" for i using that by blast
  have "cq_entries (post_all ?cq ?ps) ((2 + 0) mod 3) = posted (True \<noteq> odd ((2 + 0) div 3 :: nat)) (?ps ! 0)"
    "cq_entries (post_all ?cq ?ps) ((2 + 1) mod 3) = posted (True \<noteq> odd ((2 + 1) div 3 :: nat)) (?ps ! 1)" by (rule e, simp)+
  then show "let cq = ?cq; cq' = post_all cq ?ps
    in cq_head cq' = 1 \<and> \<not> cq_phase cq' \<and> cq_entries cq' 2 = posted True (1, 7, 9, 0, 5) \<and> cq_entries cq' 0 = posted False (1, 8, 10, 0x191, -1)"
    using r by (simp add: Let_def)
qed

section \<open>When loads complete\<close>

text \<open>
  C8. A pass over one queue releases exactly its longest prefix of requests whose data has been there long enough: each
  of them either was given up by its copy thread or has waited until its NAND completion time, the first one left has
  not, the released ones are at the end of the free list in their order, and every other queue is as before.
\<close>

theorem reclaim_list_ripe:
  assumes "io_inv n (wio w) F [] S" and "turn < n" and "reclaim_list now w turn = Some w'"
  shows "\<exists>P Q. S turn = P @ Q \<and> (\<forall>x\<in>set P. ripe now (wio w) x) \<and> (Q \<noteq> [] \<longrightarrow> \<not> ripe now (wio w) (hd Q))
    \<and> io_inv n (wio w') (F @ P) [] (S(turn := Q))"
  using reclaim_list_effect [OF assms] by blast

text \<open>A table in which request 0 waits for time 100 in the only queue.\<close>

definition waiting_table :: csd_io_req_table where
  "waiting_table =
     \<lparr>io_free_list = \<lparr>lhead = Some 1, ltail = Some (MAX_INTERNAL_IO_COUNT - 1), running = 0\<rparr>,
      slm_list = (\<lambda>_. \<lparr>lhead = Some 0, ltail = Some 0, running = 1\<rparr>), slm_turn = 0,
      io_req = (init_io_req zero_io_req)(0 := zero_io_req\<lparr>io_req_status := CSD_INTERNAL_IO_REQ_WAITING_TIME, r_nsecs_target := 100, r_length := 4096\<rparr>),
      enqueuing_io_size = 4096\<rparr>"

lemma waiting_table_inv: "io_inv 1 waiting_table [1..<MAX_INTERNAL_IO_COUNT] [] (\<lambda>_. [0])"
proof -
  have "linked (init_io_req zero_io_req) (Some 1) [1..<MAX_INTERNAL_IO_COUNT]" "last [1..<MAX_INTERNAL_IO_COUNT] = MAX_INTERNAL_IO_COUNT - 1"
    using init_linked [of 1 zero_io_req] last_upt [of 1 MAX_INTERNAL_IO_COUNT] by (simp_all add: MAX_INTERNAL_IO_COUNT_def)
  moreover have "linked (io_req waiting_table) (Some 1) [1..<MAX_INTERNAL_IO_COUNT] = linked (init_io_req zero_io_req) (Some 1) [1..<MAX_INTERNAL_IO_COUNT]"
    by (rule linked_cong) (simp add: waiting_table_def)
  ultimately have "queue_rep (io_req waiting_table) (io_free_list waiting_table) [1..<MAX_INTERNAL_IO_COUNT]" by (simp add: queue_rep_def) (simp add: waiting_table_def)
  moreover have "queued 1 (\<lambda>_. [0 :: nat]) = [0]" by (simp add: queued_def)
  moreover have "queue_rep (io_req waiting_table) (slm_list waiting_table q) [0]" for q by (simp add: queue_rep_def waiting_table_def zero_io_req_def)
  moreover have "set ([1..<MAX_INTERNAL_IO_COUNT] @ [0]) = {..<MAX_INTERNAL_IO_COUNT}" by (auto simp: MAX_INTERNAL_IO_COUNT_def)
  moreover have "slm_turn waiting_table = 0" "\<And>q. running (slm_list waiting_table q) = 1" by (simp_all add: waiting_table_def)
  moreover have "io_req_status (io_req waiting_table x) = (if x = 0 then CSD_INTERNAL_IO_REQ_WAITING_TIME else CSD_INTERNAL_IO_REQ_FREE)" for x
    by (simp add: waiting_table_def init_io_req_def)
  ultimately show ?thesis unfolding io_inv_def by simp
qed

lemma waiting_reclaim:
  assumes "wio w = waiting_table" and "page_count (wslm w) = 1" "slm_start_addr (wslm w) = 0" "page_info (wslm w) = (\<lambda>_. None)"
  shows "\<exists>w'. reclaim_list 100 w 0 = Some w'"
proof -
  have h: "lhead (slm_list (wio w) 0) = Some 0" "r_next (io_req (wio w) 0) = None" "ripe 100 (wio w) 0" "buf_addr (io_req (wio w) 0) = 0"
    by (simp_all add: assms(1) waiting_table_def zero_io_req_def ripe_def)
  let ?v = "expire_req 100 w 0"
  have d: "io_req_status (io_req (wio ?v) 0) = CSD_INTERNAL_IO_REQ_DONE" using expire_ripe h(3) by simp
  have v: "buf_addr (io_req (wio ?v) 0) = 0" "page_count (wslm ?v) = 1" "slm_start_addr (wslm ?v) = 0" "page_info (wslm ?v) = (\<lambda>_. None)"
    using h(4) assms by (auto simp: expire_req_def Let_def upd_req_def upd_task_def)
  then have c: "complete_io ?v 0 = Some ?v" by (simp add: complete_io_def Let_def page_under_def page_of_def get_slm_offset_def is_orphan_io_def)
  have "r_next (io_req (wio ?v) 0) = None" using expire_next h(2) by simp
  then have "reclaim_from 100 0 w (Some 0) None = reclaim_from 100 0 (release_req ?v 0 0) None (Some 0)"
    unfolding reclaim_from.simps [of 100 0 w "Some 0" None] Let_def option.case d c by simp
  also have "\<dots> = Some (release_req ?v 0 0, Some 0)" unfolding reclaim_from.simps [of 100 0 "release_req ?v 0 0" None "Some 0"] by simp
  finally have "\<exists>w1 le. reclaim_from 100 0 w (Some 0) None = Some (w1, le)" by blast
  then obtain w1 le where f: "reclaim_from 100 0 w (lhead (slm_list (wio w) 0)) None = Some (w1, le)" using h(1) by auto
  have i: "io_inv 1 (wio w) [1..<MAX_INTERNAL_IO_COUNT] [] (\<lambda>_. [0])" using waiting_table_inv assms(1) by simp
  have "linked (io_req (wio w)) (lhead (slm_list (wio w) 0)) [0]" using h by simp
  from reclaim_from_effect [OF f this] obtain P Q where P: "[0] = P @ Q" "le = (if P = [] then None else Some (last P))" "wio w1 = released 0 P (wio w)" "Q \<noteq> [] \<longrightarrow> \<not> ripe 100 (wio w) (hd Q)"
    by auto
  then have PQ: "P = [0]" using h(3) by (cases P) auto
  obtain t' where "cut_list (released 0 P (wio w)) 0 (hd P) (last P) = Some t'" using cut_list_inv [OF i zero_less_one P(1)] PQ by blast
  then show "\<exists>w'. reclaim_list 100 w 0 = Some w'" using f h(1) P(2,3) PQ by (simp add: reclaim_list_def)
qed

theorem reclaim_list_ripe_witness:
  "\<forall>ns thr. \<exists>w0 w' P Q. csd_proc_init 1 1 0 4096 True True ns thr = Some w0 \<and> reclaim_list 100 (w0\<lparr>wio := waiting_table\<rparr>) 0 = Some w'
     \<and> [0] = P @ Q \<and> (Q = [] \<or> ripe 100 waiting_table (hd Q) = False) \<and> io_inv 1 (wio w') ([1..<MAX_INTERNAL_IO_COUNT] @ P) [] ((\<lambda>_. [0])(0 := Q))"
proof (intro allI)
  fix ns thr
  have "\<exists>w. csd_proc_init 1 1 0 4096 True True ns thr = Some w" by (simp add: csd_proc_init_def init_slm_memory_def)
  then obtain w0 where w0: "csd_proc_init 1 1 0 4096 True True ns thr = Some w0" by blast
  let ?w = "w0\<lparr>wio := waiting_table\<rparr>"
  have "page_count (wslm w0) = 1" "slm_start_addr (wslm w0) = 0" "page_info (wslm w0) = (\<lambda>_. None)"
    using w0 by (auto simp: csd_proc_init_def init_slm_memory_def page_size_def SLM_PAGE_SIZE_def)
  then obtain w' where w': "reclaim_list 100 ?w 0 = Some w'" using waiting_reclaim [of ?w] by auto
  have "io_inv 1 (wio ?w) [1..<MAX_INTERNAL_IO_COUNT] [] (\<lambda>_. [0])" using waiting_table_inv by simp
  from reclaim_list_ripe [OF this _ w'] show "\<exists>w0 w' P Q. csd_proc_init 1 1 0 4096 True True ns thr = Some w0 \<and> reclaim_list 100 (w0\<lparr>wio := waiting_table\<rparr>) 0 = Some w'
     \<and> [0] = P @ Q \<and> (Q = [] \<or> ripe 100 waiting_table (hd Q) = False) \<and> io_inv 1 (wio w') ([1..<MAX_INTERNAL_IO_COUNT] @ P) [] ((\<lambda>_. [0])(0 := Q))"
    using w0 w' by (intro exI [of _ w0] exI [of _ w']) auto
qed

end
