(* ===== verification/Zns.thy ===== *)
theory Zns
  imports Nvme
begin

text \<open>
  The zoned namespace: zone descriptors and resources (\<open>zns_ftl.h\<close>, \<open>zns_ftl.c\<close>, \<open>nvme_zns.h\<close>), zone
  management (\<open>zns_mgmt_send.c\<close>, \<open>zns_mgmt_recv.c\<close>) and reads and writes (\<open>zns_read_write.c\<close>). The
  \<open>ASSERT\<close> of these files is the empty macro of \<open>nvmev.h\<close>, so a resource counter that is released at 0
  wraps. A zone number outside the descriptor array and a division by zero are \<open>None\<close>.
\<close>

section \<open>Data\<close>

datatype zone_state = ZONE_STATE_EMPTY | ZONE_STATE_OPENED_IMPL | ZONE_STATE_OPENED_EXPL | ZONE_STATE_CLOSED
  | ZONE_STATE_READ_ONLY | ZONE_STATE_FULL | ZONE_STATE_OFFLINE

datatype zone_resource_type = ACTIVE_ZONE | OPEN_ZONE | ZRWA_ZONE

record zone_descriptor =
  state :: zone_state
  zrwav :: bool
  zone_capacity :: u64
  zslba :: u64
  zwp :: u64

record znsparams =
  nr_zones :: nat
  nr_active_zones :: nat
  nr_open_zones :: nat
  dies_per_zone :: nat
  zone_size :: u32
  nr_zrwa_zones :: nat
  zrwafg_size :: u32
  zrwa_size :: u32
  zrwa_buffer_size :: u32
  lbas_per_zrwafg :: u32
  lbas_per_zrwa :: u32

record zone_resource_info =
  acquired_cnt :: u32
  total_cnt :: u32

record zns_ftl =
  zssd :: ssd
  zp :: znsparams
  res_infos :: "zone_resource_type \<Rightarrow> zone_resource_info"
  zone_descs :: "nat \<Rightarrow> zone_descriptor"
  report_buffer :: "nat \<times> zone_descriptor list"
  zwra_buffer :: "nat \<Rightarrow> buffer"
  storage :: "nat \<Rightarrow> u8"

text \<open>The command specific status codes count up from \<open>(1 << 8) | 0xB6\<close>.\<close>

definition NVME_SC_ZNS_INVALID_ZONE_OPERATION :: u32 where "NVME_SC_ZNS_INVALID_ZONE_OPERATION = 0x1B6"
definition NVME_SC_ZNS_ZRWA_RSRC_UNAVAIL :: u32 where "NVME_SC_ZNS_ZRWA_RSRC_UNAVAIL = 0x1B7"
definition NVME_SC_ZNS_ERR_BOUNDARY :: u32 where "NVME_SC_ZNS_ERR_BOUNDARY = 0x1B8"
definition NVME_SC_ZNS_ERR_FULL :: u32 where "NVME_SC_ZNS_ERR_FULL = 0x1B9"
definition NVME_SC_ZNS_ERR_READ_ONLY :: u32 where "NVME_SC_ZNS_ERR_READ_ONLY = 0x1BA"
definition NVME_SC_ZNS_ERR_OFFLINE :: u32 where "NVME_SC_ZNS_ERR_OFFLINE = 0x1BB"
definition NVME_SC_ZNS_INVALID_WRITE :: u32 where "NVME_SC_ZNS_INVALID_WRITE = 0x1BC"
definition NVME_SC_ZNS_NO_ACTIVE_ZONE :: u32 where "NVME_SC_ZNS_NO_ACTIVE_ZONE = 0x1BD"
definition NVME_SC_ZNS_NO_OPEN_ZONE :: u32 where "NVME_SC_ZNS_NO_OPEN_ZONE = 0x1BE"
definition NVME_SC_ZNS_INVALID_TRANSITION :: u32 where "NVME_SC_ZNS_INVALID_TRANSITION = 0x1BF"

lemmas zns_status_defs = NVME_SC_ZNS_INVALID_ZONE_OPERATION_def NVME_SC_ZNS_ZRWA_RSRC_UNAVAIL_def NVME_SC_ZNS_ERR_BOUNDARY_def
  NVME_SC_ZNS_ERR_FULL_def NVME_SC_ZNS_ERR_READ_ONLY_def NVME_SC_ZNS_ERR_OFFLINE_def NVME_SC_ZNS_INVALID_WRITE_def
  NVME_SC_ZNS_NO_ACTIVE_ZONE_def NVME_SC_ZNS_NO_OPEN_ZONE_def NVME_SC_ZNS_INVALID_TRANSITION_def NVME_SC_SUCCESS_def NVME_SC_INVALID_FIELD_def

section \<open>Resources and addresses\<close>

definition is_zone_resource_avail :: "zns_ftl \<Rightarrow> zone_resource_type \<Rightarrow> bool" where
  "is_zone_resource_avail z t \<longleftrightarrow> acquired_cnt (res_infos z t) < total_cnt (res_infos z t)"

definition is_zone_resource_full :: "zns_ftl \<Rightarrow> zone_resource_type \<Rightarrow> bool" where
  "is_zone_resource_full z t \<longleftrightarrow> acquired_cnt (res_infos z t) = total_cnt (res_infos z t)"

definition acquire_zone_resource :: "zns_ftl \<Rightarrow> zone_resource_type \<Rightarrow> zns_ftl \<times> bool" where
  "acquire_zone_resource z t =
     (if is_zone_resource_avail z t
      then (z\<lparr>res_infos := (res_infos z)(t := (res_infos z t)\<lparr>acquired_cnt := acquired_cnt (res_infos z t) + 1\<rparr>)\<rparr>, True)
      else (z, False))"

definition release_zone_resource :: "zns_ftl \<Rightarrow> zone_resource_type \<Rightarrow> zns_ftl" where
  "release_zone_resource z t =
     z\<lparr>res_infos := (res_infos z)(t := (res_infos z t)\<lparr>acquired_cnt := acquired_cnt (res_infos z t) - 1\<rparr>)\<rparr>"

definition upd_zone :: "zns_ftl \<Rightarrow> nat \<Rightarrow> (zone_descriptor \<Rightarrow> zone_descriptor) \<Rightarrow> zns_ftl" where
  "upd_zone z zid f = z\<lparr>zone_descs := (zone_descs z)(zid := f (zone_descs z zid))\<rparr>"

definition change_zone_state :: "zns_ftl \<Rightarrow> nat \<Rightarrow> zone_state \<Rightarrow> zns_ftl" where
  "change_zone_state z zid s = upd_zone z zid (state_update (\<lambda>_. s))"

text \<open>\<open>BYTE_TO_LBA\<close> of a 32-bit size is a 32-bit value, and so is its product with a zone number.\<close>

definition zone_lbas :: "zns_ftl \<Rightarrow> u32" where
  "zone_lbas z = drop_bit 9 (zone_size (zp z))"

definition lba_to_zone :: "zns_ftl \<Rightarrow> u64 \<Rightarrow> nat" where
  "lba_to_zone z lba = unat (ucast (lba div ucast (zone_lbas z)) :: u32)"

definition zone_to_slba :: "zns_ftl \<Rightarrow> nat \<Rightarrow> u64" where
  "zone_to_slba z zid = ucast (of_nat zid * zone_lbas z)"

definition zone_to_elba :: "zns_ftl \<Rightarrow> nat \<Rightarrow> u64" where
  "zone_to_elba z zid = zone_to_slba z (zid + 1) - 1"

definition lpns_per_zone :: "zns_ftl \<Rightarrow> nat" where
  "lpns_per_zone z = unat (zone_size (zp z)) div pgsz (sp (zssd z))"

definition lpn_to_zone :: "zns_ftl \<Rightarrow> nat \<Rightarrow> nat" where
  "lpn_to_zone z lpn = lpn div lpns_per_zone z mod 2 ^ 32"

definition zone_to_slpn :: "zns_ftl \<Rightarrow> nat \<Rightarrow> nat" where
  "zone_to_slpn z zid = zid * lpns_per_zone z mod 2 ^ 32"

definition die_to_channel :: "zns_ftl \<Rightarrow> nat \<Rightarrow> nat" where
  "die_to_channel z die = die mod nchs (sp (zssd z))"

definition die_to_lun :: "zns_ftl \<Rightarrow> nat \<Rightarrow> nat" where
  "die_to_lun z die = die div nchs (sp (zssd z))"

definition lba_to_lpn :: "zns_ftl \<Rightarrow> u64 \<Rightarrow> nat" where
  "lba_to_lpn z lba = unat lba div secs_per_pg (sp (zssd z))"

section \<open>Initialisation\<close>

definition ZONE_SIZE :: u32 where "ZONE_SIZE = 32 * 1024 * 1024"
definition DIES_PER_ZONE :: nat where "DIES_PER_ZONE = 1"
definition MAX_ZRWA_ZONES :: nat where "MAX_ZRWA_ZONES = 0"
definition ZRWAFG_SIZE :: u32 where "ZRWAFG_SIZE = 0"
definition ZRWA_SIZE :: u32 where "ZRWA_SIZE = 0"
definition ZRWA_BUFFER_SIZE :: u32 where "ZRWA_BUFFER_SIZE = 0"

definition zns_init_params :: "ssdparams \<Rightarrow> u64 \<Rightarrow> znsparams option" where
  "zns_init_params spp capacity =
     (let zones = unat (ucast (capacity div ucast ZONE_SIZE) :: u32)
      in do {
           NVMEV_ASSERT (capacity mod ucast ZONE_SIZE = 0);
           NVMEV_ASSERT (unat ZONE_SIZE mod pgsz spp = 0);
           Some \<lparr>nr_zones = zones, nr_active_zones = zones, nr_open_zones = zones, dies_per_zone = DIES_PER_ZONE, zone_size = ZONE_SIZE,
                 nr_zrwa_zones = MAX_ZRWA_ZONES, zrwafg_size = ZRWAFG_SIZE, zrwa_size = ZRWA_SIZE, zrwa_buffer_size = ZRWA_BUFFER_SIZE,
                 lbas_per_zrwafg = ZRWAFG_SIZE div of_nat (secsz spp), lbas_per_zrwa = ZRWA_SIZE div of_nat (secsz spp)\<rparr>
         })"

definition init_descriptor :: "zns_ftl \<Rightarrow> zns_ftl" where
  "init_descriptor z =
     z\<lparr>zone_descs := (\<lambda>i. if i < nr_zones (zp z)
          then \<lparr>state = ZONE_STATE_EMPTY, zrwav = False, zone_capacity = ucast (zone_lbas z),
                zslba = of_nat i * ucast (zone_lbas z), zwp = of_nat i * ucast (zone_lbas z)\<rparr>
          else zone_descs z i),
       zwra_buffer := (\<lambda>i. if i < nr_zones (zp z) then buffer_init (zrwa_buffer_size (zp z)) else zwra_buffer z i)\<rparr>"

definition init_resource :: "zns_ftl \<Rightarrow> zns_ftl" where
  "init_resource z = z\<lparr>res_infos := (\<lambda>_. \<lparr>acquired_cnt = 0, total_cnt = of_nat (nr_zones (zp z))\<rparr>)\<rparr>"

text \<open>\<open>junk\<close> is the fresh structure with the mapped storage.\<close>

definition zns_init_ftl :: "zns_ftl \<Rightarrow> znsparams \<Rightarrow> ssd \<Rightarrow> zns_ftl" where
  "zns_init_ftl junk zpp dev = init_resource (init_descriptor (junk\<lparr>zp := zpp, zssd := dev\<rparr>))"

record zns_ns =
  zftl :: zns_ftl
  zenv :: ssd_env
  zwritebacks :: "(nat option \<times> writeback) list"

definition zns_init_namespace :: "zns_ftl \<Rightarrow> (nat \<Rightarrow> ssd_channel) \<Rightarrow> (nat \<Rightarrow> u8) \<Rightarrow> (nat \<Rightarrow> u64) \<Rightarrow> u64 \<Rightarrow> zns_ns option" where
  "zns_init_namespace junk dj pj clk sz =
     do {
       spp \<leftarrow> ssd_init_params zns_prototype (unat sz) 1;
       zpp \<leftarrow> zns_init_params spp sz;
       Some \<lparr>zftl = zns_init_ftl junk zpp (ssd_init dj spp), zenv = ssd_init_env pj clk spp, zwritebacks = []\<rparr>
     }"

section \<open>Zone management\<close>

definition close_zone :: "zns_ftl \<Rightarrow> nat \<Rightarrow> zns_ftl \<times> u32" where
  "close_zone z zid =
     (case state (zone_descs z zid) of
        ZONE_STATE_OPENED_IMPL \<Rightarrow> (release_zone_resource (change_zone_state z zid ZONE_STATE_CLOSED) OPEN_ZONE, NVME_SC_SUCCESS)
      | ZONE_STATE_OPENED_EXPL \<Rightarrow> (release_zone_resource (change_zone_state z zid ZONE_STATE_CLOSED) OPEN_ZONE, NVME_SC_SUCCESS)
      | ZONE_STATE_CLOSED \<Rightarrow> (z, NVME_SC_SUCCESS)
      | _ \<Rightarrow> (z, NVME_SC_ZNS_INVALID_TRANSITION))"

text \<open>The shared tail of finish and reset for an active zone.\<close>

definition release_active :: "zns_ftl \<Rightarrow> nat \<Rightarrow> zns_ftl" where
  "release_active z zid =
     (let z1 = release_zone_resource z ACTIVE_ZONE in if zrwav (zone_descs z zid) then release_zone_resource z1 ZRWA_ZONE else z1)"

definition finish_zone :: "zns_ftl \<Rightarrow> nat \<Rightarrow> zns_ftl \<times> u32" where
  "finish_zone z zid =
     (let full = (\<lambda>z1. (change_zone_state z1 zid ZONE_STATE_FULL, NVME_SC_SUCCESS)) in
      case state (zone_descs z zid) of
        ZONE_STATE_OPENED_IMPL \<Rightarrow> full (release_active (release_zone_resource z OPEN_ZONE) zid)
      | ZONE_STATE_OPENED_EXPL \<Rightarrow> full (release_active (release_zone_resource z OPEN_ZONE) zid)
      | ZONE_STATE_CLOSED \<Rightarrow> full (release_active z zid)
      | ZONE_STATE_EMPTY \<Rightarrow> full z
      | ZONE_STATE_FULL \<Rightarrow> (z, NVME_SC_SUCCESS)
      | _ \<Rightarrow> (z, NVME_SC_ZNS_INVALID_TRANSITION))"

definition open_closed :: "zns_ftl \<Rightarrow> nat \<Rightarrow> zns_ftl \<times> u32" where
  "open_closed z zid =
     (let (z1, ok) = acquire_zone_resource z OPEN_ZONE in
      if \<not> ok then (z1, NVME_SC_ZNS_NO_OPEN_ZONE) else (change_zone_state z1 zid ZONE_STATE_OPENED_EXPL, NVME_SC_SUCCESS))"

definition open_zone :: "zns_ftl \<Rightarrow> nat \<Rightarrow> bool \<Rightarrow> zns_ftl \<times> u32" where
  "open_zone z zid zrwa =
     (case state (zone_descs z zid) of
        ZONE_STATE_EMPTY \<Rightarrow>
          if is_zone_resource_full z ACTIVE_ZONE then (z, NVME_SC_ZNS_NO_ACTIVE_ZONE)
          else if is_zone_resource_full z OPEN_ZONE then (z, NVME_SC_ZNS_NO_OPEN_ZONE)
          else if zrwa \<and> is_zone_resource_full z ZRWA_ZONE then (z, NVME_SC_ZNS_ZRWA_RSRC_UNAVAIL)
          else
            (let z1 = (if zrwa then upd_zone (fst (acquire_zone_resource z ZRWA_ZONE)) zid (zrwav_update (\<lambda>_. True)) else z)
             in open_closed (fst (acquire_zone_resource z1 ACTIVE_ZONE)) zid)
      | ZONE_STATE_CLOSED \<Rightarrow> open_closed z zid
      | ZONE_STATE_OPENED_IMPL \<Rightarrow> (change_zone_state z zid ZONE_STATE_OPENED_EXPL, NVME_SC_SUCCESS)
      | ZONE_STATE_OPENED_EXPL \<Rightarrow> (z, NVME_SC_SUCCESS)
      | _ \<Rightarrow> (z, NVME_SC_ZNS_INVALID_TRANSITION))"

definition reset_zone_data :: "zns_ftl \<Rightarrow> nat \<Rightarrow> zns_ftl" where
  "reset_zone_data z zid =
     (let n = unat (zone_size (zp z));
          z1 = z\<lparr>storage := (\<lambda>a. if zid * n \<le> a \<and> a < zid * n + n then 0 else storage z a)\<rparr>
      in (upd_zone z1 zid (\<lambda>d. d\<lparr>zwp := zslba d, zrwav := False\<rparr>))\<lparr>zwra_buffer := (zwra_buffer z)(zid := buffer_refill (zwra_buffer z zid))\<rparr>)"

definition reset_zone :: "zns_ftl \<Rightarrow> nat \<Rightarrow> zns_ftl \<times> u32" where
  "reset_zone z zid =
     (let clear = (\<lambda>z1. (reset_zone_data (change_zone_state z1 zid ZONE_STATE_EMPTY) zid, NVME_SC_SUCCESS)) in
      case state (zone_descs z zid) of
        ZONE_STATE_OPENED_IMPL \<Rightarrow> clear (release_active (release_zone_resource z OPEN_ZONE) zid)
      | ZONE_STATE_OPENED_EXPL \<Rightarrow> clear (release_active (release_zone_resource z OPEN_ZONE) zid)
      | ZONE_STATE_CLOSED \<Rightarrow> clear (release_active z zid)
      | ZONE_STATE_FULL \<Rightarrow> clear z
      | ZONE_STATE_EMPTY \<Rightarrow> clear z
      | _ \<Rightarrow> (z, NVME_SC_ZNS_INVALID_TRANSITION))"

definition offline_zone :: "zns_ftl \<Rightarrow> nat \<Rightarrow> zns_ftl \<times> u32" where
  "offline_zone z zid =
     (case state (zone_descs z zid) of
        ZONE_STATE_READ_ONLY \<Rightarrow> (change_zone_state z zid ZONE_STATE_OFFLINE, NVME_SC_SUCCESS)
      | ZONE_STATE_OFFLINE \<Rightarrow> (z, NVME_SC_SUCCESS)
      | _ \<Rightarrow> (z, NVME_SC_ZNS_INVALID_TRANSITION))"

definition flush_explicit_zrwa :: "zns_ftl \<Rightarrow> u64 \<Rightarrow> (zns_ftl \<times> u32) option" where
  "flush_explicit_zrwa z lba =
     (let zid = lba_to_zone z lba; zd = zone_descs z zid; wp = zwp zd; cap = zone_capacity zd;
          zrwa_end = min (wp + ucast (lbas_per_zrwa (zp z)) - 1) (zone_to_slba z zid + cap - 1);
          nr_lbas_flush = lba - wp + 1
      in if \<not> zrwav zd then Some (z, NVME_SC_ZNS_INVALID_ZONE_OPERATION)
         else if \<not> (lba \<ge> wp \<and> lba \<le> zrwa_end) then Some (z, NVME_SC_ZNS_INVALID_ZONE_OPERATION)
         else if lbas_per_zrwafg (zp z) = 0 then None
         else if nr_lbas_flush mod ucast (lbas_per_zrwafg (zp z)) \<noteq> 0 then Some (z, NVME_SC_INVALID_FIELD)
         else if state zd \<in> {ZONE_STATE_OPENED_EXPL, ZONE_STATE_OPENED_IMPL, ZONE_STATE_CLOSED}
         then
           (let z1 = upd_zone z zid (zwp_update (\<lambda>_. lba + 1))
            in if lba + 1 = zone_to_slba z zid + cap
               then
                 (let z2 = (if state zd \<noteq> ZONE_STATE_CLOSED then release_zone_resource z1 OPEN_ZONE else z1)
                  in Some (change_zone_state (release_zone_resource (release_zone_resource z2 ACTIVE_ZONE) ZRWA_ZONE) zid ZONE_STATE_FULL, NVME_SC_SUCCESS))
               else Some (z1, NVME_SC_SUCCESS))
         else Some (z, NVME_SC_ZNS_INVALID_ZONE_OPERATION))"

text \<open>The status of an action that no case handles is the uninitialised local \<open>junk\<close>.\<close>

definition zmgmt_send :: "u32 \<Rightarrow> zns_ftl \<Rightarrow> u64 \<Rightarrow> u8 \<Rightarrow> bool \<Rightarrow> (zns_ftl \<times> u32) option" where
  "zmgmt_send junk z lba action option =
     (if zone_lbas z = 0 then None
      else
        (let zid = lba_to_zone z lba in
         if action \<in> {1, 2, 3, 4, 5, 0x11} \<and> zid \<ge> nr_zones (zp z) then None
         else if action = 1 then Some (close_zone z zid)
         else if action = 2 then Some (finish_zone z zid)
         else if action = 3 then Some (open_zone z zid option)
         else if action = 4 then Some (reset_zone z zid)
         else if action = 5 then Some (offline_zone z zid)
         else if action = 0x11 then flush_explicit_zrwa z lba
         else Some (z, junk)))"

definition zns_zmgmt_send :: "u32 \<Rightarrow> zns_ftl \<Rightarrow> nvmev_request \<Rightarrow> nvmev_result \<Rightarrow> (zns_ftl \<times> nvmev_result) option" where
  "zns_zmgmt_send junk z req ret =
     (let c = cmd req in
      if zone_lbas z = 0 then None
      else do {
        (z', st) \<leftarrow>
          (if select_all c
           then do {
             z1 \<leftarrow> foldM (\<lambda>zid z. do { (z', _) \<leftarrow> zmgmt_send junk z (zone_to_slba z zid) (zsa c) (zsaso c); Some z' }) [0..<nr_zones (zp z)] z;
             Some (z1, NVME_SC_SUCCESS)
           }
           else zmgmt_send junk z (slba c) (zsa c) (zsaso c));
        Some (z', ret\<lparr>nsecs_target := nsecs_start req, res_status := st\<rparr>)
      })"

text \<open>
  The report: its count of zones and the descriptors. A descriptor has 64 bytes; the buffer has room for
  \<open>nr_zones - 1\<close> of them, and the descriptor array ends at \<open>nr_zones\<close>: a copy past either end is \<open>None\<close>. The
  transfer of the report to host memory is not represented.
\<close>

definition fill_zone_report :: "zns_ftl \<Rightarrow> nvme_command \<Rightarrow> zns_ftl option" where
  "fill_zone_report z c =
     (let start_zid = lba_to_zone z (slba c);
          bytes_transfer = ucast (nr_dw c + 1) * 4 :: u64;
          n = (if \<not> zra_specific_features c then of_nat (nr_zones (zp z)) - of_nat start_zid else bytes_transfer div 64 - 1) :: u64
      in if unat n > nr_zones (zp z) - 1 \<or> (unat n > 0 \<and> start_zid + unat n > nr_zones (zp z)) then None
         else Some (z\<lparr>report_buffer := (unat n, map (zone_descs z) [start_zid..<start_zid + unat n])\<rparr>))"

definition check_zmgmt_rcv_option_supported :: "nvme_command \<Rightarrow> bool" where
  "check_zmgmt_rcv_option_supported c \<longleftrightarrow> zra c = 0 \<and> zra_specific_field c = 0"

definition zns_zmgmt_recv :: "zns_ftl \<Rightarrow> nvmev_request \<Rightarrow> nvmev_result \<Rightarrow> (zns_ftl \<times> nvmev_result) option" where
  "zns_zmgmt_recv z req ret =
     (let c = cmd req in
      if zone_lbas z = 0 then None
      else if \<not> check_zmgmt_rcv_option_supported c
      then Some (z, ret\<lparr>nsecs_target := nsecs_start req, res_status := NVME_SC_INVALID_FIELD\<rparr>)
      else do {
        z' \<leftarrow> fill_zone_report z c;
        Some (z', ret\<lparr>nsecs_target := nsecs_start req, res_status := NVME_SC_SUCCESS\<rparr>)
      })"

end
