(* ===== verification/Zns_Rw.thy ===== *)
theory Zns_Rw
  imports Zns
begin

text \<open>
  Reads and writes of the zoned namespace, \<open>zns_read_write.c\<close>, and its command dispatch. The source calls
  \<open>ssd_advance_write_buffer\<close> without its last argument, which is the parameter \<open>dma\<close> here. The boolean results
  of the handlers are kept as they are.
\<close>

unbundle bit_operations_syntax

section \<open>Operations\<close>

definition check_boundary :: "zns_ftl \<Rightarrow> u64 \<Rightarrow> u64 \<Rightarrow> bool" where
  "check_boundary z lba n \<longleftrightarrow> lba_to_zone z lba = lba_to_zone z (lba + n - 1)"

definition increase_write_ptr :: "zns_ftl \<Rightarrow> nat \<Rightarrow> u32 \<Rightarrow> zns_ftl" where
  "increase_write_ptr z zid n =
     (let cur = zwp (zone_descs z zid) + ucast n; z1 = upd_zone z zid (zwp_update (\<lambda>_. cur))
      in if cur = zone_to_slba z zid + zone_capacity (zone_descs z zid)
         then change_zone_state (release_zone_resource (release_zone_resource z1 OPEN_ZONE) ACTIVE_ZONE) zid ZONE_STATE_FULL
         else z1)"

definition lpn_to_ppa :: "zns_ftl \<Rightarrow> nat \<Rightarrow> ppa" where
  "lpn_to_ppa z lpn =
     (let spp = sp (zssd z); zone = lpn_to_zone z lpn; off = lpn - zone_to_slpn z zone;
          sdie = zone * dies_per_zone (zp z) mod tt_luns spp;
          die = sdie + off div pgs_per_oneshotpg spp mod dies_per_zone (zp z)
      in set_ppa (die_to_channel z die) (die_to_lun z die) 0 0 (off mod pgs_per_oneshotpg spp))"

text \<open>The divisors of \<open>lpn_to_ppa\<close>.\<close>

definition dies_ok :: "zns_ftl \<Rightarrow> bool" where
  "dies_ok z \<longleftrightarrow> lpns_per_zone z \<noteq> 0 \<and> tt_luns (sp (zssd z)) \<noteq> 0 \<and> pgs_per_oneshotpg (sp (zssd z)) \<noteq> 0 \<and> dies_per_zone (zp z) \<noteq> 0
     \<and> nchs (sp (zssd z)) \<noteq> 0"

text \<open>
  The program loop: the pages from \<open>lpn\<close> on are grouped by one-shot page, and a group that completes its one-shot
  page is sent to the NAND and queued for release. The buffer of the release is the write buffer or a zone's.
\<close>

lemma min_part_less: "n \<noteq> 0 \<Longrightarrow> m \<noteq> 0 \<Longrightarrow> n - min n (m - a mod m) < (n :: nat)"
  using mod_less_divisor [of m a] by linarith

function program_pages :: "nvmev_request \<Rightarrow> nat option \<Rightarrow> u64 \<Rightarrow> nat \<Rightarrow> nat \<Rightarrow> zns_ns \<times> u64 \<Rightarrow> (zns_ns \<times> u64) option" where
  "program_pages req buf t0 lpn n (ns, latest) =
     (let z = zftl ns; spp = sp (zssd z); p = lpn_to_ppa z lpn; osp = pgs_per_oneshotpg spp in
      if n = 0 then Some (ns, latest)
      else if osp = 0 \<or> \<not> dies_ok z then None
      else
        (let pg_off = g_pg p mod osp; pgs = min n (osp - pg_off) in
         if pg_off + pgs = osp
         then do {
           (dev, e, _, t) \<leftarrow> ssd_advance_nand (zssd z) (zenv ns)
             \<lparr>nand_op = NAND_WRITE, xfer_size = of_nat (osp * pgsz spp), stime = t0, nand_stime = 0, interleave_pci_dma = False, cmd_ppa = Some p\<rparr>;
           program_pages req buf t0 (lpn + pgs) (n - pgs)
             (ns\<lparr>zftl := z\<lparr>zssd := dev\<rparr>, zenv := e,
                 zwritebacks := zwritebacks ns @ [(buf, \<lparr>wb_sqid = sq_id req, wb_nsecs_target = t, buffs_to_release = of_nat (osp * pgsz spp)\<rparr>)]\<rparr>,
              if t > latest then t else latest)
         }
         else program_pages req buf t0 (lpn + pgs) (n - pgs) (ns, latest)))"
  by pat_completeness auto
termination
  by (relation "measure (\<lambda>(req, buf, t0, lpn, n, s). n)") (simp, simp_all only: in_measure split_conv de_Morgan_disj min_part_less not_False_eq_True)

declare program_pages.simps [simp del]

text \<open>The checks and the state change before a sequential write: the new state and the error, if any.\<close>

definition enter_write :: "zns_ftl \<Rightarrow> nat \<Rightarrow> u64 \<Rightarrow> zns_ftl \<times> u32 option" where
  "enter_write z zid lba =
     (let zd = zone_descs z zid;
          implicit = (\<lambda>z. let (z1, ok) = acquire_zone_resource z OPEN_ZONE
                          in if \<not> ok then (z1, Some NVME_SC_ZNS_NO_OPEN_ZONE) else (change_zone_state z1 zid ZONE_STATE_OPENED_IMPL, None))
      in case state zd of
           ZONE_STATE_EMPTY \<Rightarrow>
             if lba \<noteq> zslba zd then (z, Some NVME_SC_ZNS_INVALID_WRITE)
             else if is_zone_resource_full z ACTIVE_ZONE then (z, Some NVME_SC_ZNS_NO_ACTIVE_ZONE)
             else if is_zone_resource_full z OPEN_ZONE then (z, Some NVME_SC_ZNS_NO_OPEN_ZONE)
             else implicit (fst (acquire_zone_resource z ACTIVE_ZONE))
         | ZONE_STATE_CLOSED \<Rightarrow> implicit z
         | ZONE_STATE_OPENED_IMPL \<Rightarrow> (z, None)
         | ZONE_STATE_OPENED_EXPL \<Rightarrow> (z, None)
         | _ \<Rightarrow> (z, Some NVME_SC_ZNS_ERR_OFFLINE))"

text \<open>The end of both write functions.\<close>

definition finish_write :: "ssdparams \<Rightarrow> nvmev_request \<Rightarrow> nvmev_result \<Rightarrow> u32 \<Rightarrow> u64 \<Rightarrow> u64 \<Rightarrow> nvmev_result" where
  "finish_write spp req ret st latest xfer_completed =
     ret\<lparr>res_status := st,
         nsecs_target := (if rw_control (cmd req) AND NVME_RW_FUA \<noteq> 0 \<or> \<not> write_early_completion spp then latest else xfer_completed)\<rparr>"

definition zns_write_seq :: "bool \<Rightarrow> zns_ns \<Rightarrow> nvmev_request \<Rightarrow> nvmev_result \<Rightarrow> (zns_ns \<times> nvmev_result \<times> bool) option" where
  "zns_write_seq dma ns req ret =
     (let z = zftl ns; spp = sp (zssd z); lba = slba (cmd req); n = nr_lba (cmd req);
          slpn = lba_to_lpn z lba; elpn = lba_to_lpn z (lba + n - 1); zid = lba_to_zone z lba; start = nsecs_start req;
          refuse = (\<lambda>z' st. Some (ns\<lparr>zftl := z'\<rparr>, finish_write spp req ret st start start, True))
      in if zone_lbas z = 0 \<or> secs_per_pg spp = 0 \<or> write_unit_size spp = 0 \<or> zid \<ge> nr_zones (zp z) then None
         else if unat (LBA_TO_BYTE n) mod write_unit_size spp \<noteq> 0 then refuse z NVME_SC_ZNS_INVALID_WRITE
         else if \<not> check_boundary z lba n then refuse z NVME_SC_ZNS_ERR_BOUNDARY
         else if lba \<noteq> zwp (zone_descs z zid) then refuse z NVME_SC_ZNS_INVALID_WRITE
         else
           (case enter_write z zid lba of
              (z1, Some st) \<Rightarrow> refuse z1 st
            | (z1, None) \<Rightarrow>
                do {
                  let z2 = increase_write_ptr z1 zid (ucast n);
                  (e, t) \<leftarrow> ssd_advance_write_buffer spp (zenv ns) start (LBA_TO_BYTE n) dma;
                  (ns', latest) \<leftarrow> program_pages req None t slpn (elpn + 1 - slpn) (ns\<lparr>zftl := z2, zenv := e\<rparr>, t);
                  Some (ns', finish_write spp req ret NVME_SC_SUCCESS latest t, True)
                }))"

text \<open>The zone of a write to its random write area is opened without an active resource of its own.\<close>

definition enter_zrwa :: "zns_ftl \<Rightarrow> nat \<Rightarrow> (zns_ftl \<times> u32 option) option" where
  "enter_zrwa z zid =
     (let reopen =
        (let (z1, ok) = acquire_zone_resource z OPEN_ZONE in
         if \<not> ok then Some (z1, Some NVME_SC_ZNS_NO_OPEN_ZONE)
         else
           (let (b, got) = buffer_allocate (zwra_buffer z1 zid) (zrwa_size (zp z1)) in
            if got = 0 then None
            else Some (change_zone_state (z1\<lparr>zwra_buffer := (zwra_buffer z1)(zid := b)\<rparr>) zid ZONE_STATE_OPENED_IMPL, None)))
      in case state (zone_descs z zid) of
           ZONE_STATE_CLOSED \<Rightarrow> reopen
         | ZONE_STATE_EMPTY \<Rightarrow> reopen
         | ZONE_STATE_OPENED_IMPL \<Rightarrow> Some (z, None)
         | ZONE_STATE_OPENED_EXPL \<Rightarrow> Some (z, None)
         | ZONE_STATE_FULL \<Rightarrow> Some (z, Some NVME_SC_ZNS_ERR_FULL)
         | ZONE_STATE_READ_ONLY \<Rightarrow> Some (z, Some NVME_SC_ZNS_ERR_READ_ONLY)
         | ZONE_STATE_OFFLINE \<Rightarrow> Some (z, Some NVME_SC_ZNS_ERR_OFFLINE))"

definition zrwa_flush_size :: "zns_ftl \<Rightarrow> nat \<Rightarrow> u64 \<Rightarrow> u64 \<Rightarrow> u64 option" where
  "zrwa_flush_size z zid prev_wp elba =
     (let impl_start = prev_wp + ucast (lbas_per_zrwa (zp z)); fg = ucast (lbas_per_zrwafg (zp z)) in
      if elba \<ge> impl_start then (if fg = 0 then None else Some (DIV_ROUND_UP (elba - impl_start + 1) fg * fg))
      else if elba = zone_to_elba z zid then Some (elba - prev_wp + 1)
      else Some 0)"

definition zns_write_zrwa :: "bool \<Rightarrow> zns_ns \<Rightarrow> nvmev_request \<Rightarrow> nvmev_result \<Rightarrow> (zns_ns \<times> nvmev_result \<times> bool) option" where
  "zns_write_zrwa dma ns req ret =
     (let z = zftl ns; spp = sp (zssd z); lba = slba (cmd req); n = nr_lba (cmd req); elba = lba + n - 1;
          zid = lba_to_zone z lba; prev_wp = zwp (zone_descs z zid); start = nsecs_start req;
          impl_end = prev_wp + ucast (2 * lbas_per_zrwa (zp z)) - 1;
          refuse = (\<lambda>z' st. Some (ns\<lparr>zftl := z'\<rparr>, finish_write spp req ret st start start, True))
      in if zone_lbas z = 0 \<or> secs_per_pg spp = 0 \<or> write_unit_size spp = 0 \<or> zid \<ge> nr_zones (zp z) then None
         else if unat (LBA_TO_BYTE n) mod write_unit_size spp \<noteq> 0 then refuse z NVME_SC_ZNS_INVALID_WRITE
         else if \<not> check_boundary z lba n then refuse z NVME_SC_ZNS_ERR_BOUNDARY
         else if lba < prev_wp \<or> elba > impl_end then refuse z NVME_SC_ZNS_INVALID_WRITE
         else do {
           (z1, err) \<leftarrow> enter_zrwa z zid;
           case err of
             Some st \<Rightarrow> refuse z1 st
           | None \<Rightarrow>
               do {
                 flush \<leftarrow> zrwa_flush_size z1 zid prev_wp elba;
                 let (b, got) = buffer_allocate (zwra_buffer z1 zid) (ucast (LBA_TO_BYTE flush));
                 if flush > 0 \<and> got = 0 then Some (ns\<lparr>zftl := z1\<lparr>zwra_buffer := (zwra_buffer z1)(zid := b)\<rparr>\<rparr>, ret, False)
                 else do {
                   let z2 = (if flush > 0 then increase_write_ptr (z1\<lparr>zwra_buffer := (zwra_buffer z1)(zid := b)\<rparr>) zid (ucast flush) else z1);
                   (e, t) \<leftarrow> ssd_advance_write_buffer spp (zenv ns) start (LBA_TO_BYTE n) dma;
                   (ns', latest) \<leftarrow> program_pages req (Some zid) t (lba_to_lpn z prev_wp) (unat flush div secs_per_pg spp) (ns\<lparr>zftl := z2, zenv := e\<rparr>, t);
                   Some (ns', finish_write spp req ret NVME_SC_SUCCESS latest t, True)
                 }
               }
         })"

definition zns_write :: "bool \<Rightarrow> zns_ns \<Rightarrow> nvmev_request \<Rightarrow> nvmev_result \<Rightarrow> (zns_ns \<times> nvmev_result \<times> bool) option" where
  "zns_write dma ns req ret =
     (let z = zftl ns; spp = sp (zssd z); bytes = LBA_TO_BYTE (nr_lba (cmd req)) in
      if secs_per_pg spp = 0 \<or> lpns_per_zone z = 0 then None
      else
        (let zid = lpn_to_zone z (lba_to_lpn z (slba (cmd req)));
             (b, got) = buffer_allocate (write_buffer (zenv ns)) (ucast bytes);
             ns1 = ns\<lparr>zenv := (zenv ns)\<lparr>write_buffer := b\<rparr>\<rparr>
         in if ucast got < bytes then Some (ns1, ret, False)
            else if zid \<ge> nr_zones (zp z) then None
            else if \<not> zrwav (zone_descs z zid) then zns_write_seq dma ns1 req ret
            else zns_write_zrwa dma ns1 req ret))"

text \<open>The read loop, by flash page.\<close>

function read_pages :: "u64 \<Rightarrow> nat \<Rightarrow> nat \<Rightarrow> zns_ns \<times> nand_cmd \<times> u64 \<Rightarrow> (zns_ns \<times> nand_cmd \<times> u64) option" where
  "read_pages t0 lpn n (ns, c, latest) =
     (let z = zftl ns; spp = sp (zssd z); p = lpn_to_ppa z lpn; fpp = pgs_per_flashpg spp in
      if n = 0 then Some (ns, c, latest)
      else if fpp = 0 \<or> \<not> dies_ok z then None
      else
        (let pg_off = g_pg p mod fpp; pgs = min n (fpp - pg_off) in
         do {
           (dev, e, c', t) \<leftarrow> ssd_advance_nand (zssd z) (zenv ns) (c\<lparr>xfer_size := of_nat (pgs * pgsz spp), cmd_ppa := Some p\<rparr>);
           read_pages t0 (lpn + pgs) (n - pgs) (ns\<lparr>zftl := z\<lparr>zssd := dev\<rparr>, zenv := e\<rparr>, c', if t > latest then t else latest)
         }))"
  by pat_completeness auto
termination
  by (relation "measure (\<lambda>(t0, lpn, n, s). n)") (simp, simp_all only: in_measure split_conv de_Morgan_disj min_part_less not_False_eq_True)

declare read_pages.simps [simp del]

definition zns_read :: "u64 \<Rightarrow> zns_ns \<Rightarrow> nvmev_request \<Rightarrow> nvmev_result \<Rightarrow> (zns_ns \<times> nvmev_result \<times> bool) option" where
  "zns_read junk ns req ret =
     (let z = zftl ns; spp = sp (zssd z); lba = slba (cmd req); n = nr_lba (cmd req);
          slpn = lba_to_lpn z lba; elpn = lba_to_lpn z (lba + n - 1); zid = lpn_to_zone z slpn in
      if secs_per_pg spp = 0 \<or> lpns_per_zone z = 0 \<or> zone_lbas z = 0 \<or> zid \<ge> nr_zones (zp z) then None
      else
        (let st = (if state (zone_descs z zid) = ZONE_STATE_OFFLINE then NVME_SC_ZNS_ERR_OFFLINE
                   else if \<not> check_boundary z lba n then NVME_SC_ZNS_ERR_BOUNDARY else NVME_SC_SUCCESS);
             t0 = nsecs_start req + (if LBA_TO_BYTE n \<le> KB 4 then fw_4kb_rd_lat spp else fw_rd_lat spp)
         in do {
              (ns1, _, latest) \<leftarrow> read_pages t0 slpn (elpn + 1 - slpn)
                (ns, \<lparr>nand_op = NAND_READ, xfer_size = 0, stime = t0, nand_stime = junk, interleave_pci_dma = False, cmd_ppa = None\<rparr>, t0);
              (e, t) \<leftarrow> ssd_advance_pcie (zenv ns1) latest (n * of_nat (secsz spp));
              Some (ns1\<lparr>zenv := e\<rparr>, ret\<lparr>res_status := st, nsecs_target := (if t > latest then t else latest)\<rparr>, True)
            }))"

definition zns_flush :: "zns_ns \<Rightarrow> nvmev_request \<Rightarrow> nvmev_result \<Rightarrow> zns_ns \<times> nvmev_result" where
  "zns_flush ns req ret =
     (let (start, e0) = get_clock (zenv ns); (e1, t) = ssd_next_idle_time (zssd (zftl ns)) e0
      in (ns\<lparr>zenv := e1\<rparr>, ret\<lparr>res_status := NVME_SC_SUCCESS, nsecs_target := max start t\<rparr>))"

definition zns_proc_nvme_io_cmd :: "bool \<Rightarrow> u32 \<Rightarrow> u64 \<Rightarrow> zns_ns \<Rightarrow> nvmev_request \<Rightarrow> nvmev_result \<Rightarrow> (zns_ns \<times> nvmev_result \<times> bool) option" where
  "zns_proc_nvme_io_cmd dma junk junk' ns req ret =
     (let op = opcode (cmd req) in
      if op = nvme_cmd_write then zns_write dma ns req ret
      else if op = nvme_cmd_read then zns_read junk' ns req ret
      else if op = nvme_cmd_flush then (let (ns', ret') = zns_flush ns req ret in Some (ns', ret', True))
      else if op = nvme_cmd_zone_mgmt_send
      then do { (z, ret') \<leftarrow> zns_zmgmt_send junk (zftl ns) req ret; Some (ns\<lparr>zftl := z\<rparr>, ret', True) }
      else if op = nvme_cmd_zone_mgmt_recv
      then do { (z, ret') \<leftarrow> zns_zmgmt_recv (zftl ns) req ret; Some (ns\<lparr>zftl := z\<rparr>, ret', True) }
      else Some (ns, ret, True))"

end
