(* ===== verification/Zns_Inv.thy ===== *)
theory Zns_Inv
  imports Zns_Rw
begin

text \<open>
  The zone state machine: an invariant that ties the resource counters to the zone states, kept by every command,
  and what a write does. Zones may be opened with a random write area; the shipped profile gives the area the size 0,
  so that no write to it ever moves a write pointer.
\<close>

section \<open>The invariant\<close>

fun needs :: "zone_resource_type \<Rightarrow> zone_state \<Rightarrow> bool" where
  "needs OPEN_ZONE s \<longleftrightarrow> s = ZONE_STATE_OPENED_IMPL \<or> s = ZONE_STATE_OPENED_EXPL"
| "needs ACTIVE_ZONE s \<longleftrightarrow> s = ZONE_STATE_OPENED_IMPL \<or> s = ZONE_STATE_OPENED_EXPL \<or> s = ZONE_STATE_CLOSED"
| "needs ZRWA_ZONE s \<longleftrightarrow> False"

text \<open>A zone with a random write area holds a resource of its own while it is active.\<close>

fun claims :: "zone_resource_type \<Rightarrow> zone_descriptor \<Rightarrow> bool" where
  "claims OPEN_ZONE d \<longleftrightarrow> needs OPEN_ZONE (state d)"
| "claims ACTIVE_ZONE d \<longleftrightarrow> needs ACTIVE_ZONE (state d)"
| "claims ZRWA_ZONE d \<longleftrightarrow> zrwav d \<and> needs ACTIVE_ZONE (state d)"

definition holders :: "zone_resource_type \<Rightarrow> zns_ftl \<Rightarrow> nat set" where
  "holders t z = {i. i < nr_zones (zp z) \<and> claims t (zone_descs z i)}"

text \<open>The areas of the shipped profile are empty; its zones have 65536 blocks and its pages eight.\<close>

definition no_area :: "zns_ftl \<Rightarrow> bool" where
  "no_area z \<longleftrightarrow> lbas_per_zrwa (zp z) = 0 \<and> lbas_per_zrwafg (zp z) = 0 \<and> zrwa_size (zp z) = 0 \<and> zone_size (zp z) = ZONE_SIZE
     \<and> pgsz (sp (zssd z)) = 4096 \<and> secs_per_pg (sp (zssd z)) = 8"

definition zone_ok :: "zns_ftl \<Rightarrow> nat \<Rightarrow> zone_descriptor \<Rightarrow> bool" where
  "zone_ok z i d \<longleftrightarrow> (zrwav d \<longrightarrow> no_area z) \<and> unat (zslba d) = i * unat (zone_lbas z) \<and> zone_capacity d = ucast (zone_lbas z)
     \<and> unat (zslba d) \<le> unat (zwp d) \<and> unat (zwp d) \<le> (i + 1) * unat (zone_lbas z)
     \<and> state d \<noteq> ZONE_STATE_READ_ONLY \<and> state d \<noteq> ZONE_STATE_OFFLINE
     \<and> (state d = ZONE_STATE_EMPTY \<longrightarrow> zwp d = zslba d \<and> \<not> zrwav d)
     \<and> (needs ACTIVE_ZONE (state d) \<longrightarrow> unat (zwp d) < (i + 1) * unat (zone_lbas z))"

definition zones_fit :: "zns_ftl \<Rightarrow> bool" where
  "zones_fit z \<longleftrightarrow> 1 < zone_lbas z \<and> nr_zones (zp z) < 2 ^ 32 \<and> nr_zones (zp z) * unat (zone_lbas z) \<le> 2 ^ 32"

definition zns_inv :: "zns_ftl \<Rightarrow> bool" where
  "zns_inv z \<longleftrightarrow> zones_fit z \<and> (\<forall>i<nr_zones (zp z). zone_ok z i (zone_descs z i))
     \<and> (\<forall>t. total_cnt (res_infos z t) = of_nat (nr_zones (zp z)) \<and> acquired_cnt (res_infos z t) = of_nat (card (holders t z)))"

text \<open>One zone changes, and the counters follow its state.\<close>

definition zone_step :: "zns_ftl \<Rightarrow> nat \<Rightarrow> zone_descriptor \<Rightarrow> zns_ftl \<Rightarrow> bool" where
  "zone_step z i d z' \<longleftrightarrow> zp z' = zp z \<and> sp (zssd z') = sp (zssd z) \<and> zone_descs z' = (zone_descs z)(i := d)
     \<and> (\<forall>t. total_cnt (res_infos z' t) = total_cnt (res_infos z t)
          \<and> acquired_cnt (res_infos z' t) = acquired_cnt (res_infos z t) + of_bool (claims t d) - of_bool (claims t (zone_descs z i)))"

lemma holders_finite [simp]: "finite (holders t z)"
  by (simp add: holders_def)

lemma holders_le: "card (holders t z) \<le> nr_zones (zp z)"
  using card_mono [of "{..<nr_zones (zp z)}" "holders t z"] by (auto simp: holders_def)

lemma holders_step:
  assumes "zone_step z i d z'" and "i < nr_zones (zp z)"
  shows "(of_nat (card (holders t z')) :: u32) = of_nat (card (holders t z)) + of_bool (claims t d) - of_bool (claims t (zone_descs z i))"
proof -
  define R where "R = holders t z - {i}"
  have R: "finite R" "i \<notin> R" by (simp_all add: R_def)
  have "holders t z' = (if claims t d then insert i R else R)" "holders t z = (if claims t (zone_descs z i) then insert i R else R)"
    using assms by (auto simp: R_def zone_step_def holders_def split: if_splits)
  then have "card (holders t z') = card R + of_bool (claims t d)" "card (holders t z) = card R + of_bool (claims t (zone_descs z i))"
    using R by simp_all
  then show ?thesis by simp
qed

lemma zone_ok_params: "zp z' = zp z \<Longrightarrow> sp (zssd z') = sp (zssd z) \<Longrightarrow> zone_ok z' = zone_ok z \<and> zones_fit z' = zones_fit z \<and> no_area z' = no_area z"
  by (simp add: zone_ok_def zones_fit_def zone_lbas_def no_area_def fun_eq_iff)

lemma zns_inv_step:
  assumes "zns_inv z" and "zone_step z i d z'" and "i < nr_zones (zp z)" and "zone_ok z i d"
  shows "zns_inv z'"
proof -
  have p: "zp z' = zp z" "zone_ok z' = zone_ok z" "zones_fit z' = zones_fit z" using assms(2) zone_ok_params [of z' z] unfolding zone_step_def by blast+
  have "acquired_cnt (res_infos z t) = of_nat (card (holders t z))" for t using assms(1) by (simp add: zns_inv_def)
  then have "acquired_cnt (res_infos z' t) = of_nat (card (holders t z'))" for t
    using assms(2) holders_step [OF assms(2,3), of t] by (simp add: zone_step_def)
  moreover have "\<forall>j<nr_zones (zp z). zone_ok z j (zone_descs z' j)" using assms by (simp add: zone_step_def zns_inv_def)
  ultimately show ?thesis using assms(1,2) p by (simp add: zns_inv_def zone_step_def)
qed

lemma zone_step_refl: "zone_step z i (zone_descs z i) z"
  by (simp add: zone_step_def)

lemma full_iff:
  assumes "zns_inv z"
  shows "is_zone_resource_avail z t \<longleftrightarrow> \<not> is_zone_resource_full z t"
proof -
  have c: "acquired_cnt (res_infos z t) = of_nat (card (holders t z))" "total_cnt (res_infos z t) = of_nat (nr_zones (zp z))" "nr_zones (zp z) < 2 ^ 32"
    using assms by (simp_all add: zns_inv_def zones_fit_def)
  have "unat (of_nat (card (holders t z)) :: u32) = card (holders t z)" "unat (of_nat (nr_zones (zp z)) :: u32) = nr_zones (zp z)"
    using c(3) holders_le [of t z] by (simp_all add: unsigned_of_nat take_bit_nat_eq_self)
  then show ?thesis using holders_le [of t z] unfolding is_zone_resource_avail_def is_zone_resource_full_def c
    by (simp add: word_less_nat_alt word_unat_eq_iff) linarith
qed

section \<open>Management commands\<close>

lemmas zone_ops = close_zone_def finish_zone_def open_zone_def open_closed_def reset_zone_def offline_zone_def release_active_def
  reset_zone_data_def acquire_zone_resource_def release_zone_resource_def change_zone_state_def upd_zone_def

text \<open>Each command changes nothing, or is one step to a descriptor that is in order.\<close>

definition keeps :: "zns_ftl \<Rightarrow> nat \<Rightarrow> zns_ftl \<Rightarrow> bool" where
  "keeps z i z' \<longleftrightarrow> (\<exists>d. zone_step z i d z' \<and> zone_ok z i d)"

lemma keeps_inv: "zns_inv z \<Longrightarrow> i < nr_zones (zp z) \<Longrightarrow> keeps z i z' \<Longrightarrow> zns_inv z'"
  using zns_inv_step by (auto simp: keeps_def)

lemma keepsI: "zone_step z i d z' \<Longrightarrow> zone_ok z i d \<Longrightarrow> keeps z i z'"
  by (auto simp: keeps_def)

text \<open>The commands as steps: the descriptor they leave and the counters they move.\<close>

lemma all_resources: "(\<forall>t. P t) \<longleftrightarrow> P ACTIVE_ZONE \<and> P OPEN_ZONE \<and> P ZRWA_ZONE"
  by (metis zone_resource_type.exhaust)

lemma keeps_refl: "zone_ok z i (zone_descs z i) \<Longrightarrow> keeps z i z"
  using keepsI zone_step_refl by blast

lemma close_step:
  assumes "zone_ok z i (zone_descs z i)"
  shows "zone_step z i ((zone_descs z i)\<lparr>state := ZONE_STATE_CLOSED\<rparr>) (fst (close_zone z i)) \<or> fst (close_zone z i) = z"
  using assms by (cases "state (zone_descs z i)") (simp_all add: zone_ops zone_step_def all_resources zone_ok_def)

lemma close_keeps:
  assumes ok: "zone_ok z i (zone_descs z i)"
  shows "keeps z i (fst (close_zone z i))"
proof (cases "needs OPEN_ZONE (state (zone_descs z i))")
  case True
  then have "zone_ok z i ((zone_descs z i)\<lparr>state := ZONE_STATE_CLOSED\<rparr>)" using ok by (auto simp: zone_ok_def)
  then show ?thesis using close_step [OF ok] keepsI keeps_refl [OF ok] by metis
next
  case False
  then have "fst (close_zone z i) = z" using ok by (cases "state (zone_descs z i)") (simp_all add: close_zone_def)
  then show ?thesis using keeps_refl [OF ok] by simp
qed

lemma finish_keeps:
  assumes ok: "zone_ok z i (zone_descs z i)"
  shows "keeps z i (fst (finish_zone z i))"
proof -
  have "zone_step z i ((zone_descs z i)\<lparr>state := ZONE_STATE_FULL\<rparr>) (fst (finish_zone z i)) \<or> fst (finish_zone z i) = z"
    using ok by (cases "state (zone_descs z i)") (simp_all add: zone_ops zone_step_def all_resources zone_ok_def Let_def)
  moreover have "zone_ok z i ((zone_descs z i)\<lparr>state := ZONE_STATE_FULL\<rparr>)" using ok by (simp add: zone_ok_def)
  ultimately show ?thesis using keepsI keeps_refl [OF ok] by metis
qed

lemma reset_step:
  assumes "zone_ok z i (zone_descs z i)"
  shows "zone_step z i ((zone_descs z i)\<lparr>state := ZONE_STATE_EMPTY, zwp := zslba (zone_descs z i), zrwav := False\<rparr>) (fst (reset_zone z i))"
  using assms by (cases "state (zone_descs z i)") (simp_all add: zone_ops zone_step_def all_resources zone_ok_def Let_def)

lemma reset_keeps:
  assumes ok: "zone_ok z i (zone_descs z i)"
  shows "keeps z i (fst (reset_zone z i))"
  by (rule keepsI [OF reset_step [OF ok]]) (use ok in \<open>simp add: zone_ok_def\<close>)

lemma offline_keeps:
  assumes "zone_ok z i (zone_descs z i)"
  shows "fst (offline_zone z i) = z"
  using assms by (cases "state (zone_descs z i)") (simp_all add: offline_zone_def zone_ok_def)

text \<open>Taking the resources of a zone that is opened, explicitly or by a write.\<close>

lemma acquire_both:
  assumes inv: "zns_inv z" and st: "state (zone_descs z i) = ZONE_STATE_EMPTY" and free: "\<not> is_zone_resource_full z ACTIVE_ZONE" "\<not> is_zone_resource_full z OPEN_ZONE"
    and d: "needs OPEN_ZONE (state d)" "\<not> zrwav d"
  shows "\<exists>z1. acquire_zone_resource (fst (acquire_zone_resource z ACTIVE_ZONE)) OPEN_ZONE = (z1, True) \<and> zone_descs z1 = zone_descs z \<and> zp z1 = zp z
     \<and> zone_step z i d (z1\<lparr>zone_descs := (zone_descs z)(i := d)\<rparr>)"
  using st d free full_iff [OF inv, of ACTIVE_ZONE] full_iff [OF inv, of OPEN_ZONE]
  by (auto simp: acquire_zone_resource_def is_zone_resource_avail_def is_zone_resource_full_def zone_step_def all_resources)

lemma acquire_open:
  assumes "state (zone_descs z i) = ZONE_STATE_CLOSED" and "needs OPEN_ZONE (state d)" "zrwav d = zrwav (zone_descs z i)" and "acquire_zone_resource z OPEN_ZONE = (z1, ok)"
  shows "if ok then zone_descs z1 = zone_descs z \<and> zp z1 = zp z \<and> zone_step z i d (z1\<lparr>zone_descs := (zone_descs z)(i := d)\<rparr>) else z1 = z"
  using assms by (auto simp: acquire_zone_resource_def zone_step_def all_resources split: if_splits)

lemma opened_ok:
  assumes "zone_ok z i d" and "zone_lbas z \<noteq> 0" and "state d = ZONE_STATE_EMPTY \<or> needs ACTIVE_ZONE (state d)" and "needs OPEN_ZONE s"
  shows "zone_ok z i (d\<lparr>state := s\<rparr>)"
proof -
  have "0 < unat (zone_lbas z)" using assms(2) by (simp add: unat_gt_0)
  then show ?thesis using assms by (auto simp: zone_ok_def)
qed

lemma change_state_eq: "change_zone_state z i s = z\<lparr>zone_descs := (zone_descs z)(i := (zone_descs z i)\<lparr>state := s\<rparr>)\<rparr>"
  by (simp add: change_zone_state_def upd_zone_def)

lemma zns_invD:
  assumes "zns_inv z" and "i < nr_zones (zp z)"
  shows "zone_ok z i (zone_descs z i)" "zone_lbas z \<noteq> 0"
  using assms by (auto simp: zns_inv_def zones_fit_def)

lemma open_keeps:
  assumes inv: "zns_inv z" and i: "i < nr_zones (zp z)"
  shows "keeps z i (fst (open_zone z i False))"
proof -
  let ?d = "(zone_descs z i)\<lparr>state := ZONE_STATE_OPENED_EXPL\<rparr>"
  note ok = zns_invD [OF inv i]
  show ?thesis
  proof (cases "state (zone_descs z i)")
    case ZONE_STATE_EMPTY
    have d: "zone_ok z i ?d" using opened_ok [OF ok] ZONE_STATE_EMPTY by simp
    have emp: "\<not> zrwav (zone_descs z i)" using ok(1) ZONE_STATE_EMPTY by (simp add: zone_ok_def)
    show ?thesis
    proof (cases "is_zone_resource_full z ACTIVE_ZONE \<or> is_zone_resource_full z OPEN_ZONE")
      case True
      then show ?thesis using ZONE_STATE_EMPTY keeps_refl [OF ok(1)] by (auto simp: open_zone_def)
    next
      case False
      then obtain z1 where z1: "acquire_zone_resource (fst (acquire_zone_resource z ACTIVE_ZONE)) OPEN_ZONE = (z1, True)" "zone_descs z1 = zone_descs z"
        "zone_step z i ?d (z1\<lparr>zone_descs := (zone_descs z)(i := ?d)\<rparr>)" using acquire_both [OF inv ZONE_STATE_EMPTY, of ?d] emp by auto
      then show ?thesis using False ZONE_STATE_EMPTY keepsI [OF z1(3) d] by (simp add: open_zone_def open_closed_def change_state_eq)
    qed
  next
    case ZONE_STATE_CLOSED
    have d: "zone_ok z i ?d" using opened_ok [OF ok] ZONE_STATE_CLOSED by simp
    obtain z1 b where z1: "acquire_zone_resource z OPEN_ZONE = (z1, b)" by (cases "acquire_zone_resource z OPEN_ZONE")
    have op: "open_zone z i False = (if \<not> b then (z1, NVME_SC_ZNS_NO_OPEN_ZONE) else (change_zone_state z1 i ZONE_STATE_OPENED_EXPL, NVME_SC_SUCCESS))"
      using ZONE_STATE_CLOSED z1 by (simp add: open_zone_def open_closed_def)
    show ?thesis
    proof (cases b)
      case True
      then have "zone_descs z1 = zone_descs z" "zone_step z i ?d (z1\<lparr>zone_descs := (zone_descs z)(i := ?d)\<rparr>)"
        using acquire_open [OF ZONE_STATE_CLOSED _ _ z1, of ?d] by simp_all
      then show ?thesis using True keepsI [OF _ d] by (simp add: op change_state_eq)
    next
      case False
      then have "z1 = z" using acquire_open [OF ZONE_STATE_CLOSED _ _ z1, of ?d] by simp
      then show ?thesis using False op keeps_refl [OF ok(1)] by simp
    qed
  next
    case ZONE_STATE_OPENED_IMPL
    have d: "zone_ok z i ?d" using opened_ok [OF ok] ZONE_STATE_OPENED_IMPL by simp
    show ?thesis by (rule keepsI [OF _ d]) (use ZONE_STATE_OPENED_IMPL in \<open>simp add: open_zone_def change_state_eq zone_step_def all_resources\<close>)
  qed (use keeps_refl [OF ok(1)] in \<open>simp_all add: open_zone_def\<close>)
qed

text \<open>With a random write area the zone takes a third resource.\<close>

lemma open_area_keeps:
  assumes inv: "zns_inv z" and i: "i < nr_zones (zp z)" and na: "no_area z"
  shows "keeps z i (fst (open_zone z i True))"
proof (cases "state (zone_descs z i) = ZONE_STATE_EMPTY \<and> \<not> is_zone_resource_full z ACTIVE_ZONE \<and> \<not> is_zone_resource_full z OPEN_ZONE \<and> \<not> is_zone_resource_full z ZRWA_ZONE")
  case True
  let ?d = "(zone_descs z i)\<lparr>zrwav := True, state := ZONE_STATE_OPENED_EXPL\<rparr>"
  note ok = zns_invD [OF inv i]
  have "zone_ok z i ((zone_descs z i)\<lparr>state := ZONE_STATE_OPENED_EXPL\<rparr>)" using opened_ok [OF ok] True by simp
  then have d: "zone_ok z i ?d" using na by (simp add: zone_ok_def)
  have "zone_step z i ?d (fst (open_zone z i True))"
    using True full_iff [OF inv, of ACTIVE_ZONE] full_iff [OF inv, of OPEN_ZONE] full_iff [OF inv, of ZRWA_ZONE]
    by (simp add: open_zone_def open_closed_def acquire_zone_resource_def is_zone_resource_avail_def zone_step_def all_resources change_state_eq upd_zone_def)
  then show ?thesis by (rule keepsI [OF _ d])
next
  case False
  then have "fst (open_zone z i True) = z \<or> open_zone z i True = open_zone z i False"
    by (cases "state (zone_descs z i)") (auto simp: open_zone_def)
  then show ?thesis using open_keeps [OF inv i] keeps_refl [OF zns_invD(1) [OF inv i]] by auto
qed

lemma zmgmt_send_inv:
  assumes inv: "zns_inv z" and z': "zmgmt_send junk z lba a opt = Some (z', st)" and na: "a = 3 \<and> opt \<longrightarrow> no_area z"
  shows "zns_inv z' \<and> zp z' = zp z \<and> sp (zssd z') = sp (zssd z)"
proof (cases "a \<in> {1, 2, 3, 4, 5, 0x11}")
  case False
  then show ?thesis using inv z' by (auto simp: zmgmt_send_def Let_def split: if_splits)
next
  case True
  let ?i = "lba_to_zone z lba"
  have i: "?i < nr_zones (zp z)" using z' True by (simp add: zmgmt_send_def Let_def split: if_splits)
  note ok = zns_invD(1) [OF inv i]
  have fl: "z' = z" if "flush_explicit_zrwa z lba = Some (z', st)"
    using that ok by (auto simp: flush_explicit_zrwa_def Let_def zone_ok_def no_area_def split: if_splits)
  have op: "keeps z ?i (fst (open_zone z ?i opt))" if "a = 3" using open_keeps [OF inv i] open_area_keeps [OF inv i] na that by (cases opt) auto
  have "z' \<in> {z, fst (close_zone z ?i), fst (finish_zone z ?i), fst (reset_zone z ?i), fst (offline_zone z ?i)} \<or> a = 3 \<and> z' = fst (open_zone z ?i opt)"
    using z' True i fl by (auto simp: zmgmt_send_def Let_def split: if_splits)
  then have "keeps z ?i z'" using close_keeps [OF ok] finish_keeps [OF ok] op reset_keeps [OF ok] offline_keeps [OF ok] keeps_refl [OF ok] by auto
  then show ?thesis using keeps_inv [OF inv i] by (auto simp: keeps_def zone_step_def)
qed

section \<open>Reads and writes\<close>

text \<open>The transfer loops leave the zones alone.\<close>

definition zones_same :: "zns_ftl \<Rightarrow> zns_ftl \<Rightarrow> bool" where
  "zones_same z z' \<longleftrightarrow> zp z' = zp z \<and> sp (zssd z') = sp (zssd z) \<and> zone_descs z' = zone_descs z \<and> res_infos z' = res_infos z"

lemma zones_same_inv: "zones_same z z' \<Longrightarrow> zns_inv z' = zns_inv z \<and> no_area z' = no_area z"
  using zone_ok_params [of z' z] by (simp add: zones_same_def zns_inv_def holders_def)

lemma zones_same_refl [simp]: "zones_same z z" "zones_same z (z\<lparr>report_buffer := r\<rparr>)"
  by (simp_all add: zones_same_def)

lemma zones_same_nand: "ssd_advance_nand (zssd z) e c = Some (dev, e', c', t) \<Longrightarrow> zones_same z (z\<lparr>zssd := dev\<rparr>)"
  using ssd_advance_nand_frame by (fastforce simp: zones_same_def nand_same_def)

lemma zones_same_trans: "zones_same a b \<Longrightarrow> zones_same b c \<Longrightarrow> zones_same a c"
  by (simp add: zones_same_def)

lemma program_pages_step:
  assumes "program_pages req buf t0 lpn n (ns, latest) = Some r" and "n \<noteq> 0"
  shows "\<exists>m<n. \<exists>l ns1 t. zones_same (zftl ns) (zftl ns1) \<and> program_pages req buf t0 l m (ns1, t) = Some r"
proof -
  define osp pgs where "osp = pgs_per_oneshotpg (sp (zssd (zftl ns)))" and "pgs = min n (osp - g_pg (lpn_to_ppa (zftl ns) lpn) mod osp)"
  have "osp \<noteq> 0" using assms by (subst (asm) program_pages.simps) (simp add: osp_def Let_def split: if_splits)
  then have m: "n - pgs < n" using min_part_less [OF assms(2)] by (simp only: pgs_def)
  have "\<exists>ns1 t. program_pages req buf t0 (lpn + pgs) (n - pgs) (ns1, t) = Some r \<and> zones_same (zftl ns) (zftl ns1)"
    using assms by (subst (asm) program_pages.simps) (unfold Let_def osp_def [symmetric], unfold pgs_def [symmetric],
      auto split: Option.bind_splits if_splits intro!: exI elim: conjI [rotated] intro: zones_same_nand)
  then show ?thesis using m by blast
qed

lemma program_pages_same: "program_pages req buf t0 lpn n (ns, latest) = Some (ns', t) \<Longrightarrow> zones_same (zftl ns) (zftl ns')"
proof (induction n arbitrary: lpn ns latest rule: less_induct)
  case (less n)
  show ?case
  proof (cases "n = 0")
    case True
    then show ?thesis using less.prems by (simp add: program_pages.simps)
  next
    case False
    then show ?thesis using program_pages_step [OF less.prems] less.IH zones_same_trans by metis
  qed
qed

lemma read_pages_step:
  assumes "read_pages t0 lpn n (ns, c, latest) = Some r" and "n \<noteq> 0"
  shows "\<exists>m<n. \<exists>l ns1 c1 t. zones_same (zftl ns) (zftl ns1) \<and> read_pages t0 l m (ns1, c1, t) = Some r"
proof -
  define fpp pgs where "fpp = pgs_per_flashpg (sp (zssd (zftl ns)))" and "pgs = min n (fpp - g_pg (lpn_to_ppa (zftl ns) lpn) mod fpp)"
  have "fpp \<noteq> 0" using assms by (subst (asm) read_pages.simps) (simp add: fpp_def Let_def split: if_splits)
  then have m: "n - pgs < n" using min_part_less [OF assms(2)] by (simp only: pgs_def)
  have "\<exists>ns1 c1 t. read_pages t0 (lpn + pgs) (n - pgs) (ns1, c1, t) = Some r \<and> zones_same (zftl ns) (zftl ns1)"
    using assms by (subst (asm) read_pages.simps) (unfold Let_def fpp_def [symmetric], unfold pgs_def [symmetric],
      auto split: Option.bind_splits if_splits intro!: exI elim: conjI [rotated] intro: zones_same_nand)
  then show ?thesis using m by blast
qed

lemma read_pages_same: "read_pages t0 lpn n (ns, c, latest) = Some (ns', c', t) \<Longrightarrow> zones_same (zftl ns) (zftl ns')"
proof (induction n arbitrary: lpn ns c latest rule: less_induct)
  case (less n)
  show ?case
  proof (cases "n = 0")
    case True
    then show ?thesis using less.prems by (simp add: read_pages.simps)
  next
    case False
    then show ?thesis using read_pages_step [OF less.prems] less.IH zones_same_trans by metis
  qed
qed


text \<open>Zone arithmetic below 2 TiB.\<close>

lemma unat_widen [simp]: "unat (ucast (w :: u32) :: u64) = unat w"
  by (simp add: unsigned_ucast_eq take_bit_nat_eq_self order_less_le_trans [OF unsigned_less])

lemma zone_numbers:
  assumes "zns_inv z" and "i < nr_zones (zp z)"
  shows "i * unat (zone_lbas z) + unat (zone_lbas z) \<le> 2 ^ 32" "unat (zone_to_slba z i) = i * unat (zone_lbas z)"
    "unat (zone_capacity (zone_descs z i)) = unat (zone_lbas z)" "1 < unat (zone_lbas z)"
proof -
  have f: "nr_zones (zp z) * unat (zone_lbas z) \<le> 2 ^ 32" "nr_zones (zp z) < 2 ^ 32" "1 < zone_lbas z" using assms by (simp_all add: zns_inv_def zones_fit_def)
  have "(i + 1) * unat (zone_lbas z) \<le> nr_zones (zp z) * unat (zone_lbas z)" using assms(2) by (intro mult_le_mono1) simp
  then show le: "i * unat (zone_lbas z) + unat (zone_lbas z) \<le> 2 ^ 32" using f(1) by simp
  show L: "1 < unat (zone_lbas z)" using f(3) by (simp add: word_less_nat_alt)
  have "unat (of_nat i :: u32) = i" using assms(2) f(2) by (simp add: unsigned_of_nat take_bit_nat_eq_self)
  then have "unat (of_nat i * zone_lbas z :: u32) = i * unat (zone_lbas z)" using le L by (subst unat_mult_lem [THEN iffD1]) simp_all
  then show "unat (zone_to_slba z i) = i * unat (zone_lbas z)" by (simp add: zone_to_slba_def)
  show "unat (zone_capacity (zone_descs z i)) = unat (zone_lbas z)" using zns_invD(1) [OF assms] by (simp add: zone_ok_def)
qed

lemma boundary_room:
  assumes inv: "zns_inv z" and i: "lba_to_zone z lba < nr_zones (zp z)" and c: "check_boundary z lba n"
    and lba: "unat lba \<le> 2 ^ 32" and n: "0 < unat n" "unat n \<le> 2 ^ 16"
  shows "unat lba + unat n \<le> (lba_to_zone z lba + 1) * unat (zone_lbas z)"
proof -
  let ?L = "unat (zone_lbas z)"
  have L: "1 < ?L" using zone_numbers(4) [OF inv i] .
  have u: "unat (lba + n - 1) = unat lba + unat n - 1"
  proof -
    have "unat (lba + n) = unat lba + unat n" using lba n by (subst unat_add_lem [THEN iffD1]) simp_all
    then show ?thesis using n by (subst unat_minus_one) (auto simp: word_neq_0_conv word_less_nat_alt)
  qed
  have q: "(unat lba + unat n - 1) div ?L < 2 ^ 32"
  proof -
    have "(unat lba + unat n - 1) div ?L \<le> (unat lba + unat n - 1) div 2" using L by (intro div_le_mono2) simp_all
    then show ?thesis using lba n by simp
  qed
  have "lba_to_zone z lba = (unat lba + unat n - 1) div ?L"
    using c q u by (simp add: check_boundary_def lba_to_zone_def unsigned_ucast_eq take_bit_nat_eq_self unat_div take_bit_eq_mod)
  moreover have "unat lba + unat n - 1 < ((unat lba + unat n - 1) div ?L + 1) * ?L" using L div_less_iff_less_mult [of ?L "unat lba + unat n - 1" "(unat lba + unat n - 1) div ?L + 1"] by simp
  ultimately show ?thesis using n by simp
qed


text \<open>Before the transfer the zone is opened; on an error nothing has changed.\<close>

lemma enter_write_cases:
  assumes inv: "zns_inv z" and i: "i < nr_zones (zp z)" and e: "enter_write z i lba = (z1, err)"
  shows "if err = None then keeps z i z1 \<and> needs OPEN_ZONE (state (zone_descs z1 i)) \<and> (\<exists>s. zone_descs z1 i = (zone_descs z i)\<lparr>state := s\<rparr>) else z1 = z"
proof -
  let ?d = "(zone_descs z i)\<lparr>state := ZONE_STATE_OPENED_IMPL\<rparr>"
  note ok = zns_invD [OF inv i]
  have idd: "\<exists>s. zone_descs z i = (zone_descs z i)\<lparr>state := s\<rparr>" by (rule exI [of _ "state (zone_descs z i)"]) simp
  show ?thesis
  proof (cases "state (zone_descs z i)")
    case ZONE_STATE_EMPTY
    have d: "zone_ok z i ?d" using opened_ok [OF ok] ZONE_STATE_EMPTY by simp
    have emp: "\<not> zrwav (zone_descs z i)" using ok(1) ZONE_STATE_EMPTY by (simp add: zone_ok_def)
    show ?thesis
    proof (cases "lba \<noteq> zslba (zone_descs z i) \<or> is_zone_resource_full z ACTIVE_ZONE \<or> is_zone_resource_full z OPEN_ZONE")
      case True
      then show ?thesis using ZONE_STATE_EMPTY e by (auto simp: enter_write_def Let_def split: if_splits)
    next
      case False
      then obtain z1' where z1': "acquire_zone_resource (fst (acquire_zone_resource z ACTIVE_ZONE)) OPEN_ZONE = (z1', True)" "zone_descs z1' = zone_descs z"
        "zone_step z i ?d (z1'\<lparr>zone_descs := (zone_descs z)(i := ?d)\<rparr>)" using acquire_both [OF inv ZONE_STATE_EMPTY, of ?d] emp by auto
      have "z1 = z1'\<lparr>zone_descs := (zone_descs z)(i := ?d)\<rparr>" "err = None" using False ZONE_STATE_EMPTY e z1'(1,2) by (simp_all add: enter_write_def Let_def change_state_eq)
      then show ?thesis using keepsI [OF z1'(3) d] by auto
    qed
  next
    case ZONE_STATE_CLOSED
    have d: "zone_ok z i ?d" using opened_ok [OF ok] ZONE_STATE_CLOSED by simp
    obtain z2 b where z2: "acquire_zone_resource z OPEN_ZONE = (z2, b)" by (cases "acquire_zone_resource z OPEN_ZONE")
    note a = acquire_open [OF ZONE_STATE_CLOSED _ _ z2, of ?d]
    show ?thesis
    proof (cases b)
      case True
      then have "zone_descs z2 = zone_descs z" "zone_step z i ?d (z2\<lparr>zone_descs := (zone_descs z)(i := ?d)\<rparr>)" using a by simp_all
      then show ?thesis using True e z2 ZONE_STATE_CLOSED keepsI [OF _ d] by (auto simp: enter_write_def Let_def change_state_eq)
    next
      case False
      then show ?thesis using a e z2 ZONE_STATE_CLOSED by (auto simp: enter_write_def Let_def)
    qed
  qed (use keeps_refl [OF ok(1)] e idd in \<open>auto simp: enter_write_def Let_def\<close>)
qed

text \<open>The write pointer moves; at the end of the zone the zone becomes full and gives its resources back.\<close>

lemma pointer_moves:
  assumes inv: "zns_inv z" and i: "i < nr_zones (zp z)" and op: "needs OPEN_ZONE (state (zone_descs z i))" "\<not> zrwav (zone_descs z i)"
    and room: "unat (zwp (zone_descs z i)) + unat n \<le> (i + 1) * unat (zone_lbas z)"
  shows "keeps z i (increase_write_ptr z i n)"
    "state (zone_descs (increase_write_ptr z i n) i)
       = (if unat (zwp (zone_descs z i)) + unat n = (i + 1) * unat (zone_lbas z) then ZONE_STATE_FULL else state (zone_descs z i))"
    "zwp (zone_descs (increase_write_ptr z i n) i) = zwp (zone_descs z i) + ucast n"
proof -
  let ?d = "zone_descs z i" let ?cur = "zwp ?d + ucast n" let ?L = "unat (zone_lbas z)"
  note ok = zns_invD(1) [OF inv i] and num = zone_numbers [OF inv i]
  have cur: "unat ?cur = unat (zwp ?d) + unat n" using room num(1) by (subst unat_add_lem [THEN iffD1]) simp_all
  have en: "unat (zone_to_slba z i + zone_capacity ?d) = (i + 1) * ?L" using num by (subst unat_add_lem [THEN iffD1]) simp_all
  have full: "?cur = zone_to_slba z i + zone_capacity ?d \<longleftrightarrow> unat (zwp ?d) + unat n = (i + 1) * ?L" using cur en by (simp add: word_unat_eq_iff)
  have k: "zone_ok z i (?d\<lparr>zwp := ?cur, state := if unat (zwp ?d) + unat n = (i + 1) * ?L then ZONE_STATE_FULL else state ?d\<rparr>)"
    using ok op cur room by (auto simp: zone_ok_def)
  have st: "zone_step z i (?d\<lparr>zwp := ?cur, state := if unat (zwp ?d) + unat n = (i + 1) * ?L then ZONE_STATE_FULL else state ?d\<rparr>) (increase_write_ptr z i n)"
    using op by (auto simp: increase_write_ptr_def Let_def full zone_step_def all_resources release_zone_resource_def change_zone_state_def upd_zone_def)
  show "keeps z i (increase_write_ptr z i n)" by (rule keepsI [OF st k])
  show "state (zone_descs (increase_write_ptr z i n) i) = (if unat (zwp ?d) + unat n = (i + 1) * ?L then ZONE_STATE_FULL else state ?d)"
    "zwp (zone_descs (increase_write_ptr z i n) i) = ?cur" using st by (simp_all add: zone_step_def)
qed


lemma nr_lba_bounds: "0 < unat (nr_lba c)" "unat (nr_lba c) \<le> 2 ^ 16" "unat (ucast (nr_lba c) :: u32) = unat (nr_lba c)"
proof -
  have r: "unat (rw_length c) < 2 ^ 16" using unsigned_less [of "rw_length c"] by simp
  have w: "unat (ucast (rw_length c) :: u64) = unat (rw_length c)"
    by (simp add: unsigned_ucast_eq take_bit_nat_eq_self order_less_le_trans [OF unsigned_less])
  have "unat (nr_lba c) = unat (rw_length c) + 1" unfolding nr_lba_def using w r by (subst unat_add_lem [THEN iffD1]) simp_all
  then show "0 < unat (nr_lba c)" "unat (nr_lba c) \<le> 2 ^ 16" "unat (ucast (nr_lba c) :: u32) = unat (nr_lba c)"
    using r by (simp_all add: unsigned_ucast_eq take_bit_nat_eq_self)
qed

text \<open>What a successful sequential write does to the zone table.\<close>

definition appended :: "zns_ftl \<Rightarrow> nvme_command \<Rightarrow> zns_ftl \<Rightarrow> bool" where
  "appended z c z' \<longleftrightarrow>
     (let i = lba_to_zone z (slba c); d = zone_descs z i; d' = zone_descs z' i; top = (i + 1) * unat (zone_lbas z)
      in i < nr_zones (zp z) \<and> slba c = zwp d \<and> (state d = ZONE_STATE_EMPTY \<or> needs ACTIVE_ZONE (state d))
       \<and> unat (zwp d') = unat (zwp d) + unat (nr_lba c) \<and> unat (zwp d') \<le> top
       \<and> (state d' = ZONE_STATE_FULL \<longleftrightarrow> unat (zwp d') = top)
       \<and> (unat (zwp d') < top \<longrightarrow> needs OPEN_ZONE (state d'))
       \<and> (\<forall>j. j \<noteq> i \<longrightarrow> zone_descs z' j = zone_descs z j))"

lemma keeps_other: "keeps z i z' \<Longrightarrow> j \<noteq> i \<Longrightarrow> zone_descs z' j = zone_descs z j"
  "keeps z i z' \<Longrightarrow> zp z' = zp z" "keeps z i z' \<Longrightarrow> sp (zssd z') = sp (zssd z)"
  by (auto simp: keeps_def zone_step_def)

lemma enter_write_source:
  assumes "enter_write z i lba = (z1, None)"
  shows "state (zone_descs z i) = ZONE_STATE_EMPTY \<or> needs ACTIVE_ZONE (state (zone_descs z i))"
  using assms by (cases "state (zone_descs z i)") (simp_all add: enter_write_def Let_def)

lemma append_zone:
  assumes inv: "zns_inv z" and i: "lba_to_zone z (slba c) < nr_zones (zp z)" and b: "check_boundary z (slba c) (nr_lba c)"
    and wp: "slba c = zwp (zone_descs z (lba_to_zone z (slba c)))" "\<not> zrwav (zone_descs z (lba_to_zone z (slba c)))"
    and e: "enter_write z (lba_to_zone z (slba c)) (slba c) = (z1, None)"
  defines "z2 \<equiv> increase_write_ptr z1 (lba_to_zone z (slba c)) (ucast (nr_lba c))"
  shows "zns_inv z2 \<and> zp z2 = zp z \<and> sp (zssd z2) = sp (zssd z) \<and> appended z c z2"
proof -
  define i where "i = lba_to_zone z (slba c)"
  have il: "i < nr_zones (zp z)" using assms(2) by (simp add: i_def)
  note num = zone_numbers [OF inv il] and ok = zns_invD(1) [OF inv il] and nb = nr_lba_bounds [of c]
  obtain s where k1: "keeps z i z1" "needs OPEN_ZONE (state (zone_descs z1 i))" "zone_descs z1 i = (zone_descs z i)\<lparr>state := s\<rparr>"
    using enter_write_cases [OF inv il e [folded i_def], unfolded if_P [OF refl]] by blast
  have w: "zwp (zone_descs z1 i) = slba c" "\<not> zrwav (zone_descs z1 i)" using wp k1(3) by (simp_all add: i_def)
  have lb: "unat (slba c) \<le> 2 ^ 32" using ok num(1) wp(1) [folded i_def] by (simp add: zone_ok_def)
  have p1: "zp z1 = zp z" "zone_lbas z1 = zone_lbas z" using keeps_other(2) [OF k1(1)] by (simp_all add: zone_lbas_def)
  have inv1: "zns_inv z1" by (rule keeps_inv [OF inv il k1(1)])
  have i1: "i < nr_zones (zp z1)" using il p1 by simp
  have top: "unat (slba c) + unat (nr_lba c) \<le> (i + 1) * unat (zone_lbas z)"
    using boundary_room [OF inv assms(2) b lb nb(1,2)] by (simp add: i_def)
  have room: "unat (zwp (zone_descs z1 i)) + unat (ucast (nr_lba c) :: u32) \<le> (i + 1) * unat (zone_lbas z1)" using top by (simp add: w(1) nb(3) p1)
  note m = pointer_moves [OF inv1 i1 k1(2) w(2) room]
  have z2: "z2 = increase_write_ptr z1 i (ucast (nr_lba c))" by (simp add: z2_def i_def)
  have u: "unat (zwp (zone_descs z2 i)) = unat (slba c) + unat (nr_lba c)"
    unfolding z2 m(3) w(1) using top num(1) nb(3) by (subst unat_add_lem [THEN iffD1]) simp_all
  have s2: "state (zone_descs z2 i) = (if unat (slba c) + unat (nr_lba c) = (i + 1) * unat (zone_lbas z) then ZONE_STATE_FULL else state (zone_descs z1 i))"
    using m(2) by (simp only: z2 w(1) nb(3) p1)
  have o: "zone_descs z2 j = zone_descs z j" if "j \<noteq> i" for j using keeps_other(1) [OF m(1) that] keeps_other(1) [OF k1(1) that] by (simp add: z2)
  have "appended z c z2" unfolding appended_def Let_def i_def [symmetric]
    using il wp(1) [folded i_def] u s2 o top k1(2) enter_write_source [OF e [folded i_def]] by (auto split: if_splits)
  moreover have "zns_inv z2" "zp z2 = zp z" "sp (zssd z2) = sp (zssd z)"
    using keeps_inv [OF inv1 i1 m(1)] keeps_other(2,3) [OF m(1)] keeps_other(3) [OF k1(1)] p1 by (simp_all add: z2)
  ultimately show ?thesis by simp
qed


lemma write_errors_differ: "x \<in> {NVME_SC_ZNS_INVALID_WRITE, NVME_SC_ZNS_ERR_BOUNDARY, NVME_SC_ZNS_NO_ACTIVE_ZONE, NVME_SC_ZNS_NO_OPEN_ZONE, NVME_SC_ZNS_ERR_OFFLINE}
    \<Longrightarrow> x \<noteq> NVME_SC_SUCCESS"
  by (auto simp: zns_status_defs)

lemma enter_write_error: "enter_write z i lba = (z1, Some st) \<Longrightarrow> st \<noteq> NVME_SC_SUCCESS"
  by (rule write_errors_differ) (cases "state (zone_descs z i)", auto simp: enter_write_def Let_def split: if_splits prod.splits)

lemma write_seq_outcome:
  assumes inv: "zns_inv (zftl ns)" and w: "zns_write_seq dma ns req ret = Some (ns', ret', ok)"
    and sq: "\<not> zrwav (zone_descs (zftl ns) (lba_to_zone (zftl ns) (slba (cmd req))))"
  shows "ok \<and> zns_inv (zftl ns') \<and> zp (zftl ns') = zp (zftl ns) \<and> sp (zssd (zftl ns')) = sp (zssd (zftl ns))
    \<and> (if res_status ret' = NVME_SC_SUCCESS then appended (zftl ns) (cmd req) (zftl ns') else zftl ns' = zftl ns)"
proof -
  define z lba n i where "z = zftl ns" and "lba = slba (cmd req)" and "n = nr_lba (cmd req)" and "i = lba_to_zone z lba"
  define spp where "spp = sp (zssd z)"
  have ne: "NVME_SC_ZNS_INVALID_WRITE \<noteq> NVME_SC_SUCCESS" "NVME_SC_ZNS_ERR_BOUNDARY \<noteq> NVME_SC_SUCCESS" by (simp_all add: zns_status_defs)
  have bad: "\<not> (zone_lbas z = 0 \<or> secs_per_pg spp = 0 \<or> write_unit_size spp = 0 \<or> i \<ge> nr_zones (zp z))"
    (is "\<not> ?B")
  proof
    assume b: ?B
    have "zns_write_seq dma ns req ret = None" unfolding zns_write_seq_def Let_def z_def [symmetric] unfolding lba_def [symmetric] spp_def [symmetric]
      unfolding i_def [symmetric] if_P [OF b] ..
    then show False using w by simp
  qed
  note W = w [unfolded zns_write_seq_def Let_def, folded z_def, folded lba_def n_def spp_def, folded i_def, unfolded if_not_P [OF bad]]
  have il: "i < nr_zones (zp z)" using bad by simp
  show ?thesis
  proof (cases "unat (LBA_TO_BYTE n) mod write_unit_size spp \<noteq> 0 \<or> \<not> check_boundary z lba n \<or> lba \<noteq> zwp (zone_descs z i)")
    case True
    then have "ns' = ns\<lparr>zftl := z\<rparr> \<and> res_status ret' \<noteq> NVME_SC_SUCCESS \<and> ok" using W ne by (auto simp: finish_write_def split: if_splits)
    then show ?thesis using inv by (simp add: z_def)
  next
    case False
    obtain z1 err where e: "enter_write z i lba = (z1, err)" by (cases "enter_write z i lba")
    show ?thesis
    proof (cases err)
      case (Some st)
      then have "z1 = z" using enter_write_cases [OF inv [folded z_def] il e] by simp
      then have "ns' = ns\<lparr>zftl := z\<rparr> \<and> res_status ret' \<noteq> NVME_SC_SUCCESS \<and> ok"
        using W False e Some enter_write_error [of z i lba z1 st] by (auto simp: finish_write_def)
      then show ?thesis using inv by (simp add: z_def)
    next
      case None
      define z2 where "z2 = increase_write_ptr z1 i (ucast n)"
      have a: "zns_inv z2 \<and> zp z2 = zp z \<and> sp (zssd z2) = sp (zssd z) \<and> appended z (cmd req) z2" unfolding z2_def i_def lba_def n_def
        by (rule append_zone) (use inv il False e None sq in \<open>simp_all add: z_def i_def lba_def n_def\<close>)
      obtain ev t latest where p: "program_pages req None t (lba_to_lpn z lba) (lba_to_lpn z (lba + n - 1) + 1 - lba_to_lpn z lba)
          (ns\<lparr>zftl := z2, zenv := ev\<rparr>, t) = Some (ns', latest)" and r: "res_status ret' = NVME_SC_SUCCESS" "ok"
        using W False e None by (auto simp: finish_write_def z2_def split: Option.bind_splits)
      have same: "zones_same z2 (zftl ns')" using program_pages_same [OF p] by simp
      then have "appended z (cmd req) (zftl ns')" using a by (simp add: appended_def zones_same_def)
      then show ?thesis using a r same zones_same_inv [OF same] by (simp add: z_def zones_same_def)
    qed
  qed
qed

text \<open>
  A zone with a random write area of size 0 takes no write: behind the pointer a write is refused, and at or past it
  the size of the flush divides by 0.
\<close>

lemma area_zone:
  assumes "no_area z"
  shows "zone_lbas z = 65536" "lpns_per_zone z = 8192" "lpn_to_zone z (lba_to_lpn z lba) = lba_to_zone z lba"
proof -
  show L: "zone_lbas z = 65536" "lpns_per_zone z = 8192" using assms by (simp_all add: no_area_def zone_lbas_def lpns_per_zone_def ZONE_SIZE_def drop_bit_eq_div)
  have "unat (lba div 65536) = unat lba div 65536" by (simp add: unat_div)
  then show "lpn_to_zone z (lba_to_lpn z lba) = lba_to_zone z lba"
    using assms L by (simp add: no_area_def lpn_to_zone_def lba_to_lpn_def lba_to_zone_def unsigned_ucast_eq take_bit_eq_mod flip: div_mult2_eq)
qed

lemma wrapped_write_zone:
  assumes "zones_fit z" and "zone_lbas z = 65536" and "lba + nr_lba c - 1 < lba"
  shows "nr_zones (zp z) \<le> lba_to_zone z lba"
proof -
  note nb = nr_lba_bounds(1,2) [of c]
  have hi: "2 ^ 64 - 2 ^ 16 \<le> unat lba"
  proof (rule ccontr)
    assume "\<not> 2 ^ 64 - 2 ^ 16 \<le> unat lba"
    then have "unat (lba + nr_lba c) = unat lba + unat (nr_lba c)" using nb by (subst unat_add_lem [THEN iffD1]) simp_all
    then have "unat (lba + nr_lba c - 1) = unat lba + unat (nr_lba c) - 1" using nb by (subst unat_minus_one) (auto simp: word_neq_0_conv word_less_nat_alt)
    then show False using assms(3) nb by (simp add: word_less_nat_alt)
  qed
  have "unat lba < 2 ^ 64" using unsigned_less [of lba] by simp
  then have "unat lba div 65536 = 2 ^ 48 - 1" using hi by simp
  then have "lba_to_zone z lba = 2 ^ 32 - 1" using assms(2) by (simp add: lba_to_zone_def unsigned_ucast_eq take_bit_eq_mod unat_div)
  then show ?thesis using assms(1) by (simp add: zones_fit_def)
qed

lemma enter_zrwa_refuses:
  assumes "zone_ok z i (zone_descs z i)" and "zrwav (zone_descs z i)" and "enter_zrwa z i = Some (z1, err)" and "zrwa_size (zp z) = 0"
  shows "z1 = z \<and> err \<noteq> Some NVME_SC_SUCCESS"
proof -
  have "snd (buffer_allocate b 0) = 0" for b by (simp add: buffer_allocate_def)
  moreover have "zp (fst (acquire_zone_resource z t)) = zp z" for t by (simp add: acquire_zone_resource_def)
  ultimately show ?thesis using assms
    by (cases "state (zone_descs z i)") (auto simp: enter_zrwa_def Let_def zone_ok_def zns_status_defs split_beta acquire_zone_resource_def split: if_splits)
qed

lemma zrwa_write_outcome:
  assumes inv: "zns_inv (zftl ns)" and na: "no_area (zftl ns)" and zr: "zrwav (zone_descs (zftl ns) (lba_to_zone (zftl ns) (slba (cmd req))))"
    and w: "zns_write_zrwa dma ns req ret = Some (ns', ret', ok)"
  shows "ok \<and> zftl ns' = zftl ns \<and> res_status ret' \<noteq> NVME_SC_SUCCESS"
proof -
  define z lba n i where "z = zftl ns" and "lba = slba (cmd req)" and "n = nr_lba (cmd req)" and "i = lba_to_zone z lba"
  define wp where "wp = zwp (zone_descs z i)"
  have A: "lbas_per_zrwa (zp z) = 0" "lbas_per_zrwafg (zp z) = 0" "zrwa_size (zp z) = 0" using na by (simp_all add: z_def no_area_def)
  have L: "zone_lbas z = 65536" using area_zone(1) na by (simp add: z_def)
  have ne: "NVME_SC_ZNS_INVALID_WRITE \<noteq> NVME_SC_SUCCESS" "NVME_SC_ZNS_ERR_BOUNDARY \<noteq> NVME_SC_SUCCESS" by (simp_all add: zns_status_defs)
  note W = w [unfolded zns_write_zrwa_def Let_def, folded z_def, folded lba_def n_def, folded i_def, folded wp_def]
  have il: "i < nr_zones (zp z)" using W by (simp split: if_splits)
  have ok: "zone_ok z i (zone_descs z i)" using zns_invD(1) [OF inv [folded z_def] il] .
  have nw: "lba \<le> lba + n - 1" using wrapped_write_zone [of z lba "cmd req"] inv il L unfolding z_def n_def i_def zns_inv_def by (meson leD linorder_not_less)
  show ?thesis
  proof (cases "lba < wp \<or> lba + n - 1 > wp - 1")
    case True
    then have "ok \<and> zftl ns' = z \<and> res_status ret' \<noteq> NVME_SC_SUCCESS" using W ne by (auto simp: A finish_write_def split: if_splits)
    then show ?thesis by (simp add: z_def)
  next
    case False
    have "wp = 0"
    proof (rule ccontr)
      assume "wp \<noteq> 0"
      then have "wp - 1 < wp" by (simp add: word_less_nat_alt unat_minus_one word_neq_0_conv)
      then show False using False nw by auto
    qed
    then have "zrwa_flush_size z i wp e = None" for e by (simp add: zrwa_flush_size_def A)
    then have "ok \<and> zftl ns' = z \<and> res_status ret' \<noteq> NVME_SC_SUCCESS" using W ne enter_zrwa_refuses [OF ok zr [folded z_def, folded lba_def, folded i_def] _ A(3)]
      by (auto simp: A finish_write_def split: if_splits Option.bind_splits option.splits)
    then show ?thesis by (simp add: z_def)
  qed
qed

lemma write_outcome:
  assumes inv: "zns_inv (zftl ns)" and w: "zns_write dma ns req ret = Some (ns', ret', ok)"
  shows "zns_inv (zftl ns') \<and> zp (zftl ns') = zp (zftl ns) \<and> sp (zssd (zftl ns')) = sp (zssd (zftl ns))
    \<and> (if ok \<and> res_status ret' = NVME_SC_SUCCESS then appended (zftl ns) (cmd req) (zftl ns') else zftl ns' = zftl ns) \<and> (\<not> ok \<longrightarrow> ret' = ret)"
proof -
  let ?z = "zftl ns" let ?i = "lpn_to_zone ?z (lba_to_lpn ?z (slba (cmd req)))"
  have zr: "no_area ?z" if "i < nr_zones (zp ?z)" "zrwav (zone_descs ?z i)" for i using zns_invD(1) [OF inv that(1)] that(2) by (simp add: zone_ok_def)
  from w consider "zftl ns' = ?z" "\<not> ok" "ret' = ret"
    | b where "?i < nr_zones (zp ?z)" "\<not> zrwav (zone_descs ?z ?i)" "zns_write_seq dma (ns\<lparr>zenv := (zenv ns)\<lparr>write_buffer := b\<rparr>\<rparr>) req ret = Some (ns', ret', ok)"
    | b where "?i < nr_zones (zp ?z)" "zrwav (zone_descs ?z ?i)" "zns_write_zrwa dma (ns\<lparr>zenv := (zenv ns)\<lparr>write_buffer := b\<rparr>\<rparr>) req ret = Some (ns', ret', ok)"
    by (auto simp: zns_write_def Let_def not_le split: if_splits prod.splits)
  then show ?thesis
  proof cases
    case 2
    have i: "lba_to_zone ?z (slba (cmd req)) < nr_zones (zp ?z)" using 2(3) by (simp add: zns_write_seq_def Let_def split: if_splits)
    have "\<not> zrwav (zone_descs ?z (lba_to_zone ?z (slba (cmd req))))" using zr [OF i] area_zone(3) [of ?z] 2(2) by auto
    then show ?thesis using write_seq_outcome [OF _ 2(3)] inv by (auto split: if_splits)
  next
    case 3
    have na: "no_area ?z" by (rule zr [OF 3(1,2)])
    show ?thesis using zrwa_write_outcome [OF _ _ _ 3(3)] inv na 3(2) by (simp add: area_zone(3))
  qed (use inv in simp)
qed

lemma read_keeps_zones: "zns_read junk ns req ret = Some (ns', ret', ok) \<Longrightarrow> zones_same (zftl ns) (zftl ns')"
  by (auto simp: zns_read_def Let_def dest!: read_pages_same split: if_splits Option.bind_splits prod.splits)

lemma flush_keeps_zones: "zns_flush ns req ret = (ns', ret') \<Longrightarrow> zftl ns' = zftl ns"
  by (auto simp: zns_flush_def Let_def split: prod.splits)

lemma recv_keeps_zones: "zns_zmgmt_recv z req ret = Some (z', ret') \<Longrightarrow> zones_same z z'"
  by (auto simp: zns_zmgmt_recv_def check_zmgmt_rcv_option_supported_def fill_zone_report_def Let_def split: if_splits)

lemma send_inv:
  assumes inv: "zns_inv z" and na: "no_area z" and s: "zns_zmgmt_send junk z req ret = Some (z', ret')"
  shows "zns_inv z' \<and> no_area z'"
proof -
  let ?step = "\<lambda>zid z. do { (z', _) \<leftarrow> zmgmt_send junk z (zone_to_slba z zid) (zsa (cmd req)) (zsaso (cmd req)); Some z' }"
  have keep: "zns_inv b \<and> no_area b" if "zns_inv a \<and> no_area a" "zmgmt_send junk a lba (zsa (cmd req)) (zsaso (cmd req)) = Some (b, st)" for a b lba st
    using that zmgmt_send_inv [of a junk lba "zsa (cmd req)" "zsaso (cmd req)" b st] zone_ok_params [of b a] by auto
  have one: "zns_inv b \<and> no_area b" if "zns_inv a \<and> no_area a" "?step i a = Some b" for i a b
    using that(2) keep [OF that(1)] by (auto split: Option.bind_splits)
  have fold: "zns_inv b \<and> no_area b" if "foldM ?step l a = Some b" "zns_inv a \<and> no_area a" for l a b
    by (rule foldM_invariant [where I = "\<lambda>_ a. zns_inv a \<and> no_area a", OF that]) (rule one)
  show ?thesis
  proof (cases "select_all (cmd req)")
    case True
    then obtain z1 where "foldM ?step [0..<nr_zones (zp z)] z = Some z1" "z' = z1" using s by (auto simp: zns_zmgmt_send_def Let_def split: Option.bind_splits if_splits)
    then show ?thesis using fold inv na by blast
  next
    case False
    then show ?thesis using s keep [of z] inv na by (auto simp: zns_zmgmt_send_def Let_def split: Option.bind_splits if_splits)
  qed
qed

section \<open>Reachable namespaces\<close>

text \<open>The states of a namespace that has served any sequence of commands since its initialisation.\<close>

inductive zns_reach :: "zns_ns \<Rightarrow> zns_ns \<Rightarrow> bool" for ns0 where
  start: "zns_reach ns0 ns0"
| serve: "zns_reach ns0 ns \<Longrightarrow> zns_proc_nvme_io_cmd dma junk junk' ns req ret = Some (ns', ret', ok) \<Longrightarrow> zns_reach ns0 ns'"

lemma proc_inv:
  assumes inv: "zns_inv (zftl ns)" and na: "no_area (zftl ns)" and p: "zns_proc_nvme_io_cmd dma junk junk' ns req ret = Some (ns', ret', ok)"
  shows "zns_inv (zftl ns') \<and> no_area (zftl ns')"
proof -
  let ?op = "opcode (cmd req)"
  consider (w) "?op = nvme_cmd_write" | (r) "?op = nvme_cmd_read" | (f) "?op = nvme_cmd_flush" | (s) "?op = nvme_cmd_zone_mgmt_send"
    | (v) "?op = nvme_cmd_zone_mgmt_recv" | (n) "?op \<notin> {nvme_cmd_write, nvme_cmd_read, nvme_cmd_flush, nvme_cmd_zone_mgmt_send, nvme_cmd_zone_mgmt_recv}" by blast
  then show ?thesis
  proof cases
    case w
    then have "zns_write dma ns req ret = Some (ns', ret', ok)" using p by (simp add: zns_proc_nvme_io_cmd_def)
    from write_outcome [OF inv this] show ?thesis using na zone_ok_params [of "zftl ns'" "zftl ns"] by blast
  next
    case r
    then have "zns_read junk' ns req ret = Some (ns', ret', ok)" using p by (simp add: zns_proc_nvme_io_cmd_def opcode_defs)
    then show ?thesis using inv na zones_same_inv [OF read_keeps_zones] by blast
  next
    case f
    then have "zns_flush ns req ret = (ns', ret')" using p by (simp add: zns_proc_nvme_io_cmd_def opcode_defs split: prod.splits)
    then show ?thesis using inv na flush_keeps_zones by metis
  next
    case s
    then obtain z where "zns_zmgmt_send junk (zftl ns) req ret = Some (z, ret')" "ns' = ns\<lparr>zftl := z\<rparr>"
      using p by (auto simp: zns_proc_nvme_io_cmd_def opcode_defs split: Option.bind_splits)
    then show ?thesis using send_inv [OF inv na] by simp
  next
    case v
    then obtain z where "zns_zmgmt_recv (zftl ns) req ret = Some (z, ret')" "ns' = ns\<lparr>zftl := z\<rparr>"
      using p by (auto simp: zns_proc_nvme_io_cmd_def opcode_defs split: Option.bind_splits)
    then show ?thesis using inv na zones_same_inv [OF recv_keeps_zones] by simp
  next
    case n
    then show ?thesis using p inv na by (simp add: zns_proc_nvme_io_cmd_def)
  qed
qed


lemma init_no_area:
  assumes "zns_init_namespace junk dj pj clk sz = Some ns"
  shows "no_area (zftl ns)"
proof -
  obtain spp zpp where i: "ssd_init_params zns_prototype (unat sz) 1 = Some spp" "zns_init_params spp sz = Some zpp" "zftl ns = zns_init_ftl junk zpp (ssd_init dj spp)"
    using assms by (auto simp: zns_init_namespace_def split: Option.bind_splits)
  then show ?thesis using init_params_shape(5,6) [OF i(1)]
    by (auto simp: no_area_def zns_init_params_def Let_def zns_init_ftl_def init_resource_def init_descriptor_def ssd_init_def ZRWA_SIZE_def ZRWAFG_SIZE_def split: Option.bind_splits if_splits)
qed

lemma init_inv:
  assumes init: "zns_init_namespace junk dj pj clk sz = Some ns" and sz: "sz \<le> 2 ^ 41"
  shows "zns_inv (zftl ns)"
proof -
  define q where "q = sz div ucast ZONE_SIZE"
  obtain dev zpp where z: "zftl ns = zns_init_ftl junk zpp dev" and p: "nr_zones zpp = unat (ucast q :: u32)" "zone_size zpp = ZONE_SIZE"
    using init by (auto simp: zns_init_namespace_def zns_init_params_def Let_def q_def split: Option.bind_splits if_splits)
  have "unat sz \<le> 2 ^ 41" using sz by (simp add: word_le_nat_alt)
  then have q: "unat q \<le> 2 ^ 16" unfolding q_def unat_div by (simp add: ZONE_SIZE_def)
  have N: "nr_zones (zp (zftl ns)) = unat q" using p(1) q by (simp add: z zns_init_ftl_def init_resource_def init_descriptor_def unsigned_ucast_eq take_bit_nat_eq_self)
  have Z: "zone_lbas (zftl ns) = 2 ^ 16" using p(2) by (simp add: z zns_init_ftl_def init_resource_def init_descriptor_def zone_lbas_def ZONE_SIZE_def drop_bit_eq_div)
  have fit: "zones_fit (zftl ns)" using q by (simp add: zones_fit_def N Z)
  have Z0: "zone_lbas (junk\<lparr>zp := zpp, zssd := dev\<rparr>) = 2 ^ 16" using p(2) by (simp add: zone_lbas_def ZONE_SIZE_def drop_bit_eq_div)
  have d: "zone_descs (zftl ns) i = \<lparr>state = ZONE_STATE_EMPTY, zrwav = False, zone_capacity = 2 ^ 16, zslba = of_nat i * 2 ^ 16, zwp = of_nat i * 2 ^ 16\<rparr>"
    if "i < unat q" for i using that N Z0 by (simp add: z zns_init_ftl_def init_resource_def init_descriptor_def)
  have u: "unat (of_nat i * 2 ^ 16 :: u64) = i * 2 ^ 16" if "i < unat q" for i
  proof -
    have "unat (of_nat (i * 2 ^ 16) :: u64) = i * 2 ^ 16" using that q by (simp add: unsigned_of_nat take_bit_nat_eq_self del: of_nat_mult)
    then show ?thesis by simp
  qed
  have "zone_ok (zftl ns) i (zone_descs (zftl ns) i)" if "i < unat q" for i using u [OF that] by (simp add: zone_ok_def d [OF that] Z)
  moreover have "holders t (zftl ns) = {}" for t using d N by (cases t) (auto simp: holders_def)
  moreover have "total_cnt (res_infos (zftl ns) t) = of_nat (nr_zones (zp (zftl ns)))" "acquired_cnt (res_infos (zftl ns) t) = 0" for t
    by (simp_all add: z zns_init_ftl_def init_resource_def init_descriptor_def)
  ultimately show ?thesis using fit N by (simp add: zns_inv_def)
qed

end
