(* ===== verification/Zns_Device.thy ===== *)
theory Zns_Device
  imports Zns_Inv
begin

text \<open>
  The zoned namespace as a device: what its commands do from initialisation on, and the places where the code fails.
\<close>

section \<open>A shipped device\<close>

text \<open>The parameters of a 64 GiB device of the zoned profile, and a write of one write unit to the start of zone 3.\<close>

definition zns_64G :: ssdparams where
  "zns_64G = the (ssd_init_params zns_prototype (2 ^ 36) 1)"

definition zone3_write :: nvmev_request where
  "zone3_write = \<lparr>cmd = zero_command\<lparr>opcode := nvme_cmd_write, slba := 196608, rw_length := 255\<rparr>, sq_id = 1, nsecs_start = 5000\<rparr>"

lemma zns_64G:
  "ssd_init_params zns_prototype (unat (2 ^ 36 :: u64)) 1 = Some zns_64G"
  "secsz zns_64G = 512" "secs_per_pg zns_64G = 8" "pgsz zns_64G = 4096" "pgs_per_oneshotpg zns_64G = 32" "pgs_per_flashpg zns_64G = 16" "nchs zns_64G = 8" "tt_luns zns_64G = 128"
  "write_unit_size zns_64G = 131072" "write_buffer_size zns_64G = 33554432" "cell_mode zns_64G = 2" "fw_wbuf_lat0 zns_64G = 0" "fw_wbuf_lat1 zns_64G = 0"
  "luns_per_ch zns_64G = 16" "ch_bandwidth zns_64G = 800"
proof -
  have p: "ssd_init_params zns_prototype (2 ^ 36) 1 = Some (set_params zns_prototype 8 16 33554432)"
    by (simp add: ssd_init_params_def params_fit_def zns_prototype_def Let_def div_round_up_def) (simp add: set_params_def Let_def div_round_up_def)
  then show "ssd_init_params zns_prototype (unat (2 ^ 36 :: u64)) 1 = Some zns_64G" by (simp add: zns_64G_def)
  have s: "zns_64G = set_params zns_prototype 8 16 33554432" using p by (simp add: zns_64G_def)
  note c = s set_params_def zns_prototype_def Let_def div_round_up_def
  show "secsz zns_64G = 512" "secs_per_pg zns_64G = 8" "pgsz zns_64G = 4096" "pgs_per_oneshotpg zns_64G = 32" "pgs_per_flashpg zns_64G = 16" "nchs zns_64G = 8" "tt_luns zns_64G = 128"
    "write_unit_size zns_64G = 131072" "write_buffer_size zns_64G = 33554432" "cell_mode zns_64G = 2" "fw_wbuf_lat0 zns_64G = 0" "fw_wbuf_lat1 zns_64G = 0"
    "luns_per_ch zns_64G = 16" "ch_bandwidth zns_64G = 800"
    by (simp_all add: c)
qed

lemma init_64G:
  "\<exists>ns zpp. zns_init_namespace junk dj pj clk (2 ^ 36) = Some ns \<and> zftl ns = zns_init_ftl junk zpp (ssd_init dj zns_64G) \<and> zenv ns = ssd_init_env pj clk zns_64G
     \<and> nr_zones zpp = 2048 \<and> zone_size zpp = ZONE_SIZE \<and> dies_per_zone zpp = 1 \<and> zwritebacks ns = []
     \<and> lbas_per_zrwa zpp = 0 \<and> lbas_per_zrwafg zpp = 0"
  using zns_64G by (simp add: zns_init_namespace_def zns_init_params_def Let_def ZONE_SIZE_def DIES_PER_ZONE_def ZRWA_SIZE_def ZRWAFG_SIZE_def)
    (rule exI, rule conjI, rule refl, simp)


lemma fresh_channel_idle: "i < nchs zns_64G \<Longrightarrow> idle_channel (perf_model (ch (ssd_init dj zns_64G) i)) \<and> max_credits (perf_model (ch (ssd_init dj zns_64G) i)) = 26"
  using chmodel_init_idle [of 800 "avail_credits (perf_model (dj i))"]
  by (simp add: ssd_init_def ssd_init_ch_def Let_def zns_64G(15) chmodel_init_def idle_channel_def BANDWIDTH_TO_MAX_CREDITS_def NS_PER_SEC_def unit_macros UNIT_TIME_INTERVAL_def
    UNIT_XFER_SIZE_def UNIT_XFER_CREDITS_def)

text \<open>A one-shot page of zone 3 is programmed on a fresh device.\<close>

lemma fresh_program:
  assumes z: "zssd (zftl ns) = ssd_init dj zns_64G" "zone_size (zp (zftl ns)) = ZONE_SIZE" "dies_per_zone (zp (zftl ns)) = 1" and c: "clock_readings (zenv ns) 0 = 0"
  shows "\<exists>r. program_pages req None 5000 24576 32 (ns, 5000) = Some r"
proof -
  have sp: "sp (zssd (zftl ns)) = zns_64G" by (simp add: z ssd_init_def)
  have p: "lpn_to_ppa (zftl ns) 24576 = set_ppa 3 0 0 0 0"
    by (simp add: lpn_to_ppa_def Let_def sp zns_64G lpn_to_zone_def zone_to_slpn_def lpns_per_zone_def z(2,3) ZONE_SIZE_def die_to_channel_def die_to_lun_def)
  have g: "g_pg (set_ppa 3 0 0 0 0) = 0" "g_ch (set_ppa 3 0 0 0 0) = 3" by (simp_all add: set_ppa_def CH_BITS_def)
  have id: "idle_channel (perf_model (get_ch (zssd (zftl ns)) (set_ppa 3 0 0 0 0)))" "max_credits (perf_model (get_ch (zssd (zftl ns)) (set_ppa 3 0 0 0 0))) = 26"
    using fresh_channel_idle [of 3 dj] by (simp_all add: get_ch_def z(1) g(2) zns_64G(7))
  have o: "slot_offset 0 5000 = 1" by (simp add: slot_offset_def UNIT_TIME_INTERVAL_def)
  have u: "DIV_ROUND_UP 131072 UNIT_XFER_SIZE = 1024" by (simp add: unit_macros UNIT_XFER_SIZE_def)
  obtain cm t where q: "chmodel_request (perf_model (get_ch (zssd (zftl ns)) (set_ppa 3 0 0 0 0))) 0 5000 131072 = Some (cm, t)"
    using idle_request [OF id(1), of 0 5000 131072] id(2) by (auto simp: o u NR_CREDIT_ENTRIES_def)
  have cell: "get_cell (zssd (zftl ns)) (set_ppa 3 0 0 0 0) = Some 0" by (simp add: get_cell_def sp zns_64G g)
  have l: "later (next_lun_avail_write_time (get_lun (zssd (zftl ns)) (set_ppa 3 0 0 0 0))) 5000 = 5000"
    by (simp add: get_lun_def get_ch_def z(1) g(2) ssd_init_def ssd_init_ch_def Let_def zns_64G set_ppa_def LUN_BITS_def CH_BITS_def ssd_init_nand_lun_def later_def)
  have "ssd_advance_nand (zssd (zftl ns)) (zenv ns)
      \<lparr>nand_op = NAND_WRITE, xfer_size = 131072, stime = 5000, nand_stime = 0, interleave_pci_dma = False, cmd_ppa = Some (set_ppa 3 0 0 0 0)\<rparr> \<noteq> None"
    using q by (simp add: ssd_advance_nand_def cell l get_clock_def c Let_def)
  then obtain dev e c' t' where a: "ssd_advance_nand (zssd (zftl ns)) (zenv ns)
      \<lparr>nand_op = NAND_WRITE, xfer_size = 131072, stime = 5000, nand_stime = 0, interleave_pci_dma = False, cmd_ppa = Some (set_ppa 3 0 0 0 0)\<rparr> = Some (dev, e, c', t')" by auto
  have "dies_ok (zftl ns)" by (simp add: dies_ok_def lpns_per_zone_def sp zns_64G z(2,3) ZONE_SIZE_def)
  then show ?thesis by (subst program_pages.simps) (simp add: Let_def sp zns_64G p g a program_pages.simps)
qed


lemma zone3_command:
  "slba (cmd zone3_write) = 196608" "nr_lba (cmd zone3_write) = 256" "nsecs_start zone3_write = 5000" "opcode (cmd zone3_write) = nvme_cmd_write" "zsa (cmd zone3_write) = 0"
  by (simp_all add: zone3_write_def zero_command_def nr_lba_def)

lemma fresh_zone3:
  "\<exists>ns. zns_init_namespace junk dj pj (\<lambda>_. 0) (2 ^ 36) = Some ns \<and> zssd (zftl ns) = ssd_init dj zns_64G \<and> sp (zssd (zftl ns)) = zns_64G
     \<and> nr_zones (zp (zftl ns)) = 2048 \<and> zone_size (zp (zftl ns)) = ZONE_SIZE \<and> dies_per_zone (zp (zftl ns)) = 1 \<and> zone_lbas (zftl ns) = 65536
     \<and> res_infos (zftl ns) = (\<lambda>_. \<lparr>acquired_cnt = 0, total_cnt = 2048\<rparr>) \<and> zenv ns = ssd_init_env pj (\<lambda>_. 0) zns_64G
     \<and> zone_descs (zftl ns) 3 = \<lparr>state = ZONE_STATE_EMPTY, zrwav = False, zone_capacity = 65536, zslba = 196608, zwp = 196608\<rparr>
     \<and> lba_to_zone (zftl ns) 196608 = 3 \<and> check_boundary (zftl ns) 196608 256"
proof -
  obtain ns zpp where n: "zns_init_namespace junk dj pj (\<lambda>_. 0) (2 ^ 36) = Some ns" "zftl ns = zns_init_ftl junk zpp (ssd_init dj zns_64G)"
      "zenv ns = ssd_init_env pj (\<lambda>_. 0) zns_64G" "nr_zones zpp = 2048" "zone_size zpp = ZONE_SIZE" "dies_per_zone zpp = 1"
    using init_64G [of junk dj pj "\<lambda>_. 0"] by blast
  have z: "zssd (zftl ns) = ssd_init dj zns_64G" "zp (zftl ns) = zpp" "res_infos (zftl ns) = (\<lambda>_. \<lparr>acquired_cnt = 0, total_cnt = 2048\<rparr>)" "sp (zssd (zftl ns)) = zns_64G"
    by (simp_all add: n(2,4) zns_init_ftl_def init_resource_def init_descriptor_def ssd_init_def)
  have L: "zone_lbas (zftl ns) = 65536" by (simp add: zone_lbas_def z(2) n(5) ZONE_SIZE_def drop_bit_eq_div)
  have d: "zone_descs (zftl ns) 3 = \<lparr>state = ZONE_STATE_EMPTY, zrwav = False, zone_capacity = 65536, zslba = 196608, zwp = 196608\<rparr>"
    by (simp add: n zns_init_ftl_def init_resource_def init_descriptor_def zone_lbas_def ZONE_SIZE_def drop_bit_eq_div)
  have "lba_to_zone (zftl ns) 196608 = 3" "check_boundary (zftl ns) 196608 256" by (simp_all add: lba_to_zone_def check_boundary_def L)
  then show ?thesis using n(1,3) z L d by (intro exI [of _ ns]) (simp add: n(4-6))
qed

lemma zone3_written:
  "\<exists>ns ns' ret'. zns_init_namespace junk dj pj (\<lambda>_. 0) (2 ^ 36) = Some ns \<and> zns_write False ns zone3_write ret = Some (ns', ret', True) \<and> res_status ret' = NVME_SC_SUCCESS"
proof -
  obtain ns where n: "zns_init_namespace junk dj pj (\<lambda>_. 0) (2 ^ 36) = Some ns" and z: "zssd (zftl ns) = ssd_init dj zns_64G" "sp (zssd (zftl ns)) = zns_64G"
     "nr_zones (zp (zftl ns)) = 2048" "zone_size (zp (zftl ns)) = ZONE_SIZE" "dies_per_zone (zp (zftl ns)) = 1" "zone_lbas (zftl ns) = 65536"
     "res_infos (zftl ns) = (\<lambda>_. \<lparr>acquired_cnt = 0, total_cnt = 2048\<rparr>)" "zenv ns = ssd_init_env pj (\<lambda>_. 0) zns_64G"
     and d: "zone_descs (zftl ns) 3 = \<lparr>state = ZONE_STATE_EMPTY, zrwav = False, zone_capacity = 65536, zslba = 196608, zwp = 196608\<rparr>"
     and ad: "lba_to_zone (zftl ns) 196608 = 3" "check_boundary (zftl ns) 196608 256" using fresh_zone3 [of junk dj pj] by blast
  define z where "z = zftl ns"
  note z = z [folded z_def] and d = d [folded z_def]
  have addr: "lba_to_zone z 196608 = 3" "check_boundary z 196608 256" "lba_to_lpn z 196608 = 24576" "lba_to_lpn z 196863 = 24607" "lpns_per_zone z = 8192" "lpn_to_zone z 24576 = 3"
    using ad by (simp_all add: lba_to_lpn_def lpns_per_zone_def lpn_to_zone_def z(2,4) zns_64G(3,4) ZONE_SIZE_def flip: z_def)
  obtain z1 where e: "enter_write z 3 196608 = (z1, None)" "zssd z1 = zssd z" "zp z1 = zp z"
    by (simp add: enter_write_def Let_def d is_zone_resource_full_def acquire_zone_resource_def is_zone_resource_avail_def z(7) change_zone_state_def upd_zone_def)
  define z2 where "z2 = increase_write_ptr z1 3 256"
  have z2: "zssd z2 = ssd_init dj zns_64G" "zp z2 = zp z" using e(2,3) z(1) by (simp_all add: z2_def increase_write_ptr_def Let_def zone_ops)
  obtain b where b: "buffer_allocate (write_buffer (zenv ns)) 131072 = (b, 131072)"
    by (simp add: z(8) ssd_init_env_def buffer_init_def zns_64G buffer_allocate_def)
  let ?ns1 = "ns\<lparr>zenv := (zenv ns)\<lparr>write_buffer := b\<rparr>\<rparr>"
  obtain ns' t where p: "program_pages zone3_write None 5000 24576 32 (ns\<lparr>zftl := z2, zenv := (zenv ns)\<lparr>write_buffer := b\<rparr>\<rparr>, 5000) = Some (ns', t)"
    using fresh_program [of "ns\<lparr>zftl := z2, zenv := (zenv ns)\<lparr>write_buffer := b\<rparr>\<rparr>" dj zone3_write] by (auto simp: z2 z(4,5,8) ssd_init_env_def)
  have wb: "ssd_advance_write_buffer zns_64G (zenv ?ns1) 5000 (LBA_TO_BYTE 256) False = Some (zenv ?ns1, 5000)"
    by (simp add: ssd_advance_write_buffer_def zns_64G)
  have s: "zns_write_seq False ?ns1 zone3_write ret = Some (ns', finish_write zns_64G zone3_write ret NVME_SC_SUCCESS t 5000, True)"
    using e(1) p wb by (simp add: zns_write_seq_def Let_def zone3_command z(2,3,6) zns_64G addr d LBA_TO_BYTE_def flip: z_def z2_def)
  have "zns_write False ns zone3_write ret = zns_write_seq False ?ns1 zone3_write ret"
    by (simp add: zns_write_def Let_def zone3_command z(2,3) zns_64G addr d LBA_TO_BYTE_def b flip: z_def)
  then show ?thesis using n s by (auto simp: finish_write_def)
qed


section \<open>Properties\<close>

text \<open>
  C6. Whatever commands a zoned namespace of at most 2 TiB has served since its initialisation, opens with a random
  write area included, its zone table is in order: every write pointer lies in its zone, an empty zone has it at
  the start and an open or closed one below the end, no zone is read-only or offline, and the counters of active
  zones, of open zones and of zones with a random write area are exactly the numbers of such zones. Above 2 TiB the
  start of a zone, computed in 32 bits, wraps.
\<close>

theorem zns_reachable_invariant:
  assumes "zns_init_namespace junk dj pj clk sz = Some ns0" and "sz \<le> 2 ^ 41" and "zns_reach ns0 ns"
  shows "zns_inv (zftl ns)"
proof -
  have "zns_inv (zftl ns) \<and> no_area (zftl ns)" using assms(3)
  proof (induction rule: zns_reach.induct)
    case start
    then show ?case using init_inv [OF assms(1,2)] init_no_area [OF assms(1)] by blast
  next
    case (serve ns dma junk junk' req ret ns' ret' ok)
    then show ?case using proc_inv by blast
  qed
  then show ?thesis ..
qed

theorem zns_reachable_invariant_witness:
  "\<forall>junk dj pj ret. \<exists>ns0 ns. zns_init_namespace junk dj pj (\<lambda>_. 0) (2 ^ 36) = Some ns0 \<and> zns_reach ns0 ns \<and> ns \<noteq> ns0 \<and> zns_inv (zftl ns)"
proof (intro allI)
  fix junk dj pj ret
  obtain ns0 ns ret' where w: "zns_init_namespace junk dj pj (\<lambda>_. 0) (2 ^ 36) = Some ns0" "zns_write False ns0 zone3_write ret = Some (ns, ret', True)"
      "res_status ret' = NVME_SC_SUCCESS" using zone3_written by blast
  have r: "zns_reach ns0 ns" by (rule zns_reach.serve [OF zns_reach.start, where req = zone3_write and dma = False and ret = ret and ret' = ret' and ok = True]) (use w in \<open>simp_all add: zns_proc_nvme_io_cmd_def zone3_command\<close>)
  have i: "zns_inv (zftl ns0)" using init_inv [OF w(1)] by (simp add: word_le_nat_alt)
  have "appended (zftl ns0) (cmd zone3_write) (zftl ns)" using write_outcome [OF i w(2)] w(3) by simp
  then have "ns \<noteq> ns0" by (auto simp: appended_def Let_def zone3_command)
  moreover have "zns_inv (zftl ns)" using zns_reachable_invariant [OF w(1) _ r] by (simp add: word_le_nat_alt)
  ultimately show "\<exists>ns0 ns. zns_init_namespace junk dj pj (\<lambda>_. 0) (2 ^ 36) = Some ns0 \<and> zns_reach ns0 ns \<and> ns \<noteq> ns0 \<and> zns_inv (zftl ns)" using w(1) r by blast
qed

text \<open>
  C7. A write to a zone succeeds only at the write pointer of a zone that is empty, open or closed, and then it
  moves that pointer by exactly the blocks written, never past the end of the zone; the zone becomes full exactly
  when the pointer reaches the end and is open otherwise, and no other zone changes. A write that reports an error
  or is deferred leaves the whole zone table and the resource counters as they were.
\<close>

theorem zns_write_outcome:
  assumes "zns_inv (zftl ns)" and "zns_write dma ns req ret = Some (ns', ret', ok)"
  shows "if ok \<and> res_status ret' = NVME_SC_SUCCESS then appended (zftl ns) (cmd req) (zftl ns') \<and> zns_inv (zftl ns') else zftl ns' = zftl ns"
  using write_outcome [OF assms] by (auto split: if_splits)

theorem zns_write_outcome_witness:
  "\<forall>junk dj pj ret. \<exists>ns ns' ret'. zns_init_namespace junk dj pj (\<lambda>_. 0) (2 ^ 36) = Some ns \<and> zns_write False ns zone3_write ret = Some (ns', ret', True)
     \<and> appended (zftl ns) (cmd zone3_write) (zftl ns')"
proof (intro allI)
  fix junk dj pj ret
  obtain ns ns' ret' where w: "zns_init_namespace junk dj pj (\<lambda>_. 0) (2 ^ 36) = Some ns" "zns_write False ns zone3_write ret = Some (ns', ret', True)"
      "res_status ret' = NVME_SC_SUCCESS" using zone3_written by blast
  have i: "zns_inv (zftl ns)" using init_inv [OF w(1)] by (simp add: word_le_nat_alt)
  show "\<exists>ns ns' ret'. zns_init_namespace junk dj pj (\<lambda>_. 0) (2 ^ 36) = Some ns \<and> zns_write False ns zone3_write ret = Some (ns', ret', True)
     \<and> appended (zftl ns) (cmd zone3_write) (zftl ns')" using w zns_write_outcome [OF i w(2)] by auto
qed

text \<open>
  C38. A zone that the host has finished refuses every further write at its write pointer, but the status it
  reports is that of an offline zone: the cases of the state switch have no breaks, so the status of a full zone
  is overwritten on the way down.
\<close>

theorem finished_zone_write:
  assumes "zns_inv (zftl ns)" and "lba_to_zone (zftl ns) (slba (cmd req)) < nr_zones (zp (zftl ns))"
    and "state (zone_descs (zftl ns) (lba_to_zone (zftl ns) (slba (cmd req)))) \<in> {ZONE_STATE_EMPTY, ZONE_STATE_OPENED_IMPL, ZONE_STATE_OPENED_EXPL, ZONE_STATE_CLOSED}"
    and "slba (cmd req) = zwp (zone_descs (zftl ns) (lba_to_zone (zftl ns) (slba (cmd req))))" and "check_boundary (zftl ns) (slba (cmd req)) (nr_lba (cmd req))"
    and "0 < secs_per_pg (sp (zssd (zftl ns)))" and "0 < write_unit_size (sp (zssd (zftl ns)))"
    and "unat (LBA_TO_BYTE (nr_lba (cmd req))) mod write_unit_size (sp (zssd (zftl ns))) = 0"
  shows "let z = fst (finish_zone (zftl ns) (lba_to_zone (zftl ns) (slba (cmd req))))
    in map_option (\<lambda>(ns', ret', ok). (zftl ns', res_status ret', ok)) (zns_write_seq dma (ns\<lparr>zftl := z\<rparr>) req ret) = Some (z, NVME_SC_ZNS_ERR_OFFLINE, True)"
proof -
  let ?z = "zftl ns"
  define i z where "i = lba_to_zone ?z (slba (cmd req))" and "z = fst (finish_zone ?z i)"
  have s: "zssd z = zssd ?z" "zp z = zp ?z" "zone_descs z i = (zone_descs ?z i)\<lparr>state := ZONE_STATE_FULL\<rparr>"
    using assms(3) unfolding z_def i_def by (auto simp: zone_ops Let_def)
  have p: "zone_lbas z = zone_lbas ?z" "lba_to_zone z = lba_to_zone ?z" "check_boundary z = check_boundary ?z"
    using s(2) by (simp_all add: zone_lbas_def lba_to_zone_def check_boundary_def fun_eq_iff)
  have e: "enter_write z i (slba (cmd req)) = (z, Some NVME_SC_ZNS_ERR_OFFLINE)" by (simp add: enter_write_def Let_def s(3))
  have "zone_lbas ?z \<noteq> 0" using zns_invD(2) [OF assms(1,2)] .
  then have "zns_write_seq dma (ns\<lparr>zftl := z\<rparr>) req ret = Some (ns\<lparr>zftl := z\<rparr>, finish_write (sp (zssd ?z)) req ret NVME_SC_ZNS_ERR_OFFLINE (nsecs_start req) (nsecs_start req), True)"
    using assms(2,4-8) e s(3) unfolding i_def by (simp add: zns_write_seq_def Let_def p s(1,2))
  then show ?thesis unfolding Let_def i_def [symmetric] z_def [symmetric] by (simp add: finish_write_def)
qed

theorem finished_zone_write_witness:
  "\<forall>junk dj pj ret. \<exists>ns. zns_init_namespace junk dj pj (\<lambda>_. 0) (2 ^ 36) = Some ns
     \<and> map_option (\<lambda>(ns', ret', ok). res_status ret') (zns_write_seq False (ns\<lparr>zftl := fst (finish_zone (zftl ns) 3)\<rparr>) zone3_write ret) = Some NVME_SC_ZNS_ERR_OFFLINE"
proof (intro allI)
  fix junk dj pj ret
  obtain ns where n: "zns_init_namespace junk dj pj (\<lambda>_. 0) (2 ^ 36) = Some ns" "sp (zssd (zftl ns)) = zns_64G" "nr_zones (zp (zftl ns)) = 2048"
      "zone_descs (zftl ns) 3 = \<lparr>state = ZONE_STATE_EMPTY, zrwav = False, zone_capacity = 65536, zslba = 196608, zwp = 196608\<rparr>"
      "lba_to_zone (zftl ns) 196608 = 3" "check_boundary (zftl ns) 196608 256" using fresh_zone3 [of junk dj pj] by blast
  have i: "zns_inv (zftl ns)" using init_inv [OF n(1)] by (simp add: word_le_nat_alt)
  have "map_option (\<lambda>(ns', ret', ok). (zftl ns', res_status ret', ok)) (zns_write_seq False (ns\<lparr>zftl := fst (finish_zone (zftl ns) 3)\<rparr>) zone3_write ret)
      = Some (fst (finish_zone (zftl ns) 3), NVME_SC_ZNS_ERR_OFFLINE, True)"
    using finished_zone_write [OF i, of zone3_write False ret] by (simp add: Let_def zone3_command n zns_64G LBA_TO_BYTE_def)
  then show "\<exists>ns. zns_init_namespace junk dj pj (\<lambda>_. 0) (2 ^ 36) = Some ns
     \<and> map_option (\<lambda>(ns', ret', ok). res_status ret') (zns_write_seq False (ns\<lparr>zftl := fst (finish_zone (zftl ns) 3)\<rparr>) zone3_write ret) = Some NVME_SC_ZNS_ERR_OFFLINE"
    using n(1) by auto
qed


text \<open>
  C39. Asking for a report of all zones from the first one copies one descriptor past the end of the report buffer,
  whatever the states of the zones: the buffer has room for one descriptor less than there are zones.
\<close>

theorem report_all_overruns:
  assumes "0 < nr_zones (zp z)" and "nr_zones (zp z) < 2 ^ 32"
    and "slba (cmd req) = 0" and "zra (cmd req) = 0" and "zra_specific_field (cmd req) = 0" and "\<not> zra_specific_features (cmd req)"
  shows "zns_zmgmt_recv z req ret = None"
proof -
  have "unat (of_nat (nr_zones (zp z)) :: u64) = nr_zones (zp z)" using assms(2) by (simp add: unsigned_of_nat take_bit_nat_eq_self)
  moreover have "lba_to_zone z 0 = 0" by (simp add: lba_to_zone_def)
  ultimately show ?thesis using assms by (simp add: zns_zmgmt_recv_def check_zmgmt_rcv_option_supported_def fill_zone_report_def Let_def)
qed

theorem report_all_overruns_witness:
  "\<forall>junk dj pj ret. \<exists>ns. zns_init_namespace junk dj pj (\<lambda>_. 0) (2 ^ 36) = Some ns
     \<and> zns_zmgmt_recv (zftl ns) \<lparr>cmd = zero_command\<lparr>opcode := nvme_cmd_zone_mgmt_recv\<rparr>, sq_id = 1, nsecs_start = 0\<rparr> ret = None"
proof (intro allI)
  fix junk dj pj ret
  obtain ns where n: "zns_init_namespace junk dj pj (\<lambda>_. 0) (2 ^ 36) = Some ns" "nr_zones (zp (zftl ns)) = 2048" using fresh_zone3 [of junk dj pj] by blast
  have "zns_zmgmt_recv (zftl ns) \<lparr>cmd = zero_command\<lparr>opcode := nvme_cmd_zone_mgmt_recv\<rparr>, sq_id = 1, nsecs_start = 0\<rparr> ret = None"
    by (rule report_all_overruns) (simp_all add: n(2) zero_command_def)
  then show "\<exists>ns. zns_init_namespace junk dj pj (\<lambda>_. 0) (2 ^ 36) = Some ns
     \<and> zns_zmgmt_recv (zftl ns) \<lparr>cmd = zero_command\<lparr>opcode := nvme_cmd_zone_mgmt_recv\<rparr>, sq_id = 1, nsecs_start = 0\<rparr> ret = None" using n(1) by blast
qed

text \<open>
  C40. On every shipped zoned device the host can open the first zone with a random write area, although the profile
  configures none, and the flush of that area then divides by its size, which is 0.
\<close>

theorem zrwa_flush_divides_by_zero:
  assumes "zns_init_namespace junk dj pj clk sz = Some ns" and "sz \<le> 2 ^ 41" and "ucast ZONE_SIZE \<le> sz"
  shows "\<exists>z1. zmgmt_send st (zftl ns) 0 3 True = Some (z1, NVME_SC_SUCCESS) \<and> zmgmt_send st z1 0 0x11 opt = None"
proof -
  define q where "q = sz div ucast ZONE_SIZE"
  define z where "z = zftl ns"
  obtain dev zpp where zi: "z = zns_init_ftl junk zpp dev" and p: "nr_zones zpp = unat (ucast q :: u32)" "zone_size zpp = ZONE_SIZE" "lbas_per_zrwa zpp = 0" "lbas_per_zrwafg zpp = 0"
    using assms(1) by (auto simp: z_def zns_init_namespace_def zns_init_params_def Let_def q_def ZRWA_SIZE_def ZRWAFG_SIZE_def split: Option.bind_splits if_splits)
  have uz: "unat sz \<le> 2 ^ 41" "33554432 \<le> unat sz" using assms(2,3) by (simp_all add: word_le_nat_alt ZONE_SIZE_def)
  then have q: "unat q \<le> 2 ^ 16" "0 < unat q" unfolding q_def unat_div by (simp_all add: ZONE_SIZE_def div_greater_zero_iff)
  have N: "nr_zones zpp = unat q" using p(1) q by (simp add: unsigned_ucast_eq take_bit_nat_eq_self)
  have zp: "zp z = zpp" by (simp add: zi zns_init_ftl_def init_resource_def init_descriptor_def)
  have r: "res_infos z = (\<lambda>_. \<lparr>acquired_cnt = 0, total_cnt = of_nat (unat q)\<rparr>)" "(of_nat (unat q) :: u32) \<noteq> 0"
  proof -
    have "unat (of_nat (unat q) :: u32) = unat q" using q by (simp add: unsigned_ucast_eq take_bit_nat_eq_self)
    then show "(of_nat (unat q) :: u32) \<noteq> 0" using q(2) by (metis less_irrefl unsigned_0)
  qed (simp add: zi zns_init_ftl_def init_resource_def init_descriptor_def N)
  have L: "zone_lbas z = 65536" by (simp add: zone_lbas_def zp p ZONE_SIZE_def drop_bit_eq_div)
  have d: "zone_descs z 0 = \<lparr>state = ZONE_STATE_EMPTY, zrwav = False, zone_capacity = 65536, zslba = 0, zwp = 0\<rparr>"
    using q N by (simp add: zi zns_init_ftl_def init_resource_def init_descriptor_def zone_lbas_def p ZONE_SIZE_def drop_bit_eq_div)
  have l0: "lba_to_zone z 0 = 0" by (simp add: lba_to_zone_def)
  define tot where "tot = (of_nat (unat q) :: u32)"
  have t: "tot \<noteq> 0" "0 \<noteq> tot" "0 < tot" "res_infos z = (\<lambda>_. \<lparr>acquired_cnt = 0, total_cnt = tot\<rparr>)" using r unfolding tot_def by (auto simp: word_neq_0_conv)
  define z1 where "z1 = fst (open_zone z 0 True)"
  have op: "open_zone z 0 True = (z1, NVME_SC_SUCCESS)" "zone_descs z1 0 = (zone_descs z 0)\<lparr>state := ZONE_STATE_OPENED_EXPL, zrwav := True\<rparr>" "zp z1 = zpp"
    using t(1-3) by (simp_all add: z1_def open_zone_def d is_zone_resource_full_def t(4) open_closed_def Let_def acquire_zone_resource_def is_zone_resource_avail_def
      change_zone_state_def upd_zone_def zp)
  have l1: "lba_to_zone z1 0 = 0" "zone_lbas z1 = 65536" using L by (simp_all add: lba_to_zone_def zone_lbas_def op(3) zp)
  have "zmgmt_send st z 0 3 True = Some (z1, NVME_SC_SUCCESS)" using q by (simp add: zmgmt_send_def Let_def L l0 zp N op(1))
  moreover have "zmgmt_send st z1 0 0x11 opt = None"
    using q by (simp add: zmgmt_send_def Let_def l1 op N flush_explicit_zrwa_def d p zone_to_slba_def)
  ultimately show ?thesis unfolding z_def by blast
qed

theorem zrwa_flush_divides_by_zero_witness:
  "\<forall>junk dj pj. \<exists>ns z1. zns_init_namespace junk dj pj (\<lambda>_. 0) (2 ^ 36) = Some ns \<and> zmgmt_send 0 (zftl ns) 0 3 True = Some (z1, NVME_SC_SUCCESS)
     \<and> zmgmt_send 0 z1 0 0x11 False = None"
proof (intro allI)
  fix junk dj pj
  obtain ns where n: "zns_init_namespace junk dj pj (\<lambda>_. 0) (2 ^ 36) = Some ns" using fresh_zone3 [of junk dj pj] by blast
  have "\<exists>z1. zmgmt_send 0 (zftl ns) 0 3 True = Some (z1, NVME_SC_SUCCESS) \<and> zmgmt_send 0 z1 0 0x11 False = None"
    by (rule zrwa_flush_divides_by_zero [OF n]) (simp_all add: ZONE_SIZE_def word_le_nat_alt)
  then show "\<exists>ns z1. zns_init_namespace junk dj pj (\<lambda>_. 0) (2 ^ 36) = Some ns \<and> zmgmt_send 0 (zftl ns) 0 3 True = Some (z1, NVME_SC_SUCCESS)
     \<and> zmgmt_send 0 z1 0 0x11 False = None" using n by blast
qed

end
