(* ===== verification/Spec2Isabelle.thy ===== *)
theory Spec2Isabelle
  imports Csd_Device Zns_Device
begin

text \<open>
  FLAX is an NVMe device emulator, a Linux kernel module under \<open>src/src\<close>, with a computational storage
  namespace. The host sends NVMe commands. Reads and writes go to a translation layer (conventional in
  \<open>conv_ftl.c\<close>, zoned in the \<open>zns\<close> files) that maps pages and computes when the NAND back end
  (\<open>ssd.c\<close>, \<open>channel_model.c\<close>) would be finished. Computational commands go to the dispatcher
  (\<open>csd_dispatcher.c\<close>): it turns them into tasks, loads their input from the conventional namespace into the shared
  local memory (\<open>csd_slm.c\<close>, ranges from \<open>buddy.c\<close>) and lets compute threads run programs on it.
  This library models these parts and proves what makes them correct.

  \<^bold>\<open>Conventions.\<close>
  \<^item> A struct is a record, an enum a datatype, an array a function or a list; names are those of the source, with a
    prefix where a field name occurs twice. Pointers into a table are indices.
  \<^item> The sentinels \<open>-1\<close> and \<open>NULL\<close> are \<open>None\<close> of a field. \<open>None\<close> as the result of a function is a \<open>BUG()\<close>,
    undefined behaviour (an access outside an array, a null dereference, a division by zero) or, for a
    \<open>partial_function\<close>, that the loop does not end.
  \<^item> Integers are words of their width where they may wrap around and natural numbers where the code bounds them.
  \<^item> What is read from host memory, what an uninitialised variable holds, the clock and the table of host addresses are
    arguments. The bytes themselves are not represented, only where and when they go.
  \<^item> Locks, printing, memory barriers and sleeping are left out. One call of a handler or one pass of a thread is one
    step; steps of different threads are taken in any order (\<open>csd_step\<close> of \<open>Csd_Device\<close>).

  \<^bold>\<open>Common theories.\<close>
  \<^item> \<open>Flax_Prelude\<close>: integer widths, assertions, unit macros, and the lemmas on words, lists and options that the
    others share.
  \<^item> \<open>Nvme\<close>: commands, requests, results and codes of \<open>nvme.h\<close>, \<open>nvme_csd.h\<close> and \<open>nvmev.h\<close>.

  \<^bold>\<open>NAND back end.\<close>
  \<^item> \<open>Channel\<close>: \<open>channel_model.c\<close>. From initialisation on no slot carries more than the
    refill level; a request takes exactly its credits; an idle channel serves what fits; a
    request for an earlier time forgets all bookings.
  \<^item> \<open>Ssd\<close>: \<open>ssd.c\<close>, \<open>ssd.h\<close> and the profiles of \<open>ssd_config.h\<close>. Sizes are natural
    numbers that are checked against the widths of the source where they are computed; on the 970 PRO profile the geometry
    is consistent and fits them for capacities up to 64 TiB; there every page is timed as an LSB page.

  \<^bold>\<open>Conventional namespace.\<close>
  \<^item> \<open>Pqueue\<close>: \<open>pqueue.c\<close> with the callbacks on its elements as fields of the queue. Their contract is the locale
    \<open>pq_element\<close>, in which insertion, removal, popping and a change of priority keep the heap.
  \<^item> \<open>Conv_Line\<close>: lines and the callbacks of \<open>conv_ftl.c\<close>, which interpret \<open>pq_element\<close>.
  \<^item> \<open>Conv_Ftl\<close>: the tables, write pointers, page and block states, garbage collection and write credits.
    \<open>Conv_Geo\<close> has the addresses (page indices are a bijection, the striping order numbers every page once),
    \<open>Conv_Inv\<close> the invariant of the tables and counters, \<open>Conv_Gc\<close> that a collection keeps it and every logical page,
    \<open>Conv_Flow\<close> the start state and that the write credit never stalls.
  \<^item> \<open>Conv_Io\<close>: reads, writes, flush, namespace copy and command dispatch over the partitions. \<open>Conv_Read\<close> shows
    the read loops equivalent to a reference that cuts the pages into runs.
  \<^item> \<open>Conv_Device\<close>: the contract of a device of logical pages, locale \<open>logical_device\<close>: a command writes a list of
    page ranges (one for a write, one per piece of a copy) and, when it stops early, those before the stop
    (\<open>ranges_done\<close>, \<open>spec_run\<close>); its interpretation \<open>conv_dev\<close>; the properties of the namespace as a whole.

  \<^bold>\<open>Zoned namespace.\<close>
  \<^item> \<open>Zns\<close>: descriptors, resources, zone management. \<open>Zns_Rw\<close>: reads, sequential writes, random write areas, dispatch.
  \<^item> \<open>Zns_Inv\<close>, \<open>Zns_Device\<close>: the write pointers and the resource counters, those of the random write areas included,
    agree with the zone states after any commands; what a write does; the statuses and overruns where the code fails.

  \<^bold>\<open>Computational namespace.\<close>
  \<^item> \<open>Buddy\<close>: \<open>buddy.c\<close>, an interpretation of the locale \<open>range_allocator\<close>: live blocks are disjoint, freeing
    restores the tree.
  \<^item> \<open>Slm_Region\<close>: one region of the shared memory: the frontier of received bytes (locale \<open>frontier\<close>,
    interpretation \<open>ht\<close>), extents, source ranges and circular addresses.
  \<^item> \<open>Slm\<close>: \<open>csd_slm.c\<close>: allocation, page table, readiness and demand reads.
  \<^item> \<open>Csd_Task\<close>: the task table and its doubly linked lists (locale \<open>intrusive_list\<close>, interpretation
    \<open>tasks\<close>), generation identifiers.
  \<^item> \<open>Csd_Ftl\<close>: \<open>csd_ftl.c\<close>, which passes host commands to the conventional namespace: the second
    interpretation \<open>csd_dev\<close> of \<open>logical_device\<close>; the throttle and the time of internal reads.
  \<^item> \<open>Csd_Io\<close>: the internal I/O requests: \<open>__request_io\<close>, the copy thread \<open>slm_work\<close> and
    \<open>__reclaim_io_req\<close>, over one record \<open>csd_world\<close> of all tables. \<open>Csd_Io_Inv\<close>: every request is in exactly one
    list, the bytes in flight are accounted for, a load receives no more than it has requested.
  \<^item> \<open>Csd_Dispatch\<close>: the dispatcher thread: initialisation, memory management, the execute, copy, compaction and
    lookup commands, the collection and completion of tasks, postponed frees, completion entries.
  \<^item> \<open>Csd_Compute\<close>: one visit of \<open>compute_work\<close> to a task of its core and the calls that programs make to the
    shared memory. A visit is given the results of the runs it makes; a program is known by these and by its calls.
  \<^item> \<open>Csd_Lists\<close>: \<open>tlists\<close>, each task slot is in exactly one list, and the lemmas by which a command allocates,
    starts and frees tasks. A task marked free is in the free list, while the wake of a demand read may mark a slot of
    that list as scheduled. \<open>Csd_Device\<close>: every command, visit and call keeps the invariant; \<open>csd_step\<close> and
    \<open>csd_reachable\<close>; the invariant of all reachable states, the loss of tasks by oversized commands, the order of
    releases and the completion queue.

  \<^bold>\<open>Bounds.\<close> The steps of \<open>Csd_Device\<close> take commands with sizes of at most \<open>2 ^ 59\<close> bytes (\<open>sized\<close>),
    so that sums of sizes and offsets do not wrap, and dispatch a command only while no request in flight still has one of
    the next ten task identifiers (\<open>fresh_ids\<close>); identifiers repeat after some 33 million allocations of tasks, while
    requests live for one load, and no command advances the counter
    by more than ten. The zoned namespace has at most 2 TiB, above which
    \<open>zone_to_slba\<close> wraps. No definition uses fuel: loops over linked lists are partial functions. The relation
    \<open>csd_step\<close> has the calls that return, so its invariants speak of these; that allocation, list moves,
    collections, page writes and ring planning return is part of their own theorems.

  \<^bold>\<open>Not modelled.\<close>
  \<^item> The bodies of the programs of \<open>csd_user_func.c\<close>: they work on the bytes, which are not represented; what they
    return and the arguments of their calls are arbitrary.
  \<^item> \<open>io.c\<close>: the worker table is shared by threads without locks, and its order is a matter of their timing.
  \<^item> \<open>kv_ftl.c\<close>, \<open>simple_ftl.c\<close>, \<open>append_only.c\<close>, \<open>bitmap.c\<close>: not selected by the shipped configuration.
  \<^item> \<open>admin.c\<close>, \<open>pci.c\<close>, \<open>dma.c\<close>, \<open>main.c\<close>: identify pages, registers, interrupts and module glue.
  \<^item> Vendored hashing and bit packing, and the host library under \<open>lib\<close>.
  \<^item> The functions that free everything at unload, and those that only print.
\<close>

end
